(* ===== verification/Prelude.thy ===== *)
theory Prelude
  imports Main "HOL-Library.Word" "HOL-Library.Multiset"
begin

unbundle bit_operations_syntax

text \<open>
  Shared vocabulary of the development: machine types, the little-endian byte encoding used
  by the storage code, the control outcome of one atomic step of a C function, the fuelled solo
  run of such a function, and the generic list and word lemmas of the components.
\<close>

named_theorems enc_simps \<open>round trips of the byte encodings\<close>
named_theorems pr_simps \<open>the atomic primitives, as equations\<close>

type_synonym byte = "8 word"
type_synonym uint = "32 word"
type_synonym uint64 = "64 word"

section \<open>Little-endian encodings\<close>

text \<open>\<open>le_bytes n v\<close> is the object representation of the unsigned value \<open>v\<close> in \<open>n\<close> bytes
  on the little-endian targets of the makefiles; \<open>le_val\<close> reads it back.\<close>

fun le_bytes :: "nat \<Rightarrow> nat \<Rightarrow> byte list" where
  "le_bytes 0 v = []"
| "le_bytes (Suc n) v = of_nat (v mod 256) # le_bytes n (v div 256)"

fun le_val :: "byte list \<Rightarrow> nat" where
  "le_val [] = 0"
| "le_val (b # bs) = unat b + 256 * le_val bs"

lemma length_le_bytes [simp, enc_simps]: "length (le_bytes n v) = n"
  by (induction n arbitrary: v) auto

lemma unat_of_nat_byte [simp]: "unat (of_nat (v mod 256) :: byte) = v mod 256"
  by (simp add: unat_of_nat)

lemma le_val_le_bytes [enc_simps]: "le_val (le_bytes n v) = v mod 256 ^ n"
  by (induction n arbitrary: v) (simp_all add: mod_mult2_eq algebra_simps)

lemma le_val_less: "le_val bs < 256 ^ length bs"
proof (induction bs)
  case (Cons b bs)
  have "unat b < 256" using unsigned_less [of b, where ?'a = nat] by simp
  with Cons show ?case by simp
qed simp

lemma le_bytes_le_val [enc_simps]: "le_bytes (length bs) (le_val bs) = bs"
proof (induction bs)
  case (Cons b bs)
  have "unat b < 256" using unsigned_less [of b, where ?'a = nat] by simp
  with Cons show ?case by (simp add: unat_of_nat div_mult_self1 flip: word_unat_eq_iff)
qed simp

section \<open>Counters as words\<close>

lemma unat_of_nat_small: "i < 2 ^ LENGTH('w) \<Longrightarrow> unat (of_nat i :: 'w::len word) = i"
  by (simp add: unat_of_nat)

lemma of_nat_small_eq:
  "i < 2 ^ LENGTH('w) \<Longrightarrow> j < 2 ^ LENGTH('w) \<Longrightarrow> (of_nat i :: 'w::len word) = of_nat j \<longleftrightarrow> i = j"
  by (metis unat_of_nat_small)

lemma mask_word: "(2 ^ k - 1 :: 'w::len word) = mask k"
  by (simp add: mask_eq_decr_exp)

lemma unat_and_mask: "k < 32 \<Longrightarrow> unat (of_nat i AND mask k :: uint) = i mod 2 ^ k"
proof -
  assume "k < 32"
  have "unat (of_nat i AND mask k :: uint) = take_bit k (unat (of_nat i :: uint))"
    by (simp add: unsigned_take_bit_eq flip: take_bit_eq_mask)
  also have "\<dots> = take_bit k (take_bit 32 i)" by (simp add: unat_of_nat take_bit_eq_mod [of 32])
  also have "\<dots> = take_bit k i" using \<open>k < 32\<close> by (simp add: take_bit_take_bit min_def)
  finally show ?thesis by (simp add: take_bit_eq_mod)
qed

section \<open>Memory blocks as byte lists\<close>

text \<open>\<open>memmove\<close> inside one allocated object: \<open>None\<close> when the source or the destination range
  leaves the object, which is undefined behaviour in C.\<close>

definition memmove :: "byte list \<Rightarrow> nat \<Rightarrow> nat \<Rightarrow> nat \<Rightarrow> byte list option" where
  "memmove m dst src n =
     (if dst + n \<le> length m \<and> src + n \<le> length m
      then Some (take dst m @ take n (drop src m) @ drop (dst + n) m) else None)"

lemma length_memmove [enc_simps]: "memmove m dst src n = Some m' \<Longrightarrow> length m' = length m"
  by (auto simp: memmove_def split: if_splits)

text \<open>Reading and overwriting a stretch of bytes.\<close>

definition read_at :: "byte list \<Rightarrow> nat \<Rightarrow> nat \<Rightarrow> byte list" where
  "read_at m off n = take n (drop off m)"

definition write_at :: "byte list \<Rightarrow> nat \<Rightarrow> byte list \<Rightarrow> byte list" where
  "write_at m off bs = take off m @ bs @ drop (off + length bs) m"

lemma length_write_at: "off + length bs \<le> length m \<Longrightarrow> length (write_at m off bs) = length m"
  by (simp add: write_at_def)

lemma read_write_same: "off + length bs \<le> length m \<Longrightarrow> read_at (write_at m off bs) off (length bs) = bs"
  by (simp add: read_at_def write_at_def)

lemma read_write_before:
  "off' + n \<le> off \<Longrightarrow> off + length bs \<le> length m \<Longrightarrow> read_at (write_at m off bs) off' n = read_at m off' n"
  by (simp add: read_at_def write_at_def take_drop min_def)

lemma drop_write_at:
  "off + length bs \<le> k \<Longrightarrow> off + length bs \<le> length m \<Longrightarrow> drop k (write_at m off bs) = drop k m"
  by (simp add: write_at_def min_def)

lemma read_write_after:
  "off + length bs \<le> off' \<Longrightarrow> off + length bs \<le> length m \<Longrightarrow> read_at (write_at m off bs) off' n = read_at m off' n"
  by (simp add: read_at_def drop_write_at)

section \<open>Atomic steps of C functions\<close>

text \<open>One atomic step of a function either continues at a program point \<open>Go l\<close> (with the values of
  its locals) or returns \<open>Ret r\<close>. \<open>run_solo\<close> runs a function without interference from
  other threads; running out of fuel is \<open>None\<close>.\<close>

datatype ('l, 'r) ctl = Go 'l | Ret 'r

fun run_solo :: "nat \<Rightarrow> ('l \<Rightarrow> 's \<Rightarrow> ('l, 'r) ctl \<times> 's) \<Rightarrow> 'l \<Rightarrow> 's \<Rightarrow> ('r \<times> 's) option" where
  "run_solo 0 f l s = None"
| "run_solo (Suc n) f l s =
     (case f l s of (Go l', s') \<Rightarrow> run_solo n f l' s' | (Ret r, s') \<Rightarrow> Some (r, s'))"

lemma run_solo_mono: "run_solo n f l s = Some x \<Longrightarrow> n \<le> m \<Longrightarrow> run_solo m f l s = Some x"
proof (induction n arbitrary: l s m)
  case (Suc n)
  then obtain k where "m = Suc k" "n \<le> k" by (cases m) auto
  with Suc show ?case by (auto split: prod.splits ctl.splits)
qed simp

lemma run_solo_numeral [simp]:
  "run_solo (numeral n) f l s =
     (case f l s of (Go l', s') \<Rightarrow> run_solo (pred_numeral n) f l' s' | (Ret r, s') \<Rightarrow> Some (r, s'))"
  by (simp add: numeral_eq_Suc)

text \<open>A wrapper that converts the result of the function it calls.\<close>

definition ret_map :: "('a \<Rightarrow> 'b) \<Rightarrow> ('l, 'a) ctl \<times> 's \<Rightarrow> ('l, 'b) ctl \<times> 's" where
  "ret_map f x = (case x of (Go l, s) \<Rightarrow> (Go l, s) | (Ret r, s) \<Rightarrow> (Ret (f r), s))"

lemma ret_map_cases:
  "ret_map f x = (Go l, s) \<longleftrightarrow> x = (Go l, s)"
  "ret_map f x = (Ret b, s) \<longleftrightarrow> (\<exists>a. x = (Ret a, s) \<and> b = f a)"
  by (auto simp: ret_map_def split: prod.splits ctl.splits)

lemma unat_inc_small: "unat w < 2 ^ LENGTH('w::len) - 1 \<Longrightarrow> unat (w + 1 :: 'w word) = Suc (unat w)"
  by (metis Suc_eq_plus1 add.commute less_diff_conv unat_of_nat_small of_nat_Suc of_nat_unat ucast_id)

lemma unat_dec_pos: "0 < unat w \<Longrightarrow> unat (w - 1 :: 'w::len word) = unat w - 1"
proof -
  assume "0 < unat w"
  then have "(of_nat (unat w - 1) :: 'w word) = of_nat (unat w) - of_nat 1" by (intro of_nat_diff) simp
  then have "w - 1 = of_nat (unat w - 1)" by simp
  moreover have "unat w - 1 < 2 ^ LENGTH('w)" using unsigned_less [of w] by (rule less_imp_diff_less)
  ultimately show ?thesis by (simp only: unat_of_nat_small)
qed

end
