(* ===== verification/Lsm.thy ===== *)
theory Lsm
  imports Prelude
begin

text \<open>
  The LSM tree of \<^verbatim>\<open>test/LSMTree/lsm.c\<close>: an in-memory buffer of nodes that is flushed to one
  file when it is full. The tree is a record, the file system is a map from file names to byte lists,
  and every operation returns either an error (undefined behaviour or an aborting assertion of the C
  code) or the new state. Nodes are stored on disk and moved in memory as raw bytes, so both
  representations are modelled and related by round-trip lemmas.
\<close>

section \<open>Data\<close>

type_synonym keyType = "32 word"
type_synonym valType = "32 word"

record node =
  key :: keyType
  val :: valType

record lsm =
  block_size :: nat
  lsm_k :: int
  node_size :: int
  next_empty :: nat
  block :: "node list"
  disk1 :: string
  sorted_disk :: bool

record nodei =
  ni_node :: node
  ni_index :: nat

type_synonym fs = "string \<rightharpoonup> byte list"

text \<open>Ways in which a call leaves the defined behaviour of the program: an access outside an
  allocated object, a read of memory that was never written, a dereferenced null pointer, a failed
  \<open>assert\<close>.\<close>

datatype lsm_err = OutOfBounds | UninitRead | NullDeref | AssertFail

type_synonym 'a res = "lsm_err + 'a"

definition bind_res :: "'a res \<Rightarrow> ('a \<Rightarrow> 'b res) \<Rightarrow> 'b res" where
  "bind_res m f = (case m of Inl e \<Rightarrow> Inl e | Inr a \<Rightarrow> f a)"

text \<open>\<open>sizeof(node)\<close>, \<open>sizeof(size_t)\<close> and the conversion of a \<open>size_t\<close> argument to the
  \<open>int\<close> parameter of \<open>merge\<close> and \<open>merge_sort\<close>.\<close>

definition sizeof_node :: nat where "sizeof_node = 8"

definition sizeof_size_t :: nat where "sizeof_size_t = 8"

definition size_to_int :: "nat \<Rightarrow> int" where
  "size_to_int n = signed_take_bit 31 (int n)"

definition node_bytes :: "node \<Rightarrow> byte list" where
  "node_bytes n = le_bytes 4 (unat (key n)) @ le_bytes 4 (unat (val n))"

definition bytes_node :: "byte list \<Rightarrow> node" where
  "bytes_node bs =
     \<lparr>key = of_nat (le_val (take 4 bs)), val = of_nat (le_val (take 4 (drop 4 bs)))\<rparr>"

definition nodes_bytes :: "node list \<Rightarrow> byte list" where
  "nodes_bytes ns = concat (map node_bytes ns)"

fun bytes_nodes :: "nat \<Rightarrow> byte list \<Rightarrow> node list" where
  "bytes_nodes 0 bs = []"
| "bytes_nodes (Suc n) bs = bytes_node (take sizeof_node bs) # bytes_nodes n (drop sizeof_node bs)"

section \<open>Operations\<close>

text \<open>\<open>init_new_lsm\<close>: the two allocations are arguments, \<open>None\<close> for a null pointer; a successful
  allocation of the block holds arbitrary nodes.\<close>

definition init_new_lsm :: "bool \<Rightarrow> node list option \<Rightarrow> nat \<Rightarrow> bool \<Rightarrow> lsm option" where
  "init_new_lsm tree_ok blk buffer_size srt =
     (if \<not> tree_ok then None
      else case blk of
        None \<Rightarrow> None
      | Some b \<Rightarrow> Some \<lparr>block_size = buffer_size, lsm_k = 2, node_size = int sizeof_node,
                        next_empty = 0, block = b, disk1 = ''disk_storage.txt'',
                        sorted_disk = srt\<rparr>)"

text \<open>The three loops of \<open>merge\<close>, over the parts of \<open>left\<close> and \<open>right\<close> not yet
  consumed: keys are compared as signed integers and a tie takes the right element.\<close>

fun merge_loops :: "node list \<Rightarrow> node list \<Rightarrow> node list" where
  "merge_loops [] rs = rs"
| "merge_loops (l # ls) [] = l # ls"
| "merge_loops (l # ls) (r # rs) =
     (if sint (key l) < sint (key r) then l # merge_loops ls (r # rs)
      else r # merge_loops (l # ls) rs)"

definition merge ::
  "node list \<Rightarrow> node list \<Rightarrow> int \<Rightarrow> node list \<Rightarrow> int \<Rightarrow> node list res" where
  "merge whole left left_size right right_size =
     (if length left < nat left_size \<or> length right < nat right_size then Inl OutOfBounds
      else let out = merge_loops (take (nat left_size) left) (take (nat right_size) right)
           in if length whole < length out then Inl OutOfBounds
              else Inr (out @ drop (length out) whole))"

function merge_sort :: "node list \<Rightarrow> int \<Rightarrow> node list res" where
  "merge_sort blk n =
     (if n < 2 then Inr blk
      else if length blk < nat n then Inl OutOfBounds
      else let mid = n div 2;
               left = take (nat mid) blk;
               right = take (nat (n - mid)) (drop (nat mid) blk)
           in bind_res (merge_sort left mid) (\<lambda>left'.
              bind_res (merge_sort right (n - mid)) (\<lambda>right'.
              merge blk left' mid right' (n - mid))))"
  by pat_completeness auto
termination
  by (relation "measure (\<lambda>(blk, n). nat n)") auto

declare merge_sort.simps [simp del]

text \<open>The scan of \<open>search_buffer\<close> and \<open>search_disk\<close>: the first node with the key, with its index.
  The result is allocated with the size of a pointer (\<open>sizeof\<close> is applied to the variable \<open>nodei\<close>, not
  to the type); the model takes the block to hold a \<open>nodei\<close> all the same, as the smallest block of the
  usual allocators does.\<close>

fun scan_from :: "nat \<Rightarrow> keyType \<Rightarrow> node list \<Rightarrow> nodei option" where
  "scan_from i k [] = None"
| "scan_from i k (n # ns) =
     (if key n = k then Some \<lparr>ni_node = \<lparr>key = key n, val = val n\<rparr>, ni_index = i\<rparr>
      else scan_from (Suc i) k ns)"

definition search_buffer :: "keyType \<Rightarrow> lsm \<Rightarrow> nodei option" where
  "search_buffer k t = scan_from 0 k (take (next_empty t) (block t))"

text \<open>\<open>fread\<close> of the element count: \<open>init\<close> is the value the variable had before the call,
  \<open>None\<close> when it was not initialised. A file shorter than one item leaves the variable as it was
  when nothing was read and indeterminate otherwise.\<close>

definition fread_size :: "nat option \<Rightarrow> byte list \<Rightarrow> nat res" where
  "fread_size init f =
     (if sizeof_size_t \<le> length f then Inr (le_val (take sizeof_size_t f))
      else case (f, init) of ([], Some v) \<Rightarrow> Inr v | _ \<Rightarrow> Inl UninitRead)"

text \<open>\<open>fread\<close> of the nodes after the count into a fresh allocation: the allocation is wholly written
  only if the file holds that many nodes.\<close>

definition fread_nodes :: "nat \<Rightarrow> byte list \<Rightarrow> node list res" where
  "fread_nodes n f =
     (if sizeof_node * n \<le> length (drop sizeof_size_t f)
      then Inr (bytes_nodes n (drop sizeof_size_t f)) else Inl UninitRead)"

definition search_disk :: "fs \<Rightarrow> keyType \<Rightarrow> lsm \<Rightarrow> nodei option res" where
  "search_disk d k t =
     (case d ''disk_storae.txt'' of
        None \<Rightarrow> Inr None
      | Some f \<Rightarrow>
          bind_res (fread_size None f) (\<lambda>num_elements.
          bind_res (fread_nodes num_elements f) (\<lambda>file_data.
          Inr (scan_from 0 k file_data))))"

definition get :: "fs \<Rightarrow> keyType \<Rightarrow> lsm \<Rightarrow> node option res" where
  "get d k t =
     (case search_buffer k t of
        Some ni \<Rightarrow> Inr (Some (ni_node ni))
      | None \<Rightarrow>
          bind_res (search_disk d k t) (\<lambda>r. case r of
            Some ni \<Rightarrow> Inr (Some (ni_node ni))
          | None \<Rightarrow> Inr None))"

text \<open>A fresh allocation of \<open>n\<close> nodes; \<open>merge\<close> overwrites all of it.\<close>

definition malloc_nodes :: "nat \<Rightarrow> node list" where
  "malloc_nodes n = replicate n \<lparr>key = 0, val = 0\<rparr>"

text \<open>\<open>fwrite\<close> of the count and of \<open>n\<close> nodes of an allocation into a truncated file.\<close>

definition fwrite_file :: "nat \<Rightarrow> node list \<Rightarrow> byte list res" where
  "fwrite_file n buf =
     (if n \<le> length buf
      then Inr (le_bytes sizeof_size_t n @ nodes_bytes (take n buf)) else Inl OutOfBounds)"

definition write_to_disk :: "fs \<Rightarrow> lsm \<Rightarrow> (fs \<times> lsm) res" where
  "write_to_disk d t =
     bind_res (if sorted_disk t then merge_sort (block t) (size_to_int (next_empty t))
               else Inr (block t)) (\<lambda>blk.
     bind_res (case d (disk1 t) of
         Some f \<Rightarrow>
           bind_res (fread_size (Some 0) f) (\<lambda>num_elements.
           bind_res (fread_nodes num_elements f) (\<lambda>file_data.
           bind_res (merge (malloc_nodes (num_elements + next_empty t))
                       file_data (size_to_int num_elements)
                       blk (size_to_int (next_empty t))) (\<lambda>complete_data.
           Inr (complete_data, num_elements + block_size t))))
       | None \<Rightarrow> Inr (blk, 0)) (\<lambda>(complete_data, n).
     let num_elements = (if n \<le> 0 then next_empty t else n)
     in bind_res (fwrite_file num_elements complete_data) (\<lambda>f.
        Inr (d(disk1 t \<mapsto> f), t\<lparr>block := blk, next_empty := 0\<rparr>))))"

definition put :: "fs \<Rightarrow> keyType \<Rightarrow> valType \<Rightarrow> lsm \<Rightarrow> (fs \<times> lsm) res" where
  "put d k v t =
     bind_res (if next_empty t = block_size t then write_to_disk d t else Inr (d, t)) (\<lambda>(d', t').
     if next_empty t' < length (block t')
     then Inr (d', t'\<lparr>block := (block t')[next_empty t' := \<lparr>key = k, val = v\<rparr>],
                      next_empty := next_empty t' + 1\<rparr>)
     else Inl OutOfBounds)"

text \<open>\<open>memmove\<close> between two elements of an array of nodes, with the byte count the caller gives.\<close>

definition memmove_nodes :: "node list \<Rightarrow> nat \<Rightarrow> nat \<Rightarrow> nat \<Rightarrow> node list res" where
  "memmove_nodes ns dst src cnt =
     (case memmove (nodes_bytes ns) (sizeof_node * dst) (sizeof_node * src) cnt of
        None \<Rightarrow> Inl OutOfBounds
      | Some m \<Rightarrow> Inr (bytes_nodes (length ns) m))"

definition delete :: "fs \<Rightarrow> keyType \<Rightarrow> lsm \<Rightarrow> (fs \<times> lsm) res" where
  "delete d k t =
     (case search_buffer k t of
        Some ni \<Rightarrow>
          bind_res (memmove_nodes (block t) (ni_index ni) (ni_index ni + 1)
                      (block_size t - ni_index ni)) (\<lambda>blk.
          Inr (d, t\<lparr>next_empty := next_empty t - 1, block := blk\<rparr>))
      | None \<Rightarrow>
          bind_res (search_disk d k t) (\<lambda>r. case r of
            None \<Rightarrow> Inl AssertFail
          | Some ni \<Rightarrow>
              (case d (disk1 t) of
                 None \<Rightarrow> Inl NullDeref
               | Some f \<Rightarrow>
                   bind_res (fread_size (Some 0) f) (\<lambda>num_elements.
                   bind_res (fread_nodes num_elements f) (\<lambda>file_data.
                   if num_elements = 0 \<or> num_elements - 1 < ni_index ni then Inl OutOfBounds
                   else
                   bind_res (memmove_nodes file_data (ni_index ni) (ni_index ni + 1)
                               (num_elements - 1 - ni_index ni)) (\<lambda>file_data'.
                   bind_res (fwrite_file (num_elements - 1) file_data') (\<lambda>f'.
                   Inr (d(disk1 t \<mapsto> f'), t))))))))"

text \<open>\<open>update\<close> reads \<open>ni->index\<close> and \<open>ni->node\<close> for its trace output before it tests \<open>ni\<close>.\<close>

definition update :: "fs \<Rightarrow> keyType \<Rightarrow> valType \<Rightarrow> lsm \<Rightarrow> (fs \<times> lsm) res" where
  "update d k v t =
     (case search_buffer k t of
        None \<Rightarrow> Inl NullDeref
      | Some ni \<Rightarrow> Inr (d, t\<lparr>block := (block t)[ni_index ni := \<lparr>key = k, val = v\<rparr>]\<rparr>))"

section \<open>Printing\<close>

datatype out = Key int | Value int | Text string | Count nat

definition print_nodes :: "node list \<Rightarrow> out list" where
  "print_nodes ns = concat (map (\<lambda>n. [Key (sint (key n)), Value (sint (val n))]) ns)"

definition print_buffer_data :: "lsm \<Rightarrow> out list" where
  "print_buffer_data t = print_nodes (take (next_empty t) (block t))"

definition print_disk_data :: "fs \<Rightarrow> lsm \<Rightarrow> out list res" where
  "print_disk_data d t =
     (case d (disk1 t) of
        None \<Rightarrow> Inl NullDeref
      | Some f \<Rightarrow>
          bind_res (fread_size (Some 0) f) (\<lambda>num_elements.
          bind_res (fread_nodes num_elements f) (\<lambda>file_data.
          Inr ([Text ''Printing disk data ...'', Count num_elements] @ print_nodes file_data))))"


section \<open>Abstraction and invariant\<close>

text \<open>The image of a file that holds \<open>ns\<close>, the nodes a file holds, the live part of the buffer and
  all nodes the tree stores.\<close>

definition file_of :: "node list \<Rightarrow> byte list" where
  "file_of ns = le_bytes sizeof_size_t (length ns) @ nodes_bytes ns"

definition disk_nodes :: "fs \<Rightarrow> lsm \<Rightarrow> node list" where
  "disk_nodes d t =
     (case d (disk1 t) of
        None \<Rightarrow> []
      | Some f \<Rightarrow> bytes_nodes (le_val (take sizeof_size_t f)) (drop sizeof_size_t f))"

definition buffer :: "lsm \<Rightarrow> node list" where
  "buffer t = take (next_empty t) (block t)"

definition contents :: "fs \<Rightarrow> lsm \<Rightarrow> node multiset" where
  "contents d t = mset (disk_nodes d t) + mset (buffer t)"

definition disk_ok :: "fs \<Rightarrow> lsm \<Rightarrow> bool" where
  "disk_ok d t =
     (case d (disk1 t) of None \<Rightarrow> True | Some f \<Rightarrow> f = file_of (disk_nodes d t))"

definition lsm_inv :: "fs \<Rightarrow> lsm \<Rightarrow> bool" where
  "lsm_inv d t \<longleftrightarrow>
     length (block t) = block_size t \<and> 0 < block_size t \<and> next_empty t \<le> block_size t \<and>
     disk_ok d t"

text \<open>All sizes stay in the range of the \<open>int\<close> parameters of \<open>merge\<close> when the nodes on disk and
  one more buffer fit.\<close>

definition room :: "fs \<Rightarrow> lsm \<Rightarrow> bool" where
  "room d t \<longleftrightarrow> length (disk_nodes d t) + block_size t < 2 ^ 31"

abbreviation sorted_keys :: "node list \<Rightarrow> bool" where
  "sorted_keys ns \<equiv> sorted (map (\<lambda>n. sint (key n)) ns)"

abbreviation versions :: "keyType \<Rightarrow> node list \<Rightarrow> node list" where
  "versions k ns \<equiv> filter (\<lambda>n. key n = k) ns"

section \<open>Encodings\<close>

lemmas sizeofs = sizeof_node_def sizeof_size_t_def

lemma bind_res_simps [simp]: "bind_res (Inl e) f = Inl e" "bind_res (Inr a) f = f a"
  by (simp_all add: bind_res_def)

lemma bind_res_eq_Inr: "bind_res m f = Inr b \<longleftrightarrow> (\<exists>a. m = Inr a \<and> f a = Inr b)"
  by (cases m) auto

lemma length_node_bytes [simp, enc_simps]: "length (node_bytes n) = 8"
  by (simp add: node_bytes_def)

lemma length_nodes_bytes [simp, enc_simps]: "length (nodes_bytes ns) = 8 * length ns"
  by (induction ns) (simp_all add: nodes_bytes_def)

lemma length_bytes_nodes [simp, enc_simps]: "length (bytes_nodes n bs) = n"
  by (induction n arbitrary: bs) auto

lemma le_val_word32: "of_nat (le_val (le_bytes 4 (unat w))) = (w :: 32 word)"
proof -
  have "unat w < 256 ^ 4" using unsigned_less [of w, where ?'a = nat] by simp
  then show ?thesis by (simp add: le_val_le_bytes)
qed

lemma bytes_node_node_bytes [simp, enc_simps]: "bytes_node (node_bytes n) = n"
  by (simp add: bytes_node_def node_bytes_def le_val_word32)

lemma nodes_bytes_simps [simp]:
  "nodes_bytes [] = []" "nodes_bytes (n # ns) = node_bytes n @ nodes_bytes ns"
  "nodes_bytes (ns @ ms) = nodes_bytes ns @ nodes_bytes ms"
  by (simp_all add: nodes_bytes_def)

lemma bytes_nodes_append: "bytes_nodes (length ns) (nodes_bytes ns @ bs) = ns"
  by (induction ns) (simp_all add: sizeofs)

lemma bytes_nodes_nodes_bytes [simp, enc_simps]: "bytes_nodes (length ns) (nodes_bytes ns) = ns"
  using bytes_nodes_append [of ns "[]"] by simp

lemma take_nodes_bytes: "take (8 * i) (nodes_bytes ns) = nodes_bytes (take i ns)"
proof (induction ns arbitrary: i)
  case (Cons n ns)
  then show ?case by (cases i) simp_all
qed simp

lemma drop_nodes_bytes: "drop (8 * i) (nodes_bytes ns) = nodes_bytes (drop i ns)"
proof (induction ns arbitrary: i)
  case (Cons n ns)
  then show ?case by (cases i) simp_all
qed simp

lemma fread_size_file_of: "length ns < 2 ^ 64 \<Longrightarrow> fread_size i (file_of ns) = Inr (length ns)"
  by (simp add: fread_size_def file_of_def sizeofs le_val_le_bytes)

lemma fread_nodes_file_of: "fread_nodes (length ns) (file_of ns) = Inr ns"
  by (simp add: fread_nodes_def file_of_def sizeofs)

lemma fwrite_file_eq: "fwrite_file (length ns) (ns @ ms) = Inr (file_of ns)"
  by (simp add: fwrite_file_def file_of_def)

lemma disk_nodes_file_of:
  "d (disk1 t) = Some (file_of ns) \<Longrightarrow> length ns < 2 ^ 64 \<Longrightarrow> disk_nodes d t = ns"
  by (simp add: disk_nodes_def file_of_def sizeofs le_val_le_bytes)

lemma disk_nodes_frame [simp]:
  "disk_nodes d (t\<lparr>block := b\<rparr>) = disk_nodes d t"
  "disk_nodes d (t\<lparr>next_empty := n\<rparr>) = disk_nodes d t"
  by (simp_all add: disk_nodes_def)

lemma disk_ok_frame [simp]:
  "disk_ok d (t\<lparr>block := b\<rparr>) = disk_ok d t"
  "disk_ok d (t\<lparr>next_empty := n\<rparr>) = disk_ok d t"
  by (simp_all add: disk_ok_def split: option.split)

lemma disk_okE:
  assumes "disk_ok d t"
  obtains "d (disk1 t) = None" "disk_nodes d t = []"
  | "d (disk1 t) = Some (file_of (disk_nodes d t))"
  using assms by (cases "d (disk1 t)") (auto simp: disk_ok_def disk_nodes_def)

lemma size_to_int_small [simp]: "n < 2 ^ 31 \<Longrightarrow> size_to_int n = int n"
  by (simp add: size_to_int_def signed_take_bit_int_eq_self)

section \<open>Merging and sorting\<close>

lemma mset_merge_loops [simp]: "mset (merge_loops ls rs) = mset ls + mset rs"
  by (induction ls rs rule: merge_loops.induct) auto

lemma set_merge_loops [simp]: "set (merge_loops ls rs) = set ls \<union> set rs"
  by (metis mset_merge_loops set_mset_mset set_mset_union)

lemma length_merge_loops [simp]: "length (merge_loops ls rs) = length ls + length rs"
  by (induction ls rs rule: merge_loops.induct) auto

lemma sorted_merge_loops: "sorted_keys ls \<Longrightarrow> sorted_keys rs \<Longrightarrow> sorted_keys (merge_loops ls rs)"
  by (induction ls rs rule: merge_loops.induct) auto

lemma versions_none: "\<forall>n\<in>set ns. key n \<noteq> k \<Longrightarrow> versions k ns = []"
  by (simp add: filter_empty_conv)

text \<open>A tie takes the right element, so the versions of a key from the right input come first.\<close>

lemma versions_merge_loops:
  "sorted_keys ls \<Longrightarrow> sorted_keys rs \<Longrightarrow>
     versions k (merge_loops ls rs) = versions k rs @ versions k ls"
proof (induction ls rs rule: merge_loops.induct)
  case (3 l ls r rs)
  show ?case
  proof (cases "sint (key l) < sint (key r) \<and> key l = k")
    case True
    then have "\<forall>n\<in>set (r # rs). key n \<noteq> k" using "3.prems" by auto
    with True 3 show ?thesis by (simp add: versions_none)
  next
    case False
    with 3 show ?thesis by auto
  qed
qed auto

lemma merge_eq:
  assumes "length left = nl" "nr \<le> length right" "nl + nr \<le> length whole"
  shows "merge whole left (int nl) right (int nr) =
     Inr (merge_loops left (take nr right) @ drop (nl + nr) whole)"
  using assms by (simp add: merge_def Let_def)

text \<open>What a sort of the first \<open>n\<close> nodes promises: the result has the same nodes, is sorted by key,
  and reverses the order of the versions of each key.\<close>

definition sorts :: "node list \<Rightarrow> node list \<Rightarrow> bool" where
  "sorts xs ys \<longleftrightarrow> mset ys = mset xs \<and> sorted_keys ys \<and> (\<forall>k. versions k ys = rev (versions k xs))"

lemma sorts_length: "sorts xs ys \<Longrightarrow> length ys = length xs"
  by (metis sorts_def size_mset)

lemma sorts_merge:
  assumes "sorts xs ls" "sorts ys rs"
  shows "sorts (xs @ ys) (merge_loops ls rs)"
  using assms by (auto simp: sorts_def sorted_merge_loops versions_merge_loops)

lemma sorts_trivial: "length xs < 2 \<Longrightarrow> sorts xs xs"
  by (cases xs) (auto simp: sorts_def)

lemma merge_sort_sorts:
  "n \<le> length blk \<Longrightarrow> \<exists>ys. merge_sort blk (int n) = Inr (ys @ drop n blk) \<and> sorts (take n blk) ys"
proof (induction n arbitrary: blk rule: less_induct)
  case (less n)
  show ?case
  proof (cases "n < 2")
    case True
    then have "merge_sort blk (int n) = Inr (take n blk @ drop n blk)"
      by (simp add: merge_sort.simps [of blk])
    with True show ?thesis by (intro exI [of _ "take n blk"]) (auto intro!: sorts_trivial)
  next
    case False
    let ?m = "n div 2" and ?l = "take (n div 2) blk"
    let ?r = "take (n - n div 2) (drop (n div 2) blk)"
    have ml: "length ?l = ?m" and mr: "length ?r = n - ?m" using less.prems by auto
    obtain ls where ls: "merge_sort ?l (int ?m) = Inr ls" "sorts ?l ls"
      using less.IH [of ?m ?l] less.prems False ml by auto
    obtain rs where rs: "merge_sort ?r (int (n - ?m)) = Inr rs" "sorts ?r rs"
      using less.IH [of "n - ?m" ?r] less.prems False mr by auto
    have len: "length ls = ?m" "length rs = n - ?m"
      using ls(2) rs(2) ml mr by (metis sorts_length)+
    have cast: "nat (int n - int ?m) = n - ?m" "int n div 2 = int ?m" by linarith+
    have "merge_sort blk (int n) = merge blk ls (int ?m) rs (int (n - ?m))"
      using False less.prems ls(1) rs(1)
      by (subst merge_sort.simps) (simp add: Let_def cast)
    also have "\<dots> = Inr (merge_loops ls rs @ drop n blk)"
      using len less.prems by (subst merge_eq) auto
    finally have eq: "merge_sort blk (int n) = Inr (merge_loops ls rs @ drop n blk)" .
    have "take n blk = ?l @ ?r"
      by (metis add_diff_inverse_nat div_le_dividend linorder_not_le take_add)
    with sorts_merge [OF ls(2) rs(2)] eq show ?thesis by auto
  qed
qed


section \<open>Flushing the buffer\<close>

text \<open>The nodes that a flush writes: the sorted or raw buffer, merged behind which older versions of
  the same key come later.\<close>

lemma flush_block:
  assumes "lsm_inv d t" "room d t"
  obtains ys where
    "(if sorted_disk t then merge_sort (block t) (size_to_int (next_empty t)) else Inr (block t))
       = Inr (ys @ drop (next_empty t) (block t))"
    "mset ys = mset (buffer t)" "length ys = next_empty t"
    "sorted_disk t \<longrightarrow> sorts (buffer t) ys" "\<not> sorted_disk t \<longrightarrow> ys = buffer t"
proof (cases "sorted_disk t")
  case True
  have le: "next_empty t \<le> length (block t)" "next_empty t < 2 ^ 31"
    using assms by (auto simp: lsm_inv_def room_def)
  from merge_sort_sorts [OF le(1)] obtain ys where
    ys: "merge_sort (block t) (int (next_empty t)) = Inr (ys @ drop (next_empty t) (block t))"
    "sorts (buffer t) ys" by (auto simp: buffer_def)
  moreover have "length ys = next_empty t"
    using sorts_length [OF ys(2)] le(1) by (simp add: buffer_def)
  ultimately show ?thesis using that [of ys] True le(2) by (auto simp: sorts_def)
next
  case False
  then show ?thesis using assms that [of "buffer t"] by (auto simp: buffer_def lsm_inv_def)
qed

lemma write_to_disk_full:
  assumes inv: "lsm_inv d t" and room: "room d t" and full: "next_empty t = block_size t"
  obtains d' t' ys where "write_to_disk d t = Inr (d', t')"
    "d' = d(disk1 t \<mapsto> file_of (disk_nodes d' t'))"
    "t' = t\<lparr>block := ys, next_empty := 0\<rparr>" "length ys = block_size t"
    "disk_nodes d' t' = (if d (disk1 t) = None then ys else merge_loops (disk_nodes d t) ys)"
    "mset ys = mset (buffer t)"
    "sorted_disk t \<longrightarrow> sorts (buffer t) ys"
proof -
  obtain ys where ys:
    "(if sorted_disk t then merge_sort (block t) (size_to_int (next_empty t)) else Inr (block t))
       = Inr ys" "mset ys = mset (buffer t)" "length ys = block_size t"
    "sorted_disk t \<longrightarrow> sorts (buffer t) ys"
    using flush_block [OF inv room] inv full by (metis append_Nil2 drop_all lsm_inv_def order_refl)
  have pos: "0 < block_size t" and small: "length (disk_nodes d t) + block_size t < 2 ^ 31"
    using inv room by (auto simp: lsm_inv_def room_def)
  define ns where "ns = (if d (disk1 t) = None then ys else merge_loops (disk_nodes d t) ys)"
  have len: "length ns \<le> length (disk_nodes d t) + block_size t" by (simp add: ns_def ys(3))
  let ?d = "d(disk1 t \<mapsto> file_of ns)" and ?t = "t\<lparr>block := ys, next_empty := 0\<rparr>"
  have "disk_ok d t" using inv by (simp add: lsm_inv_def)
  then have "write_to_disk d t = Inr (?d, ?t)"
  proof (cases rule: disk_okE)
    case 1
    then show ?thesis using ys full pos fwrite_file_eq [of ys "[]"]
      by (simp add: write_to_disk_def Let_def ns_def)
  next
    case 2
    have fr: "fread_size (Some 0) (file_of (disk_nodes d t)) = Inr (length (disk_nodes d t))"
      using small by (intro fread_size_file_of) simp
    show ?thesis using 2 ys full pos small fr fwrite_file_eq [of ns "[]"]
      by (simp add: write_to_disk_def Let_def ns_def fread_nodes_file_of merge_eq malloc_nodes_def)
  qed
  moreover have "disk_nodes ?d ?t = ns"
    using len small by (intro disk_nodes_file_of) auto
  ultimately show ?thesis using that [of ?d ?t ys] ys by (auto simp: ns_def)
qed


section \<open>The version log a tree stands for\<close>

text \<open>With the sorted flag a tree stands for one append-only log per key, oldest version first: the disk
  holds the versions of a key newest first, the buffer oldest first.\<close>

definition history :: "fs \<Rightarrow> lsm \<Rightarrow> keyType \<Rightarrow> node list" where
  "history d t k = rev (versions k (disk_nodes d t)) @ versions k (buffer t)"

definition disk_sorted :: "fs \<Rightarrow> lsm \<Rightarrow> bool" where
  "disk_sorted d t \<longleftrightarrow> (sorted_disk t \<longrightarrow> sorted_keys (disk_nodes d t))"

lemma flush_effect:
  assumes inv: "lsm_inv d t" and room: "room d t" and full: "next_empty t = block_size t"
    and srt: "disk_sorted d t"
  obtains d' t' where "write_to_disk d t = Inr (d', t')" "lsm_inv d' t'"
    "next_empty t' = 0" "block_size t' = block_size t" "disk1 t' = disk1 t"
    "sorted_disk t' = sorted_disk t"
    "mset (disk_nodes d' t') = contents d t" "disk_sorted d' t'"
    "sorted_disk t \<longrightarrow> (\<forall>k. rev (versions k (disk_nodes d' t')) = history d t k)"
    "\<forall>f. f \<noteq> disk1 t \<longrightarrow> d' f = d f"
proof -
  from write_to_disk_full [OF inv room full] obtain d' t' ys where
    w: "write_to_disk d t = Inr (d', t')" and d': "d' = d(disk1 t \<mapsto> file_of (disk_nodes d' t'))"
    and t': "t' = t\<lparr>block := ys, next_empty := 0\<rparr>" and len: "length ys = block_size t"
    and dn: "disk_nodes d' t' = (if d (disk1 t) = None then ys else merge_loops (disk_nodes d t) ys)"
    and ms: "mset ys = mset (buffer t)" and so: "sorted_disk t \<longrightarrow> sorts (buffer t) ys" .
  have sd: "sorted_disk t' = sorted_disk t" by (simp add: t')
  have none: "d (disk1 t) = None \<Longrightarrow> disk_nodes d t = []" by (simp add: disk_nodes_def)
  have "d' (disk1 t') = Some (file_of (disk_nodes d' t'))" by (subst d') (simp add: t')
  then have "lsm_inv d' t'" using inv len by (simp add: lsm_inv_def disk_ok_def t')
  moreover have "mset (disk_nodes d' t') = contents d t" by (simp add: dn ms none contents_def)
  moreover have "disk_sorted d' t'" using srt so
    by (auto simp: disk_sorted_def dn sorts_def sd sorted_merge_loops)
  moreover have "sorted_disk t \<longrightarrow> (\<forall>k. rev (versions k (disk_nodes d' t')) = history d t k)"
    using srt so by (auto simp: history_def dn none sorts_def disk_sorted_def versions_merge_loops)
  moreover have "\<forall>f. f \<noteq> disk1 t \<longrightarrow> d' f = d f" by (subst d') simp
  ultimately show ?thesis using that w by (simp add: t')
qed

lemma put_effect:
  assumes inv: "lsm_inv d t" and room: "room d t" and srt: "disk_sorted d t"
  obtains d' t' where "put d k v t = Inr (d', t')" "lsm_inv d' t'"
    "block_size t' = block_size t" "disk1 t' = disk1 t" "sorted_disk t' = sorted_disk t"
    "contents d' t' = add_mset \<lparr>key = k, val = v\<rparr> (contents d t)" "disk_sorted d' t'"
    "sorted_disk t \<longrightarrow> history d' t' =
       (history d t)(k := history d t k @ [\<lparr>key = k, val = v\<rparr>])"
    "buffer t' = (if next_empty t = block_size t then [] else buffer t) @ [\<lparr>key = k, val = v\<rparr>]"
    "\<forall>f. f \<noteq> disk1 t \<longrightarrow> d' f = d f"
proof -
  obtain d1 t1 where w: "(if next_empty t = block_size t then write_to_disk d t else Inr (d, t))
        = Inr (d1, t1)"
    and i1: "lsm_inv d1 t1" "next_empty t1 < block_size t1" "block_size t1 = block_size t"
    "disk1 t1 = disk1 t" "sorted_disk t1 = sorted_disk t" "contents d1 t1 = contents d t"
    "disk_sorted d1 t1" "sorted_disk t \<longrightarrow> history d1 t1 = history d t"
    "buffer t1 = (if next_empty t = block_size t then [] else buffer t)"
    "\<forall>f. f \<noteq> disk1 t \<longrightarrow> d1 f = d f"
  proof (cases "next_empty t = block_size t")
    case True
    from flush_effect [OF inv room True srt] obtain d1 t1 where f: "write_to_disk d t = Inr (d1, t1)"
      "lsm_inv d1 t1" "next_empty t1 = 0" "block_size t1 = block_size t" "disk1 t1 = disk1 t"
      "sorted_disk t1 = sorted_disk t" "mset (disk_nodes d1 t1) = contents d t" "disk_sorted d1 t1"
      "sorted_disk t \<longrightarrow> (\<forall>k. rev (versions k (disk_nodes d1 t1)) = history d t k)"
      "\<forall>f. f \<noteq> disk1 t \<longrightarrow> d1 f = d f" .
    have "buffer t1 = []" using f(3) by (simp add: buffer_def)
    then show ?thesis using that [of d1 t1] True f inv
      by (auto simp: contents_def history_def lsm_inv_def fun_eq_iff)
  next
    case False
    then show ?thesis using that [of d t] inv srt by (auto simp: lsm_inv_def)
  qed
  let ?n = "\<lparr>key = k, val = v\<rparr>"
  let ?t = "t1\<lparr>block := (block t1)[next_empty t1 := ?n], next_empty := Suc (next_empty t1)\<rparr>"
  have lt: "next_empty t1 < length (block t1)" using i1(1,2) by (simp add: lsm_inv_def)
  then have b: "buffer ?t = buffer t1 @ [?n]"
    by (simp add: buffer_def take_Suc_conv_app_nth take_update_cancel)
  have put: "put d k v t = Inr (d1, ?t)" using w lt by (simp add: put_def)
  have "lsm_inv d1 ?t" using i1(1,2) by (simp add: lsm_inv_def)
  moreover have "contents d1 ?t = add_mset ?n (contents d t)"
    using i1(6) by (simp add: contents_def b)
  moreover have "sorted_disk t \<longrightarrow> history d1 ?t = (history d t)(k := history d t k @ [?n])"
    using i1(8) by (auto simp: history_def b fun_eq_iff)
  ultimately show ?thesis using that [OF put] i1 b by (simp add: disk_sorted_def)
qed


section \<open>Searching\<close>

lemma node_eta [simp]: "\<lparr>key = key n, val = val n\<rparr> = (n :: node)"
  by (cases n) simp

lemma scan_from_None: "scan_from i k ns = None \<longleftrightarrow> (\<forall>n\<in>set ns. key n \<noteq> k)"
  by (induction ns arbitrary: i) auto

lemma scan_from_Some:
  "scan_from i k ns = Some ni \<longleftrightarrow>
     (\<exists>j<length ns. ni = \<lparr>ni_node = ns ! j, ni_index = i + j\<rparr> \<and> key (ns ! j) = k \<and>
        (\<forall>l<j. key (ns ! l) \<noteq> k))"
  by (induction ns arbitrary: i) (auto simp: Ex_less_Suc2 All_less_Suc2)

lemma scan_from_find: "map_option ni_node (scan_from i k ns) = find (\<lambda>n. key n = k) ns"
  by (induction ns arbitrary: i) auto

lemma get_eq:
  "get d k t = (case find (\<lambda>n. key n = k) (buffer t) of
       Some n \<Rightarrow> Inr (Some n)
     | None \<Rightarrow> bind_res (search_disk d k t) (\<lambda>r. Inr (map_option ni_node r)))"
  using scan_from_find [of 0 k "buffer t"]
  by (auto simp: get_def search_buffer_def buffer_def split: option.splits
        intro!: arg_cong [where f = "bind_res (search_disk d k t)"])

lemma get_in_buffer:
  "find (\<lambda>n. key n = k) (buffer t) = Some n \<Longrightarrow> get d k t = Inr (Some n)"
  by (simp add: get_eq)

lemma search_disk_missing: "d ''disk_storae.txt'' = None \<Longrightarrow> search_disk d k t = Inr None"
  by (simp add: search_disk_def)

lemma find_append: "find P (xs @ ys) = (case find P xs of None \<Rightarrow> find P ys | Some x \<Rightarrow> Some x)"
  by (induction xs) auto


section \<open>Moving nodes as bytes\<close>

lemma take_append_add: "take (length xs + n) (xs @ ys) = xs @ take n ys"
  by simp

lemma bytes_nodes_take: "n \<le> m \<Longrightarrow> take n (bytes_nodes m bs) = bytes_nodes n (take (8 * n) bs)"
proof (induction n arbitrary: m bs)
  case (Suc n)
  then obtain m' where "m = Suc m'" "n \<le> m'" by (cases m) auto
  with Suc.IH [of m' "drop 8 bs"] show ?case by (simp add: sizeofs drop_take)
qed simp

text \<open>A move of \<open>cnt\<close> bytes from element \<open>i + 1\<close> to element \<open>i\<close> removes element \<open>i\<close> from the first
  \<open>n\<close> elements when it covers all of them.\<close>

lemma memmove_nodes_remove:
  assumes "i < n" "n \<le> length ns" "8 * (n - Suc i) \<le> cnt" "8 * Suc i + cnt \<le> 8 * length ns"
  obtains ns' where "memmove_nodes ns i (i + 1) cnt = Inr ns'" "length ns' = length ns"
    "take (n - 1) ns' = take i ns @ take (n - Suc i) (drop (Suc i) ns)"
proof -
  let ?m = "nodes_bytes ns"
  let ?m' = "take (8 * i) ?m @ take cnt (drop (8 * Suc i) ?m) @ drop (8 * i + cnt) ?m"
  have mv: "memmove ?m (sizeof_node * i) (sizeof_node * (i + 1)) cnt = Some ?m'"
    using assms by (simp add: memmove_def sizeofs)
  have "take (8 * (n - 1)) ?m' = take (8 * i) ?m @ take (8 * (n - Suc i)) (drop (8 * Suc i) ?m)"
  proof -
    have e: "8 * (n - 1) = length (take (8 * i) ?m) + 8 * (n - Suc i)" using assms by simp
    have l: "8 * (n - Suc i) \<le> length (take cnt (drop (8 * Suc i) ?m))" using assms by simp
    show ?thesis unfolding e take_append_add using l assms(3) by (simp add: min_absorb1)
  qed
  also have "\<dots> = nodes_bytes (take i ns @ take (n - Suc i) (drop (Suc i) ns))"
    by (simp only: nodes_bytes_simps take_nodes_bytes drop_nodes_bytes)
  finally have tk: "take (8 * (n - 1)) ?m' = \<dots>" .
  have len: "length (take i ns @ take (n - Suc i) (drop (Suc i) ns)) = n - 1"
    using assms by simp
  have "take (n - 1) (bytes_nodes (length ns) ?m') = bytes_nodes (n - 1) (take (8 * (n - 1)) ?m')"
    using assms by (intro bytes_nodes_take) simp
  also have "\<dots> = take i ns @ take (n - Suc i) (drop (Suc i) ns)"
    unfolding tk by (metis len bytes_nodes_nodes_bytes)
  finally show ?thesis using that mv by (simp add: memmove_nodes_def)
qed

lemma search_bufferE:
  assumes "search_buffer k t = Some ni" "lsm_inv d t"
  obtains i where "ni_index ni = i" "ni_node ni = block t ! i" "key (block t ! i) = k"
    "i < next_empty t" "next_empty t \<le> length (block t)" "\<forall>j<i. key (block t ! j) \<noteq> k"
proof -
  have le: "next_empty t \<le> length (block t)" using assms(2) by (simp add: lsm_inv_def)
  show ?thesis using assms(1) le that
    by (auto simp: search_buffer_def scan_from_Some)
qed

lemma delete_in_buffer:
  assumes inv: "lsm_inv d t" and sb: "search_buffer k t = Some ni"
    and covers: "8 * (next_empty t - Suc (ni_index ni)) \<le> block_size t - ni_index ni"
    and inside: "ni_index ni + 2 \<le> block_size t"
  obtains t' where "delete d k t = Inr (d, t')" "lsm_inv d t'"
    "buffer t' = take (ni_index ni) (buffer t) @ drop (Suc (ni_index ni)) (buffer t)"
proof -
  obtain i where i: "ni_index ni = i" "i < next_empty t" "next_empty t \<le> length (block t)"
    using search_bufferE [OF sb inv] by metis
  have bs: "length (block t) = block_size t" using inv by (simp add: lsm_inv_def)
  have cov: "8 * (next_empty t - Suc i) \<le> block_size t - i" using covers i by simp
  have ins: "8 * Suc i + (block_size t - i) \<le> 8 * length (block t)" using inside i bs by simp
  obtain ns' where mv: "memmove_nodes (block t) i (i + 1) (block_size t - i) = Inr ns'"
    "length ns' = length (block t)"
    "take (next_empty t - 1) ns' = take i (block t) @ take (next_empty t - Suc i) (drop (Suc i) (block t))"
    using memmove_nodes_remove [OF i(2) i(3) cov ins] by metis
  let ?t = "t\<lparr>next_empty := next_empty t - 1, block := ns'\<rparr>"
  have "delete d k t = Inr (d, ?t)" using sb mv(1) i by (simp add: delete_def)
  moreover have "lsm_inv d ?t" using inv mv(2) by (auto simp: lsm_inv_def)
  moreover have "buffer ?t = take i (buffer t) @ drop (Suc i) (buffer t)"
    using i mv(3) by (simp add: buffer_def drop_take min_def)
  ultimately show ?thesis using that i by blast
qed

section \<open>The contract of a store of versions\<close>

text \<open>What a client that only puts relies on: with capacity left, every put succeeds, keeps the
  invariant with one unit of capacity less, and adds exactly its node.\<close>

locale version_store =
  fixes put_op :: "keyType \<Rightarrow> valType \<Rightarrow> 's \<Rightarrow> 's res"
    and ok :: "nat \<Rightarrow> 's \<Rightarrow> bool"
    and stored :: "'s \<Rightarrow> node multiset"
  assumes put_ok: "ok (Suc n) s \<Longrightarrow>
    \<exists>s'. put_op k v s = Inr s' \<and> ok n s' \<and> stored s' = add_mset \<lparr>key = k, val = v\<rparr> (stored s)"

fun put_all :: "(keyType \<Rightarrow> valType \<Rightarrow> 's \<Rightarrow> 's res) \<Rightarrow> node list \<Rightarrow> 's \<Rightarrow> 's res" where
  "put_all p [] s = Inr s"
| "put_all p (n # ns) s = bind_res (p (key n) (val n) s) (put_all p ns)"

context version_store begin

lemma put_all_stores:
  "ok (length ns + m) s \<Longrightarrow>
     \<exists>s'. put_all put_op ns s = Inr s' \<and> ok m s' \<and> stored s' = stored s + mset ns"
proof (induction ns arbitrary: s)
  case (Cons n ns)
  then obtain s1 where "put_op (key n) (val n) s = Inr s1" "ok (length ns + m) s1"
    "stored s1 = add_mset n (stored s)"
    using put_ok [of "length ns + m" s "key n" "val n"] by auto
  with Cons.IH [of s1] show ?case by auto
qed simp

end

definition lsm_put :: "keyType \<Rightarrow> valType \<Rightarrow> fs \<times> lsm \<Rightarrow> (fs \<times> lsm) res" where
  "lsm_put k v = (\<lambda>(d, t). put d k v t)"

definition lsm_ok :: "nat \<Rightarrow> fs \<times> lsm \<Rightarrow> bool" where
  "lsm_ok n = (\<lambda>(d, t). lsm_inv d t \<and> disk_sorted d t \<and>
     size (contents d t) + n + block_size t < 2 ^ 31)"

lemma lsm_ok_room: "lsm_ok n (d, t) \<Longrightarrow> room d t"
  by (auto simp: lsm_ok_def room_def contents_def)

interpretation lsm_store: version_store lsm_put lsm_ok "\<lambda>(d, t). contents d t"
proof unfold_locales
  fix n s k v
  assume ok: "lsm_ok (Suc n) s"
  obtain d t where s: "s = (d, t)" by (cases s)
  have "lsm_inv d t" "disk_sorted d t" "room d t"
    using ok lsm_ok_room [of "Suc n" d t] by (auto simp: lsm_ok_def s)
  from put_effect [OF this(1,3,2), of k v] obtain d' t' where "put d k v t = Inr (d', t')"
    "lsm_inv d' t'" "block_size t' = block_size t" "disk_sorted d' t'"
    "contents d' t' = add_mset \<lparr>key = k, val = v\<rparr> (contents d t)" by blast
  with ok show "\<exists>s'. lsm_put k v s = Inr s' \<and> lsm_ok n s' \<and>
      (case s' of (d, t) \<Rightarrow> contents d t) =
      add_mset \<lparr>key = k, val = v\<rparr> (case s of (d, t) \<Rightarrow> contents d t)"
    by (auto simp: lsm_put_def lsm_ok_def s)
qed


section \<open>Properties\<close>

text \<open>Claim C34: \<open>merge_sort\<close> over the first \<open>n\<close> nodes of a block never leaves the block, keeps the
  nodes behind position \<open>n\<close>, and permutes the first \<open>n\<close> so that they are sorted by signed key; among
  equal keys the order is reversed, so the node that was put last comes first.\<close>

theorem merge_sort_correct:
  assumes "n \<le> length blk"
  shows "\<exists>ys. merge_sort blk (int n) = Inr (ys @ drop n blk) \<and> mset ys = mset (take n blk) \<and>
     sorted (map (\<lambda>x. sint (key x)) ys) \<and>
     (\<forall>k. filter (\<lambda>x. key x = k) ys = rev (filter (\<lambda>x. key x = k) (take n blk)))"
  using merge_sort_sorts [OF assms] by (auto simp: sorts_def)

definition ex_nodes :: "node list" where
  "ex_nodes = [\<lparr>key = 2, val = 20\<rparr>, \<lparr>key = 1, val = 10\<rparr>, \<lparr>key = 2, val = 21\<rparr>]"

definition ex_tree :: "nat \<Rightarrow> lsm" where
  "ex_tree n = \<lparr>block_size = 3, lsm_k = 2, node_size = 8, next_empty = n, block = ex_nodes,
     disk1 = ''disk_storage.txt'', sorted_disk = True\<rparr>"

lemma ex_tree_ok: "n \<le> 3 \<Longrightarrow> lsm_inv Map.empty (ex_tree n)" "room Map.empty (ex_tree n)"
    "disk_sorted Map.empty (ex_tree n)" "n \<le> 3 \<Longrightarrow> m < 1000 \<Longrightarrow> lsm_ok m (Map.empty, ex_tree n)"
  by (simp_all add: lsm_inv_def room_def disk_sorted_def ex_tree_def ex_nodes_def disk_ok_def
      disk_nodes_def lsm_ok_def contents_def buffer_def)

theorem merge_sort_correct_witness:
  "\<exists>ys. merge_sort ex_nodes (int 3) = Inr (ys @ drop 3 ex_nodes) \<and> mset ys = mset (take 3 ex_nodes) \<and>
     sorted (map (\<lambda>x. sint (key x)) ys) \<and>
     (\<forall>k. filter (\<lambda>x. key x = k) ys = rev (filter (\<lambda>x. key x = k) (take 3 ex_nodes)))"
  by (rule merge_sort_correct) (simp add: ex_nodes_def)



text \<open>Claim C32: no node is lost. Any sequence of puts on a well-formed tree with room for it succeeds,
  and the nodes on disk together with the nodes in the buffer are afterwards exactly the old ones plus
  the ones put, whatever flushes happened in between.\<close>

theorem put_all_keeps_nodes:
  assumes "lsm_ok (length ns) (d, t)"
  shows "\<exists>d' t'. put_all lsm_put ns (d, t) = Inr (d', t') \<and> lsm_inv d' t' \<and>
     contents d' t' = contents d t + mset ns"
  using lsm_store.put_all_stores [of ns 0 "(d, t)"] assms by (auto simp: lsm_ok_def)

theorem put_all_keeps_nodes_witness:
  "\<exists>d' t'. put_all lsm_put (ex_nodes @ ex_nodes) (Map.empty, ex_tree 2) = Inr (d', t') \<and>
     lsm_inv d' t' \<and> contents d' t' = contents Map.empty (ex_tree 2) + mset (ex_nodes @ ex_nodes)"
  by (rule put_all_keeps_nodes, rule ex_tree_ok) (simp_all add: ex_nodes_def)

text \<open>Claim C33: the file format round trip. After a flush of a full buffer, reading the element count
  and then that many nodes from the file yields the merged nodes: the multiset of the old file and the
  buffer, sorted by key when the tree has the sorted flag; the buffer is empty and no other file
  changed.\<close>

theorem write_to_disk_roundtrip:
  assumes "lsm_inv d t" "room d t" "disk_sorted d t" "next_empty t = block_size t"
  shows "\<exists>d' t' f ns. write_to_disk d t = Inr (d', t') \<and> next_empty t' = 0 \<and> d' (disk1 t) = Some f \<and>
     fread_size None f = Inr (length ns) \<and> fread_nodes (length ns) f = Inr ns \<and>
     mset ns = contents d t \<and> (sorted_disk t \<longrightarrow> sorted (map (\<lambda>x. sint (key x)) ns)) \<and>
     (\<forall>g. g \<noteq> disk1 t \<longrightarrow> d' g = d g)"
proof -
  from flush_effect [OF assms(1,2,4,3)] obtain d' t' where w: "write_to_disk d t = Inr (d', t')"
    "lsm_inv d' t'" "next_empty t' = 0" "block_size t' = block_size t" "disk1 t' = disk1 t"
    "sorted_disk t' = sorted_disk t" "mset (disk_nodes d' t') = contents d t" "disk_sorted d' t'"
    "sorted_disk t \<longrightarrow> (\<forall>k. rev (versions k (disk_nodes d' t')) = history d t k)"
    "\<forall>f. f \<noteq> disk1 t \<longrightarrow> d' f = d f" .
  from assms have "0 < size (contents d t)" "size (contents d t) < 2 ^ 31"
    by (auto simp: lsm_inv_def contents_def buffer_def room_def)
  with w(7) have len: "0 < length (disk_nodes d' t')" "length (disk_nodes d' t') < 2 ^ 31"
    by (metis size_mset)+
  have "disk_ok d' t'" using w(2) by (simp add: lsm_inv_def)
  then have f: "d' (disk1 t') = Some (file_of (disk_nodes d' t'))"
    using len(1) by (cases rule: disk_okE) auto
  have r: "fread_size None (file_of (disk_nodes d' t')) = Inr (length (disk_nodes d' t'))"
    using len(2) by (intro fread_size_file_of) simp
  show ?thesis
    using w f r
    by (intro exI [of _ d'] exI [of _ t'] exI [of _ "file_of (disk_nodes d' t')"]
          exI [of _ "disk_nodes d' t'"] conjI) (simp_all add: disk_sorted_def fread_nodes_file_of)
qed

theorem write_to_disk_roundtrip_witness:
  "\<exists>d' t' f ns. write_to_disk Map.empty (ex_tree 3) = Inr (d', t') \<and> next_empty t' = 0 \<and>
     d' (disk1 (ex_tree 3)) = Some f \<and>
     fread_size None f = Inr (length ns) \<and> fread_nodes (length ns) f = Inr ns \<and>
     mset ns = contents Map.empty (ex_tree 3) \<and>
     (sorted_disk (ex_tree 3) \<longrightarrow> sorted (map (\<lambda>x. sint (key x)) ns)) \<and>
     (\<forall>g. g \<noteq> disk1 (ex_tree 3) \<longrightarrow> d' g = Map.empty g)"
  by (rule write_to_disk_roundtrip) (simp_all add: ex_tree_ok, simp add: ex_tree_def)




text \<open>Claim C38: flushed nodes become unreachable. \<open>search_disk\<close> opens \<open>disk_storae.txt\<close> while the
  flush writes \<open>disk_storage.txt\<close>: when no file of the first name exists, the put that flushes a full
  buffer makes \<open>get\<close> answer "not found" for every other key of the buffer, although its node is in the
  file of the tree.\<close>

theorem get_misses_flushed:
  assumes "lsm_inv d t" "room d t" "disk_sorted d t" "next_empty t = block_size t"
    and "d ''disk_storae.txt'' = None" "disk1 t \<noteq> ''disk_storae.txt''"
    and "n \<in> set (buffer t)" "key n \<noteq> k"
  shows "\<exists>d' t'. put d k v t = Inr (d', t') \<and> get d' (key n) t' = Inr None \<and>
     n \<in># contents d' t'"
proof -
  from put_effect [OF assms(1-3), of k v] obtain d' t' where p: "put d k v t = Inr (d', t')"
    "buffer t' = (if next_empty t = block_size t then [] else buffer t) @ [\<lparr>key = k, val = v\<rparr>]"
    "contents d' t' = add_mset \<lparr>key = k, val = v\<rparr> (contents d t)"
    "\<forall>f. f \<noteq> disk1 t \<longrightarrow> d' f = d f" by blast
  then have "search_disk d' (key n) t' = Inr None" using assms(5,6) by (simp add: search_disk_missing)
  then have "get d' (key n) t' = Inr None" using p(2) assms(4,8) by (simp add: get_eq)
  moreover have "n \<in># contents d' t'" using p(3) assms(7) by (simp add: contents_def)
  ultimately show ?thesis using p(1) by blast
qed

theorem get_misses_flushed_witness:
  "\<exists>d' t'. put Map.empty 7 70 (ex_tree 3) = Inr (d', t') \<and>
     get d' (key \<lparr>key = 1, val = 10\<rparr>) t' = Inr None \<and> \<lparr>key = 1, val = 10\<rparr> \<in># contents d' t'"
  by (rule get_misses_flushed) (simp_all add: ex_tree_ok, simp_all add: ex_tree_def ex_nodes_def buffer_def)






end
