(* ===== verification/LsmTest.thy ===== *)
theory LsmTest
  imports Lsm
begin

text \<open>
  The driver \<^verbatim>\<open>test/LSMTree/test.c\<close>: \<open>test_print_tree\<close> and \<open>test_put\<close>, clients of the
  operations of the tree. The clock and the seeding of the random generator are left out, they do not
  reach the tree.
\<close>

text \<open>\<open>stat\<close> fills \<open>s\<close> only when the file exists; otherwise the three tests read \<open>s.st_size\<close>
  uninitialised.\<close>

definition test_print_tree :: "fs \<Rightarrow> lsm \<Rightarrow> out list res" where
  "test_print_tree d t =
     (case d (disk1 t) of
        None \<Rightarrow> Inl UninitRead
      | Some f \<Rightarrow>
          let st_size = length f in
          if st_size = 0 \<and> next_empty t \<noteq> 0
          then Inr (Text ''data fits in the buffer'' # print_buffer_data t)
          else if st_size > 0 \<and> next_empty t = 0
          then map_sum id (\<lambda>o1. Text ''data fits in the disk'' # o1) (print_disk_data d t)
          else if st_size > 0 \<and> next_empty t \<noteq> 0
          then map_sum id (\<lambda>o1. Text ''data is in buffer & on disk'' # print_buffer_data t @ o1)
                 (print_disk_data d t)
          else Inr [])"

text \<open>The loop of \<open>test_put\<close> from \<open>i\<close> on; \<open>assert(r == 0)\<close> always holds, as \<open>put\<close> returns 0.\<close>

function test_put_loop :: "int \<Rightarrow> int \<Rightarrow> fs \<times> lsm \<Rightarrow> (fs \<times> lsm) res" where
  "test_put_loop i data_size s =
     (if i < data_size
      then bind_res (lsm_put (word_of_int i) (word_of_int i) s) (test_put_loop (i + 1) data_size)
      else Inr s)"
  by pat_completeness auto
termination
  by (relation "measure (\<lambda>(i, n, s). nat (n - i))") auto

declare test_put_loop.simps [simp del]

definition test_put :: "fs \<Rightarrow> lsm \<Rightarrow> int \<Rightarrow> (fs \<times> lsm \<times> out list) res" where
  "test_put d t data_size =
     bind_res (test_put_loop 0 data_size (d, t)) (\<lambda>(d', t').
     bind_res (test_print_tree d' t') (\<lambda>o1. Inr (d', t', o1)))"

section \<open>Lemmas\<close>

definition numbered :: "int \<Rightarrow> nat \<Rightarrow> node list" where
  "numbered i n = map (\<lambda>j. \<lparr>key = word_of_int (i + int j), val = word_of_int (i + int j)\<rparr>) [0..<n]"

lemma numbered_Suc:
  "numbered i (Suc n) = \<lparr>key = word_of_int i, val = word_of_int i\<rparr> # numbered (i + 1) n"
  by (simp add: numbered_def upt_conv_Cons map_Suc_upt [symmetric] del: upt_Suc map_Suc_upt)

lemma test_put_loop_put_all: "test_put_loop i (i + int n) s = put_all lsm_put (numbered i n) s"
proof (induction n arbitrary: i s)
  case 0
  then show ?case by (simp add: test_put_loop.simps numbered_def)
next
  case (Suc n)
  have "test_put_loop (i + 1) (i + int (Suc n)) = put_all lsm_put (numbered (i + 1) n)"
    using Suc.IH [of "i + 1"] by (simp add: fun_eq_iff algebra_simps)
  then show ?case by (subst test_put_loop.simps) (simp add: numbered_Suc)
qed

lemma print_disk_data_total:
  "disk_ok d t \<Longrightarrow> d (disk1 t) \<noteq> None \<Longrightarrow> length (disk_nodes d t) < 2 ^ 31 \<Longrightarrow>
     \<exists>o1. print_disk_data d t = Inr o1"
  by (erule disk_okE) (auto simp: print_disk_data_def fread_size_file_of fread_nodes_file_of)

lemma test_print_tree_total:
  assumes "lsm_inv d t" "d (disk1 t) \<noteq> None" "length (disk_nodes d t) < 2 ^ 31"
  shows "\<exists>o1. test_print_tree d t = Inr o1"
  using print_disk_data_total [of d t] assms
  by (auto simp: test_print_tree_def lsm_inv_def Let_def)

section \<open>Properties\<close>

text \<open>\<open>test_put\<close> stores what it promises. Started on a well-formed tree with room for
  \<open>n\<close> nodes, its loop of \<open>n\<close> puts ends in a well-formed tree whose disk and buffer hold the old nodes
  and the nodes (0,0) to (n-1,n-1); the final report succeeds if a flush has created the file, and
  otherwise reads the uninitialised \<open>stat\<close> buffer.\<close>

theorem test_put_outcome:
  assumes "lsm_ok n (d, t)"
  shows "\<exists>d' t'. test_put_loop 0 (int n) (d, t) = Inr (d', t') \<and> lsm_inv d' t' \<and>
     contents d' t' = contents d t + mset (numbered 0 n) \<and>
     (d' (disk1 t') = None \<longrightarrow> test_put d t (int n) = Inl UninitRead) \<and>
     (d' (disk1 t') \<noteq> None \<longrightarrow> (\<exists>o1. test_put d t (int n) = Inr (d', t', o1)))"
proof -
  have "length (numbered 0 n) = n" by (simp add: numbered_def)
  with lsm_store.put_all_stores [of "numbered 0 n" 0 "(d, t)"] assms
  obtain d' t' where p: "test_put_loop 0 (int n) (d, t) = Inr (d', t')" "lsm_ok 0 (d', t')"
    "contents d' t' = contents d t + mset (numbered 0 n)"
    using test_put_loop_put_all [of 0 n] by auto
  have inv: "lsm_inv d' t'" "length (disk_nodes d' t') < 2 ^ 31"
    using p(2) by (auto simp: lsm_ok_def contents_def)
  show ?thesis
    using p inv test_print_tree_total [OF inv(1)]
    by (intro exI [of _ d'] exI [of _ t']) (auto simp: test_put_def test_print_tree_def)
qed

theorem test_put_outcome_witness:
  "\<exists>d' t'. test_put_loop 0 (int 5) (Map.empty, ex_tree 0) = Inr (d', t') \<and> lsm_inv d' t' \<and>
     contents d' t' = contents Map.empty (ex_tree 0) + mset (numbered 0 5) \<and>
     (d' (disk1 t') = None \<longrightarrow> test_put Map.empty (ex_tree 0) (int 5) = Inl UninitRead) \<and>
     (d' (disk1 t') \<noteq> None \<longrightarrow> (\<exists>o1. test_put Map.empty (ex_tree 0) (int 5) = Inr (d', t', o1)))"
  by (rule test_put_outcome, rule ex_tree_ok) simp_all

end
