(* ===== verification/CkPr.thy ===== *)
theory CkPr
  imports Prelude
begin

text \<open>
  The atomic primitives of \<^verbatim>\<open>ck/gcc/ck_pr.h\<close> on one memory word: each is a function of the current
  contents of its target that yields its result and the new contents. Threads interleave between
  primitives, never inside one (the memory model is sequentially consistent: the fences and barriers
  of the sources have no effect here). The emulations of \<^verbatim>\<open>ck/ck_pr.h\<close>, which build the other
  operations from a compare-and-swap loop, are step functions over the same word.
\<close>

section \<open>Primitives\<close>

definition ck_pr_load :: "'a \<Rightarrow> 'a" where
  [pr_simps]: "ck_pr_load m = m"

definition ck_pr_store :: "'a \<Rightarrow> 'a \<Rightarrow> 'a" where
  [pr_simps]: "ck_pr_store m v = v"

definition ck_pr_cas :: "'a \<Rightarrow> 'a \<Rightarrow> 'a \<Rightarrow> bool \<times> 'a" where
  [pr_simps]: "ck_pr_cas m compare new = (if m = compare then (True, new) else (False, m))"

text \<open>\<open>ck_pr_cas_value\<close> also stores the old contents through its last argument.\<close>

definition ck_pr_cas_value :: "'a \<Rightarrow> 'a \<Rightarrow> 'a \<Rightarrow> bool \<times> 'a \<times> 'a" where
  [pr_simps]: "ck_pr_cas_value m compare new =
     (if m = compare then (True, m, new) else (False, m, m))"

definition ck_pr_faa :: "'w::len word \<Rightarrow> 'w word \<Rightarrow> 'w word \<times> 'w word" where
  [pr_simps]: "ck_pr_faa m d = (m, m + d)"

definition ck_pr_fas :: "'a \<Rightarrow> 'a \<Rightarrow> 'a \<times> 'a" where
  [pr_simps]: "ck_pr_fas m v = (m, v)"

definition ck_pr_inc :: "'w::len word \<Rightarrow> 'w word" where
  [pr_simps]: "ck_pr_inc m = m + 1"

definition ck_pr_dec :: "'w::len word \<Rightarrow> 'w word" where
  [pr_simps]: "ck_pr_dec m = m - 1"

definition ck_pr_and :: "'w::len word \<Rightarrow> 'w word \<Rightarrow> 'w word" where
  [pr_simps]: "ck_pr_and m d = m AND d"

definition ck_pr_or :: "'w::len word \<Rightarrow> 'w word \<Rightarrow> 'w word" where
  [pr_simps]: "ck_pr_or m d = m OR d"

text \<open>\<open>ck_pr_dec_zero\<close> reports whether the decrement reached zero, \<open>ck_pr_bts\<close> whether the bit was
  set before.\<close>

definition ck_pr_dec_zero :: "'w::len word \<Rightarrow> bool \<times> 'w word" where
  [pr_simps]: "ck_pr_dec_zero m = (m = 1, m - 1)"

definition ck_pr_bts :: "'w::len word \<Rightarrow> nat \<Rightarrow> bool \<times> 'w word" where
  [pr_simps]: "ck_pr_bts m offset = (bit m offset, m OR push_bit offset 1)"

section \<open>Emulations by a compare-and-swap loop\<close>

text \<open>The common shape of the macros \<open>CK_PR_BIN\<close>, \<open>CK_PR_BTX\<close>, \<open>CK_PR_UNARY_Z\<close>, \<open>CK_PR_N\<close>,
  \<open>CK_PR_FAA\<close> and \<open>CK_PR_FAS\<close>: load the target, then try to swap in \<open>f previous\<close> until it works,
  \<open>previous\<close> being refreshed by every failed attempt.\<close>

datatype 'a cas_pc = CasLoad | CasTry 'a

fun cas_loop :: "('a \<Rightarrow> 'a) \<Rightarrow> ('a \<Rightarrow> 'r) \<Rightarrow> 'a cas_pc \<Rightarrow> 'a \<Rightarrow> ('a cas_pc, 'r) ctl \<times> 'a" where
  "cas_loop f res CasLoad m = (Go (CasTry (ck_pr_load m)), m)"
| "cas_loop f res (CasTry previous) m =
     (let (ok, previous', m') = ck_pr_cas_value m previous (f previous)
      in (if ok then Ret (res previous') else Go (CasTry previous'), m'))"

definition CK_PR_BIN :: "('w::len word \<Rightarrow> 'w word \<Rightarrow> 'w word) \<Rightarrow> 'w word \<Rightarrow>
    'w word cas_pc \<Rightarrow> 'w word \<Rightarrow> ('w word cas_pc, unit) ctl \<times> 'w word" where
  "CK_PR_BIN p value = cas_loop (\<lambda>previous. p previous value) (\<lambda>_. ())"

definition CK_PR_BTX :: "('w::len word \<Rightarrow> 'w word \<Rightarrow> 'w word) \<Rightarrow> ('w word \<Rightarrow> 'w word) \<Rightarrow> nat \<Rightarrow>
    'w word cas_pc \<Rightarrow> 'w word \<Rightarrow> ('w word cas_pc, bool) ctl \<times> 'w word" where
  "CK_PR_BTX p r offset =
     cas_loop (\<lambda>previous. p previous (r (push_bit offset 1)))
              (\<lambda>previous. drop_bit offset previous AND 1 \<noteq> 0)"

definition CK_PR_UNARY_Z :: "('w::len word \<Rightarrow> 'w word \<Rightarrow> 'w word) \<Rightarrow> 'w word \<Rightarrow>
    'w word cas_pc \<Rightarrow> 'w word \<Rightarrow> ('w word cas_pc, bool) ctl \<times> 'w word" where
  "CK_PR_UNARY_Z p z = cas_loop (\<lambda>previous. p previous 1) (\<lambda>previous. previous = z)"

definition CK_PR_N :: "('w::len word \<Rightarrow> 'w word) \<Rightarrow>
    'w word cas_pc \<Rightarrow> 'w word \<Rightarrow> ('w word cas_pc, unit) ctl \<times> 'w word" where
  "CK_PR_N p = cas_loop p (\<lambda>_. ())"

definition CK_PR_N_Z ::
    "'w::len word cas_pc \<Rightarrow> 'w word \<Rightarrow> ('w word cas_pc, bool) ctl \<times> 'w word" where
  "CK_PR_N_Z = cas_loop uminus (\<lambda>previous. previous = 0)"

definition CK_PR_FAA :: "'w::len word \<Rightarrow>
    'w word cas_pc \<Rightarrow> 'w word \<Rightarrow> ('w word cas_pc, 'w word) ctl \<times> 'w word" where
  "CK_PR_FAA delta = cas_loop (\<lambda>previous. previous + delta) (\<lambda>previous. previous)"

definition CK_PR_FAS :: "'a \<Rightarrow> 'a cas_pc \<Rightarrow> 'a \<Rightarrow> ('a cas_pc, 'a) ctl \<times> 'a" where
  "CK_PR_FAS update = cas_loop (\<lambda>_. update) (\<lambda>previous. previous)"

section \<open>An emulation is atomic\<close>

text \<open>A step function emulates the atomic operation \<open>op\<close> when every step that does not return leaves
  the memory as it found it, and the step that returns has the effect and the result of \<open>op\<close> on the
  memory of that moment, whatever other threads did to it before.\<close>

locale emulation =
  fixes f :: "'l \<Rightarrow> 's \<Rightarrow> ('l, 'r) ctl \<times> 's" and op :: "'s \<Rightarrow> 'r \<times> 's" and entry :: 'l
  assumes keeps: "f l m = (Go l', m') \<Longrightarrow> m' = m"
    and commits: "f l m = (Ret r, m') \<Longrightarrow> op m = (r, m')"
    and solo: "run_solo 2 f entry m \<noteq> None"

context emulation begin

text \<open>Alone, the function returns and has computed \<open>op\<close>.\<close>

lemma run_solo_op: "run_solo n f l m = Some (r, m') \<Longrightarrow> op m = (r, m')"
proof (induction n arbitrary: l)
  case (Suc n)
  then show ?case by (auto split: prod.splits ctl.splits dest: keeps commits)
qed simp

lemma solo_computes: "run_solo 2 f entry m = Some (op m)"
proof -
  obtain r m' where "run_solo 2 f entry m = Some (r, m')" using solo [of m] by (metis option.exhaust surj_pair)
  then show ?thesis using run_solo_op by metis
qed

end

lemma emulation_cas_loop: "emulation (cas_loop f res) (\<lambda>m. (res m, f m)) CasLoad"
proof
  fix l l' m m'
  show "cas_loop f res l m = (Go l', m') \<Longrightarrow> m' = m"
    by (cases l) (auto simp: pr_simps split: if_splits)
next
  fix l r m m'
  show "cas_loop f res l m = (Ret r, m') \<Longrightarrow> (res m, f m) = (r, m')"
    by (cases l) (auto simp: pr_simps split: if_splits)
qed (simp add: pr_simps numeral_2_eq_2)

interpretation faa: emulation "CK_PR_FAA delta" "\<lambda>m. ck_pr_faa m delta" CasLoad for delta
  unfolding CK_PR_FAA_def pr_simps by (rule emulation_cas_loop)

interpretation fas: emulation "CK_PR_FAS v" "\<lambda>m. ck_pr_fas m v" CasLoad for v
  unfolding CK_PR_FAS_def pr_simps by (rule emulation_cas_loop)

interpretation add: emulation "CK_PR_BIN (+) v" "\<lambda>m. ((), m + v)" CasLoad for v
  unfolding CK_PR_BIN_def by (rule emulation_cas_loop)

interpretation and_op: emulation "CK_PR_BIN (AND) v" "\<lambda>m. ((), ck_pr_and m v)" CasLoad for v
  unfolding CK_PR_BIN_def pr_simps by (rule emulation_cas_loop)

interpretation or_op: emulation "CK_PR_BIN (OR) v" "\<lambda>m. ((), ck_pr_or m v)" CasLoad for v
  unfolding CK_PR_BIN_def pr_simps by (rule emulation_cas_loop)

interpretation dec_zero: emulation "CK_PR_UNARY_Z (-) 1" "\<lambda>m. ck_pr_dec_zero m" CasLoad
  unfolding CK_PR_UNARY_Z_def pr_simps by (rule emulation_cas_loop)

interpretation neg: emulation "CK_PR_N uminus" "\<lambda>m. ((), - m)" CasLoad
  unfolding CK_PR_N_def by (rule emulation_cas_loop)

lemma bts_result: "drop_bit n m AND 1 \<noteq> 0 \<longleftrightarrow> bit m n" for m :: "'w::len word"
  by (metis and_one_eq bit_iff_odd_drop_bit odd_iff_mod_2_eq_one zero_neq_one even_iff_mod_2_eq_zero)

interpretation bts: emulation "CK_PR_BTX (OR) id n" "\<lambda>m. ck_pr_bts m n" CasLoad for n
  unfolding CK_PR_BTX_def pr_simps bts_result id_apply by (rule emulation_cas_loop)

section \<open>Properties\<close>

text \<open>The emulated fetch-and-add, fetch-and-store, decrement-to-zero and bit-test-and-set
  agree with the atomic primitives. Run alone, each returns after the load and one swap with the
  result and the effect of the primitive.\<close>

theorem emulations_compute:
  "run_solo 2 (CK_PR_FAA d) CasLoad m = Some (ck_pr_faa m d) \<and>
   run_solo 2 (CK_PR_FAS d) CasLoad m = Some (ck_pr_fas m d) \<and>
   run_solo 2 (CK_PR_UNARY_Z (-) 1) CasLoad m = Some (ck_pr_dec_zero m) \<and>
   run_solo 2 (CK_PR_BTX (OR) id n) CasLoad m = Some (ck_pr_bts m n)"
  for m d :: "'w::len word"
  using faa.solo_computes fas.solo_computes dec_zero.solo_computes bts.solo_computes by auto

text \<open>Claim C40: an emulated operation is atomic under interference. In any state of the loop and for
  any contents that other threads left in the word, a step that does not return changes nothing, and
  the step that returns has exactly the effect and result of the atomic fetch-and-add on the contents
  of that moment.\<close>

theorem faa_emulation_atomic:
  "(case CK_PR_FAA d pc m of
      (Go pc', m') \<Rightarrow> m' = m
    | (Ret r, m') \<Rightarrow> (r, m') = ck_pr_faa m d)"
  by (auto split: prod.splits ctl.splits dest: faa.keeps faa.commits)

end
