(* ===== verification/Interleave.thy ===== *)
theory Interleave
  imports Prelude
begin

text \<open>
  Threads that share one state and interleave at atomic steps, and the clients of locks: a thread that
  may start to acquire, try, release. The locales state what an invariant of such a system gives:
  exclusion of critical sections (\<open>mutex\<close>) and of readers and writers (\<open>rw_exclusion\<close>).
\<close>

section \<open>Counting threads\<close>

definition cnt :: "nat \<Rightarrow> ('l \<Rightarrow> bool) \<Rightarrow> (nat \<Rightarrow> 'l) \<Rightarrow> nat" where
  "cnt N P ls = (\<Sum>t<N. of_bool (P (ls t)))"

lemma cnt_upd:
  "t < N \<Longrightarrow> cnt N P (ls(t := l)) + of_bool (P (ls t)) = cnt N P ls + of_bool (P l)"
proof -
  assume "t < N"
  then have *: "(\<Sum>i<N. g i) = g t + (\<Sum>i\<in>{..<N} - {t}. g i)" for g :: "nat \<Rightarrow> nat"
    by (intro sum.remove) auto
  have "(\<Sum>i\<in>{..<N} - {t}. of_bool (P ((ls(t := l)) i)) :: nat) = (\<Sum>i\<in>{..<N} - {t}. of_bool (P (ls i)))"
    by (rule sum.cong) auto
  then show ?thesis by (simp add: cnt_def *)
qed

lemma cnt_eq [simp]: "t < N \<Longrightarrow> P l = P (ls t) \<Longrightarrow> cnt N P (ls(t := l)) = cnt N P ls"
  using cnt_upd [of t N P ls l] by simp

lemma cnt_enter [simp]: "t < N \<Longrightarrow> P l \<Longrightarrow> \<not> P (ls t) \<Longrightarrow> cnt N P (ls(t := l)) = Suc (cnt N P ls)"
  using cnt_upd [of t N P ls l] by simp

lemma cnt_leave [simp]: "t < N \<Longrightarrow> \<not> P l \<Longrightarrow> P (ls t) \<Longrightarrow> cnt N P (ls(t := l)) = cnt N P ls - 1"
  using cnt_upd [of t N P ls l] by simp

lemma cnt_pos: "t < N \<Longrightarrow> P (ls t) \<Longrightarrow> 0 < cnt N P ls"
  using cnt_upd [of t N P ls "ls t"] member_le_sum [of t "{..<N}" "\<lambda>i. of_bool (P (ls i)) :: nat"]
  by (simp add: cnt_def)

lemma cnt_le: "cnt N P ls \<le> N"
  using sum_bounded_above [of "{..<N}" "\<lambda>t. of_bool (P (ls t)) :: nat" 1] by (simp add: cnt_def)

lemma cnt_lt: "t < N \<Longrightarrow> \<not> P (ls t) \<Longrightarrow> cnt N P ls < N"
proof -
  assume "t < N" "\<not> P (ls t)"
  then have "(\<Sum>i<N. of_bool (P (ls i)) :: nat) = (\<Sum>i\<in>{..<N} - {t}. of_bool (P (ls i)))"
    by (subst sum.remove [of _ t]) auto
  also have "\<dots> \<le> card ({..<N} - {t})"
    using sum_bounded_above [of "{..<N} - {t}" "\<lambda>i. of_bool (P (ls i)) :: nat" 1] by simp
  also have "\<dots> < N" using \<open>t < N\<close> by simp
  finally show ?thesis by (simp add: cnt_def)
qed

lemma cnt_card: "cnt N P ls = card {t. t < N \<and> P (ls t)}"
proof -
  have "(\<Sum>t<N. of_bool (P (ls t)) :: nat) = card ({..<N} \<inter> {t. P (ls t)})"
    by (simp add: sum_of_bool_eq)
  also have "{..<N} \<inter> {t. P (ls t)} = {t. t < N \<and> P (ls t)}" by auto
  finally show ?thesis by (simp add: cnt_def)
qed

lemma cnt_0: "cnt N P ls = 0 \<longleftrightarrow> (\<forall>t<N. \<not> P (ls t))"
  by (auto simp: cnt_def)

lemma cnt_mono: "(\<And>l. P l \<Longrightarrow> Q l) \<Longrightarrow> cnt N P ls \<le> cnt N Q ls"
  unfolding cnt_def by (rule sum_mono) auto

lemma cnt_le1: "cnt N P ls \<le> 1 \<Longrightarrow> i < N \<Longrightarrow> j < N \<Longrightarrow> P (ls i) \<Longrightarrow> P (ls j) \<Longrightarrow> i = j"
proof (rule ccontr)
  assume a: "cnt N P ls \<le> 1" "i < N" "j < N" "P (ls i)" "P (ls j)" "i \<noteq> j"
  have "(\<Sum>t\<in>{i, j}. of_bool (P (ls t)) :: nat) \<le> (\<Sum>t<N. of_bool (P (ls t)))"
    using a by (intro sum_mono2) auto
  with a show False by (simp add: cnt_def)
qed

text \<open>A flag that one thread owns at a time: set when a thread takes it, cleared when it lets go.\<close>

lemma cnt_flag_step:
  assumes o: "cnt N own ls = of_bool f" and t: "t < N"
    and l: "own l' = own (ls t) \<Longrightarrow> f' = f" "own l' \<Longrightarrow> \<not> own (ls t) \<Longrightarrow> \<not> f \<and> f'" "own (ls t) \<Longrightarrow> \<not> own l' \<Longrightarrow> \<not> f'"
  shows "cnt N own (ls(t := l')) = of_bool f'"
proof -
  have u: "cnt N own (ls(t := l')) + of_bool (own (ls t)) = cnt N own ls + of_bool (own l')"
    by (rule cnt_upd [OF t])
  consider "own l' = own (ls t)" | "own l'" "\<not> own (ls t)" | "own (ls t)" "\<not> own l'" by blast
  then show ?thesis
  proof cases
    case 1
    with u l(1) o show ?thesis by simp
  next
    case 2
    with u l(2) o show ?thesis by simp
  next
    case 3
    with u l(3) o show ?thesis by (cases f) simp_all
  qed
qed

section \<open>Interleaved systems\<close>

text \<open>\<open>step t l s l' s'\<close>: thread \<open>t\<close> with local state \<open>l\<close> makes one atomic step. In a system of \<open>N\<close>
  threads any thread may move next.\<close>

inductive reachable ::
  "(nat \<Rightarrow> 'l \<Rightarrow> 's \<Rightarrow> 'l \<Rightarrow> 's \<Rightarrow> bool) \<Rightarrow> nat \<Rightarrow> (nat \<Rightarrow> 'l) \<Rightarrow> 's \<Rightarrow> (nat \<Rightarrow> 'l) \<Rightarrow> 's \<Rightarrow> bool"
  for step N ls0 s0 where
  start: "reachable step N ls0 s0 ls0 s0"
| move: "reachable step N ls0 s0 ls s \<Longrightarrow> t < N \<Longrightarrow> step t (ls t) s l' s' \<Longrightarrow>
    reachable step N ls0 s0 (ls(t := l')) s'"

text \<open>Running a schedule: a list of threads, each with the choice it makes when it moves.\<close>

fun move_run :: "('c \<Rightarrow> nat \<Rightarrow> 'l \<Rightarrow> 's \<Rightarrow> 'l \<times> 's) \<Rightarrow> (nat \<times> 'c) list \<Rightarrow> (nat \<Rightarrow> 'l) \<times> 's \<Rightarrow> (nat \<Rightarrow> 'l) \<times> 's" where
  "move_run mv [] x = x"
| "move_run mv ((t, c) # sch) (ls, s) = (case mv c t (ls t) s of (l, s') \<Rightarrow> move_run mv sch (ls(t := l), s'))"

lemma move_run_reachable:
  assumes "\<And>c t l s l' s'. mv c t l s = (l', s') \<Longrightarrow> step t l s l' s'"
    and "list_all (\<lambda>(t, c). t < N) sch" "reachable step N ls0 s0 ls s"
  shows "reachable step N ls0 s0 (fst (move_run mv sch (ls, s))) (snd (move_run mv sch (ls, s)))"
  using assms(2,3)
proof (induction sch arbitrary: ls s)
  case (Cons x sch)
  obtain t c where x: "x = (t, c)" by (cases x)
  obtain l' s' where m: "mv c t (ls t) s = (l', s')" by (cases "mv c t (ls t) s")
  have "reachable step N ls0 s0 (ls(t := l')) s'"
    using Cons.prems x by (intro reachable.move [OF Cons.prems(2)] assms(1) [OF m]) auto
  with Cons show ?case by (simp add: x m)
qed simp

locale interleaving =
  fixes step :: "nat \<Rightarrow> 'l \<Rightarrow> 's \<Rightarrow> 'l \<Rightarrow> 's \<Rightarrow> bool" and ls0 :: "nat \<Rightarrow> 'l" and s0 :: 's
    and fits :: "nat \<Rightarrow> bool" and inv :: "nat \<Rightarrow> (nat \<Rightarrow> 'l) \<Rightarrow> 's \<Rightarrow> bool"
  assumes inv_start: "fits N \<Longrightarrow> inv N ls0 s0"
    and inv_step: "fits N \<Longrightarrow> inv N ls s \<Longrightarrow> t < N \<Longrightarrow> step t (ls t) s l' s' \<Longrightarrow> inv N (ls(t := l')) s'"

context interleaving begin

lemma reachable_inv: "reachable step N ls0 s0 ls s \<Longrightarrow> fits N \<Longrightarrow> inv N ls s"
  by (induction rule: reachable.induct) (auto intro: inv_start inv_step)

end

locale mutex = interleaving +
  fixes crit :: "'a \<Rightarrow> bool"
  assumes inv_excl: "fits N \<Longrightarrow> inv N ls s \<Longrightarrow> i < N \<Longrightarrow> j < N \<Longrightarrow> crit (ls i) \<Longrightarrow> crit (ls j) \<Longrightarrow> i = j"

context mutex begin

lemma mutual_exclusion:
  "reachable step N ls0 s0 ls s \<Longrightarrow> fits N \<Longrightarrow> i < N \<Longrightarrow> j < N \<Longrightarrow> crit (ls i) \<Longrightarrow> crit (ls j) \<Longrightarrow> i = j"
  by (rule inv_excl [OF _ reachable_inv])

lemma critical_alone:
  "reachable step N ls0 s0 ls s \<Longrightarrow> fits N \<Longrightarrow> i < N \<Longrightarrow> crit (ls i) \<Longrightarrow> {j. j < N \<and> crit (ls j)} = {i}"
  using mutual_exclusion by blast

end

locale rw_exclusion = interleaving +
  fixes rd :: "'a \<Rightarrow> bool" and wr :: "'a \<Rightarrow> bool"
  assumes inv_ww: "fits N \<Longrightarrow> inv N ls s \<Longrightarrow> i < N \<Longrightarrow> j < N \<Longrightarrow> wr (ls i) \<Longrightarrow> wr (ls j) \<Longrightarrow> i = j"
    and inv_rw: "fits N \<Longrightarrow> inv N ls s \<Longrightarrow> i < N \<Longrightarrow> j < N \<Longrightarrow> wr (ls i) \<Longrightarrow> \<not> rd (ls j)"

context rw_exclusion begin

lemma writers_exclude:
  "reachable step N ls0 s0 ls s \<Longrightarrow> fits N \<Longrightarrow> i < N \<Longrightarrow> wr (ls i) \<Longrightarrow>
     {j. j < N \<and> wr (ls j)} = {i} \<and> {j. j < N \<and> rd (ls j)} = {}"
  using reachable_inv inv_ww inv_rw by blast

end

text \<open>Writers alone are a mutex.\<close>

sublocale rw_exclusion \<subseteq> writers: mutex step ls0 s0 fits inv wr
  by unfold_locales (rule inv_ww)

section \<open>Clients of a lock\<close>

text \<open>A thread is idle with its persistent data \<open>'p\<close> (for the queue locks, the node it owns), inside the
  lock or trylock function at a program point, in its critical section with the result of the
  acquisition, or inside the unlock function.\<close>

datatype ('p, 'a, 'b, 'r, 'c) client =
  Idle 'p | Acquiring 'a | Trying 'p 'b | Critical 'r | Releasing 'c

text \<open>The functions of a lock, with their entry points; \<open>try_entry\<close> is \<open>None\<close> when the lock has no
  trylock, \<open>try_result\<close> is what a successful trylock leaves with the caller.\<close>

record ('p, 'a, 'b, 'r, 'c, 's) lock_ops =
  lock_fn :: "'a \<Rightarrow> 's \<Rightarrow> ('a, 'r) ctl \<times> 's"
  lock_entry :: "'p \<Rightarrow> 'a"
  try_fn :: "'b \<Rightarrow> 's \<Rightarrow> ('b, bool) ctl \<times> 's"
  try_entry :: "'p \<Rightarrow> 'b option"
  try_result :: "'p \<Rightarrow> 'r"
  unlock_fn :: "'c \<Rightarrow> 's \<Rightarrow> ('c, 'p) ctl \<times> 's"
  unlock_entry :: "'r \<Rightarrow> 'c"

text \<open>The place of the trylock in a lock that has none.\<close>

definition no_trylock :: "unit \<Rightarrow> 's \<Rightarrow> (unit, bool) ctl \<times> 's" where
  "no_trylock _ s = (Ret False, s)"

inductive client_step ::
  "('p, 'a, 'b, 'r, 'c, 's) lock_ops \<Rightarrow> nat \<Rightarrow> ('p, 'a, 'b, 'r, 'c) client \<Rightarrow> 's \<Rightarrow>
     ('p, 'a, 'b, 'r, 'c) client \<Rightarrow> 's \<Rightarrow> bool" for ops where
  begin_lock: "client_step ops t (Idle p) s (Acquiring (lock_entry ops p)) s"
| lock_go: "lock_fn ops a s = (Go a', s') \<Longrightarrow> client_step ops t (Acquiring a) s (Acquiring a') s'"
| lock_ret: "lock_fn ops a s = (Ret r, s') \<Longrightarrow> client_step ops t (Acquiring a) s (Critical r) s'"
| begin_try: "try_entry ops p = Some b \<Longrightarrow> client_step ops t (Idle p) s (Trying p b) s"
| try_go: "try_fn ops b s = (Go b', s') \<Longrightarrow> client_step ops t (Trying p b) s (Trying p b') s'"
| try_ok: "try_fn ops b s = (Ret True, s') \<Longrightarrow>
    client_step ops t (Trying p b) s (Critical (try_result ops p)) s'"
| try_fail: "try_fn ops b s = (Ret False, s') \<Longrightarrow> client_step ops t (Trying p b) s (Idle p) s'"
| begin_unlock: "client_step ops t (Critical r) s (Releasing (unlock_entry ops r)) s"
| unlock_go: "unlock_fn ops c s = (Go c', s') \<Longrightarrow> client_step ops t (Releasing c) s (Releasing c') s'"
| unlock_ret: "unlock_fn ops c s = (Ret p, s') \<Longrightarrow> client_step ops t (Releasing c) s (Idle p) s'"

inductive_cases client_stepE:
  "client_step ops t (Idle p) s l' s'" "client_step ops t (Acquiring a) s l' s'"
  "client_step ops t (Trying p b) s l' s'" "client_step ops t (Critical r) s l' s'"
  "client_step ops t (Releasing c) s l' s'"

text \<open>An executable scheduler: each entry names the thread that moves and, for an idle thread, whether
  it starts a trylock. Its runs are runs of the system.\<close>

fun client_move :: "('p, 'a, 'b, 'r, 'c, 's) lock_ops \<Rightarrow> bool \<Rightarrow> ('p, 'a, 'b, 'r, 'c) client \<Rightarrow> 's \<Rightarrow>
    ('p, 'a, 'b, 'r, 'c) client \<times> 's" where
  "client_move ops c (Idle p) s =
     (case (c, try_entry ops p) of (True, Some b) \<Rightarrow> (Trying p b, s)
      | _ \<Rightarrow> (Acquiring (lock_entry ops p), s))"
| "client_move ops c (Acquiring a) s =
     (case lock_fn ops a s of (Go a', s') \<Rightarrow> (Acquiring a', s') | (Ret r, s') \<Rightarrow> (Critical r, s'))"
| "client_move ops c (Trying p b) s =
     (case try_fn ops b s of (Go b', s') \<Rightarrow> (Trying p b', s')
      | (Ret ok, s') \<Rightarrow> (if ok then Critical (try_result ops p) else Idle p, s'))"
| "client_move ops c (Critical r) s = (Releasing (unlock_entry ops r), s)"
| "client_move ops c (Releasing d) s =
     (case unlock_fn ops d s of (Go d', s') \<Rightarrow> (Releasing d', s') | (Ret p, s') \<Rightarrow> (Idle p, s'))"

fun client_run :: "('p, 'a, 'b, 'r, 'c, 's) lock_ops \<Rightarrow> (nat \<times> bool) list \<Rightarrow>
    (nat \<Rightarrow> ('p, 'a, 'b, 'r, 'c) client) \<times> 's \<Rightarrow> (nat \<Rightarrow> ('p, 'a, 'b, 'r, 'c) client) \<times> 's" where
  "client_run ops [] c = c"
| "client_run ops ((t, b) # sch) (ls, s) =
     (case client_move ops b (ls t) s of (l, s') \<Rightarrow> client_run ops sch (ls(t := l), s'))"

lemma client_move_step: "client_move ops c l s = (l', s') \<Longrightarrow> client_step ops t l s l' s'"
  by (cases l) (auto split: option.splits bool.splits prod.splits ctl.splits if_splits
      intro: client_step.intros)

lemma client_run_reachable:
  assumes "list_all (\<lambda>(t, b). t < N) sch" "reachable (client_step ops) N ls0 s0 ls s"
  shows "reachable (client_step ops) N ls0 s0 (fst (client_run ops sch (ls, s))) (snd (client_run ops sch (ls, s)))"
  using assms
proof (induction sch arbitrary: ls s)
  case (Cons x sch)
  obtain t b where x: "x = (t, b)" by (cases x)
  obtain l' s' where m: "client_move ops b (ls t) s = (l', s')" by (cases "client_move ops b (ls t) s")
  have "reachable (client_step ops) N ls0 s0 (ls(t := l')) s'"
    using Cons.prems x by (intro reachable.move [OF Cons.prems(2)] client_move_step [OF m]) auto
  with Cons show ?case by (simp add: x m)
qed simp

lemmas client_run_start = client_run_reachable [OF _ reachable.start]

text \<open>A thread holds the lock from the return of the acquisition until the release is done.\<close>

fun holds :: "('p, 'a, 'b, 'r, 'c) client \<Rightarrow> bool" where
  "holds (Critical r) = True"
| "holds (Releasing c) = True"
| "holds _ = False"

fun critical :: "('p, 'a, 'b, 'r, 'c) client \<Rightarrow> bool" where
  "critical (Critical r) = True"
| "critical _ = False"

lemma critical_holds: "critical l \<Longrightarrow> holds l"
  by (cases l) auto

section \<open>Locks with a flag\<close>

text \<open>The contract of a lock whose state shows whether it is free: acquisitions return only on a free
  lock and leave it taken, all other steps keep the flag, and a release frees it. That is enough for
  exclusion.\<close>

definition flag_inv :: "('s \<Rightarrow> bool) \<Rightarrow> ('s \<Rightarrow> bool) \<Rightarrow> nat \<Rightarrow> (nat \<Rightarrow> ('p, 'a, 'b, 'r, 'c) client) \<Rightarrow> 's \<Rightarrow> bool" where
  "flag_inv valid free N ls s \<longleftrightarrow> valid s \<and> cnt N holds ls = of_bool (\<not> free s)"

locale flag_lock =
  fixes ops :: "('p, 'a, 'b, 'r, 'c, 's) lock_ops" and p0 :: 'p and s0 :: 's
    and valid :: "'s \<Rightarrow> bool" and free :: "'s \<Rightarrow> bool"
  assumes init: "valid s0" "free s0"
    and lock_keeps: "valid s \<Longrightarrow> lock_fn ops a s = (Go a', s') \<Longrightarrow> valid s' \<and> free s' = free s"
    and lock_takes: "valid s \<Longrightarrow> lock_fn ops a s = (Ret r, s') \<Longrightarrow> valid s' \<and> free s \<and> \<not> free s'"
    and try_keeps: "valid s \<Longrightarrow> try_fn ops b s = (Go b', s') \<Longrightarrow> valid s' \<and> free s' = free s"
    and try_takes: "valid s \<Longrightarrow> try_fn ops b s = (Ret True, s') \<Longrightarrow> valid s' \<and> free s \<and> \<not> free s'"
    and try_fails: "valid s \<Longrightarrow> try_fn ops b s = (Ret False, s') \<Longrightarrow> valid s' \<and> free s' = free s"
    and unlock_keeps: "valid s \<Longrightarrow> unlock_fn ops c s = (Go c', s') \<Longrightarrow> valid s' \<and> free s' = free s"
    and unlock_frees: "valid s \<Longrightarrow> unlock_fn ops c s = (Ret p, s') \<Longrightarrow> valid s' \<and> free s'"

context flag_lock begin

lemma flag_inv_step:
  assumes inv: "flag_inv valid free N ls s" and t: "t < N" and st: "client_step ops t (ls t) s l' s'"
  shows "flag_inv valid free N (ls(t := l')) s'"
proof -
  have v: "valid s" and c: "cnt N holds ls = of_bool (\<not> free s)" using inv by (auto simp: flag_inv_def)
  have pos: "holds (ls t) \<Longrightarrow> \<not> free s" using cnt_pos [of t N holds ls] t c by auto
  from st show ?thesis
  proof (cases rule: client_step.cases)
    case (lock_go a a')
    with lock_keeps [OF v, of a a' s'] v c t show ?thesis by (auto simp: flag_inv_def)
  next
    case (lock_ret a r)
    with lock_takes [OF v, of a r s'] v c t show ?thesis by (auto simp: flag_inv_def)
  next
    case (try_go b b' p)
    with try_keeps [OF v, of b b' s'] v c t show ?thesis by (auto simp: flag_inv_def)
  next
    case (try_ok b p)
    with try_takes [OF v, of b s'] v c t show ?thesis by (auto simp: flag_inv_def)
  next
    case (try_fail b p)
    with try_fails [OF v, of b s'] v c t show ?thesis by (auto simp: flag_inv_def)
  next
    case (unlock_go d d')
    with unlock_keeps [OF v, of d d' s'] v c t show ?thesis by (auto simp: flag_inv_def)
  next
    case (unlock_ret d p)
    with unlock_frees [OF v, of d p s'] v c t pos show ?thesis by (auto simp: flag_inv_def)
  qed (use v c t in \<open>auto simp: flag_inv_def\<close>)
qed

end

lemma cnt_holds_excl:
  "cnt N holds ls \<le> 1 \<Longrightarrow> i < N \<Longrightarrow> j < N \<Longrightarrow> critical (ls i) \<Longrightarrow> critical (ls j) \<Longrightarrow> i = j"
  by (blast intro: cnt_le1 critical_holds)

lemma cnt_holds_idle [simp]: "cnt N holds (\<lambda>_. Idle p) = 0"
  by (simp add: cnt_0)

sublocale flag_lock \<subseteq> mutex "client_step ops" "\<lambda>_. Idle p0" s0 "\<lambda>_. True" "flag_inv valid free" critical
proof unfold_locales
  fix N ls s i j
  assume "flag_inv valid free N ls s" "i < N" "j < N" "critical (ls i)" "critical (ls j)"
  then show "i = j"
    by (intro cnt_holds_excl [of N ls]) (auto simp: flag_inv_def)
qed (simp add: flag_inv_def init, blast intro: flag_inv_step)

section \<open>Clients of a reader-writer lock\<close>

datatype ('wa, 'wb, 'wc, 'ra, 'rb, 'rc, 'd) rw_client =
  RwIdle | WLock 'wa | WTry 'wb | WCrit | WUnlock 'wc | RLock 'ra | RTry 'rb | RCrit | RUnlock 'rc
  | Downgrade 'd

record ('wa, 'wb, 'wc, 'ra, 'rb, 'rc, 'd, 's) rw_ops =
  wlock_fn :: "'wa \<Rightarrow> 's \<Rightarrow> ('wa, unit) ctl \<times> 's"
  wlock_entry :: 'wa
  wtry_fn :: "'wb \<Rightarrow> 's \<Rightarrow> ('wb, bool) ctl \<times> 's"
  wtry_entry :: "'wb option"
  wunlock_fn :: "'wc \<Rightarrow> 's \<Rightarrow> ('wc, unit) ctl \<times> 's"
  wunlock_entry :: 'wc
  rlock_fn :: "'ra \<Rightarrow> 's \<Rightarrow> ('ra, unit) ctl \<times> 's"
  rlock_entry :: 'ra
  rtry_fn :: "'rb \<Rightarrow> 's \<Rightarrow> ('rb, bool) ctl \<times> 's"
  rtry_entry :: "'rb option"
  runlock_fn :: "'rc \<Rightarrow> 's \<Rightarrow> ('rc, unit) ctl \<times> 's"
  runlock_entry :: 'rc
  downgrade_fn :: "'d \<Rightarrow> 's \<Rightarrow> ('d, unit) ctl \<times> 's"
  downgrade_entry :: "'d option"

text \<open>The place of the downgrade in a lock that has none.\<close>

definition no_downgrade :: "unit \<Rightarrow> 's \<Rightarrow> (unit, unit) ctl \<times> 's" where
  "no_downgrade _ s = (Ret (), s)"

inductive rw_step ::
  "('wa, 'wb, 'wc, 'ra, 'rb, 'rc, 'd, 's) rw_ops \<Rightarrow> nat \<Rightarrow>
     ('wa, 'wb, 'wc, 'ra, 'rb, 'rc, 'd) rw_client \<Rightarrow> 's \<Rightarrow>
     ('wa, 'wb, 'wc, 'ra, 'rb, 'rc, 'd) rw_client \<Rightarrow> 's \<Rightarrow> bool" for ops where
  begin_wlock: "rw_step ops t RwIdle s (WLock (wlock_entry ops)) s"
| wlock_go: "wlock_fn ops a s = (Go a', s') \<Longrightarrow> rw_step ops t (WLock a) s (WLock a') s'"
| wlock_ret: "wlock_fn ops a s = (Ret (), s') \<Longrightarrow> rw_step ops t (WLock a) s WCrit s'"
| begin_wtry: "wtry_entry ops = Some b \<Longrightarrow> rw_step ops t RwIdle s (WTry b) s"
| wtry_go: "wtry_fn ops b s = (Go b', s') \<Longrightarrow> rw_step ops t (WTry b) s (WTry b') s'"
| wtry_ok: "wtry_fn ops b s = (Ret True, s') \<Longrightarrow> rw_step ops t (WTry b) s WCrit s'"
| wtry_fail: "wtry_fn ops b s = (Ret False, s') \<Longrightarrow> rw_step ops t (WTry b) s RwIdle s'"
| begin_wunlock: "rw_step ops t WCrit s (WUnlock (wunlock_entry ops)) s"
| wunlock_go: "wunlock_fn ops c s = (Go c', s') \<Longrightarrow> rw_step ops t (WUnlock c) s (WUnlock c') s'"
| wunlock_ret: "wunlock_fn ops c s = (Ret (), s') \<Longrightarrow> rw_step ops t (WUnlock c) s RwIdle s'"
| begin_rlock: "rw_step ops t RwIdle s (RLock (rlock_entry ops)) s"
| rlock_go: "rlock_fn ops ra s = (Go ra', s') \<Longrightarrow> rw_step ops t (RLock ra) s (RLock ra') s'"
| rlock_ret: "rlock_fn ops ra s = (Ret (), s') \<Longrightarrow> rw_step ops t (RLock ra) s RCrit s'"
| begin_rtry: "rtry_entry ops = Some rb \<Longrightarrow> rw_step ops t RwIdle s (RTry rb) s"
| rtry_go: "rtry_fn ops rb s = (Go rb', s') \<Longrightarrow> rw_step ops t (RTry rb) s (RTry rb') s'"
| rtry_ok: "rtry_fn ops rb s = (Ret True, s') \<Longrightarrow> rw_step ops t (RTry rb) s RCrit s'"
| rtry_fail: "rtry_fn ops rb s = (Ret False, s') \<Longrightarrow> rw_step ops t (RTry rb) s RwIdle s'"
| begin_runlock: "rw_step ops t RCrit s (RUnlock (runlock_entry ops)) s"
| runlock_go: "runlock_fn ops rc s = (Go rc', s') \<Longrightarrow> rw_step ops t (RUnlock rc) s (RUnlock rc') s'"
| runlock_ret: "runlock_fn ops rc s = (Ret (), s') \<Longrightarrow> rw_step ops t (RUnlock rc) s RwIdle s'"
| begin_downgrade: "downgrade_entry ops = Some e \<Longrightarrow> rw_step ops t WCrit s (Downgrade e) s"
| downgrade_go: "downgrade_fn ops e s = (Go e', s') \<Longrightarrow> rw_step ops t (Downgrade e) s (Downgrade e') s'"
| downgrade_ret: "downgrade_fn ops e s = (Ret (), s') \<Longrightarrow> rw_step ops t (Downgrade e) s RCrit s'"

inductive_cases rw_stepE:
  "rw_step ops t RwIdle s l' s'" "rw_step ops t (WLock a) s l' s'" "rw_step ops t (WTry b) s l' s'"
  "rw_step ops t WCrit s l' s'" "rw_step ops t (WUnlock c) s l' s'" "rw_step ops t (RLock ra) s l' s'"
  "rw_step ops t (RTry rb) s l' s'" "rw_step ops t RCrit s l' s'" "rw_step ops t (RUnlock rc) s l' s'"
  "rw_step ops t (Downgrade e) s l' s'"

text \<open>The same scheduler for reader-writer clients: \<open>c\<close> chooses among write lock, read lock, write
  trylock, read trylock for an idle thread, and between unlock and downgrade for a writer.\<close>

fun rw_move :: "('wa, 'wb, 'wc, 'ra, 'rb, 'rc, 'd, 's) rw_ops \<Rightarrow> nat \<Rightarrow>
    ('wa, 'wb, 'wc, 'ra, 'rb, 'rc, 'd) rw_client \<Rightarrow> 's \<Rightarrow>
    ('wa, 'wb, 'wc, 'ra, 'rb, 'rc, 'd) rw_client \<times> 's" where
  "rw_move ops c RwIdle s =
     (case (c, wtry_entry ops, rtry_entry ops) of
        (0, _) \<Rightarrow> (WLock (wlock_entry ops), s)
      | (Suc 0, _) \<Rightarrow> (RLock (rlock_entry ops), s)
      | (Suc (Suc 0), Some b, _) \<Rightarrow> (WTry b, s)
      | (_, _, Some b) \<Rightarrow> (RTry b, s)
      | _ \<Rightarrow> (RLock (rlock_entry ops), s))"
| "rw_move ops c (WLock a) s =
     (case wlock_fn ops a s of (Go a', s') \<Rightarrow> (WLock a', s') | (Ret r, s') \<Rightarrow> (WCrit, s'))"
| "rw_move ops c (WTry b) s =
     (case wtry_fn ops b s of (Go b', s') \<Rightarrow> (WTry b', s')
      | (Ret ok, s') \<Rightarrow> (if ok then WCrit else RwIdle, s'))"
| "rw_move ops c WCrit s =
     (case (c, downgrade_entry ops) of (Suc _, Some e) \<Rightarrow> (Downgrade e, s)
      | _ \<Rightarrow> (WUnlock (wunlock_entry ops), s))"
| "rw_move ops c (WUnlock d) s =
     (case wunlock_fn ops d s of (Go d', s') \<Rightarrow> (WUnlock d', s') | (Ret p, s') \<Rightarrow> (RwIdle, s'))"
| "rw_move ops c (RLock a) s =
     (case rlock_fn ops a s of (Go a', s') \<Rightarrow> (RLock a', s') | (Ret r, s') \<Rightarrow> (RCrit, s'))"
| "rw_move ops c (RTry b) s =
     (case rtry_fn ops b s of (Go b', s') \<Rightarrow> (RTry b', s')
      | (Ret ok, s') \<Rightarrow> (if ok then RCrit else RwIdle, s'))"
| "rw_move ops c RCrit s = (RUnlock (runlock_entry ops), s)"
| "rw_move ops c (RUnlock d) s =
     (case runlock_fn ops d s of (Go d', s') \<Rightarrow> (RUnlock d', s') | (Ret p, s') \<Rightarrow> (RwIdle, s'))"
| "rw_move ops c (Downgrade e) s =
     (case downgrade_fn ops e s of (Go e', s') \<Rightarrow> (Downgrade e', s') | (Ret p, s') \<Rightarrow> (RCrit, s'))"

fun rw_run :: "('wa, 'wb, 'wc, 'ra, 'rb, 'rc, 'd, 's) rw_ops \<Rightarrow> (nat \<times> nat) list \<Rightarrow>
    (nat \<Rightarrow> ('wa, 'wb, 'wc, 'ra, 'rb, 'rc, 'd) rw_client) \<times> 's \<Rightarrow>
    (nat \<Rightarrow> ('wa, 'wb, 'wc, 'ra, 'rb, 'rc, 'd) rw_client) \<times> 's" where
  "rw_run ops [] c = c"
| "rw_run ops ((t, b) # sch) (ls, s) =
     (case rw_move ops b (ls t) s of (l, s') \<Rightarrow> rw_run ops sch (ls(t := l), s'))"

lemma rw_move_step: "rw_move ops c l s = (l', s') \<Longrightarrow> rw_step ops t l s l' s'"
  by (cases l) (auto split: option.splits nat.splits prod.splits ctl.splits if_splits
      intro: rw_step.intros)

lemma rw_run_reachable:
  assumes "list_all (\<lambda>(t, b). t < N) sch" "reachable (rw_step ops) N ls0 s0 ls s"
  shows "reachable (rw_step ops) N ls0 s0 (fst (rw_run ops sch (ls, s))) (snd (rw_run ops sch (ls, s)))"
  using assms
proof (induction sch arbitrary: ls s)
  case (Cons x sch)
  obtain t b where x: "x = (t, b)" by (cases x)
  obtain l' s' where m: "rw_move ops b (ls t) s = (l', s')" by (cases "rw_move ops b (ls t) s")
  have "reachable (rw_step ops) N ls0 s0 (ls(t := l')) s'"
    using Cons.prems x by (intro reachable.move [OF Cons.prems(2)] rw_move_step [OF m]) auto
  with Cons show ?case by (simp add: x m)
qed simp

lemmas rw_run_start = rw_run_reachable [OF _ reachable.start]

text \<open>The critical sections: a thread writes until its unlock has begun, and reads likewise.\<close>

fun writing :: "('wa, 'wb, 'wc, 'ra, 'rb, 'rc, 'd) rw_client \<Rightarrow> bool" where
  "writing WCrit = True"
| "writing _ = False"

fun reading :: "('wa, 'wb, 'wc, 'ra, 'rb, 'rc, 'd) rw_client \<Rightarrow> bool" where
  "reading RCrit = True"
| "reading _ = False"

text \<open>What a reader-writer lock promises to at most \<open>cap\<close> threads.\<close>

definition rw_excludes :: "nat \<Rightarrow> (nat \<Rightarrow> ('wa, 'wb, 'wc, 'ra, 'rb, 'rc, 'd) rw_client \<Rightarrow> 's \<Rightarrow> ('wa, 'wb, 'wc, 'ra, 'rb, 'rc, 'd) rw_client \<Rightarrow> 's \<Rightarrow> bool) \<Rightarrow>
    's \<Rightarrow> bool" where
  "rw_excludes cap step s0 \<longleftrightarrow> (\<forall>N ls s i. N \<le> cap \<longrightarrow> reachable step N (\<lambda>_. RwIdle) s0 ls s \<longrightarrow> i < N \<longrightarrow> writing (ls i) \<longrightarrow>
     {j. j < N \<and> writing (ls j)} = {i} \<and> {j. j < N \<and> reading (ls j)} = {})"

lemma rw_excludesI:
  "(\<And>N ls s i. reachable step N (\<lambda>_. RwIdle) s0 ls s \<Longrightarrow> N \<le> cap \<Longrightarrow> i < N \<Longrightarrow> writing (ls i) \<Longrightarrow>
     {j. j < N \<and> writing (ls j)} = {i} \<and> {j. j < N \<and> reading (ls j)} = {}) \<Longrightarrow> rw_excludes cap step s0"
  unfolding rw_excludes_def by blast

lemma rw_excludesD:
  "rw_excludes cap step s0 \<Longrightarrow> N \<le> cap \<Longrightarrow> reachable step N (\<lambda>_. RwIdle) s0 ls s \<Longrightarrow> i < N \<Longrightarrow> writing (ls i) \<Longrightarrow>
     {j. j < N \<and> writing (ls j)} = {i} \<and> {j. j < N \<and> reading (ls j)} = {}"
  unfolding rw_excludes_def by blast

end
