(* ===== verification/SpinlockBasic.thy ===== *)
theory SpinlockBasic
  imports CkPr Interleave
begin

text \<open>
  The test-and-set spinlocks of \<^verbatim>\<open>ck/spinlock/fas.h\<close>, \<^verbatim>\<open>cas.h\<close> and \<^verbatim>\<open>dec.h\<close> and the back-off of
  \<^verbatim>\<open>ck_backoff.h\<close>. Every function is a step function with one atomic primitive per step; \<open>Go\<close> of the
  same program point is one turn of a spinning loop.
\<close>

section \<open>Back-off\<close>

definition CK_BACKOFF_CEILING :: uint where "CK_BACKOFF_CEILING = push_bit 20 1 - 1"

definition CK_BACKOFF_INITIALIZER :: uint where "CK_BACKOFF_INITIALIZER = push_bit 9 1"

text \<open>\<open>ck_backoff_eb\<close> burns \<open>*c\<close> turns of an empty loop, which no other thread can see, and then doubles
  \<open>*c\<close> while it is below the ceiling.\<close>

definition ck_backoff_eb :: "uint \<Rightarrow> uint" where
  "ck_backoff_eb c = push_bit (if c < CK_BACKOFF_CEILING then 1 else 0) c"

section \<open>Fetch-and-store lock\<close>

record ck_spinlock_fas = fas_value :: uint

definition ck_spinlock_fas_init :: ck_spinlock_fas where
  "ck_spinlock_fas_init = \<lparr>fas_value = 0\<rparr>"

definition ck_spinlock_fas_trylock :: "unit \<Rightarrow> ck_spinlock_fas \<Rightarrow> (unit, bool) ctl \<times> ck_spinlock_fas" where
  "ck_spinlock_fas_trylock _ s =
     (let (v, m) = ck_pr_fas (fas_value s) 1 in (Ret (\<not> v \<noteq> 0), s\<lparr>fas_value := m\<rparr>))"

definition ck_spinlock_fas_locked :: "ck_spinlock_fas \<Rightarrow> bool" where
  "ck_spinlock_fas_locked s \<longleftrightarrow> ck_pr_load (fas_value s) \<noteq> 0"

datatype fas_pc = FasSwap | FasSpin

fun ck_spinlock_fas_lock :: "fas_pc \<Rightarrow> ck_spinlock_fas \<Rightarrow> (fas_pc, unit) ctl \<times> ck_spinlock_fas" where
  "ck_spinlock_fas_lock FasSwap s =
     (let (v, m) = ck_pr_fas (fas_value s) 1
      in (if v = 1 then Go FasSpin else Ret (), s\<lparr>fas_value := m\<rparr>))"
| "ck_spinlock_fas_lock FasSpin s =
     (if ck_pr_load (fas_value s) = 1 then Go FasSpin else Go FasSwap, s)"

fun ck_spinlock_fas_lock_eb :: "uint \<Rightarrow> ck_spinlock_fas \<Rightarrow> (uint, unit) ctl \<times> ck_spinlock_fas" where
  "ck_spinlock_fas_lock_eb backoff s =
     (let (v, m) = ck_pr_fas (fas_value s) 1
      in (if v = 1 then Go (ck_backoff_eb backoff) else Ret (), s\<lparr>fas_value := m\<rparr>))"

definition ck_spinlock_fas_unlock :: "unit \<Rightarrow> ck_spinlock_fas \<Rightarrow> (unit, unit) ctl \<times> ck_spinlock_fas" where
  "ck_spinlock_fas_unlock _ s = (Ret (), s\<lparr>fas_value := ck_pr_store (fas_value s) 0\<rparr>)"

definition fas_ops :: "(unit, fas_pc, unit, unit, unit, ck_spinlock_fas) lock_ops" where
  "fas_ops = \<lparr>lock_fn = ck_spinlock_fas_lock, lock_entry = \<lambda>_. FasSwap,
     try_fn = ck_spinlock_fas_trylock, try_entry = \<lambda>_. Some (), try_result = \<lambda>_. (),
     unlock_fn = ck_spinlock_fas_unlock, unlock_entry = \<lambda>_. ()\<rparr>"

definition fas_eb_ops :: "(unit, uint, unit, unit, unit, ck_spinlock_fas) lock_ops" where
  "fas_eb_ops = \<lparr>lock_fn = ck_spinlock_fas_lock_eb, lock_entry = \<lambda>_. CK_BACKOFF_INITIALIZER,
     try_fn = ck_spinlock_fas_trylock, try_entry = \<lambda>_. Some (), try_result = \<lambda>_. (),
     unlock_fn = ck_spinlock_fas_unlock, unlock_entry = \<lambda>_. ()\<rparr>"

section \<open>Compare-and-swap lock\<close>

record ck_spinlock_cas = cas_value :: uint

definition ck_spinlock_cas_init :: ck_spinlock_cas where
  "ck_spinlock_cas_init = \<lparr>cas_value = 0\<rparr>"

definition ck_spinlock_cas_trylock :: "unit \<Rightarrow> ck_spinlock_cas \<Rightarrow> (unit, bool) ctl \<times> ck_spinlock_cas" where
  "ck_spinlock_cas_trylock _ s =
     (let (v, m) = ck_pr_fas (cas_value s) 1 in (Ret (\<not> v \<noteq> 0), s\<lparr>cas_value := m\<rparr>))"

definition ck_spinlock_cas_locked :: "ck_spinlock_cas \<Rightarrow> bool" where
  "ck_spinlock_cas_locked s \<longleftrightarrow> ck_pr_load (cas_value s) \<noteq> 0"

datatype cas_lock_pc = CasSwap | CasSpin

fun ck_spinlock_cas_lock :: "cas_lock_pc \<Rightarrow> ck_spinlock_cas \<Rightarrow> (cas_lock_pc, unit) ctl \<times> ck_spinlock_cas" where
  "ck_spinlock_cas_lock CasSwap s =
     (let (ok, m) = ck_pr_cas (cas_value s) 0 1
      in (if \<not> ok then Go CasSpin else Ret (), s\<lparr>cas_value := m\<rparr>))"
| "ck_spinlock_cas_lock CasSpin s =
     (if ck_pr_load (cas_value s) = 1 then Go CasSpin else Go CasSwap, s)"

fun ck_spinlock_cas_lock_eb :: "uint \<Rightarrow> ck_spinlock_cas \<Rightarrow> (uint, unit) ctl \<times> ck_spinlock_cas" where
  "ck_spinlock_cas_lock_eb backoff s =
     (let (ok, m) = ck_pr_cas (cas_value s) 0 1
      in (if \<not> ok then Go (ck_backoff_eb backoff) else Ret (), s\<lparr>cas_value := m\<rparr>))"

definition ck_spinlock_cas_unlock :: "unit \<Rightarrow> ck_spinlock_cas \<Rightarrow> (unit, unit) ctl \<times> ck_spinlock_cas" where
  "ck_spinlock_cas_unlock _ s = (Ret (), s\<lparr>cas_value := ck_pr_store (cas_value s) 0\<rparr>)"

definition cas_ops :: "(unit, cas_lock_pc, unit, unit, unit, ck_spinlock_cas) lock_ops" where
  "cas_ops = \<lparr>lock_fn = ck_spinlock_cas_lock, lock_entry = \<lambda>_. CasSwap,
     try_fn = ck_spinlock_cas_trylock, try_entry = \<lambda>_. Some (), try_result = \<lambda>_. (),
     unlock_fn = ck_spinlock_cas_unlock, unlock_entry = \<lambda>_. ()\<rparr>"

definition cas_eb_ops :: "(unit, uint, unit, unit, unit, ck_spinlock_cas) lock_ops" where
  "cas_eb_ops = \<lparr>lock_fn = ck_spinlock_cas_lock_eb, lock_entry = \<lambda>_. CK_BACKOFF_INITIALIZER,
     try_fn = ck_spinlock_cas_trylock, try_entry = \<lambda>_. Some (), try_result = \<lambda>_. (),
     unlock_fn = ck_spinlock_cas_unlock, unlock_entry = \<lambda>_. ()\<rparr>"

section \<open>Decrement lock\<close>

record ck_spinlock_dec = dec_value :: uint

definition ck_spinlock_dec_init :: ck_spinlock_dec where
  "ck_spinlock_dec_init = \<lparr>dec_value = 1\<rparr>"

definition ck_spinlock_dec_trylock :: "unit \<Rightarrow> ck_spinlock_dec \<Rightarrow> (unit, bool) ctl \<times> ck_spinlock_dec" where
  "ck_spinlock_dec_trylock _ s =
     (let (v, m) = ck_pr_fas (dec_value s) 0 in (Ret (v = 1), s\<lparr>dec_value := m\<rparr>))"

definition ck_spinlock_dec_locked :: "ck_spinlock_dec \<Rightarrow> bool" where
  "ck_spinlock_dec_locked s \<longleftrightarrow> ck_pr_load (dec_value s) \<noteq> 1"

datatype dec_pc = DecTake | DecSpin

fun ck_spinlock_dec_lock :: "dec_pc \<Rightarrow> ck_spinlock_dec \<Rightarrow> (dec_pc, unit) ctl \<times> ck_spinlock_dec" where
  "ck_spinlock_dec_lock DecTake s =
     (let (r, m) = ck_pr_dec_zero (dec_value s)
      in (if r then Ret () else Go DecSpin, s\<lparr>dec_value := m\<rparr>))"
| "ck_spinlock_dec_lock DecSpin s =
     (if ck_pr_load (dec_value s) \<noteq> 1 then Go DecSpin else Go DecTake, s)"

datatype dec_eb_pc = DecEbTake uint | DecEbSpin uint

fun ck_spinlock_dec_lock_eb :: "dec_eb_pc \<Rightarrow> ck_spinlock_dec \<Rightarrow> (dec_eb_pc, unit) ctl \<times> ck_spinlock_dec" where
  "ck_spinlock_dec_lock_eb (DecEbTake backoff) s =
     (let (r, m) = ck_pr_dec_zero (dec_value s)
      in (if r then Ret () else Go (DecEbSpin backoff), s\<lparr>dec_value := m\<rparr>))"
| "ck_spinlock_dec_lock_eb (DecEbSpin backoff) s =
     (if ck_pr_load (dec_value s) \<noteq> 1 then Go (DecEbSpin (ck_backoff_eb backoff))
      else Go (DecEbTake backoff), s)"

definition ck_spinlock_dec_unlock :: "unit \<Rightarrow> ck_spinlock_dec \<Rightarrow> (unit, unit) ctl \<times> ck_spinlock_dec" where
  "ck_spinlock_dec_unlock _ s = (Ret (), s\<lparr>dec_value := ck_pr_store (dec_value s) 1\<rparr>)"

definition dec_ops :: "(unit, dec_pc, unit, unit, unit, ck_spinlock_dec) lock_ops" where
  "dec_ops = \<lparr>lock_fn = ck_spinlock_dec_lock, lock_entry = \<lambda>_. DecTake,
     try_fn = ck_spinlock_dec_trylock, try_entry = \<lambda>_. Some (), try_result = \<lambda>_. (),
     unlock_fn = ck_spinlock_dec_unlock, unlock_entry = \<lambda>_. ()\<rparr>"

definition dec_eb_ops :: "(unit, dec_eb_pc, unit, unit, unit, ck_spinlock_dec) lock_ops" where
  "dec_eb_ops = \<lparr>lock_fn = ck_spinlock_dec_lock_eb, lock_entry = \<lambda>_. DecEbTake CK_BACKOFF_INITIALIZER,
     try_fn = ck_spinlock_dec_trylock, try_entry = \<lambda>_. Some (), try_result = \<lambda>_. (),
     unlock_fn = ck_spinlock_dec_unlock, unlock_entry = \<lambda>_. ()\<rparr>"

section \<open>Exclusion\<close>

lemmas fas_defs = fas_ops_def fas_eb_ops_def ck_spinlock_fas_trylock_def ck_spinlock_fas_unlock_def
  ck_spinlock_fas_init_def
lemmas cas_defs = cas_ops_def cas_eb_ops_def ck_spinlock_cas_trylock_def ck_spinlock_cas_unlock_def
  ck_spinlock_cas_init_def
lemmas dec_defs = dec_ops_def dec_eb_ops_def ck_spinlock_dec_trylock_def ck_spinlock_dec_unlock_def
  ck_spinlock_dec_init_def

fun_cases fas_lockE: "ck_spinlock_fas_lock a s = (x, s')"
fun_cases cas_lockE: "ck_spinlock_cas_lock a s = (x, s')"
fun_cases dec_lockE: "ck_spinlock_dec_lock a s = (x, s')"
fun_cases dec_lock_ebE: "ck_spinlock_dec_lock_eb a s = (x, s')"

abbreviation fas_valid :: "ck_spinlock_fas \<Rightarrow> bool" where
  "fas_valid s \<equiv> fas_value s \<in> {0, 1}"

abbreviation cas_valid :: "ck_spinlock_cas \<Rightarrow> bool" where
  "cas_valid s \<equiv> cas_value s \<in> {0, 1}"

interpretation fas_lock: flag_lock fas_ops "()" ck_spinlock_fas_init fas_valid "\<lambda>s. fas_value s = 0"
  by unfold_locales (auto simp: fas_defs pr_simps elim!: fas_lockE split: if_splits)

interpretation fas_eb_lock: flag_lock fas_eb_ops "()" ck_spinlock_fas_init fas_valid "\<lambda>s. fas_value s = 0"
  by unfold_locales (auto simp: fas_defs pr_simps split: if_splits)

interpretation cas_lock: flag_lock cas_ops "()" ck_spinlock_cas_init cas_valid "\<lambda>s. cas_value s = 0"
  by unfold_locales (auto simp: cas_defs pr_simps elim!: cas_lockE split: if_splits)

interpretation cas_eb_lock: flag_lock cas_eb_ops "()" ck_spinlock_cas_init cas_valid "\<lambda>s. cas_value s = 0"
  by unfold_locales (auto simp: cas_defs pr_simps split: if_splits)


section \<open>The decrement lock\<close>

text \<open>Free, the word is 1. Held, it is minus the number of decrements that failed since the lock was
  taken, and each of those was made by a thread that now spins: a thread decrements again only after
  it has read 1. Fewer than \<open>2\<^sup>3\<^sup>2\<close> threads cannot bring the word back to 1.\<close>

definition spins :: "('a \<Rightarrow> bool) \<Rightarrow> ('p, 'a, 'b, 'r, 'c) client \<Rightarrow> bool" where
  "spins P l = (case l of Acquiring a \<Rightarrow> P a | _ \<Rightarrow> False)"

definition dec_inv :: "('a \<Rightarrow> bool) \<Rightarrow> nat \<Rightarrow> (nat \<Rightarrow> ('p, 'a, 'b, 'r, 'c) client) \<Rightarrow> ck_spinlock_dec \<Rightarrow> bool" where
  "dec_inv P N ls s \<longleftrightarrow>
     cnt N holds ls = 0 \<and> dec_value s = 1 \<or>
     cnt N holds ls = 1 \<and> (\<exists>k \<le> cnt N (spins P) ls. dec_value s = - of_nat k)"

lemma spins_simps [simp]:
  "spins P (Acquiring a) = P a" "\<not> spins P (Idle p)" "\<not> spins P (Trying p b)"
  "\<not> spins P (Critical r)" "\<not> spins P (Releasing c)"
  by (simp_all add: spins_def)

lemma minus_of_nat_neq_1: "k < 2 ^ 32 - 1 \<Longrightarrow> - of_nat k \<noteq> (1 :: uint)"
proof
  assume k: "k < 2 ^ 32 - 1" and "- of_nat k = (1 :: uint)"
  then have "of_nat (Suc k) = (0 :: uint)" by (metis add.commute add.right_inverse neg_eq_iff_add_eq_0 of_nat_Suc)
  then have "2 ^ 32 dvd Suc k" by (subst (asm) word_of_nat_eq_0_iff) simp
  with k show False by (auto dest: dvd_imp_le)
qed

lemma held_neq_1:
  assumes "N < 2 ^ 32" "cnt N holds ls = 1" "k \<le> cnt N (spins P) ls"
  shows "- of_nat k \<noteq> (1 :: uint)"
proof -
  from assms(2) obtain t where "t < N" "holds (ls t)" by (metis cnt_0 zero_neq_one)
  then have "cnt N (spins P) ls < N" by (intro cnt_lt [of t]) (auto simp: spins_def split: client.splits)
  with assms show ?thesis by (intro minus_of_nat_neq_1) simp
qed

lemma dec_inv_keep:
  assumes "dec_inv P N ls s" "t < N" "holds l' = holds (ls t)" "spins P (ls t) \<longrightarrow> spins P l' \<or> cnt N holds ls = 0"
    and "dec_value s' = dec_value s"
  shows "dec_inv P N (ls(t := l')) s'"
proof -
  have h: "cnt N holds (ls(t := l')) = cnt N holds ls" using assms(2,3) by simp
  have le: "cnt N holds ls \<noteq> 0 \<Longrightarrow> cnt N (spins P) ls \<le> cnt N (spins P) (ls(t := l'))"
    using assms(2,4) cnt_upd [of t N "spins P" ls l'] by (cases "spins P (ls t)") auto
  show ?thesis
  proof (cases "cnt N holds ls = 0")
    case True
    with assms(1,5) h show ?thesis by (simp add: dec_inv_def)
  next
    case False
    with assms(1) obtain k where "cnt N holds ls = 1" "k \<le> cnt N (spins P) ls" "dec_value s = - of_nat k"
      by (auto simp: dec_inv_def)
    with le [OF False] h assms(5) show ?thesis unfolding dec_inv_def by (intro disjI2 conjI exI [of _ k]) auto
  qed
qed

lemma dec_inv_take:
  "dec_inv P N ls s \<Longrightarrow> t < N \<Longrightarrow> \<not> holds (ls t) \<Longrightarrow> holds l' \<Longrightarrow> cnt N holds ls = 0 \<Longrightarrow> dec_value s' = 0 \<Longrightarrow>
     dec_inv P N (ls(t := l')) s'"
  by (auto simp: dec_inv_def intro: exI [of _ 0])

lemma dec_inv_fail:
  assumes "dec_inv P N ls s" "t < N" "\<not> holds (ls t)" "\<not> spins P (ls t)" "\<not> holds l'" "cnt N holds ls = 1"
    and "dec_value s' = 0 \<or> dec_value s' = dec_value s - 1 \<and> spins P l'"
  shows "dec_inv P N (ls(t := l')) s'"
proof -
  obtain k where k: "k \<le> cnt N (spins P) ls" "dec_value s = - of_nat k" using assms(1,6) by (auto simp: dec_inv_def)
  have h: "cnt N holds (ls(t := l')) = 1" using assms by simp
  show ?thesis
  proof (cases "dec_value s' = 0")
    case True
    with h show ?thesis by (auto simp: dec_inv_def intro: exI [of _ 0])
  next
    case False
    with assms(7) have "dec_value s' = - of_nat (Suc k)" "spins P l'" by (auto simp: k(2))
    moreover have "Suc k \<le> cnt N (spins P) (ls(t := l'))" using k(1) assms(2,4) calculation(2) by simp
    ultimately show ?thesis using h unfolding dec_inv_def by blast
  qed
qed

lemma dec_inv_release:
  "dec_inv P N ls s \<Longrightarrow> t < N \<Longrightarrow> holds (ls t) \<Longrightarrow> \<not> holds l' \<Longrightarrow> dec_value s' = 1 \<Longrightarrow>
     dec_inv P N (ls(t := l')) s'"
  using cnt_pos [of t N holds ls] by (auto simp: dec_inv_def)

lemma dec_inv_held:
  assumes "N < 2 ^ 32" "dec_inv P N ls s"
  shows "dec_value s = 1 \<longleftrightarrow> cnt N holds ls = 0" "dec_value s \<noteq> 1 \<longleftrightarrow> cnt N holds ls = 1"
  using assms held_neq_1 [of N ls _ P] by (auto simp: dec_inv_def)

text \<open>What the two acquisition functions of the decrement lock share: a step takes the lock at 1,
  counts a failure and starts to spin, or changes nothing and leaves the spinning only at 1.\<close>

locale dec_style =
  fixes ops :: "(unit, 'a, unit, unit, unit, ck_spinlock_dec) lock_ops" and P :: "'a \<Rightarrow> bool"
  assumes lock_cases: "lock_fn ops a s = (x, s') \<Longrightarrow>
      x = Ret () \<and> dec_value s = 1 \<and> dec_value s' = 0 \<or>
      (\<exists>a'. x = Go a' \<and> dec_value s \<noteq> 1 \<and> \<not> P a \<and> P a' \<and> dec_value s' = dec_value s - 1) \<or>
      (\<exists>a'. x = Go a' \<and> dec_value s' = dec_value s \<and> (P a \<longrightarrow> P a' \<or> dec_value s = 1))"
    and ops_eqs: "try_fn ops = ck_spinlock_dec_trylock" "unlock_fn ops = ck_spinlock_dec_unlock"

context dec_style begin

lemma step_inv:
  assumes N: "N < 2 ^ 32" and inv: "dec_inv P N ls s" and t: "t < N"
    and st: "client_step ops t (ls t) s l' s'"
  shows "dec_inv P N (ls(t := l')) s'"
proof -
  note keep = dec_inv_keep [OF inv t] and take = dec_inv_take [OF inv t] and fail = dec_inv_fail [OF inv t]
    and release = dec_inv_release [OF inv t] and held = dec_inv_held [OF N inv]
  from st show ?thesis
  proof (cases rule: client_step.cases)
    case (lock_go a a')
    from lock_cases [OF lock_go(3)] show ?thesis using held lock_go(1,2) by (auto intro: keep fail)
  next
    case (lock_ret a r)
    from lock_cases [OF lock_ret(3)] show ?thesis using held lock_ret(1,2) by (auto intro: take)
  next
    case (try_ok b p)
    then show ?thesis using held by (auto simp: ops_eqs dec_defs pr_simps intro!: take)
  next
    case (try_fail b p)
    then show ?thesis using held by (auto simp: ops_eqs dec_defs pr_simps intro!: fail)
  next
    case (unlock_ret c p)
    then show ?thesis by (auto simp: ops_eqs dec_defs pr_simps intro!: release)
  qed (auto simp: ops_eqs dec_defs pr_simps intro!: keep)
qed

end

sublocale dec_style \<subseteq> mutex "client_step ops" "\<lambda>_. Idle ()" ck_spinlock_dec_init
  "\<lambda>N. N < 2 ^ 32" "dec_inv P" critical
proof unfold_locales
  fix N ls s i j
  assume "dec_inv P N ls s" "i < N" "j < N" "critical (ls i)" "critical (ls j)"
  then show "i = j" by (intro cnt_holds_excl [of N ls]) (auto simp: dec_inv_def)
qed (simp add: dec_inv_def ck_spinlock_dec_init_def, blast intro: step_inv)

interpretation dec_lock: dec_style dec_ops "(=) DecSpin"
  by unfold_locales (auto simp: dec_ops_def pr_simps elim!: dec_lockE split: if_splits)

interpretation dec_eb_lock: dec_style dec_eb_ops "\<lambda>a. \<exists>b. a = DecEbSpin b"
  by unfold_locales (auto simp: dec_eb_ops_def pr_simps elim!: dec_lock_ebE split: if_splits)

section \<open>Properties\<close>

text \<open>Mutual exclusion of the fetch-and-store lock. In every state that any number of threads
  can reach by interleaving the atomic steps of lock, trylock and unlock on an initialised lock, at
  most one thread is in its critical section, and \<open>ck_spinlock_fas_locked\<close> is true while one is.\<close>

theorem fas_mutual_exclusion:
  assumes "reachable (client_step fas_ops) N (\<lambda>_. Idle ()) ck_spinlock_fas_init ls s"
    and "i < N" "critical (ls i)"
  shows "{j. j < N \<and> critical (ls j)} = {i} \<and> ck_spinlock_fas_locked s"
proof -
  have "flag_inv fas_valid (\<lambda>s. fas_value s = 0) N ls s" using fas_lock.reachable_inv [OF assms(1)] by simp
  moreover have "0 < cnt N holds ls" using assms(2,3) by (intro cnt_pos critical_holds)
  ultimately have "fas_value s \<noteq> 0" by (auto simp: flag_inv_def)
  then show ?thesis using fas_lock.critical_alone [OF assms(1)] assms(2,3)
    by (auto simp: ck_spinlock_fas_locked_def pr_simps)
qed

definition fas_ex :: "(nat \<Rightarrow> (unit, fas_pc, unit, unit, unit) client) \<times> ck_spinlock_fas" where
  "fas_ex = client_run fas_ops [(1, False), (0, False), (1, False), (0, False), (0, False)]
     (\<lambda>_. Idle (), ck_spinlock_fas_init)"

theorem fas_mutual_exclusion_witness:
  "{j. j < 2 \<and> critical (fst fas_ex j)} = {1} \<and> ck_spinlock_fas_locked (snd fas_ex)"
  unfolding fas_ex_def
  by (rule fas_mutual_exclusion [OF client_run_start]) (simp, simp, code_simp)

text \<open>Mutual exclusion of the compare-and-swap lock: while a thread is in its critical section no
  other is, and \<open>ck_spinlock_cas_locked\<close> answers true. This is the acquisition with back-off; the plain
  one has the same contract.\<close>

theorem cas_mutual_exclusion:
  assumes "reachable (client_step cas_eb_ops) N (\<lambda>_. Idle ()) ck_spinlock_cas_init ls s"
    and "i < N" "critical (ls i)"
  shows "{j. j < N \<and> critical (ls j)} = {i} \<and> ck_spinlock_cas_locked s"
proof -
  have "flag_inv cas_valid (\<lambda>s. cas_value s = 0) N ls s" using cas_eb_lock.reachable_inv [OF assms(1)] by simp
  moreover have "0 < cnt N holds ls" using assms(2,3) by (intro cnt_pos critical_holds)
  ultimately have "cas_value s \<noteq> 0" by (auto simp: flag_inv_def)
  then show ?thesis using cas_eb_lock.critical_alone [OF assms(1)] assms(2,3)
    by (auto simp: ck_spinlock_cas_locked_def pr_simps)
qed

definition cas_ex :: "(nat \<Rightarrow> (unit, uint, unit, unit, unit) client) \<times> ck_spinlock_cas" where
  "cas_ex = client_run cas_eb_ops [(1, False), (0, False), (1, False), (0, False), (0, False)]
     (\<lambda>_. Idle (), ck_spinlock_cas_init)"

theorem cas_mutual_exclusion_witness:
  "{j. j < 2 \<and> critical (fst cas_ex j)} = {1} \<and> ck_spinlock_cas_locked (snd cas_ex)"
  unfolding cas_ex_def
  by (rule cas_mutual_exclusion [OF client_run_start]) (simp, simp, code_simp)

text \<open>Mutual exclusion of the decrement lock for fewer than \<open>2\<^sup>3\<^sup>2\<close> threads, the bound its
  comment names: the waiting threads decrement the word at most once each while the lock is held, so
  it cannot wrap around to 1.\<close>

theorem dec_mutual_exclusion:
  assumes "reachable (client_step dec_ops) N (\<lambda>_. Idle ()) ck_spinlock_dec_init ls s"
    and "N < 2 ^ 32" "i < N" "critical (ls i)"
  shows "{j. j < N \<and> critical (ls j)} = {i} \<and> ck_spinlock_dec_locked s"
proof -
  have inv: "dec_inv ((=) DecSpin) N ls s" using dec_lock.reachable_inv [OF assms(1,2)] .
  have "0 < cnt N holds ls" using assms(3,4) by (intro cnt_pos critical_holds)
  with dec_inv_held [OF assms(2) inv] show ?thesis
    using dec_lock.critical_alone [OF assms(1,2)] assms(3,4)
    by (auto simp: ck_spinlock_dec_locked_def pr_simps)
qed

definition dec_ex :: "(nat \<Rightarrow> (unit, dec_pc, unit, unit, unit) client) \<times> ck_spinlock_dec" where
  "dec_ex = client_run dec_ops [(1, False), (0, False), (1, False), (0, False), (0, False)]
     (\<lambda>_. Idle (), ck_spinlock_dec_init)"

theorem dec_mutual_exclusion_witness:
  "{j. j < 2 \<and> critical (fst dec_ex j)} = {1} \<and> ck_spinlock_dec_locked (snd dec_ex)"
  unfolding dec_ex_def
  by (rule dec_mutual_exclusion [OF client_run_start]) (simp, simp, simp, code_simp)

text \<open>When an acquisition returns: run alone, \<open>ck_spinlock_fas_lock\<close> returns if and only if the
  lock word is not 1, then with the lock taken; on a taken lock it spins for any amount of fuel.
  \<open>ck_spinlock_fas_unlock\<close> always returns and makes the next acquisition succeed.\<close>

theorem fas_lock_returns:
  "(fas_value s \<noteq> 1 \<longrightarrow> run_solo 1 ck_spinlock_fas_lock FasSwap s = Some ((), s\<lparr>fas_value := 1\<rparr>)) \<and>
   (fas_value s = 1 \<longrightarrow> run_solo n ck_spinlock_fas_lock FasSwap s = None) \<and>
   (\<exists>s'. ck_spinlock_fas_unlock () s = (Ret (), s') \<and>
      run_solo 1 ck_spinlock_fas_lock FasSwap s' = Some ((), s'\<lparr>fas_value := 1\<rparr>))"
proof -
  have spin: "fas_value s = 1 \<Longrightarrow> run_solo n ck_spinlock_fas_lock FasSpin s = None" for n and s :: ck_spinlock_fas
    by (induction n) (simp_all add: pr_simps)
  have "fas_value s = 1 \<Longrightarrow> run_solo n ck_spinlock_fas_lock FasSwap s = None"
    using spin [of "s\<lparr>fas_value := 1\<rparr>" "n - 1"] by (cases n) (simp_all add: pr_simps)
  then show ?thesis by (simp add: ck_spinlock_fas_unlock_def pr_simps)
qed

theorem fas_lock_returns_witness:
  "run_solo 1 ck_spinlock_fas_lock FasSwap ck_spinlock_fas_init = Some ((), \<lparr>fas_value = 1\<rparr>)"
  using fas_lock_returns [of ck_spinlock_fas_init] by (simp add: ck_spinlock_fas_init_def)

end
