(* ===== verification/QueueClients.thy ===== *)
theory QueueClients
  imports Interleave
begin

text \<open>
  Threads that share a queue: producers and consumers that interleave at the atomic steps of the
  enqueue and dequeue functions. The state carries two logs, the values whose enqueue has returned
  true and the values that dequeues have returned, each in the order of the returns. The locale
  \<open>fifo_system\<close> says what an invariant has to give for the queue to be first-in first-out.
\<close>

record ('e, 'd, 'v, 's) queue_ops =
  enq_fn :: "'v \<Rightarrow> 'e \<Rightarrow> 's \<Rightarrow> ('e, bool) ctl \<times> 's"
  enq_entry :: 'e
  enq_role :: "nat \<Rightarrow> bool"
  deq_fn :: "'d \<Rightarrow> 's \<Rightarrow> ('d, 'v option) ctl \<times> 's"
  deq_entry :: 'd
  deq_role :: "nat \<Rightarrow> bool"

datatype ('e, 'd, 'v) queue_client = QIdle | Enqueueing 'v 'e | Dequeueing 'd

inductive queue_step ::
  "('e, 'd, 'v, 's) queue_ops \<Rightarrow> nat \<Rightarrow> ('e, 'd, 'v) queue_client \<Rightarrow> 's \<times> 'v list \<times> 'v list \<Rightarrow>
     ('e, 'd, 'v) queue_client \<Rightarrow> 's \<times> 'v list \<times> 'v list \<Rightarrow> bool" for ops where
  begin_enq: "enq_role ops t \<Longrightarrow> queue_step ops t QIdle s (Enqueueing v (enq_entry ops)) s"
| enq_go: "enq_fn ops v e m = (Go e', m') \<Longrightarrow>
    queue_step ops t (Enqueueing v e) (m, ins, outs) (Enqueueing v e') (m', ins, outs)"
| enq_ok: "enq_fn ops v e m = (Ret True, m') \<Longrightarrow>
    queue_step ops t (Enqueueing v e) (m, ins, outs) QIdle (m', ins @ [v], outs)"
| enq_full: "enq_fn ops v e m = (Ret False, m') \<Longrightarrow>
    queue_step ops t (Enqueueing v e) (m, ins, outs) QIdle (m', ins, outs)"
| begin_deq: "deq_role ops t \<Longrightarrow> queue_step ops t QIdle s (Dequeueing (deq_entry ops)) s"
| deq_go: "deq_fn ops d m = (Go d', m') \<Longrightarrow>
    queue_step ops t (Dequeueing d) (m, ins, outs) (Dequeueing d') (m', ins, outs)"
| deq_ok: "deq_fn ops d m = (Ret (Some v), m') \<Longrightarrow>
    queue_step ops t (Dequeueing d) (m, ins, outs) QIdle (m', ins, outs @ [v])"
| deq_empty: "deq_fn ops d m = (Ret None, m') \<Longrightarrow>
    queue_step ops t (Dequeueing d) (m, ins, outs) QIdle (m', ins, outs)"

text \<open>An executable scheduler: each entry names the thread that moves and, for an idle thread, the value
  to enqueue or \<open>None\<close> to dequeue. A thread without the role stays where it is.\<close>

fun queue_move :: "('e, 'd, 'v, 's) queue_ops \<Rightarrow> nat \<Rightarrow> 'v option \<Rightarrow> ('e, 'd, 'v) queue_client \<Rightarrow>
    's \<times> 'v list \<times> 'v list \<Rightarrow> (('e, 'd, 'v) queue_client \<times> 's \<times> 'v list \<times> 'v list) option" where
  "queue_move ops t (Some v) QIdle s =
     (if enq_role ops t then Some (Enqueueing v (enq_entry ops), s) else None)"
| "queue_move ops t None QIdle s =
     (if deq_role ops t then Some (Dequeueing (deq_entry ops), s) else None)"
| "queue_move ops t c (Enqueueing v e) (m, ins, outs) =
     Some (case enq_fn ops v e m of
         (Go e', m') \<Rightarrow> (Enqueueing v e', m', ins, outs)
       | (Ret r, m') \<Rightarrow> (QIdle, m', if r then ins @ [v] else ins, outs))"
| "queue_move ops t c (Dequeueing d) (m, ins, outs) =
     Some (case deq_fn ops d m of
         (Go d', m') \<Rightarrow> (Dequeueing d', m', ins, outs)
       | (Ret (Some v), m') \<Rightarrow> (QIdle, m', ins, outs @ [v])
       | (Ret None, m') \<Rightarrow> (QIdle, m', ins, outs))"

fun queue_run :: "('e, 'd, 'v, 's) queue_ops \<Rightarrow> (nat \<times> 'v option) list \<Rightarrow>
    (nat \<Rightarrow> ('e, 'd, 'v) queue_client) \<times> 's \<times> 'v list \<times> 'v list \<Rightarrow>
    (nat \<Rightarrow> ('e, 'd, 'v) queue_client) \<times> 's \<times> 'v list \<times> 'v list" where
  "queue_run ops [] c = c"
| "queue_run ops ((t, c) # sch) (ls, s) =
     (case queue_move ops t c (ls t) s of
        None \<Rightarrow> queue_run ops sch (ls, s)
      | Some (l, s') \<Rightarrow> queue_run ops sch (ls(t := l), s'))"

lemma queue_move_step: "queue_move ops t c l s = Some (l', s') \<Longrightarrow> queue_step ops t l s l' s'"
  by (cases "(ops, t, c, l, s)" rule: queue_move.cases)
     (auto split: option.splits prod.splits ctl.splits if_splits intro: queue_step.intros)

lemma queue_run_reachable:
  assumes "list_all (\<lambda>(t, c). t < N) sch" "reachable (queue_step ops) N ls0 s0 ls s"
  shows "reachable (queue_step ops) N ls0 s0 (fst (queue_run ops sch (ls, s))) (snd (queue_run ops sch (ls, s)))"
  using assms
proof (induction sch arbitrary: ls s)
  case (Cons x sch)
  obtain t c where x: "x = (t, c)" by (cases x)
  show ?case
  proof (cases "queue_move ops t c (ls t) s")
    case None
    with Cons show ?thesis by (simp add: x)
  next
    case (Some r)
    obtain l' s' where r: "r = (l', s')" by (cases r) auto
    have "reachable (queue_step ops) N ls0 s0 (ls(t := l')) s'"
      using Cons.prems x Some r by (intro reachable.move [OF Cons.prems(2)] queue_move_step) auto
    with Cons Some show ?thesis by (simp add: x r)
  qed
qed simp

lemmas queue_run_start = queue_run_reachable [OF _ reachable.start]

lemma queue_run_logs:
  assumes "x = queue_run ops sch (ls0, s0)" "list_all (\<lambda>(t, c). t < N) sch"
    and "fst (snd (snd x)) = ins" "snd (snd (snd x)) = outs"
  shows "reachable (queue_step ops) N ls0 s0 (fst x) (fst (snd x), ins, outs)"
  using queue_run_start [OF assms(2), of ops ls0 s0] assms by (metis prod.collapse)

text \<open>The contract of a shared queue, started in a state that satisfies \<open>start\<close>: as long as the log of insertions is \<open>small\<close> (for counters that
  wrap around), the invariant holds and the insertions are the removals followed by the contents.\<close>

locale fifo_system =
  fixes ops :: "('e, 'd, 'v, 's) queue_ops" and start :: "'s \<Rightarrow> bool" and small :: "'v list \<Rightarrow> bool"
    and inv :: "(nat \<Rightarrow> ('e, 'd, 'v) queue_client) \<Rightarrow> 's \<Rightarrow> 'v list \<Rightarrow> 'v list \<Rightarrow> bool"
    and abs :: "'s \<Rightarrow> 'v list"
  assumes inv_start: "start m0 \<Longrightarrow> inv (\<lambda>_. QIdle) m0 [] []"
    and inv_step: "small ins' \<Longrightarrow> inv ls m ins outs \<Longrightarrow>
      queue_step ops t (ls t) (m, ins, outs) l' (m', ins', outs') \<Longrightarrow> inv (ls(t := l')) m' ins' outs'"
    and inv_abs: "small ins \<Longrightarrow> inv ls m ins outs \<Longrightarrow> ins = outs @ abs m"
    and small_prefix: "small (ins @ [v]) \<Longrightarrow> small ins"

context fifo_system begin

lemma reachable_inv:
  "reachable (queue_step ops) N (\<lambda>_. QIdle) (m0, [], []) ls s \<Longrightarrow> start m0 \<Longrightarrow> small (fst (snd s)) \<Longrightarrow>
     inv ls (fst s) (fst (snd s)) (snd (snd s))"
proof (induction rule: reachable.induct)
  case start
  then show ?case by (simp add: inv_start)
next
  case (move ls s t l' s')
  obtain m ins outs m' ins' outs' where s: "s = (m, ins, outs)" "s' = (m', ins', outs')"
    by (metis surj_pair)
  have "ins' = ins \<or> (\<exists>v. ins' = ins @ [v])"
    using move.hyps(3) by (cases rule: queue_step.cases) (auto simp: s)
  then have "small ins" using move.prems small_prefix by (auto simp: s)
  then have "inv ls m ins outs" using move.IH move.prems(1) by (simp add: s)
  moreover have "small ins'" using move.prems by (simp add: s)
  ultimately show ?case using inv_step move.hyps(3) by (simp only: s fst_conv snd_conv)
qed

lemma fifo:
  "reachable (queue_step ops) N (\<lambda>_. QIdle) (m0, [], []) ls (m, ins, outs) \<Longrightarrow> start m0 \<Longrightarrow> small ins \<Longrightarrow>
     ins = outs @ abs m"
  using reachable_inv [of N m0 ls "(m, ins, outs)"] inv_abs [of ins ls m outs] by simp

end

end
