(* ===== verification/Ring.thy ===== *)
theory Ring
  imports CkPr QueueClients
begin

text \<open>
  The bounded ring buffer of \<^verbatim>\<open>ck/ck_ring.h\<close>. A call is a step function whose steps are the accesses to
  the shared counters and to the buffer; a copy of one entry (\<open>memcpy\<close> of a slot) is one step. The
  entry type is a parameter, as it is for \<open>CK_RING_PROTOTYPE\<close>. Counters are 32-bit words that wrap
  around.
\<close>

section \<open>Data\<close>

record ck_ring =
  c_head :: uint
  p_tail :: uint
  p_head :: uint
  ring_size :: uint
  ring_mask :: uint

text \<open>The ring together with the array of slots that every call gets beside it.\<close>

record 'v ring_mem = ck_ring +
  buffer :: "'v list"

definition ck_ring_size :: "'v ring_mem \<Rightarrow> uint" where
  "ck_ring_size r = (ck_pr_load (p_tail r) - ck_pr_load (c_head r)) AND ring_mask r"

definition ck_ring_capacity :: "'v ring_mem \<Rightarrow> uint" where
  "ck_ring_capacity r = ring_size r"

definition ck_ring_init :: "uint \<Rightarrow> 'v list \<Rightarrow> 'v ring_mem" where
  "ck_ring_init sz buf =
     \<lparr>c_head = 0, p_tail = 0, p_head = 0, ring_size = sz, ring_mask = sz - 1, buffer = buf\<rparr>"

text \<open>The slot of a counter value, and the copies to and from it.\<close>

definition slot :: "'v ring_mem \<Rightarrow> uint \<Rightarrow> nat" where
  "slot r i = unat (i AND ring_mask r)"

definition copy_in :: "'v ring_mem \<Rightarrow> uint \<Rightarrow> 'v \<Rightarrow> 'v ring_mem" where
  "copy_in r i v = r\<lparr>buffer := (buffer r)[slot r i := v]\<rparr>"

definition copy_out :: "'v ring_mem \<Rightarrow> uint \<Rightarrow> 'v" where
  "copy_out r i = buffer r ! slot r i"

section \<open>Single producer\<close>

text \<open>The result is the returned flag with the value of \<open>*size\<close>.\<close>

datatype sp_pc = SpStart | SpCheck uint | SpCopy uint uint | SpPublish uint uint

fun ck_ring_enqueue_sp :: "'v \<Rightarrow> sp_pc \<Rightarrow> 'v ring_mem \<Rightarrow> (sp_pc, bool \<times> uint) ctl \<times> 'v ring_mem" where
  "ck_ring_enqueue_sp entry SpStart r = (Go (SpCheck (ck_pr_load (c_head r))), r)"
| "ck_ring_enqueue_sp entry (SpCheck consumer) r =
     (let producer = p_tail r; delta = producer + 1; sz = (producer - consumer) AND ring_mask r
      in if delta AND ring_mask r = consumer AND ring_mask r then (Ret (False, sz), r)
         else (Go (SpCopy producer sz), r))"
| "ck_ring_enqueue_sp entry (SpCopy producer sz) r =
     (Go (SpPublish producer sz), copy_in r producer entry)"
| "ck_ring_enqueue_sp entry (SpPublish producer sz) r =
     (Ret (True, sz), r\<lparr>p_tail := ck_pr_store (p_tail r) (producer + 1)\<rparr>)"

section \<open>Single consumer\<close>

text \<open>The result is the returned flag with what the call wrote to \<open>*data\<close>, \<open>None\<close> when it wrote
  nothing.\<close>

datatype 'v sc_pc = ScStart | ScLoad uint | ScCopy uint | ScPublish uint 'v

fun ck_ring_dequeue_sc :: "'v sc_pc \<Rightarrow> 'v ring_mem \<Rightarrow> ('v sc_pc, bool \<times> 'v option) ctl \<times> 'v ring_mem" where
  "ck_ring_dequeue_sc ScStart r = (Go (ScLoad (c_head r)), r)"
| "ck_ring_dequeue_sc (ScLoad consumer) r =
     (let producer = ck_pr_load (p_tail r)
      in if consumer = producer then (Ret (False, None), r) else (Go (ScCopy consumer), r))"
| "ck_ring_dequeue_sc (ScCopy consumer) r = (Go (ScPublish consumer (copy_out r consumer)), r)"
| "ck_ring_dequeue_sc (ScPublish consumer data) r =
     (Ret (True, Some data), r\<lparr>c_head := ck_pr_store (c_head r) (consumer + 1)\<rparr>)"

section \<open>Multiple producers\<close>

datatype mp_pc = MpStart | MpLoop uint | MpCas uint uint | MpSlow uint uint
  | MpCopy uint uint | MpWait uint uint | MpPublish uint uint

fun ck_ring_enqueue_mp :: "'v \<Rightarrow> mp_pc \<Rightarrow> 'v ring_mem \<Rightarrow> (mp_pc, bool \<times> uint) ctl \<times> 'v ring_mem" where
  "ck_ring_enqueue_mp entry MpStart r = (Go (MpLoop (ck_pr_load (p_head r))), r)"
| "ck_ring_enqueue_mp entry (MpLoop producer) r =
     (let consumer = ck_pr_load (c_head r)
      in if producer - consumer < ring_mask r then (Go (MpCas producer consumer), r)
         else (Go (MpSlow producer consumer), r))"
| "ck_ring_enqueue_mp entry (MpCas producer consumer) r =
     (let delta = producer + 1; (ok, producer', m) = ck_pr_cas_value (p_head r) producer delta
      in (if ok then Go (MpCopy producer' consumer) else Go (MpLoop producer'), r\<lparr>p_head := m\<rparr>))"
| "ck_ring_enqueue_mp entry (MpSlow producer consumer) r =
     (let new_producer = ck_pr_load (p_head r)
      in if producer = new_producer then (Ret (False, (producer - consumer) AND ring_mask r), r)
         else (Go (MpLoop new_producer), r))"
| "ck_ring_enqueue_mp entry (MpCopy producer consumer) r =
     (Go (MpWait producer consumer), copy_in r producer entry)"
| "ck_ring_enqueue_mp entry (MpWait producer consumer) r =
     (if ck_pr_load (p_tail r) \<noteq> producer then Go (MpWait producer consumer)
      else Go (MpPublish producer consumer), r)"
| "ck_ring_enqueue_mp entry (MpPublish producer consumer) r =
     (Ret (True, (producer - consumer) AND ring_mask r),
      r\<lparr>p_tail := ck_pr_store (p_tail r) (producer + 1)\<rparr>)"

section \<open>Multiple consumers\<close>

datatype 'v tmc_pc = TmcStart | TmcLoad uint | TmcCopy uint | TmcCas uint 'v

fun ck_ring_trydequeue_mc :: "'v tmc_pc \<Rightarrow> 'v ring_mem \<Rightarrow> ('v tmc_pc, bool \<times> 'v option) ctl \<times> 'v ring_mem" where
  "ck_ring_trydequeue_mc TmcStart r = (Go (TmcLoad (ck_pr_load (c_head r))), r)"
| "ck_ring_trydequeue_mc (TmcLoad consumer) r =
     (let producer = ck_pr_load (p_tail r)
      in if consumer = producer then (Ret (False, None), r) else (Go (TmcCopy consumer), r))"
| "ck_ring_trydequeue_mc (TmcCopy consumer) r = (Go (TmcCas consumer (copy_out r consumer)), r)"
| "ck_ring_trydequeue_mc (TmcCas consumer data) r =
     (let (ok, m) = ck_pr_cas (c_head r) consumer (consumer + 1)
      in (Ret (ok, Some data), r\<lparr>c_head := m\<rparr>))"

datatype 'v mc_pc = McStart | McLoop uint "'v option" | McCopy uint | McCas uint 'v

fun ck_ring_dequeue_mc :: "'v mc_pc \<Rightarrow> 'v ring_mem \<Rightarrow> ('v mc_pc, bool \<times> 'v option) ctl \<times> 'v ring_mem" where
  "ck_ring_dequeue_mc McStart r = (Go (McLoop (ck_pr_load (c_head r)) None), r)"
| "ck_ring_dequeue_mc (McLoop consumer data) r =
     (let producer = ck_pr_load (p_tail r)
      in if consumer = producer then (Ret (False, data), r) else (Go (McCopy consumer), r))"
| "ck_ring_dequeue_mc (McCopy consumer) r = (Go (McCas consumer (copy_out r consumer)), r)"
| "ck_ring_dequeue_mc (McCas consumer data) r =
     (let (ok, consumer', m) = ck_pr_cas_value (c_head r) consumer (consumer + 1)
      in (if ok then Ret (True, Some data) else Go (McLoop consumer' (Some data)), r\<lparr>c_head := m\<rparr>))"

section \<open>The public interface\<close>

text \<open>The functions without \<open>_size\<close> return the flag alone; a dequeue hands \<open>*data\<close> to its caller only
  when it returns true.\<close>

definition data_of :: "bool \<times> 'v option \<Rightarrow> 'v option" where
  "data_of r = (if fst r then snd r else None)"

definition ck_ring_enqueue_sp_size ::
    "'v \<Rightarrow> sp_pc \<Rightarrow> 'v ring_mem \<Rightarrow> (sp_pc, bool \<times> uint) ctl \<times> 'v ring_mem" where
  "ck_ring_enqueue_sp_size = ck_ring_enqueue_sp"

definition ck_ring_enqueue_mp_size ::
    "'v \<Rightarrow> mp_pc \<Rightarrow> 'v ring_mem \<Rightarrow> (mp_pc, bool \<times> uint) ctl \<times> 'v ring_mem" where
  "ck_ring_enqueue_mp_size = ck_ring_enqueue_mp"

definition ck_ring_enqueue_spsc_size ::
    "'v \<Rightarrow> sp_pc \<Rightarrow> 'v ring_mem \<Rightarrow> (sp_pc, bool \<times> uint) ctl \<times> 'v ring_mem" where
  "ck_ring_enqueue_spsc_size = ck_ring_enqueue_sp_size"

definition ck_ring_enqueue_spsc ::
    "'v \<Rightarrow> sp_pc \<Rightarrow> 'v ring_mem \<Rightarrow> (sp_pc, bool) ctl \<times> 'v ring_mem" where
  "ck_ring_enqueue_spsc entry pc r = ret_map fst (ck_ring_enqueue_sp entry pc r)"

definition ck_ring_dequeue_spsc ::
    "'v sc_pc \<Rightarrow> 'v ring_mem \<Rightarrow> ('v sc_pc, 'v option) ctl \<times> 'v ring_mem" where
  "ck_ring_dequeue_spsc pc r = ret_map data_of (ck_ring_dequeue_sc pc r)"

definition ck_ring_enqueue_mpmc ::
    "'v \<Rightarrow> mp_pc \<Rightarrow> 'v ring_mem \<Rightarrow> (mp_pc, bool) ctl \<times> 'v ring_mem" where
  "ck_ring_enqueue_mpmc entry pc r = ret_map fst (ck_ring_enqueue_mp entry pc r)"

definition ck_ring_enqueue_mpmc_size ::
    "'v \<Rightarrow> mp_pc \<Rightarrow> 'v ring_mem \<Rightarrow> (mp_pc, bool \<times> uint) ctl \<times> 'v ring_mem" where
  "ck_ring_enqueue_mpmc_size = ck_ring_enqueue_mp_size"

definition ck_ring_trydequeue_mpmc ::
    "'v tmc_pc \<Rightarrow> 'v ring_mem \<Rightarrow> ('v tmc_pc, 'v option) ctl \<times> 'v ring_mem" where
  "ck_ring_trydequeue_mpmc pc r = ret_map data_of (ck_ring_trydequeue_mc pc r)"

definition ck_ring_dequeue_mpmc ::
    "'v mc_pc \<Rightarrow> 'v ring_mem \<Rightarrow> ('v mc_pc, 'v option) ctl \<times> 'v ring_mem" where
  "ck_ring_dequeue_mpmc pc r = ret_map data_of (ck_ring_dequeue_mc pc r)"

definition ck_ring_enqueue_spmc_size ::
    "'v \<Rightarrow> sp_pc \<Rightarrow> 'v ring_mem \<Rightarrow> (sp_pc, bool \<times> uint) ctl \<times> 'v ring_mem" where
  "ck_ring_enqueue_spmc_size = ck_ring_enqueue_sp_size"

definition ck_ring_enqueue_spmc ::
    "'v \<Rightarrow> sp_pc \<Rightarrow> 'v ring_mem \<Rightarrow> (sp_pc, bool) ctl \<times> 'v ring_mem" where
  "ck_ring_enqueue_spmc entry pc r = ret_map fst (ck_ring_enqueue_sp entry pc r)"

definition ck_ring_trydequeue_spmc ::
    "'v tmc_pc \<Rightarrow> 'v ring_mem \<Rightarrow> ('v tmc_pc, 'v option) ctl \<times> 'v ring_mem" where
  "ck_ring_trydequeue_spmc pc r = ret_map data_of (ck_ring_trydequeue_mc pc r)"

definition ck_ring_dequeue_spmc ::
    "'v mc_pc \<Rightarrow> 'v ring_mem \<Rightarrow> ('v mc_pc, 'v option) ctl \<times> 'v ring_mem" where
  "ck_ring_dequeue_spmc pc r = ret_map data_of (ck_ring_dequeue_mc pc r)"

definition ck_ring_enqueue_mpsc ::
    "'v \<Rightarrow> mp_pc \<Rightarrow> 'v ring_mem \<Rightarrow> (mp_pc, bool) ctl \<times> 'v ring_mem" where
  "ck_ring_enqueue_mpsc entry pc r = ret_map fst (ck_ring_enqueue_mp entry pc r)"

definition ck_ring_enqueue_mpsc_size ::
    "'v \<Rightarrow> mp_pc \<Rightarrow> 'v ring_mem \<Rightarrow> (mp_pc, bool \<times> uint) ctl \<times> 'v ring_mem" where
  "ck_ring_enqueue_mpsc_size = ck_ring_enqueue_mp_size"

definition ck_ring_dequeue_mpsc ::
    "'v sc_pc \<Rightarrow> 'v ring_mem \<Rightarrow> ('v sc_pc, 'v option) ctl \<times> 'v ring_mem" where
  "ck_ring_dequeue_mpsc pc r = ret_map data_of (ck_ring_dequeue_sc pc r)"

text \<open>\<open>CK_RING_PROTOTYPE(name, type)\<close> defines the same calls over entries of a structure type, here the
  type parameter.\<close>

record 'v ring_prototype =
  enqueue_spsc_size :: "'v \<Rightarrow> sp_pc \<Rightarrow> 'v ring_mem \<Rightarrow> (sp_pc, bool \<times> uint) ctl \<times> 'v ring_mem"
  enqueue_spsc :: "'v \<Rightarrow> sp_pc \<Rightarrow> 'v ring_mem \<Rightarrow> (sp_pc, bool) ctl \<times> 'v ring_mem"
  dequeue_spsc :: "'v sc_pc \<Rightarrow> 'v ring_mem \<Rightarrow> ('v sc_pc, 'v option) ctl \<times> 'v ring_mem"
  enqueue_spmc_size :: "'v \<Rightarrow> sp_pc \<Rightarrow> 'v ring_mem \<Rightarrow> (sp_pc, bool \<times> uint) ctl \<times> 'v ring_mem"
  enqueue_spmc :: "'v \<Rightarrow> sp_pc \<Rightarrow> 'v ring_mem \<Rightarrow> (sp_pc, bool) ctl \<times> 'v ring_mem"
  trydequeue_spmc :: "'v tmc_pc \<Rightarrow> 'v ring_mem \<Rightarrow> ('v tmc_pc, 'v option) ctl \<times> 'v ring_mem"
  dequeue_spmc :: "'v mc_pc \<Rightarrow> 'v ring_mem \<Rightarrow> ('v mc_pc, 'v option) ctl \<times> 'v ring_mem"
  enqueue_mpsc :: "'v \<Rightarrow> mp_pc \<Rightarrow> 'v ring_mem \<Rightarrow> (mp_pc, bool) ctl \<times> 'v ring_mem"
  enqueue_mpsc_size :: "'v \<Rightarrow> mp_pc \<Rightarrow> 'v ring_mem \<Rightarrow> (mp_pc, bool \<times> uint) ctl \<times> 'v ring_mem"
  dequeue_mpsc :: "'v sc_pc \<Rightarrow> 'v ring_mem \<Rightarrow> ('v sc_pc, 'v option) ctl \<times> 'v ring_mem"
  enqueue_mpmc_size :: "'v \<Rightarrow> mp_pc \<Rightarrow> 'v ring_mem \<Rightarrow> (mp_pc, bool \<times> uint) ctl \<times> 'v ring_mem"
  enqueue_mpmc :: "'v \<Rightarrow> mp_pc \<Rightarrow> 'v ring_mem \<Rightarrow> (mp_pc, bool) ctl \<times> 'v ring_mem"
  trydequeue_mpmc :: "'v tmc_pc \<Rightarrow> 'v ring_mem \<Rightarrow> ('v tmc_pc, 'v option) ctl \<times> 'v ring_mem"
  dequeue_mpmc :: "'v mc_pc \<Rightarrow> 'v ring_mem \<Rightarrow> ('v mc_pc, 'v option) ctl \<times> 'v ring_mem"

definition CK_RING_PROTOTYPE :: "'v ring_prototype" where
  "CK_RING_PROTOTYPE = \<lparr>
     enqueue_spsc_size = ck_ring_enqueue_sp_size,
     enqueue_spsc = \<lambda>c pc r. ret_map fst (ck_ring_enqueue_sp c pc r),
     dequeue_spsc = \<lambda>pc r. ret_map data_of (ck_ring_dequeue_sc pc r),
     enqueue_spmc_size = ck_ring_enqueue_sp_size,
     enqueue_spmc = \<lambda>c pc r. ret_map fst (ck_ring_enqueue_sp c pc r),
     trydequeue_spmc = \<lambda>pc r. ret_map data_of (ck_ring_trydequeue_mc pc r),
     dequeue_spmc = \<lambda>pc r. ret_map data_of (ck_ring_dequeue_mc pc r),
     enqueue_mpsc = \<lambda>c pc r. ret_map fst (ck_ring_enqueue_mp c pc r),
     enqueue_mpsc_size = ck_ring_enqueue_mp_size,
     dequeue_mpsc = \<lambda>pc r. ret_map data_of (ck_ring_dequeue_sc pc r),
     enqueue_mpmc_size = ck_ring_enqueue_mp_size,
     enqueue_mpmc = \<lambda>c pc r. ret_map fst (ck_ring_enqueue_mp c pc r),
     trydequeue_mpmc = \<lambda>pc r. ret_map data_of (ck_ring_trydequeue_mc pc r),
     dequeue_mpmc = \<lambda>pc r. ret_map data_of (ck_ring_dequeue_mc pc r)\<rparr>"

text \<open>The four ways to share a ring. Thread 0 is the single producer and thread 1 the single consumer
  where the interface allows only one.\<close>

definition spsc_ops :: "(sp_pc, 'v sc_pc, 'v, 'v ring_mem) queue_ops" where
  "spsc_ops = \<lparr>enq_fn = ck_ring_enqueue_spsc, enq_entry = SpStart, enq_role = \<lambda>t. t = 0,
     deq_fn = ck_ring_dequeue_spsc, deq_entry = ScStart, deq_role = \<lambda>t. t = 1\<rparr>"

definition spmc_ops :: "(sp_pc, 'v mc_pc, 'v, 'v ring_mem) queue_ops" where
  "spmc_ops = \<lparr>enq_fn = ck_ring_enqueue_spmc, enq_entry = SpStart, enq_role = \<lambda>t. t = 0,
     deq_fn = ck_ring_dequeue_spmc, deq_entry = McStart, deq_role = \<lambda>t. True\<rparr>"

definition mpsc_ops :: "(mp_pc, 'v sc_pc, 'v, 'v ring_mem) queue_ops" where
  "mpsc_ops = \<lparr>enq_fn = ck_ring_enqueue_mpsc, enq_entry = MpStart, enq_role = \<lambda>t. True,
     deq_fn = ck_ring_dequeue_mpsc, deq_entry = ScStart, deq_role = \<lambda>t. t = 1\<rparr>"

definition mpmc_ops :: "(mp_pc, 'v mc_pc, 'v, 'v ring_mem) queue_ops" where
  "mpmc_ops = \<lparr>enq_fn = ck_ring_enqueue_mpmc, enq_entry = MpStart, enq_role = \<lambda>t. True,
     deq_fn = ck_ring_dequeue_mpmc, deq_entry = McStart, deq_role = \<lambda>t. True\<rparr>"

definition try_mpmc_ops :: "(mp_pc, 'v tmc_pc, 'v, 'v ring_mem) queue_ops" where
  "try_mpmc_ops = \<lparr>enq_fn = ck_ring_enqueue_mpmc, enq_entry = MpStart, enq_role = \<lambda>t. True,
     deq_fn = ck_ring_trydequeue_mpmc, deq_entry = TmcStart, deq_role = \<lambda>t. True\<rparr>"

section \<open>Counters and slots\<close>

text \<open>A ring of \<open>2 ^ k\<close> slots. The counters stand for the numbers of entries published and consumed
  so far; the slots between them hold the published entries that are still to be consumed.\<close>

definition ring_ok :: "nat \<Rightarrow> 'v ring_mem \<Rightarrow> bool" where
  "ring_ok k r \<longleftrightarrow> k < 32 \<and> ring_size r = 2 ^ k \<and> ring_mask r = 2 ^ k - 1 \<and> length (buffer r) = 2 ^ k"

definition ring_start :: "nat \<Rightarrow> 'v ring_mem \<Rightarrow> bool" where
  "ring_start k r \<longleftrightarrow> ring_ok k r \<and> c_head r = 0 \<and> p_tail r = 0 \<and> p_head r = 0"

definition contents :: "'v ring_mem \<Rightarrow> 'v list" where
  "contents r = map (\<lambda>i. copy_out r (c_head r + of_nat i)) [0..<unat (p_tail r - c_head r)]"

definition ring_core :: "nat \<Rightarrow> 'v ring_mem \<Rightarrow> 'v list \<Rightarrow> 'v list \<Rightarrow> bool" where
  "ring_core k r ins outs \<longleftrightarrow> ring_ok k r \<and>
     c_head r = of_nat (length outs) \<and> p_tail r = of_nat (length ins) \<and>
     length outs \<le> length ins \<and> length ins < length outs + 2 ^ k \<and> outs = take (length outs) ins \<and>
     (\<forall>i. length outs \<le> i \<longrightarrow> i < length ins \<longrightarrow> buffer r ! (i mod 2 ^ k) = ins ! i)"

lemma slot_of_nat: "ring_ok k r \<Longrightarrow> slot r (of_nat i) = i mod 2 ^ k"
  by (simp add: ring_ok_def slot_def mask_word unat_and_mask)

lemma ring_ok_upd [simp]:
  "ring_ok k (r\<lparr>c_head := x\<rparr>) = ring_ok k r" "ring_ok k (r\<lparr>p_tail := x\<rparr>) = ring_ok k r"
  "ring_ok k (r\<lparr>p_head := x\<rparr>) = ring_ok k r" "ring_ok k (copy_in r j v) = ring_ok k r"
  by (simp_all add: ring_ok_def copy_in_def)

lemma copy_in_sel [simp]:
  "c_head (copy_in r j v) = c_head r" "p_tail (copy_in r j v) = p_tail r" "p_head (copy_in r j v) = p_head r"
  by (simp_all add: copy_in_def)

lemma mod_neq: "i \<noteq> j \<Longrightarrow> a \<le> i \<Longrightarrow> i < a + m \<Longrightarrow> a \<le> j \<Longrightarrow> j < a + m \<Longrightarrow> i mod m \<noteq> j mod (m :: nat)"
proof (induction i j rule: linorder_wlog)
  case (le i j)
  show ?case
  proof
    assume "i mod m = j mod m"
    then have "m dvd j - i" using le(1) mod_eq_dvd_iff_nat [of i j m] by simp
    then have "m \<le> j - i" using le by (intro dvd_imp_le) auto
    with le show False by linarith
  qed
qed metis

lemma unat_of_nat_uint: "i < 2 ^ 32 \<Longrightarrow> unat (of_nat i :: uint) = i"
  by (simp add: unat_of_nat)

lemma of_nat_uint_eq: "i < 2 ^ 32 \<Longrightarrow> j < 2 ^ 32 \<Longrightarrow> (of_nat i :: uint) = of_nat j \<longleftrightarrow> i = j"
  by (metis unat_of_nat_uint)

lemma of_nat_word_less: "a \<le> b \<Longrightarrow> (of_nat a :: 'w::len word) \<noteq> of_nat b \<Longrightarrow> a < b"
  by (cases "a = b") auto

lemma ring_ok_pow: "ring_ok k r \<Longrightarrow> (2::nat) ^ k \<le> 2 ^ 31"
  by (simp add: ring_ok_def power_increasing del: power_numeral)

lemma unat_pow_minus_1: "ring_ok k r \<Longrightarrow> unat (2 ^ k - 1 :: uint) = 2 ^ k - 1"
proof -
  assume "ring_ok k r"
  then have "(2::nat) ^ k - 1 < 2 ^ 32" using ring_ok_pow [of k r] by simp
  moreover have "(2 ^ k - 1 :: uint) = of_nat (2 ^ k - 1)" by (simp add: of_nat_diff)
  ultimately show ?thesis using unat_of_nat_uint by metis
qed

lemma ring_core_diff:
  assumes "ring_core k r ins outs"
  shows "unat (p_tail r - c_head r) = length ins - length outs"
proof -
  have "p_tail r - c_head r = of_nat (length ins - length outs)"
    using assms by (simp add: ring_core_def of_nat_diff)
  moreover have "length ins - length outs < 2 ^ 32"
    using assms ring_ok_pow [of k r] by (auto simp: ring_core_def)
  ultimately show ?thesis using unat_of_nat_uint by metis
qed

lemma ring_core_abs:
  assumes "ring_core k r ins outs"
  shows "ins = outs @ contents r"
proof (rule nth_equalityI)
  have len: "length (contents r) = length ins - length outs"
    using ring_core_diff [OF assms] by (simp add: contents_def)
  then show "length ins = length (outs @ contents r)" using assms by (simp add: ring_core_def)
  fix i assume i: "i < length ins"
  show "ins ! i = (outs @ contents r) ! i"
  proof (cases "i < length outs")
    case True
    then show ?thesis using assms by (metis nth_append nth_take ring_core_def)
  next
    case False
    then have "(outs @ contents r) ! i = copy_out r (of_nat i)"
      using i assms len ring_core_diff [OF assms]
      by (simp add: nth_append contents_def ring_core_def flip: of_nat_add)
    then show ?thesis using assms False i by (simp add: ring_core_def copy_out_def slot_of_nat [of k])
  qed
qed

text \<open>How the calls change the core: publishing an entry that is already in its slot, consuming the
  oldest entry, and writing a slot that holds no published entry.\<close>

lemma core_publish:
  assumes "ring_core k r ins outs" "Suc (length ins) < length outs + 2 ^ k"
    "buffer r ! (length ins mod 2 ^ k) = v"
  shows "ring_core k (r\<lparr>p_tail := of_nat (length ins) + 1\<rparr>) (ins @ [v]) outs"
  using assms by (auto simp: ring_core_def nth_append less_Suc_eq)

lemma core_consume:
  assumes "ring_core k r ins outs" "length outs < length ins"
  shows "ring_core k (r\<lparr>c_head := c_head r + 1\<rparr>) ins (outs @ [ins ! length outs])"
proof -
  have "outs @ [ins ! length outs] = take (Suc (length outs)) ins"
    using assms by (metis ring_core_def take_Suc_conv_app_nth)
  with assms show ?thesis by (auto simp: ring_core_def)
qed

lemma core_copy_in:
  assumes "ring_core k r ins outs" "length ins \<le> i" "i < length outs + 2 ^ k"
  shows "ring_core k (copy_in r (of_nat i) v) ins outs"
proof -
  have "slot r (of_nat i) \<noteq> j mod 2 ^ k" if "length outs \<le> j" "j < length ins" for j
    using assms that mod_neq [of i j "length outs" "2 ^ k"] slot_of_nat [of k r i]
    by (simp add: ring_core_def)
  then show ?thesis using assms(1) by (simp add: ring_core_def) (simp add: copy_in_def)
qed

lemma core_p_head: "ring_core k r ins outs \<Longrightarrow> ring_core k (r\<lparr>p_head := x\<rparr>) ins outs"
  by (simp add: ring_core_def)

lemma copy_in_same:
  "ring_ok k r \<Longrightarrow> buffer (copy_in r (of_nat i) v) ! (i mod 2 ^ k) = v"
  by (simp add: copy_in_def slot_of_nat) (simp add: ring_ok_def)

lemma copy_in_other:
  "ring_ok k r \<Longrightarrow> i mod 2 ^ k \<noteq> j mod 2 ^ k \<Longrightarrow>
     buffer (copy_in r (of_nat i) v) ! (j mod 2 ^ k) = buffer r ! (j mod 2 ^ k)"
  by (simp add: copy_in_def slot_of_nat)

lemma core_copy_out:
  "ring_core k r ins outs \<Longrightarrow> length outs < length ins \<Longrightarrow>
     copy_out r (of_nat (length outs)) = ins ! length outs"
  by (simp add: ring_core_def copy_out_def slot_of_nat [of k])

section \<open>Producers and consumers as rely-guarantee contracts\<close>

text \<open>What the producer side promises to any consumer side: its steps keep the core, an enqueue that
  returns true has published the entry, and its own invariant survives any consumption.\<close>

locale ring_producer =
  fixes k :: nat and enq :: "'v \<Rightarrow> 'e \<Rightarrow> 'v ring_mem \<Rightarrow> ('e, bool) ctl \<times> 'v ring_mem" and e0 :: 'e
    and role :: "nat \<Rightarrow> bool" and small :: "'v list \<Rightarrow> bool"
    and pinv :: "(nat \<Rightarrow> ('v \<times> 'e) option) \<Rightarrow> 'v ring_mem \<Rightarrow> 'v list \<Rightarrow> 'v list \<Rightarrow> bool"
  assumes p_start: "p_head r = 0 \<Longrightarrow> pinv (\<lambda>_. None) r [] []"
    and p_begin: "role t \<Longrightarrow> pinv es r ins outs \<Longrightarrow> es t = None \<Longrightarrow> pinv (es(t := Some (v, e0))) r ins outs"
    and p_go: "ring_core k r ins outs \<Longrightarrow> small ins \<Longrightarrow> pinv es r ins outs \<Longrightarrow> es t = Some (v, e) \<Longrightarrow>
      enq v e r = (Go e', r') \<Longrightarrow> pinv (es(t := Some (v, e'))) r' ins outs \<and> ring_core k r' ins outs"
    and p_ok: "ring_core k r ins outs \<Longrightarrow> small (ins @ [v]) \<Longrightarrow> pinv es r ins outs \<Longrightarrow> es t = Some (v, e) \<Longrightarrow>
      enq v e r = (Ret True, r') \<Longrightarrow>
      pinv (es(t := None)) r' (ins @ [v]) outs \<and> ring_core k r' (ins @ [v]) outs"
    and p_full: "ring_core k r ins outs \<Longrightarrow> small ins \<Longrightarrow> pinv es r ins outs \<Longrightarrow> es t = Some (v, e) \<Longrightarrow>
      enq v e r = (Ret False, r') \<Longrightarrow> pinv (es(t := None)) r' ins outs \<and> r' = r"
    and p_rely: "ring_core k r ins outs \<Longrightarrow> pinv es r ins outs \<Longrightarrow> length outs < length ins \<Longrightarrow>
      pinv es (r\<lparr>c_head := x\<rparr>) ins (outs @ [v])"

text \<open>And the consumer side to any producer side: it changes nothing but the head, by consuming the
  oldest entry, and its invariant survives any publication.\<close>

locale ring_consumer =
  fixes k :: nat and deq :: "'d \<Rightarrow> 'v ring_mem \<Rightarrow> ('d, 'v option) ctl \<times> 'v ring_mem" and d0 :: 'd
    and crole :: "nat \<Rightarrow> bool" and small :: "'v list \<Rightarrow> bool"
    and cinv :: "(nat \<Rightarrow> 'd option) \<Rightarrow> 'v list \<Rightarrow> 'v list \<Rightarrow> bool"
  assumes c_start: "cinv (\<lambda>_. None) [] []"
    and c_begin: "crole t \<Longrightarrow> cinv ds ins outs \<Longrightarrow> ds t = None \<Longrightarrow> cinv (ds(t := Some d0)) ins outs"
    and c_go: "ring_core k r ins outs \<Longrightarrow> small ins \<Longrightarrow> cinv ds ins outs \<Longrightarrow> ds t = Some d \<Longrightarrow>
      deq d r = (Go d', r') \<Longrightarrow> cinv (ds(t := Some d')) ins outs \<and> r' = r"
    and c_ok: "ring_core k r ins outs \<Longrightarrow> small ins \<Longrightarrow> cinv ds ins outs \<Longrightarrow> ds t = Some d \<Longrightarrow>
      deq d r = (Ret (Some v), r') \<Longrightarrow> cinv (ds(t := None)) ins (outs @ [v]) \<and>
      r' = r\<lparr>c_head := c_head r + 1\<rparr> \<and> length outs < length ins \<and> v = ins ! length outs"
    and c_empty: "ring_core k r ins outs \<Longrightarrow> small ins \<Longrightarrow> cinv ds ins outs \<Longrightarrow> ds t = Some d \<Longrightarrow>
      deq d r = (Ret None, r') \<Longrightarrow> cinv (ds(t := None)) ins outs \<and> r' = r"
    and c_rely: "cinv ds ins outs \<Longrightarrow> cinv ds (ins @ [v]) outs"

text \<open>The program points of the enqueues and dequeues in progress.\<close>

definition enqs :: "(nat \<Rightarrow> ('e, 'd, 'v) queue_client) \<Rightarrow> nat \<Rightarrow> ('v \<times> 'e) option" where
  "enqs ls t = (case ls t of Enqueueing v e \<Rightarrow> Some (v, e) | _ \<Rightarrow> None)"

definition deqs :: "(nat \<Rightarrow> ('e, 'd, 'v) queue_client) \<Rightarrow> nat \<Rightarrow> 'd option" where
  "deqs ls t = (case ls t of Dequeueing d \<Rightarrow> Some d | _ \<Rightarrow> None)"

lemma enqs_upd [simp]:
  "enqs (ls(t := QIdle)) = (enqs ls)(t := None)" "enqs (ls(t := Dequeueing d)) = (enqs ls)(t := None)"
  "enqs (ls(t := Enqueueing v e)) = (enqs ls)(t := Some (v, e))" "enqs (\<lambda>_. QIdle) = (\<lambda>_. None)"
  by (auto simp: enqs_def fun_eq_iff)

lemma deqs_upd [simp]:
  "deqs (ls(t := QIdle)) = (deqs ls)(t := None)" "deqs (ls(t := Dequeueing d)) = (deqs ls)(t := Some d)"
  "deqs (ls(t := Enqueueing v e)) = (deqs ls)(t := None)" "deqs (\<lambda>_. QIdle) = (\<lambda>_. None)"
  by (auto simp: deqs_def fun_eq_iff)

lemma enqs_deqs_at [simp]:
  "ls t = QIdle \<Longrightarrow> enqs ls t = None" "ls t = QIdle \<Longrightarrow> deqs ls t = None"
  "ls t = Enqueueing v e \<Longrightarrow> enqs ls t = Some (v, e)" "ls t = Enqueueing v e \<Longrightarrow> deqs ls t = None"
  "ls t = Dequeueing d \<Longrightarrow> enqs ls t = None" "ls t = Dequeueing d \<Longrightarrow> deqs ls t = Some d"
  by (simp_all add: enqs_def deqs_def)

lemma none_upd: "es t = None \<Longrightarrow> es(t := None) = es"
  by (rule fun_upd_idem)

locale ring_system =
  ring_producer k "enq_fn ops" "enq_entry ops" "enq_role ops" small pinv +
  ring_consumer k "deq_fn ops" "deq_entry ops" "deq_role ops" small cinv
  for k :: nat and ops :: "('e, 'd, 'v, 'v ring_mem) queue_ops" and small :: "'v list \<Rightarrow> bool"
    and pinv and cinv +
  assumes small_butlast: "small (ins @ [v]) \<Longrightarrow> small ins"

context ring_system begin

lemma step_inv:
  assumes "small ins'" and core: "ring_core k r ins outs" and p: "pinv (enqs ls) r ins outs"
    and c: "cinv (deqs ls) ins outs"
    and st: "queue_step ops t (ls t) (r, ins, outs) l' (r', ins', outs')"
  shows "ring_core k r' ins' outs' \<and> pinv (enqs (ls(t := l'))) r' ins' outs' \<and> cinv (deqs (ls(t := l'))) ins' outs'"
proof -
  have sm: "small ins" using st assms(1) small_butlast by (cases rule: queue_step.cases) auto
  from st show ?thesis
  proof (cases rule: queue_step.cases)
    case (begin_enq v)
    with p_begin [OF _ p] core p c show ?thesis by (auto simp: none_upd)
  next
    case (enq_go v e e')
    with p_go [OF core sm p, of t v e e' r'] c show ?thesis by (auto simp: none_upd)
  next
    case (enq_ok v e)
    with p_ok [OF core _ p, of v t e r'] assms(1) c_rely [OF c] show ?thesis by (auto simp: none_upd)
  next
    case (enq_full v e)
    with p_full [OF core sm p, of t v e r'] core c show ?thesis by (auto simp: none_upd)
  next
    case begin_deq
    with c_begin [OF _ c] core p c show ?thesis by (auto simp: none_upd)
  next
    case (deq_go d d')
    with c_go [OF core sm c, of t d d' r'] core p show ?thesis by (auto simp: none_upd)
  next
    case (deq_ok d v)
    with c_ok [OF core sm c, of t d v r'] core_consume [OF core] p_rely [OF core p] show ?thesis
      by (auto simp: none_upd)
  next
    case (deq_empty d)
    with c_empty [OF core sm c, of t d r'] core p show ?thesis by (auto simp: none_upd)
  qed
qed

end

sublocale ring_system \<subseteq> fifo_system ops "ring_start k" small
  "\<lambda>ls r ins outs. ring_core k r ins outs \<and> pinv (enqs ls) r ins outs \<and> cinv (deqs ls) ins outs" contents
proof unfold_locales
  fix r0 :: "'v ring_mem" assume "ring_start k r0"
  then show "ring_core k r0 [] [] \<and> pinv (enqs (\<lambda>_. QIdle)) r0 [] [] \<and> cinv (deqs (\<lambda>_. QIdle)) [] []"
    using p_start c_start by (simp add: ring_core_def ring_start_def)
qed (use step_inv ring_core_abs small_butlast in blast)+

section \<open>The single producer and the single consumer\<close>

text \<open>The producer's snapshot of the head is at most one lap behind, because only the producer itself
  moves the tail.\<close>

fun sp_ok :: "nat \<Rightarrow> 'v \<Rightarrow> sp_pc \<Rightarrow> 'v ring_mem \<Rightarrow> 'v list \<Rightarrow> 'v list \<Rightarrow> bool" where
  "sp_ok k v SpStart r ins outs \<longleftrightarrow> True"
| "sp_ok k v (SpCheck consumer) r ins outs \<longleftrightarrow>
     (\<exists>n \<le> length outs. consumer = of_nat n \<and> length ins < n + 2 ^ k)"
| "sp_ok k v (SpCopy producer sz) r ins outs \<longleftrightarrow>
     producer = of_nat (length ins) \<and> Suc (length ins) < length outs + 2 ^ k"
| "sp_ok k v (SpPublish producer sz) r ins outs \<longleftrightarrow>
     producer = of_nat (length ins) \<and> Suc (length ins) < length outs + 2 ^ k \<and>
     buffer r ! (length ins mod 2 ^ k) = v"

definition sp_inv :: "nat \<Rightarrow> (nat \<Rightarrow> ('v \<times> sp_pc) option) \<Rightarrow> 'v ring_mem \<Rightarrow> 'v list \<Rightarrow> 'v list \<Rightarrow> bool" where
  "sp_inv k es r ins outs \<longleftrightarrow> (\<forall>t. t \<noteq> 0 \<longrightarrow> es t = None) \<and>
     (\<forall>v e. es 0 = Some (v, e) \<longrightarrow> sp_ok k v e r ins outs)"

fun sc_ok :: "'v sc_pc \<Rightarrow> 'v list \<Rightarrow> 'v list \<Rightarrow> bool" where
  "sc_ok ScStart ins outs \<longleftrightarrow> True"
| "sc_ok (ScLoad consumer) ins outs \<longleftrightarrow> consumer = of_nat (length outs)"
| "sc_ok (ScCopy consumer) ins outs \<longleftrightarrow> consumer = of_nat (length outs) \<and> length outs < length ins"
| "sc_ok (ScPublish consumer d) ins outs \<longleftrightarrow>
     consumer = of_nat (length outs) \<and> length outs < length ins \<and> d = ins ! length outs"

definition sc_inv :: "(nat \<Rightarrow> 'v sc_pc option) \<Rightarrow> 'v list \<Rightarrow> 'v list \<Rightarrow> bool" where
  "sc_inv ds ins outs \<longleftrightarrow> (\<forall>t. t \<noteq> 1 \<longrightarrow> ds t = None) \<and> (\<forall>d. ds 1 = Some d \<longrightarrow> sc_ok d ins outs)"

lemma sp_room:
  assumes "ring_core k r ins outs" "n \<le> length outs" "length ins < n + 2 ^ k"
    and "(p_tail r + 1) AND ring_mask r \<noteq> of_nat n AND ring_mask r"
  shows "Suc (length ins) < length outs + 2 ^ k"
proof -
  have "p_tail r + 1 = of_nat (Suc (length ins))" using assms(1) by (simp add: ring_core_def)
  then have "slot r (of_nat (Suc (length ins))) \<noteq> slot r (of_nat n)"
    using assms(4) by (metis slot_def word_unat_eq_iff)
  then have "Suc (length ins) mod 2 ^ k \<noteq> n mod 2 ^ k"
    using assms(1) by (simp add: ring_core_def slot_of_nat [of k] del: of_nat_Suc)
  then have "Suc (length ins) \<noteq> n + 2 ^ k" by auto
  with assms(2,3) show ?thesis by linarith
qed

lemma sp_go:
  assumes core: "ring_core k r ins outs" and ok: "sp_ok k v e r ins outs"
    and st: "ck_ring_enqueue_sp v e r = (Go e', r')"
  shows "sp_ok k v e' r' ins outs \<and> ring_core k r' ins outs"
proof (cases e)
  case SpStart
  then show ?thesis using st core by (auto simp: ring_core_def pr_simps)
next
  case (SpCheck consumer)
  then obtain n where n: "n \<le> length outs" "consumer = of_nat n" "length ins < n + 2 ^ k" using ok by auto
  have "e' = SpCopy (p_tail r) ((p_tail r - consumer) AND ring_mask r)" "r' = r"
    "(p_tail r + 1) AND ring_mask r \<noteq> consumer AND ring_mask r"
    using SpCheck st by (auto simp: Let_def split: if_splits)
  with sp_room [OF core n(1,3)] n(2) core show ?thesis by (auto simp: ring_core_def)
next
  case (SpCopy producer sz)
  then show ?thesis using st ok core core_copy_in [OF core, of "length ins" v]
    by (auto simp: ring_core_def copy_in_same)
next
  case (SpPublish producer sz)
  then show ?thesis using st by simp
qed

lemma sp_ret:
  assumes core: "ring_core k r ins outs" and ok: "sp_ok k v e r ins outs"
    and st: "ck_ring_enqueue_sp v e r = (Ret b, r')"
  shows "if fst b then ring_core k r' (ins @ [v]) outs else r' = r"
proof (cases e)
  case (SpPublish producer sz)
  then show ?thesis using st ok core_publish [OF core] by (auto simp: pr_simps)
qed (use st in \<open>auto simp: Let_def split: if_splits\<close>)

lemma sp_producer:
  "ring_producer k (ck_ring_enqueue_spsc :: 'v \<Rightarrow> _) SpStart (\<lambda>t. t = 0) small (sp_inv k)"
proof unfold_locales
  fix r :: "'v ring_mem" and ins outs es t v e and r' :: "'v ring_mem" and e'
  assume core: "ring_core k r ins outs" and inv: "sp_inv k es r ins outs" and e: "es t = Some (v, e)"
  then have t: "t = 0" by (auto simp: sp_inv_def)
  then have ok: "sp_ok k v e r ins outs" using inv e by (auto simp: sp_inv_def)
  show "sp_inv k (es(t := Some (v, e'))) r' ins outs \<and> ring_core k r' ins outs"
    if "ck_ring_enqueue_spsc v e r = (Go e', r')"
    using sp_go [OF core ok] that inv t by (auto simp: ck_ring_enqueue_spsc_def ret_map_cases sp_inv_def)
  show "sp_inv k (es(t := None)) r' (ins @ [v]) outs \<and> ring_core k r' (ins @ [v]) outs"
    if "ck_ring_enqueue_spsc v e r = (Ret True, r')"
    using sp_ret [OF core ok] that inv t by (fastforce simp: ck_ring_enqueue_spsc_def ret_map_cases sp_inv_def)
  show "sp_inv k (es(t := None)) r' ins outs \<and> r' = r"
    if "ck_ring_enqueue_spsc v e r = (Ret False, r')"
    using sp_ret [OF core ok] that inv t by (fastforce simp: ck_ring_enqueue_spsc_def ret_map_cases sp_inv_def)
next
  fix r :: "'v ring_mem" and ins outs es x and v :: 'v
  assume core: "ring_core k r ins outs" and inv: "sp_inv k es r ins outs"
  have "sp_ok k w e (r\<lparr>c_head := x\<rparr>) ins (outs @ [v])" if "sp_ok k w e r ins outs" for w e
    using that by (cases e) (auto intro: le_SucI)
  with inv show "sp_inv k es (r\<lparr>c_head := x\<rparr>) ins (outs @ [v])" by (auto simp: sp_inv_def)
qed (auto simp: sp_inv_def)

lemma sc_consumer:
  "ring_consumer k (ck_ring_dequeue_spsc :: 'v sc_pc \<Rightarrow> _) ScStart (\<lambda>t. t = 1) small sc_inv"
proof unfold_locales
  fix r :: "'v ring_mem" and ins outs ds t d and r' :: "'v ring_mem" and d' v
  assume core: "ring_core k r ins outs" and inv: "sc_inv ds ins outs" and d: "ds t = Some d"
  then have t: "t = 1" by (auto simp: sc_inv_def)
  then have ok: "sc_ok d ins outs" using inv d by (auto simp: sc_inv_def)
  have other: "\<forall>u. u \<noteq> 1 \<longrightarrow> ds u = None" using inv by (simp add: sc_inv_def)
  show "sc_inv (ds(t := Some d')) ins outs \<and> r' = r" if "ck_ring_dequeue_spsc d r = (Go d', r')"
  proof -
    have "ck_ring_dequeue_sc d r = (Go d', r')" using that by (simp add: ck_ring_dequeue_spsc_def ret_map_cases)
    then have "sc_ok d' ins outs \<and> r' = r"
      using ok core by (cases d) (auto simp: ring_core_def pr_simps Let_def core_copy_out [OF core]
          split: if_splits dest: of_nat_word_less)
    with other t show ?thesis by (auto simp: sc_inv_def)
  qed
  show "sc_inv (ds(t := None)) ins (outs @ [v]) \<and> r' = r\<lparr>c_head := c_head r + 1\<rparr> \<and>
      length outs < length ins \<and> v = ins ! length outs" if "ck_ring_dequeue_spsc d r = (Ret (Some v), r')"
    using that ok core other t
    by (cases d) (auto simp: ck_ring_dequeue_spsc_def ret_map_cases sc_inv_def data_of_def pr_simps
        ring_core_def Let_def split: if_splits)
  show "sc_inv (ds(t := None)) ins outs \<and> r' = r" if "ck_ring_dequeue_spsc d r = (Ret None, r')"
    using that other t
    by (cases d) (auto simp: ck_ring_dequeue_spsc_def ret_map_cases sc_inv_def data_of_def Let_def split: if_splits)
next
  fix ds and ins :: "'v list" and outs v
  assume inv: "sc_inv ds ins outs"
  have "sc_ok d (ins @ [v]) outs" if "sc_ok d ins outs" for d using that by (cases d) (auto simp: nth_append)
  with inv show "sc_inv ds (ins @ [v]) outs" by (auto simp: sc_inv_def)
qed (auto simp: sc_inv_def)

section \<open>Many producers and many consumers\<close>

text \<open>With several producers or consumers a thread may hold a snapshot of a counter for any time, so
  the compare-and-swap tells values apart only while the counters have not wrapped around. A ring has
  taken few entries if it has not, even when all slots are reserved.\<close>

definition few :: "nat \<Rightarrow> 'v list \<Rightarrow> bool" where
  "few k ins \<longleftrightarrow> length ins + 2 ^ k \<le> 2 ^ 32"

lemma few_prefix: "few k (ins @ [v]) \<Longrightarrow> few k ins"
  by (simp add: few_def)

text \<open>A consumer's snapshot \<open>n\<close> is never ahead of the head, and what it has copied is the entry to
  consume unless the head has moved on.\<close>

definition snap_ok :: "uint \<Rightarrow> 'v list \<Rightarrow> 'v list \<Rightarrow> bool" where
  "snap_ok c ins outs \<longleftrightarrow> (\<exists>n \<le> length outs. n < length ins \<and> c = of_nat n)"

definition taken_ok :: "uint \<Rightarrow> 'v \<Rightarrow> 'v list \<Rightarrow> 'v list \<Rightarrow> bool" where
  "taken_ok c d ins outs \<longleftrightarrow>
     (\<exists>n \<le> length outs. n < length ins \<and> c = of_nat n \<and> (n = length outs \<longrightarrow> d = ins ! n))"

fun mc_ok :: "'v mc_pc \<Rightarrow> 'v list \<Rightarrow> 'v list \<Rightarrow> bool" where
  "mc_ok McStart ins outs \<longleftrightarrow> True"
| "mc_ok (McLoop c d) ins outs \<longleftrightarrow> (\<exists>n \<le> length outs. c = of_nat n)"
| "mc_ok (McCopy c) ins outs \<longleftrightarrow> snap_ok c ins outs"
| "mc_ok (McCas c d) ins outs \<longleftrightarrow> taken_ok c d ins outs"

fun tmc_ok :: "'v tmc_pc \<Rightarrow> 'v list \<Rightarrow> 'v list \<Rightarrow> bool" where
  "tmc_ok TmcStart ins outs \<longleftrightarrow> True"
| "tmc_ok (TmcLoad c) ins outs \<longleftrightarrow> (\<exists>n \<le> length outs. c = of_nat n)"
| "tmc_ok (TmcCopy c) ins outs \<longleftrightarrow> snap_ok c ins outs"
| "tmc_ok (TmcCas c d) ins outs \<longleftrightarrow> taken_ok c d ins outs"

definition each :: "('d \<Rightarrow> 'v list \<Rightarrow> 'v list \<Rightarrow> bool) \<Rightarrow> (nat \<Rightarrow> 'd option) \<Rightarrow> 'v list \<Rightarrow> 'v list \<Rightarrow> bool" where
  "each ok ds ins outs \<longleftrightarrow> (\<forall>t d. ds t = Some d \<longrightarrow> ok d ins outs)"

lemma snap_okI:
  assumes "ring_core k r ins outs" "n \<le> length outs" "(of_nat n :: uint) \<noteq> p_tail r"
  shows "snap_ok (of_nat n) ins outs"
proof -
  have "n \<noteq> length ins" using assms by (auto simp: ring_core_def)
  moreover have "n \<le> length ins" using assms by (auto simp: ring_core_def)
  ultimately show ?thesis using assms(2) unfolding snap_ok_def by (intro exI [of _ n]) auto
qed

lemma taken_okI: "ring_core k r ins outs \<Longrightarrow> snap_ok c ins outs \<Longrightarrow> taken_ok c (copy_out r c) ins outs"
  using core_copy_out [of k r ins outs] by (auto simp: snap_ok_def taken_ok_def)

lemma snap_taken_rely:
  "snap_ok c ins outs \<Longrightarrow> snap_ok c (ins @ [v]) outs" "taken_ok c d ins outs \<Longrightarrow> taken_ok c d (ins @ [v]) outs"
  "snap_ok c ins outs \<Longrightarrow> snap_ok c ins (outs @ [v])" "taken_ok c d ins outs \<Longrightarrow> taken_ok c d ins (outs @ [v])"
  unfolding snap_ok_def taken_ok_def
  by (auto simp: nth_append intro!: le_SucI)

lemma taken_commit:
  assumes "ring_core k r ins outs" "few k ins" "taken_ok c d ins outs" "c_head r = c"
  shows "length outs < length ins \<and> d = ins ! length outs"
proof -
  obtain n where n: "n \<le> length outs" "n < length ins" "c = of_nat n" "n = length outs \<longrightarrow> d = ins ! n"
    using assms(3) by (auto simp: taken_ok_def)
  have "length ins < 2 ^ 32" using assms(2) unfolding few_def
    by (metis add_leD1 le_neq_implies_less less_add_same_cancel1 not_less zero_less_numeral zero_less_power)
  then have "n = length outs" using assms n of_nat_uint_eq [of "length outs" n] by (simp add: ring_core_def)
  with n show ?thesis by simp
qed

lemma each_upd:
  "each ok ds ins outs \<Longrightarrow> each ok (ds(t := None)) ins outs"
  "each ok ds ins outs \<Longrightarrow> ok d ins outs \<Longrightarrow> each ok (ds(t := Some d)) ins outs"
  by (auto simp: each_def)

lemma each_rely: "each ok ds ins outs \<Longrightarrow> (\<And>d. ok d ins outs \<Longrightarrow> ok d ins' outs') \<Longrightarrow> each ok ds ins' outs'"
  by (simp add: each_def)

lemma mc_rely: "mc_ok d ins outs \<Longrightarrow> mc_ok d (ins @ [v]) outs" "mc_ok d ins outs \<Longrightarrow> mc_ok d ins (outs @ [v])"
  by (cases d; auto simp: snap_taken_rely intro: le_SucI)+

lemma tmc_rely: "tmc_ok d ins outs \<Longrightarrow> tmc_ok d (ins @ [v]) outs" "tmc_ok d ins outs \<Longrightarrow> tmc_ok d ins (outs @ [v])"
  by (cases d; auto simp: snap_taken_rely intro: le_SucI)+

lemma head_snap: "ring_core k r ins outs \<Longrightarrow> \<exists>n \<le> length outs. c_head r = of_nat n"
  by (auto simp: ring_core_def)

lemma mc_go:
  assumes core: "ring_core k r ins outs" and ok: "mc_ok d ins outs"
    and st: "ck_ring_dequeue_mc d r = (Go d', r')"
  shows "mc_ok d' ins outs \<and> r' = r"
proof (cases d)
  case McStart
  then show ?thesis using st head_snap [OF core] by (auto simp: pr_simps)
next
  case (McLoop c x)
  then obtain n where "n \<le> length outs" "c = of_nat n" using ok by auto
  then show ?thesis using McLoop st snap_okI [OF core] by (auto simp: pr_simps Let_def split: if_splits)
next
  case (McCopy c)
  then show ?thesis using st ok taken_okI [OF core] by auto
next
  case (McCas c x)
  then show ?thesis using st head_snap [OF core] by (auto simp: pr_simps split: if_splits)
qed

lemma mc_ret:
  assumes core: "ring_core k r ins outs" and "few k ins" and ok: "mc_ok d ins outs"
    and st: "ck_ring_dequeue_mc d r = (Ret x, r')"
  shows "case data_of x of None \<Rightarrow> r' = r
    | Some v \<Rightarrow> r' = r\<lparr>c_head := c_head r + 1\<rparr> \<and> length outs < length ins \<and> v = ins ! length outs"
proof (cases d)
  case (McCas c y)
  then show ?thesis using st ok taken_commit [OF core assms(2), of c y]
    by (auto simp: pr_simps data_of_def split: if_splits)
qed (use st in \<open>auto simp: Let_def data_of_def split: if_splits\<close>)

lemma tmc_go:
  assumes core: "ring_core k r ins outs" and ok: "tmc_ok d ins outs"
    and st: "ck_ring_trydequeue_mc d r = (Go d', r')"
  shows "tmc_ok d' ins outs \<and> r' = r"
proof (cases d)
  case TmcStart
  then show ?thesis using st head_snap [OF core] by (auto simp: pr_simps)
next
  case (TmcLoad c)
  then obtain n where "n \<le> length outs" "c = of_nat n" using ok by auto
  then show ?thesis using TmcLoad st snap_okI [OF core] by (auto simp: pr_simps Let_def split: if_splits)
next
  case (TmcCopy c)
  then show ?thesis using st ok taken_okI [OF core] by auto
next
  case (TmcCas c x)
  then show ?thesis using st by (auto simp: pr_simps split: if_splits)
qed

lemma tmc_ret:
  assumes core: "ring_core k r ins outs" and "few k ins" and ok: "tmc_ok d ins outs"
    and st: "ck_ring_trydequeue_mc d r = (Ret x, r')"
  shows "case data_of x of None \<Rightarrow> r' = r
    | Some v \<Rightarrow> r' = r\<lparr>c_head := c_head r + 1\<rparr> \<and> length outs < length ins \<and> v = ins ! length outs"
proof (cases d)
  case (TmcCas c y)
  then show ?thesis using st ok taken_commit [OF core assms(2), of c y]
    by (auto simp: pr_simps data_of_def split: if_splits)
qed (use st in \<open>auto simp: Let_def data_of_def split: if_splits\<close>)

text \<open>The two dequeue functions meet the contract of the consumer side by the same argument.\<close>

lemma many_consumers:
  assumes go: "\<And>r ins outs d d' r'. ring_core k r ins outs \<Longrightarrow> ok d ins outs \<Longrightarrow>
      deq d r = (Go d', r') \<Longrightarrow> ok d' ins outs \<and> r' = r"
    and ret: "\<And>r ins outs d x r'. ring_core k r ins outs \<Longrightarrow> few k ins \<Longrightarrow> ok d ins outs \<Longrightarrow>
      deq d r = (Ret x, r') \<Longrightarrow> case data_of x of None \<Rightarrow> r' = r
        | Some v \<Rightarrow> r' = r\<lparr>c_head := c_head r + 1\<rparr> \<and> length outs < length ins \<and> v = ins ! length outs"
    and rely: "\<And>d ins outs v. ok d ins outs \<Longrightarrow> ok d (ins @ [v]) outs"
      "\<And>d ins outs v. ok d ins outs \<Longrightarrow> ok d ins (outs @ [v])"
    and start: "\<And>ins outs. ok d0 ins outs"
  shows "ring_consumer k (\<lambda>d r. ret_map data_of (deq d r)) d0 (\<lambda>_. True) (few k) (each ok)"
proof unfold_locales
  fix r :: "'a ring_mem" and ins outs ds t d and r' :: "'a ring_mem" and d' v
  assume core: "ring_core k r ins outs" and few: "few k ins" and inv: "each ok ds ins outs" and d: "ds t = Some d"
  then have ok: "ok d ins outs" by (auto simp: each_def)
  show "each ok (ds(t := Some d')) ins outs \<and> r' = r" if "ret_map data_of (deq d r) = (Go d', r')"
    using go [OF core ok] that each_upd(2) [OF inv] by (simp add: ret_map_cases)
  show "each ok (ds(t := None)) ins (outs @ [v]) \<and> r' = r\<lparr>c_head := c_head r + 1\<rparr> \<and>
      length outs < length ins \<and> v = ins ! length outs" if st: "ret_map data_of (deq d r) = (Ret (Some v), r')"
  proof -
    obtain x where "deq d r = (Ret x, r')" "Some v = data_of x" using st unfolding ret_map_cases by blast
    moreover have "each ok ds ins (outs @ [v])" using inv rely(2) by (rule each_rely)
    ultimately show ?thesis using ret [OF core few ok, of x r'] each_upd(1)
      by (simp split: option.splits)
  qed
  show "each ok (ds(t := None)) ins outs \<and> r' = r" if st: "ret_map data_of (deq d r) = (Ret None, r')"
  proof -
    obtain x where "deq d r = (Ret x, r')" "None = data_of x" using st unfolding ret_map_cases by blast
    with ret [OF core few ok, of x r'] each_upd(1) [OF inv, of t] show ?thesis
      by (simp split: option.splits)
  qed
next
  fix ds ins outs and v :: 'a
  assume "each ok ds ins outs"
  then show "each ok ds (ins @ [v]) outs" using rely(1) by (rule each_rely)
next
  fix t ds ins outs
  assume "each ok ds ins outs"
  then show "each ok (ds(t := Some d0)) ins outs" by (intro each_upd start)
qed (simp add: each_def)

lemma mc_consumer:
  "ring_consumer k (ck_ring_dequeue_mpmc :: 'v mc_pc \<Rightarrow> _) McStart (\<lambda>_. True) (few k) (each mc_ok)"
  unfolding ck_ring_dequeue_mpmc_def [abs_def]
  by (rule many_consumers, erule (2) mc_go, erule (3) mc_ret, erule mc_rely(1), erule mc_rely(2), simp)

lemma tmc_consumer:
  "ring_consumer k (ck_ring_trydequeue_mpmc :: 'v tmc_pc \<Rightarrow> _) TmcStart (\<lambda>_. True) (few k) (each tmc_ok)"
  unfolding ck_ring_trydequeue_mpmc_def [abs_def]
  by (rule many_consumers, erule (2) tmc_go, erule (3) tmc_ret, erule tmc_rely(1), erule tmc_rely(2), simp)

text \<open>Producers reserve slots by advancing \<open>p_head\<close>: \<open>P\<close> is the number of reservations so far. The
  reserved counters of different threads differ, a thread that waits has already filled its slot, and
  the thread about to publish holds the oldest reservation.\<close>

fun reserved :: "('v \<times> mp_pc) option \<Rightarrow> uint option" where
  "reserved (Some (v, MpCopy producer c)) = Some producer"
| "reserved (Some (v, MpWait producer c)) = Some producer"
| "reserved (Some (v, MpPublish producer c)) = Some producer"
| "reserved _ = None"

fun mp_ok :: "nat \<Rightarrow> nat \<Rightarrow> 'v \<Rightarrow> mp_pc \<Rightarrow> 'v ring_mem \<Rightarrow> 'v list \<Rightarrow> 'v list \<Rightarrow> bool" where
  "mp_ok k P v MpStart r ins outs \<longleftrightarrow> True"
| "mp_ok k P v (MpLoop producer) r ins outs \<longleftrightarrow> (\<exists>i \<le> P. producer = of_nat i)"
| "mp_ok k P v (MpCas producer c) r ins outs \<longleftrightarrow>
     (\<exists>i \<le> P. producer = of_nat i) \<and> (\<exists>n \<le> length outs. c = of_nat n) \<and> producer - c < 2 ^ k - 1"
| "mp_ok k P v (MpSlow producer c) r ins outs \<longleftrightarrow> True"
| "mp_ok k P v (MpCopy producer c) r ins outs \<longleftrightarrow>
     (\<exists>i. length ins \<le> i \<and> i < P \<and> producer = of_nat i)"
| "mp_ok k P v (MpWait producer c) r ins outs \<longleftrightarrow>
     (\<exists>i. length ins \<le> i \<and> i < P \<and> producer = of_nat i \<and> buffer r ! (i mod 2 ^ k) = v)"
| "mp_ok k P v (MpPublish producer c) r ins outs \<longleftrightarrow>
     length ins < P \<and> producer = of_nat (length ins) \<and> buffer r ! (length ins mod 2 ^ k) = v"

definition mp_inv_at :: "nat \<Rightarrow> nat \<Rightarrow> (nat \<Rightarrow> ('v \<times> mp_pc) option) \<Rightarrow> 'v ring_mem \<Rightarrow> 'v list \<Rightarrow> 'v list \<Rightarrow> bool" where
  "mp_inv_at k P es r ins outs \<longleftrightarrow>
     p_head r = of_nat P \<and> length ins \<le> P \<and> P < length outs + 2 ^ k \<and>
     (\<forall>t v e. es t = Some (v, e) \<longrightarrow> mp_ok k P v e r ins outs) \<and>
     (\<forall>t u. reserved (es t) \<noteq> None \<longrightarrow> reserved (es t) = reserved (es u) \<longrightarrow> t = u)"

definition mp_inv :: "nat \<Rightarrow> (nat \<Rightarrow> ('v \<times> mp_pc) option) \<Rightarrow> 'v ring_mem \<Rightarrow> 'v list \<Rightarrow> 'v list \<Rightarrow> bool" where
  "mp_inv k es r ins outs \<longleftrightarrow> (\<exists>P. mp_inv_at k P es r ins outs)"

lemma few_bound:
  assumes "ring_core k r ins outs" "few k ins" "P < length outs + 2 ^ k" "i \<le> P"
  shows "i < 2 ^ 32"
  using assms by (auto simp: ring_core_def few_def)

lemma mp_upd:
  assumes "mp_inv_at k P es r ins outs" "mp_ok k P v e' r ins outs"
    and "reserved (Some (v, e')) = None \<or> reserved (Some (v, e')) = reserved (es t)"
  shows "mp_inv_at k P (es(t := Some (v, e'))) r ins outs"
  using assms unfolding mp_inv_at_def by (auto split: if_splits) metis+

lemma mp_done:
  "mp_inv_at k P es r ins outs \<Longrightarrow> mp_inv_at k P (es(t := None)) r ins outs"
  unfolding mp_inv_at_def by auto

lemma mp_reserved:
  "mp_inv_at k P es r ins outs \<Longrightarrow> reserved (es t) = Some p \<Longrightarrow>
     \<exists>i. length ins \<le> i \<and> i < P \<and> p = of_nat i"
  unfolding mp_inv_at_def by (cases "es t" rule: reserved.cases) (auto, fastforce+)

lemma mp_okD: "mp_inv_at k P es r ins outs \<Longrightarrow> es t = Some (v, e) \<Longrightarrow> mp_ok k P v e r ins outs"
  by (simp add: mp_inv_at_def)

lemma mp_ok_mono: "mp_ok k P v e r ins outs \<Longrightarrow> mp_ok k (Suc P) v e (r\<lparr>p_head := x\<rparr>) ins outs"
  by (cases e) (auto intro: le_SucI less_SucI)

lemma mp_reserve:
  assumes core: "ring_core k r ins outs" and few: "few k ins" and inv: "mp_inv_at k P es r ins outs"
    and e: "es t = Some (v, MpCas producer c)" and head: "p_head r = producer"
  shows "mp_inv_at k (Suc P) (es(t := Some (v, MpCopy producer c))) (r\<lparr>p_head := producer + 1\<rparr>) ins outs"
proof -
  have P: "p_head r = of_nat P" "length ins \<le> P" "P < length outs + 2 ^ k" using inv by (auto simp: mp_inv_at_def)
  have "mp_ok k P v (MpCas producer c) r ins outs" using mp_okD [OF inv e] .
  then obtain n where n: "n \<le> length outs" "c = of_nat n" "producer - c < 2 ^ k - 1" by auto
  have le: "n \<le> P" using n(1) P(2) core by (auto simp: ring_core_def)
  then have "producer - c = of_nat (P - n)" using P(1) n(2) head by (simp add: of_nat_diff)
  moreover have "P - n < 2 ^ 32" using few_bound [OF core few P(3)] by simp
  ultimately have "unat (producer - c) = P - n" by (simp add: unat_of_nat_uint)
  moreover have "unat (2 ^ k - 1 :: uint) = 2 ^ k - 1" using core unat_pow_minus_1 by (auto simp: ring_core_def)
  ultimately have room: "Suc P < length outs + 2 ^ k" using n(1,3) le by (simp add: word_less_nat_alt)
  have fresh: "reserved (es u) \<noteq> Some producer" for u
    using mp_reserved [OF inv, of u producer] head P few_bound [OF core few P(3)] of_nat_uint_eq
    by (metis less_imp_le nat_less_le order_refl)
  show ?thesis unfolding mp_inv_at_def
  proof (intro conjI allI impI)
    fix u w e'
    assume a: "(es(t := Some (v, MpCopy producer c))) u = Some (w, e')"
    have "mp_ok k (Suc P) v (MpCopy producer c) (r\<lparr>p_head := producer + 1\<rparr>) ins outs"
      using P head by (auto intro: exI [of _ P])
    with a mp_okD [OF inv] show "mp_ok k (Suc P) w e' (r\<lparr>p_head := producer + 1\<rparr>) ins outs"
      by (auto split: if_splits intro: mp_ok_mono)
  next
    fix u w
    assume "reserved ((es(t := Some (v, MpCopy producer c))) u) \<noteq> None"
      "reserved ((es(t := Some (v, MpCopy producer c))) u) = reserved ((es(t := Some (v, MpCopy producer c))) w)"
    then show "u = w" using inv fresh by (auto simp: mp_inv_at_def split: if_splits)
  qed (use P head room in \<open>auto\<close>)
qed

lemma mp_copy:
  assumes core: "ring_core k r ins outs" and inv: "mp_inv_at k P es r ins outs"
    and e: "es t = Some (v, MpCopy producer c)"
  shows "mp_inv_at k P (es(t := Some (v, MpWait producer c))) (copy_in r producer v) ins outs \<and>
    ring_core k (copy_in r producer v) ins outs"
proof -
  obtain i where i: "length ins \<le> i" "i < P" "producer = of_nat i"
    using mp_reserved [OF inv, of t producer] e by auto
  have P: "P < length outs + 2 ^ k" using inv by (simp add: mp_inv_at_def)
  have ok: "ring_ok k r" "length outs \<le> length ins" using core by (auto simp: ring_core_def)
  have other: "mp_ok k P w e' (copy_in r producer v) ins outs" if "es u = Some (w, e')" "u \<noteq> t" for u w e'
  proof -
    have m: "mp_ok k P w e' r ins outs" using mp_okD [OF inv that(1)] .
    have "reserved (es u) \<noteq> Some producer" using inv that e by (force simp: mp_inv_at_def)
    then have "buffer (copy_in r producer v) ! (j mod 2 ^ k) = buffer r ! (j mod 2 ^ k)"
      if "reserved (es u) = Some (of_nat j)" "length ins \<le> j" "j < P" for j
      using that i P ok mod_neq [of i j "length outs" "2 ^ k"] copy_in_other [OF ok(1), of i j v]
      by (cases "i = j") auto
    with m that show ?thesis using inv by (cases e') (auto simp: mp_inv_at_def)
  qed
  have "mp_inv_at k P (es(t := Some (v, MpWait producer c))) (copy_in r producer v) ins outs"
    unfolding mp_inv_at_def
  proof (intro conjI allI impI)
    fix u w e'
    assume a: "(es(t := Some (v, MpWait producer c))) u = Some (w, e')"
    have "mp_ok k P v (MpWait producer c) (copy_in r producer v) ins outs"
      using i copy_in_same [OF ok(1), of i v] by (simp del: of_nat_Suc) blast
    with a other show "mp_ok k P w e' (copy_in r producer v) ins outs" by (auto split: if_splits)
  next
    fix u w
    assume "reserved ((es(t := Some (v, MpWait producer c))) u) \<noteq> None"
      "reserved ((es(t := Some (v, MpWait producer c))) u) = reserved ((es(t := Some (v, MpWait producer c))) w)"
    moreover have "reserved ((es(t := Some (v, MpWait producer c))) x) = reserved (es x)" for x using e by simp
    ultimately show "u = w" using inv by (simp add: mp_inv_at_def)
  qed (use inv in \<open>auto simp: mp_inv_at_def\<close>)
  with core_copy_in [OF core i(1)] i P show ?thesis by simp
qed

lemma mp_publish:
  assumes core: "ring_core k r ins outs" and few: "few k ins" and inv: "mp_inv_at k P es r ins outs"
    and e: "es t = Some (v, MpPublish producer c)"
  shows "mp_inv_at k P (es(t := None)) (r\<lparr>p_tail := producer + 1\<rparr>) (ins @ [v]) outs \<and>
    ring_core k (r\<lparr>p_tail := producer + 1\<rparr>) (ins @ [v]) outs"
proof -
  have "mp_ok k P v (MpPublish producer c) r ins outs" using mp_okD [OF inv e] .
  then have p: "length ins < P" "producer = of_nat (length ins)" "buffer r ! (length ins mod 2 ^ k) = v" by auto
  have P: "P < length outs + 2 ^ k" using inv by (simp add: mp_inv_at_def)
  have other: "mp_ok k P w e' (r\<lparr>p_tail := producer + 1\<rparr>) (ins @ [v]) outs" if "es u = Some (w, e')" "u \<noteq> t" for u w e'
  proof -
    have m: "mp_ok k P w e' r ins outs" using mp_okD [OF inv that(1)] .
    have "reserved (es u) \<noteq> Some (of_nat (length ins))" using inv that e p(2) by (force simp: mp_inv_at_def)
    moreover from this have "Suc (length ins) \<le> j" if "reserved (es u) = Some (of_nat j)" "length ins \<le> j" for j
      using that by (metis Suc_leI le_neq_implies_less)
    ultimately show ?thesis using m that by (cases e') auto
  qed
  have "mp_inv_at k P (es(t := None)) (r\<lparr>p_tail := producer + 1\<rparr>) (ins @ [v]) outs"
    unfolding mp_inv_at_def
  proof (intro conjI allI impI)
    fix u w e'
    assume "(es(t := None)) u = Some (w, e')"
    then show "mp_ok k P w e' (r\<lparr>p_tail := producer + 1\<rparr>) (ins @ [v]) outs"
      using other by (auto split: if_splits)
  qed (use inv p in \<open>auto simp: mp_inv_at_def split: if_splits\<close>)
  with core_publish [OF core _ p(3)] p P show ?thesis by simp
qed

lemma mp_wait:
  assumes core: "ring_core k r ins outs" and few: "few k ins" and inv: "mp_inv_at k P es r ins outs"
    and e: "es t = Some (v, MpWait producer c)" and tail: "p_tail r = producer"
  shows "mp_inv_at k P (es(t := Some (v, MpPublish producer c))) r ins outs"
proof (rule mp_upd [OF inv])
  obtain i where i: "length ins \<le> i" "i < P" "producer = of_nat i" "buffer r ! (i mod 2 ^ k) = v"
    using mp_okD [OF inv e] by auto
  have P: "P < length outs + 2 ^ k" using inv by (simp add: mp_inv_at_def)
  have "i < 2 ^ 32" "length ins < 2 ^ 32"
    using few_bound [OF core few P, of i] few_bound [OF core few P, of "length ins"] i by linarith+
  moreover have "(of_nat (length ins) :: uint) = of_nat i" using tail i(3) core by (simp add: ring_core_def)
  ultimately have "i = length ins" using of_nat_uint_eq [of "length ins" i] by blast
  with i show "mp_ok k P v (MpPublish producer c) r ins outs" by simp
qed (simp add: e)

lemma mp_go:
  assumes core: "ring_core k r ins outs" and few: "few k ins" and inv: "mp_inv_at k P es r ins outs"
    and e: "es t = Some (v, e)" and st: "ck_ring_enqueue_mp v e r = (Go e', r')"
  shows "mp_inv k (es(t := Some (v, e'))) r' ins outs \<and> ring_core k r' ins outs"
proof -
  have P: "p_head r = of_nat P" "ring_mask r = 2 ^ k - 1" "c_head r = of_nat (length outs)"
    using inv core by (auto simp: mp_inv_at_def ring_core_def ring_ok_def)
  have upd: ?thesis if "r' = r" "mp_ok k P v e' r ins outs"
    "reserved (Some (v, e')) = None \<or> reserved (Some (v, e')) = reserved (es t)"
    using mp_upd [OF inv that(2,3)] core that(1) by (auto simp: mp_inv_def)
  show ?thesis
  proof (cases e)
    case MpStart
    then show ?thesis using st P by (intro upd) (auto simp: pr_simps)
  next
    case (MpLoop producer)
    then show ?thesis using st P mp_okD [OF inv e]
      by (intro upd) (auto simp: pr_simps Let_def split: if_splits)
  next
    case (MpCas producer c)
    show ?thesis
    proof (cases "p_head r = producer")
      case True
      then show ?thesis using st MpCas mp_reserve [OF core few inv, of t v producer c] e core_p_head [OF core]
        by (auto simp: pr_simps mp_inv_def)
    next
      case False
      then show ?thesis using st MpCas P by (intro upd) (auto simp: pr_simps)
    qed
  next
    case (MpSlow producer c)
    then show ?thesis using st P by (intro upd) (auto simp: pr_simps Let_def split: if_splits)
  next
    case (MpCopy producer c)
    then show ?thesis using st mp_copy [OF core inv, of t v producer c] e by (auto simp: mp_inv_def)
  next
    case (MpWait producer c)
    show ?thesis
    proof (cases "p_tail r = producer")
      case True
      then show ?thesis using st MpWait mp_wait [OF core few inv, of t v producer c] e core
        by (auto simp: pr_simps mp_inv_def)
    next
      case False
      then show ?thesis using st MpWait e mp_okD [OF inv e] by (intro upd) (auto simp: pr_simps)
    qed
  next
    case (MpPublish producer c)
    then show ?thesis using st by simp
  qed
qed

lemma mp_rely:
  assumes "mp_ok k P w e r ins outs"
  shows "mp_ok k P w e (r\<lparr>c_head := x\<rparr>) ins (outs @ [v])"
  using assms by (cases e) (auto intro: le_SucI)

lemma mp_producer:
  "ring_producer k (ck_ring_enqueue_mpmc :: 'v \<Rightarrow> _) MpStart (\<lambda>_. True) (few k) (mp_inv k)"
proof unfold_locales
  fix r :: "'v ring_mem" and ins outs es t v e and r' :: "'v ring_mem" and e'
  assume core: "ring_core k r ins outs" and inv: "mp_inv k es r ins outs" and e: "es t = Some (v, e)"
  then obtain P where at: "mp_inv_at k P es r ins outs" by (auto simp: mp_inv_def)
  show "mp_inv k (es(t := Some (v, e'))) r' ins outs \<and> ring_core k r' ins outs"
    if "few k ins" "ck_ring_enqueue_mpmc v e r = (Go e', r')"
    using mp_go [OF core that(1) at e, of e' r'] that(2) by (simp add: ck_ring_enqueue_mpmc_def ret_map_cases)
  show "mp_inv k (es(t := None)) r' (ins @ [v]) outs \<and> ring_core k r' (ins @ [v]) outs"
    if f: "few k (ins @ [v])" and st: "ck_ring_enqueue_mpmc v e r = (Ret True, r')"
  proof -
    obtain b where "ck_ring_enqueue_mp v e r = (Ret (True, b), r')"
      using st unfolding ck_ring_enqueue_mpmc_def ret_map_cases by auto
    then obtain p c where "e = MpPublish p c" "r' = r\<lparr>p_tail := p + 1\<rparr>"
      by (cases e) (auto simp: Let_def pr_simps split: if_splits)
    with mp_publish [OF core few_prefix [OF f] at, of t v p c] e show ?thesis by (auto simp: mp_inv_def)
  qed
  show "mp_inv k (es(t := None)) r' ins outs \<and> r' = r"
    if st: "ck_ring_enqueue_mpmc v e r = (Ret False, r')"
  proof -
    obtain b where "ck_ring_enqueue_mp v e r = (Ret (False, b), r')"
      using st unfolding ck_ring_enqueue_mpmc_def ret_map_cases by auto
    then have "r' = r" by (cases e) (auto simp: Let_def pr_simps split: if_splits)
    with mp_done [OF at] show ?thesis by (auto simp: mp_inv_def)
  qed
next
  fix r :: "'v ring_mem" and ins outs es x and v :: 'v
  assume core: "ring_core k r ins outs" and inv: "mp_inv k es r ins outs"
  then obtain P where at: "mp_inv_at k P es r ins outs" by (auto simp: mp_inv_def)
  have "mp_inv_at k P es (r\<lparr>c_head := x\<rparr>) ins (outs @ [v])" unfolding mp_inv_at_def
  proof (intro conjI allI impI)
    fix t w e assume "es t = Some (w, e)"
    then show "mp_ok k P w e (r\<lparr>c_head := x\<rparr>) ins (outs @ [v])" by (intro mp_rely mp_okD [OF at])
  qed (use at in \<open>auto simp: mp_inv_at_def\<close>)
  then show "mp_inv k es (r\<lparr>c_head := x\<rparr>) ins (outs @ [v])" by (auto simp: mp_inv_def)
next
  fix t es and r :: "'v ring_mem" and ins outs v
  assume "mp_inv k es r ins outs"
  then obtain P where "mp_inv_at k P es r ins outs" by (auto simp: mp_inv_def)
  from mp_upd [OF this, of v MpStart t] show "mp_inv k (es(t := Some (v, MpStart))) r ins outs"
    by (auto simp: mp_inv_def)
next
  fix r :: "'v ring_mem"
  assume "p_head r = 0"
  then show "mp_inv k (\<lambda>_. None) r [] []" by (auto simp: mp_inv_def mp_inv_at_def intro: exI [of _ 0])
qed

section \<open>The four sharing disciplines\<close>

lemma ck_ring_enqueue_eqs:
  "ck_ring_enqueue_spmc = ck_ring_enqueue_spsc" "ck_ring_enqueue_mpsc = ck_ring_enqueue_mpmc"
  "ck_ring_dequeue_spmc = ck_ring_dequeue_mpmc" "ck_ring_dequeue_mpsc = ck_ring_dequeue_spsc"
  by (simp_all add: fun_eq_iff ck_ring_enqueue_spmc_def ck_ring_enqueue_spsc_def ck_ring_enqueue_mpsc_def
      ck_ring_enqueue_mpmc_def ck_ring_dequeue_spmc_def ck_ring_dequeue_mpmc_def ck_ring_dequeue_mpsc_def
      ck_ring_dequeue_spsc_def)

lemmas ring_ops_defs = spsc_ops_def spmc_ops_def mpsc_ops_def mpmc_ops_def try_mpmc_ops_def ck_ring_enqueue_eqs
lemmas ring_system_intro = ring_system.intro [OF _ _ ring_system_axioms.intro]

interpretation spsc: ring_system k spsc_ops "\<lambda>_. True" "sp_inv k" sc_inv for k
  by (rule ring_system_intro) (simp_all add: ring_ops_defs sp_producer sc_consumer [simplified])

interpretation spmc: ring_system k spmc_ops "few k" "sp_inv k" "each mc_ok" for k
  by (rule ring_system_intro) (simp_all add: ring_ops_defs sp_producer mc_consumer few_prefix)

interpretation mpsc: ring_system k mpsc_ops "few k" "mp_inv k" sc_inv for k
  by (rule ring_system_intro) (simp_all add: ring_ops_defs mp_producer sc_consumer [simplified] few_prefix)

interpretation mpmc: ring_system k mpmc_ops "few k" "mp_inv k" "each mc_ok" for k
  by (rule ring_system_intro) (simp_all add: ring_ops_defs mp_producer mc_consumer few_prefix)

interpretation try_mpmc: ring_system k try_mpmc_ops "few k" "mp_inv k" "each tmc_ok" for k
  by (rule ring_system_intro) (simp_all add: ring_ops_defs mp_producer tmc_consumer few_prefix)

end
