(* ===== verification/RingQueue.thy ===== *)
theory RingQueue
  imports Ring
begin

text \<open>
  What the ring buffer promises: each sharing discipline is a bounded first-in first-out queue under
  any interleaving, and a call that runs alone returns and behaves as an operation of a bounded queue.
\<close>

section \<open>Calls that run alone\<close>

text \<open>The contract of a bounded queue whose operations return the flag or entry with the new state, and
  \<open>None\<close> if they do not return.\<close>

locale bounded_queue =
  fixes wf :: "'s \<Rightarrow> bool" and abs :: "'s \<Rightarrow> 'v list" and cap :: nat
    and enq :: "'v \<Rightarrow> 's \<Rightarrow> (bool \<times> 's) option" and deq :: "'s \<Rightarrow> ('v option \<times> 's) option"
  assumes enq_ok: "wf s \<Longrightarrow> length (abs s) < cap \<Longrightarrow>
      \<exists>s'. enq v s = Some (True, s') \<and> wf s' \<and> abs s' = abs s @ [v]"
    and enq_full: "wf s \<Longrightarrow> cap \<le> length (abs s) \<Longrightarrow> enq v s = Some (False, s)"
    and deq_ok: "wf s \<Longrightarrow> abs s = v # vs \<Longrightarrow> \<exists>s'. deq s = Some (Some v, s') \<and> wf s' \<and> abs s' = vs"
    and deq_empty: "wf s \<Longrightarrow> abs s = [] \<Longrightarrow> deq s = Some (None, s)"

text \<open>Enqueue all values of a list, or fail; dequeue until empty with at most \<open>n\<close> calls.\<close>

fun enq_all :: "('v \<Rightarrow> 's \<Rightarrow> (bool \<times> 's) option) \<Rightarrow> 'v list \<Rightarrow> 's \<Rightarrow> 's option" where
  "enq_all enq [] s = Some s"
| "enq_all enq (v # vs) s =
     (case enq v s of Some (True, s') \<Rightarrow> enq_all enq vs s' | _ \<Rightarrow> None)"

fun deq_all :: "('s \<Rightarrow> ('v option \<times> 's) option) \<Rightarrow> nat \<Rightarrow> 's \<Rightarrow> 'v list \<times> 's" where
  "deq_all deq 0 s = ([], s)"
| "deq_all deq (Suc n) s =
     (case deq s of
        Some (Some v, s') \<Rightarrow> (let (vs, s'') = deq_all deq n s' in (v # vs, s''))
      | _ \<Rightarrow> ([], s))"

context bounded_queue begin

lemma enq_all_ok:
  "wf s \<Longrightarrow> length (abs s) + length vs \<le> cap \<Longrightarrow> \<exists>s'. enq_all enq vs s = Some s' \<and> wf s' \<and> abs s' = abs s @ vs"
proof (induction vs arbitrary: s)
  case (Cons v vs)
  obtain s1 where s1: "enq v s = Some (True, s1)" "wf s1" "abs s1 = abs s @ [v]"
    using enq_ok [of s v] Cons.prems by auto
  then show ?case using Cons.IH [of s1] Cons.prems by simp
qed simp

lemma deq_all_ok: "wf s \<Longrightarrow> \<exists>s'. deq_all deq (length (abs s) + n) s = (abs s, s') \<and> wf s' \<and> abs s' = []"
proof (induction "abs s" arbitrary: s)
  case Nil
  then have "deq s = Some (None, s)" using deq_empty by simp
  with Nil show ?case by (cases n) (auto simp flip: Nil(1))
next
  case (Cons v vs)
  then obtain s1 where s1: "deq s = Some (Some v, s1)" "wf s1" "abs s1 = vs" using deq_ok [of s v vs] by auto
  with Cons.hyps(1) [of s1] show ?case by (auto simp flip: Cons.hyps(2))
qed

text \<open>Round trip: what is put into an empty queue comes out again in the same order.\<close>

lemma roundtrip:
  assumes "wf s" "abs s = []" "length vs \<le> cap"
  shows "\<exists>s1 s2. enq_all enq vs s = Some s1 \<and> deq_all deq (length vs + n) s1 = (vs, s2) \<and> abs s2 = [] \<and>
    (length vs = cap \<longrightarrow> enq v s1 = Some (False, s1))"
proof -
  obtain s1 where "enq_all enq vs s = Some s1" "wf s1" "abs s1 = vs" using enq_all_ok [of s vs] assms by auto
  with deq_all_ok [of s1 n] enq_full [of s1 v] show ?thesis by auto
qed

end

section \<open>The ring calls as bounded queues\<close>

definition ring_wf :: "nat \<Rightarrow> 'v ring_mem \<Rightarrow> bool" where
  "ring_wf k r \<longleftrightarrow> (\<exists>ins outs. ring_core k r ins outs)"

text \<open>Between calls of the multiple-producer functions nothing is reserved.\<close>

definition ring_quiet :: "nat \<Rightarrow> 'v ring_mem \<Rightarrow> bool" where
  "ring_quiet k r \<longleftrightarrow> ring_wf k r \<and> p_head r = p_tail r"

definition solo_enqueue_spsc :: "'v \<Rightarrow> 'v ring_mem \<Rightarrow> (bool \<times> 'v ring_mem) option" where
  "solo_enqueue_spsc v = run_solo 4 (ck_ring_enqueue_spsc v) SpStart"

definition solo_dequeue_spsc :: "'v ring_mem \<Rightarrow> ('v option \<times> 'v ring_mem) option" where
  "solo_dequeue_spsc = run_solo 4 ck_ring_dequeue_spsc ScStart"

definition solo_enqueue_mpmc :: "'v \<Rightarrow> 'v ring_mem \<Rightarrow> (bool \<times> 'v ring_mem) option" where
  "solo_enqueue_mpmc v = run_solo 6 (ck_ring_enqueue_mpmc v) MpStart"

definition solo_dequeue_mpmc :: "'v ring_mem \<Rightarrow> ('v option \<times> 'v ring_mem) option" where
  "solo_dequeue_mpmc = run_solo 4 ck_ring_dequeue_mpmc McStart"

lemma core_contents:
  "ring_core k r ins outs \<Longrightarrow> contents r = drop (length outs) ins \<and> length (contents r) < 2 ^ k"
  using ring_core_abs [of k r ins outs] by (auto simp: ring_core_def)

lemma core_full_sp:
  assumes "ring_core k r ins outs"
  shows "(p_tail r + 1) AND ring_mask r = c_head r AND ring_mask r \<longleftrightarrow> Suc (length ins) = length outs + 2 ^ k"
proof
  assume "(p_tail r + 1) AND ring_mask r = c_head r AND ring_mask r"
  moreover have "p_tail r + 1 = of_nat (Suc (length ins))" "c_head r = of_nat (length outs)" "ring_ok k r"
    using assms by (auto simp: ring_core_def)
  ultimately have "Suc (length ins) mod 2 ^ k = length outs mod 2 ^ k"
    by (metis slot_def slot_of_nat)
  then have "2 ^ k dvd Suc (length ins) - length outs"
    using assms mod_eq_dvd_iff_nat [of "length outs" "Suc (length ins)" "2 ^ k"] by (simp add: ring_core_def)
  then show "Suc (length ins) = length outs + 2 ^ k"
    using assms dvd_imp_le [of "2 ^ k" "Suc (length ins) - length outs"] by (auto simp: ring_core_def)
next
  assume e: "Suc (length ins) = length outs + 2 ^ k"
  have "p_tail r + 1 = of_nat (length outs + 2 ^ k)" "c_head r = of_nat (length outs)" "ring_ok k r"
    using assms by (simp_all add: ring_core_def flip: e)
  then have "slot r (p_tail r + 1) = slot r (c_head r)" by (simp only: slot_of_nat mod_add_self2)
  then show "(p_tail r + 1) AND ring_mask r = c_head r AND ring_mask r" by (simp add: slot_def word_unat_eq_iff)
qed

lemma core_full_mp:
  assumes "ring_core k r ins outs"
  shows "p_tail r - c_head r < ring_mask r \<longleftrightarrow> Suc (length ins) < length outs + 2 ^ k"
proof -
  have "unat (ring_mask r) = 2 ^ k - 1" using assms unat_pow_minus_1 [of k r] by (auto simp: ring_core_def ring_ok_def)
  then have "p_tail r - c_head r < ring_mask r \<longleftrightarrow> length ins - length outs < 2 ^ k - 1"
    using ring_core_diff [OF assms] by (simp only: word_less_nat_alt)
  moreover have "length outs \<le> length ins" using assms by (simp add: ring_core_def)
  ultimately show ?thesis by linarith
qed

lemma core_empty:
  assumes c: "ring_core k r ins outs"
  shows "c_head r = p_tail r \<longleftrightarrow> length outs = length ins"
proof
  assume "c_head r = p_tail r"
  then have "length ins - length outs = 0" using ring_core_diff [OF c] by simp
  with c show "length outs = length ins" by (simp add: ring_core_def)
qed (use c in \<open>simp add: ring_core_def\<close>)

text \<open>What a call leaves behind when it succeeds.\<close>

lemma core_enqueue:
  assumes "ring_core k r ins outs" "Suc (length ins) < length outs + 2 ^ k"
  shows "ring_core k ((copy_in r (p_tail r) v)\<lparr>p_tail := p_tail r + 1\<rparr>) (ins @ [v]) outs"
  using core_publish [OF core_copy_in [OF assms(1), of "length ins" v] assms(2) copy_in_same]
    assms by (simp add: ring_core_def)

lemma solo_enqueue_spsc_eq:
  "ring_core k r ins outs \<Longrightarrow> solo_enqueue_spsc v r =
     (if Suc (length ins) = length outs + 2 ^ k then Some (False, r)
      else Some (True, (copy_in r (p_tail r) v)\<lparr>p_tail := p_tail r + 1\<rparr>))"
  using core_full_sp [of k r ins outs]
  by (simp add: solo_enqueue_spsc_def ck_ring_enqueue_spsc_def ret_map_def Let_def pr_simps)

lemma solo_enqueue_mpmc_eq:
  "ring_core k r ins outs \<Longrightarrow> p_head r = p_tail r \<Longrightarrow> solo_enqueue_mpmc v r =
     (if Suc (length ins) < length outs + 2 ^ k
      then Some (True, (copy_in r (p_tail r) v)\<lparr>p_tail := p_tail r + 1, p_head := p_tail r + 1\<rparr>)
      else Some (False, r))"
  using core_full_mp [of k r ins outs]
  by (simp add: solo_enqueue_mpmc_def ck_ring_enqueue_mpmc_def ret_map_def Let_def pr_simps copy_in_def slot_def)

lemma solo_dequeue_eq:
  assumes "ring_core k r ins outs"
  shows "solo_dequeue_spsc r = (if length outs = length ins then Some (None, r)
      else Some (Some (ins ! length outs), r\<lparr>c_head := c_head r + 1\<rparr>))"
    and "solo_dequeue_mpmc r = (if length outs = length ins then Some (None, r)
      else Some (Some (ins ! length outs), r\<lparr>c_head := c_head r + 1\<rparr>))"
  using core_empty [OF assms] core_copy_out [OF assms] assms
  by (simp_all add: solo_dequeue_spsc_def ck_ring_dequeue_spsc_def solo_dequeue_mpmc_def
      ck_ring_dequeue_mpmc_def ret_map_def Let_def pr_simps data_of_def ring_core_def)

lemma core_len: "ring_core k r ins outs \<Longrightarrow> length (contents r) = length ins - length outs"
  using core_contents [of k r ins outs] by simp

lemma core_dequeue:
  assumes "ring_core k r ins outs" "contents r = v # vs"
  shows "length outs \<noteq> length ins \<and> ins ! length outs = v \<and>
    contents (r\<lparr>c_head := c_head r + 1\<rparr>) = vs \<and> ring_wf k (r\<lparr>c_head := c_head r + 1\<rparr>)"
proof -
  have d: "drop (length outs) ins = v # vs" using core_contents [OF assms(1)] assms(2) by simp
  then have l: "length outs < length ins" by (metis drop_all leI list.distinct(1))
  have v: "ins ! length outs = v" using d l by (metis hd_drop_conv_nth list.sel(1))
  have "drop (Suc (length outs)) ins = vs" using d by (metis drop_Suc list.sel(3) tl_drop)
  with core_consume [OF assms(1) l] core_contents [OF core_consume [OF assms(1) l]] l v show ?thesis
    by (auto simp: ring_wf_def)
qed

interpretation spsc_queue: bounded_queue "ring_wf k" contents "2 ^ k - 1" solo_enqueue_spsc solo_dequeue_spsc for k
proof unfold_locales
  fix r :: "'a ring_mem" and v :: 'a and vs
  assume "ring_wf k r"
  then obtain ins outs where core: "ring_core k r ins outs" by (auto simp: ring_wf_def)
  note len = core_len [OF core]
  have le: "length outs \<le> length ins" "length ins < length outs + 2 ^ k" using core by (auto simp: ring_core_def)
  show "\<exists>r'. solo_enqueue_spsc v r = Some (True, r') \<and> ring_wf k r' \<and> contents r' = contents r @ [v]"
    if "length (contents r) < 2 ^ k - 1"
  proof -
    have s: "Suc (length ins) < length outs + 2 ^ k" using that len le by auto
    note c = core_enqueue [OF core s, of v]
    then have "ring_wf k ((copy_in r (p_tail r) v)\<lparr>p_tail := p_tail r + 1\<rparr>)" by (auto simp: ring_wf_def)
    then show ?thesis using s core_contents [OF c] core_contents [OF core] le
      by (simp add: solo_enqueue_spsc_eq [OF core])
  qed
  show "solo_enqueue_spsc v r = Some (False, r)" if "2 ^ k - 1 \<le> length (contents r)"
    using that len le by (auto simp: solo_enqueue_spsc_eq [OF core])
  show "\<exists>r'. solo_dequeue_spsc r = Some (Some v, r') \<and> ring_wf k r' \<and> contents r' = vs" if "contents r = v # vs"
    using core_dequeue [OF core that] by (auto simp: solo_dequeue_eq [OF core])
  show "solo_dequeue_spsc r = Some (None, r)" if "contents r = []"
    using that len le by (auto simp: solo_dequeue_eq [OF core])
qed

interpretation mpmc_queue: bounded_queue "ring_quiet k" contents "2 ^ k - 1" solo_enqueue_mpmc solo_dequeue_mpmc for k
proof unfold_locales
  fix r :: "'a ring_mem" and v :: 'a and vs
  assume "ring_quiet k r"
  then obtain ins outs where core: "ring_core k r ins outs" and q: "p_head r = p_tail r"
    by (auto simp: ring_quiet_def ring_wf_def)
  note len = core_len [OF core]
  have le: "length outs \<le> length ins" "length ins < length outs + 2 ^ k" using core by (auto simp: ring_core_def)
  show "\<exists>r'. solo_enqueue_mpmc v r = Some (True, r') \<and> ring_quiet k r' \<and> contents r' = contents r @ [v]"
    if "length (contents r) < 2 ^ k - 1"
  proof -
    have s: "Suc (length ins) < length outs + 2 ^ k" using that len le by auto
    note c = core_p_head [OF core_enqueue [OF core s, of v], of "p_tail r + 1"]
    then have "ring_wf k ((copy_in r (p_tail r) v)\<lparr>p_tail := p_tail r + 1, p_head := p_tail r + 1\<rparr>)"
      by (auto simp: ring_wf_def)
    then show ?thesis using s core_contents [OF c] core_contents [OF core] le
      by (simp add: solo_enqueue_mpmc_eq [OF core q] ring_quiet_def)
  qed
  show "solo_enqueue_mpmc v r = Some (False, r)" if "2 ^ k - 1 \<le> length (contents r)"
    using that len le by (auto simp: solo_enqueue_mpmc_eq [OF core q])
  show "\<exists>r'. solo_dequeue_mpmc r = Some (Some v, r') \<and> ring_quiet k r' \<and> contents r' = vs" if "contents r = v # vs"
    using core_dequeue [OF core that] q by (auto simp: solo_dequeue_eq [OF core] ring_quiet_def)
  show "solo_dequeue_mpmc r = Some (None, r)" if "contents r = []"
    using that len le by (auto simp: solo_dequeue_eq [OF core])
qed

section \<open>Properties\<close>

lemma ck_ring_init_start:
  "k < 32 \<Longrightarrow> length buf = 2 ^ k \<Longrightarrow> ring_start k (ck_ring_init (2 ^ k) buf)"
  by (simp add: ring_start_def ring_ok_def ck_ring_init_def)

lemma ring_start_wf:
  assumes "ring_start k r"
  shows "ring_wf k r" "ring_quiet k r" "contents r = []"
proof -
  have core: "ring_core k r [] []" using assms by (simp add: ring_start_def ring_core_def)
  then show "ring_wf k r" "ring_quiet k r" using assms by (auto simp: ring_start_def ring_quiet_def ring_wf_def)
  show "contents r = []" using core_contents [OF core] by simp
qed

lemma core_size: "ring_core k r ins outs \<Longrightarrow> unat (ck_ring_size r) = length (contents r)"
proof -
  assume c: "ring_core k r ins outs"
  have "p_tail r - c_head r = of_nat (unat (p_tail r - c_head r))" by simp
  then have "p_tail r - c_head r = of_nat (length (contents r))"
    using ring_core_diff [OF c] core_len [OF c] by metis
  moreover have "ring_ok k r" using c by (simp add: ring_core_def)
  ultimately have "unat (ck_ring_size r) = length (contents r) mod 2 ^ k"
    using slot_of_nat [of k r "length (contents r)"] by (simp add: ck_ring_size_def pr_simps slot_def)
  then show ?thesis using conjunct2 [OF core_contents [OF c]] by (simp only: mod_less)
qed

text \<open>Claim C1: the ring shared by one producer and one consumer is a bounded first-in first-out queue. In
  every state reachable by interleaving their steps on an initialised ring, however often the counters
  have wrapped around, the entries whose enqueue has returned true are those already dequeued, in the
  same order, followed by the contents of the ring; the ring holds fewer than \<open>2 ^ k\<close> entries and
  \<open>ck_ring_size\<close> counts them.\<close>

theorem spsc_fifo:
  assumes "k < 32" "length buf = 2 ^ k"
    and "reachable (queue_step spsc_ops) N (\<lambda>_. QIdle) (ck_ring_init (2 ^ k) buf, [], []) ls (r, ins, outs)"
  shows "ins = outs @ contents r \<and> length (contents r) < 2 ^ k \<and> unat (ck_ring_size r) = length (contents r)"
proof -
  have "ring_core k r ins outs"
    using spsc.reachable_inv [OF assms(3) ck_ring_init_start [OF assms(1,2)]] by simp
  then show ?thesis using ring_core_abs core_contents core_size by blast
qed

definition spsc_ex :: "(nat \<Rightarrow> (sp_pc, nat sc_pc, nat) queue_client) \<times> nat ring_mem \<times> nat list \<times> nat list" where
  "spsc_ex = queue_run spsc_ops
     ((0, Some 7) # replicate 4 (0, None) @ (0, Some 8) # (1, None) # concat (replicate 4 [(0, None), (1, None)]))
     (\<lambda>_. QIdle, ck_ring_init 4 [0, 0, 0, 0], [], [])"

lemma ring_4: "(4 :: uint) = 2 ^ 2"
  by simp

lemma spsc_ex_logs: "fst (snd (snd spsc_ex)) = [7, 8]" "snd (snd (snd spsc_ex)) = [7]"
  by code_simp+

theorem spsc_fifo_witness:
  "[7, 8] = [7] @ contents (fst (snd spsc_ex)) \<and> length (contents (fst (snd spsc_ex))) < 2 ^ 2 \<and>
   unat (ck_ring_size (fst (snd spsc_ex))) = length (contents (fst (snd spsc_ex)))"
proof (rule spsc_fifo)
  show "reachable (queue_step spsc_ops) 2 (\<lambda>_. QIdle) (ck_ring_init (2 ^ 2) [0, 0, 0, 0], [], [])
     (fst spsc_ex) (fst (snd spsc_ex), [7, 8], [7])"
    by (rule queue_run_logs [OF spsc_ex_def [unfolded ring_4] _ spsc_ex_logs]) code_simp
qed simp_all

text \<open>Claim C2: the ring shared by any number of producers and consumers is a bounded first-in first-out
  queue as long as its counters have not wrapped around: entries leave in the order in which their
  enqueues returned, none is lost, none is delivered twice. The bound is needed because a thread may
  keep a snapshot of a counter for a whole lap of \<open>2\<^sup>3\<^sup>2\<close>.\<close>

theorem mpmc_fifo:
  assumes "k < 32" "length buf = 2 ^ k" "length ins + 2 ^ k \<le> 2 ^ 32"
    and "reachable (queue_step mpmc_ops) N (\<lambda>_. QIdle) (ck_ring_init (2 ^ k) buf, [], []) ls (r, ins, outs)"
  shows "ins = outs @ contents r \<and> length (contents r) < 2 ^ k \<and> unat (ck_ring_size r) = length (contents r)"
proof -
  have "ring_core k r ins outs"
    using mpmc.reachable_inv [OF assms(4) ck_ring_init_start [OF assms(1,2)]] assms(3) by (simp add: few_def)
  then show ?thesis using ring_core_abs core_contents core_size by blast
qed

text \<open>Two producers reserve slots in one order, fill them in the other, and publish in the order of the
  reservations; a consumer takes the first entry.\<close>

definition mpmc_ex :: "(nat \<Rightarrow> (mp_pc, nat mc_pc, nat) queue_client) \<times> nat ring_mem \<times> nat list \<times> nat list" where
  "mpmc_ex = queue_run mpmc_ops
     ([(0, Some 7), (1, Some 8)] @ replicate 3 (0, None) @ replicate 6 (1, None) @ replicate 3 (0, None) @
      replicate 5 (2, None) @ replicate 5 (1, None))
     (\<lambda>_. QIdle, ck_ring_init 4 [0, 0, 0, 0], [], [])"

lemma mpmc_ex_logs: "fst (snd (snd mpmc_ex)) = [7, 8]" "snd (snd (snd mpmc_ex)) = [7]"
  by code_simp+

theorem mpmc_fifo_witness:
  "[7, 8] = [7] @ contents (fst (snd mpmc_ex)) \<and> length (contents (fst (snd mpmc_ex))) < 2 ^ 2 \<and>
   unat (ck_ring_size (fst (snd mpmc_ex))) = length (contents (fst (snd mpmc_ex)))"
proof (rule mpmc_fifo)
  show "reachable (queue_step mpmc_ops) 3 (\<lambda>_. QIdle) (ck_ring_init (2 ^ 2) [0, 0, 0, 0], [], [])
     (fst mpmc_ex) (fst (snd mpmc_ex), [7, 8], [7])"
    by (rule queue_run_logs [OF mpmc_ex_def [unfolded ring_4] _ mpmc_ex_logs]) code_simp
qed simp_all

text \<open>The two mixed disciplines, one producer with many consumers and many producers with one
  consumer, are first-in first-out queues of fewer than \<open>2 ^ k\<close> entries under the same bound. So is
  the ring whose consumers use \<open>ck_ring_trydequeue_mpmc\<close>.\<close>

theorem mixed_fifo:
  assumes "k < 32" "length buf = 2 ^ k" "length ins + 2 ^ k \<le> 2 ^ 32"
    and "reachable (queue_step spmc_ops) N (\<lambda>_. QIdle) (ck_ring_init (2 ^ k) buf, [], []) ls1 (r, ins, outs) \<or>
      reachable (queue_step mpsc_ops) N (\<lambda>_. QIdle) (ck_ring_init (2 ^ k) buf, [], []) ls2 (r, ins, outs) \<or>
      reachable (queue_step try_mpmc_ops) N (\<lambda>_. QIdle) (ck_ring_init (2 ^ k) buf, [], []) ls3 (r, ins, outs)"
  shows "ins = outs @ contents r \<and> length (contents r) < 2 ^ k"
proof -
  note start = ck_ring_init_start [OF assms(1,2)]
  have "ring_core k r ins outs" using assms(4)
    by (elim disjE) (use spmc.reachable_inv [OF _ start] mpsc.reachable_inv [OF _ start]
        try_mpmc.reachable_inv [OF _ start] assms(3) in \<open>fastforce simp: few_def\<close>)+
  then show ?thesis using ring_core_abs core_contents by blast
qed

definition mpsc_ex :: "(nat \<Rightarrow> (mp_pc, nat sc_pc, nat) queue_client) \<times> nat ring_mem \<times> nat list \<times> nat list" where
  "mpsc_ex = queue_run mpsc_ops
     ([(0, Some 7), (2, Some 8)] @ replicate 6 (0, None) @ (1, None) # replicate 6 (2, None) @ replicate 6 (2, None)
        @ replicate 4 (1, None))
     (\<lambda>_. QIdle, ck_ring_init 4 [0, 0, 0, 0], [], [])"

lemma mpsc_ex_logs: "fst (snd (snd mpsc_ex)) = [7, 8]" "snd (snd (snd mpsc_ex)) = [7]"
  by code_simp+

theorem mixed_fifo_witness:
  "[7, 8] = [7] @ contents (fst (snd mpsc_ex)) \<and> length (contents (fst (snd mpsc_ex))) < 2 ^ 2"
proof (rule mixed_fifo)
  have "reachable (queue_step mpsc_ops) 3 (\<lambda>_. QIdle) (ck_ring_init (2 ^ 2) [0, 0, 0, 0], [], [])
     (fst mpsc_ex) (fst (snd mpsc_ex), [7, 8], [7])"
    by (rule queue_run_logs [OF mpsc_ex_def [unfolded ring_4] _ mpsc_ex_logs]) code_simp
  then show "reachable (queue_step spmc_ops) 3 (\<lambda>_. QIdle) (ck_ring_init (2 ^ 2) [0, 0, 0, 0], [], [])
        (\<lambda>_. QIdle) (fst (snd mpsc_ex), [7, 8], [7]) \<or>
      reachable (queue_step mpsc_ops) 3 (\<lambda>_. QIdle) (ck_ring_init (2 ^ 2) [0, 0, 0, 0], [], [])
        (fst mpsc_ex) (fst (snd mpsc_ex), [7, 8], [7]) \<or>
      reachable (queue_step try_mpmc_ops) 3 (\<lambda>_. QIdle) (ck_ring_init (2 ^ 2) [0, 0, 0, 0], [], [])
        (\<lambda>_. QIdle) (fst (snd mpsc_ex), [7, 8], [7])" by simp
qed simp_all

text \<open>Calls that run alone return, and the ring of \<open>2 ^ k\<close> slots behaves as a queue of
  capacity \<open>2 ^ k - 1\<close>: any list up to that length can be enqueued into an initialised ring and is
  then dequeued in the same order, leaving it empty; on a full ring an enqueue returns false and
  changes nothing. This holds of the single-producer single-consumer and of the multiple-producer
  multiple-consumer calls.\<close>

theorem ring_roundtrip:
  assumes "k < 32" "length buf = 2 ^ k" "length vs \<le> 2 ^ k - 1"
  shows "(\<exists>r1 r2. enq_all solo_enqueue_spsc vs (ck_ring_init (2 ^ k) buf) = Some r1 \<and>
      deq_all solo_dequeue_spsc (length vs + n) r1 = (vs, r2) \<and> contents r2 = [] \<and>
      (length vs = 2 ^ k - 1 \<longrightarrow> solo_enqueue_spsc v r1 = Some (False, r1))) \<and>
    (\<exists>r1 r2. enq_all solo_enqueue_mpmc vs (ck_ring_init (2 ^ k) buf) = Some r1 \<and>
      deq_all solo_dequeue_mpmc (length vs + n) r1 = (vs, r2) \<and> contents r2 = [] \<and>
      (length vs = 2 ^ k - 1 \<longrightarrow> solo_enqueue_mpmc v r1 = Some (False, r1)))"
proof -
  note start = ring_start_wf [OF ck_ring_init_start [OF assms(1,2)]]
  show ?thesis using spsc_queue.roundtrip [OF start(1,3) assms(3), of n v]
      mpmc_queue.roundtrip [OF start(2,3) assms(3), of n v] by (rule conjI)
qed

theorem ring_roundtrip_witness:
  "\<exists>r1 r2. enq_all solo_enqueue_mpmc [5, 6, 7] (ck_ring_init (2 ^ 2) [0, 0, 0, 0 :: nat]) = Some r1 \<and>
      deq_all solo_dequeue_mpmc (length [5, 6, 7 :: nat] + 1) r1 = ([5, 6, 7], r2) \<and> contents r2 = [] \<and>
      solo_enqueue_mpmc 8 r1 = Some (False, r1)"
  using conjunct2 [OF ring_roundtrip [of 2 "[0, 0, 0, 0 :: nat]" "[5, 6, 7]" 1 8]] by simp

end
