(* ===== verification/Stack.thy ===== *)
theory Stack
  imports CkPr Interleave
begin

text \<open>
  The lock-free stack of \<^verbatim>\<open>ck/ck_stack.h\<close>. Entries live in an explicit store of \<open>next\<close> pointers, so that
  aliasing and the reuse of entries (the ABA problem) are visible. Every call is a step function with
  one access to shared memory per step.
\<close>

section \<open>Data\<close>

text \<open>A pointer to an entry is \<open>None\<close> for \<open>NULL\<close>.\<close>

type_synonym ptr = "nat option"

record ck_stack =
  head :: ptr
  generation :: uint64

text \<open>The stack together with the \<open>next\<close> fields of all entries.\<close>

record stack_mem = ck_stack +
  nexts :: "nat \<Rightarrow> ptr"

definition ck_stack_init :: "stack_mem \<Rightarrow> stack_mem" where
  "ck_stack_init s = s\<lparr>head := None, generation := 0\<rparr>"

section \<open>Unique producers, multiple consumers\<close>

datatype push_pc = PushLoad | PushLink ptr | PushCas ptr

fun ck_stack_push_upmc :: "nat \<Rightarrow> push_pc \<Rightarrow> stack_mem \<Rightarrow> (push_pc, unit) ctl \<times> stack_mem" where
  "ck_stack_push_upmc entry PushLoad s = (Go (PushLink (ck_pr_load (head s))), s)"
| "ck_stack_push_upmc entry (PushLink stack) s = (Go (PushCas stack), s\<lparr>nexts := (nexts s)(entry := stack)\<rparr>)"
| "ck_stack_push_upmc entry (PushCas stack) s =
     (let (ok, stack', h) = ck_pr_cas_value (head s) stack (Some entry)
      in (if ok then Ret () else Go (PushLink stack'), s\<lparr>head := h\<rparr>))"

fun ck_stack_trypush_upmc :: "nat \<Rightarrow> push_pc \<Rightarrow> stack_mem \<Rightarrow> (push_pc, bool) ctl \<times> stack_mem" where
  "ck_stack_trypush_upmc entry PushLoad s = (Go (PushLink (ck_pr_load (head s))), s)"
| "ck_stack_trypush_upmc entry (PushLink stack) s = (Go (PushCas stack), s\<lparr>nexts := (nexts s)(entry := stack)\<rparr>)"
| "ck_stack_trypush_upmc entry (PushCas stack) s =
     (let (ok, h) = ck_pr_cas (head s) stack (Some entry) in (Ret ok, s\<lparr>head := h\<rparr>))"

datatype pop_pc = PopLoad | PopNext nat | PopCas nat ptr

fun ck_stack_pop_upmc :: "pop_pc \<Rightarrow> stack_mem \<Rightarrow> (pop_pc, ptr) ctl \<times> stack_mem" where
  "ck_stack_pop_upmc PopLoad s =
     (case ck_pr_load (head s) of None \<Rightarrow> (Ret None, s) | Some entry \<Rightarrow> (Go (PopNext entry), s))"
| "ck_stack_pop_upmc (PopNext entry) s = (Go (PopCas entry (nexts s entry)), s)"
| "ck_stack_pop_upmc (PopCas entry nx) s =
     (let (ok, entry', h) = ck_pr_cas_value (head s) (Some entry) nx
      in (if ok then Ret entry'
          else case entry' of None \<Rightarrow> Ret None | Some e \<Rightarrow> Go (PopNext e), s\<lparr>head := h\<rparr>))"

text \<open>\<open>trypop\<close> returns false, here \<open>None\<close>, both on an empty stack and when the swap fails.\<close>

fun ck_stack_trypop_upmc :: "pop_pc \<Rightarrow> stack_mem \<Rightarrow> (pop_pc, ptr) ctl \<times> stack_mem" where
  "ck_stack_trypop_upmc PopLoad s =
     (case ck_pr_load (head s) of None \<Rightarrow> (Ret None, s) | Some entry \<Rightarrow> (Go (PopNext entry), s))"
| "ck_stack_trypop_upmc (PopNext entry) s = (Go (PopCas entry (nexts s entry)), s)"
| "ck_stack_trypop_upmc (PopCas entry nx) s =
     (let (ok, h) = ck_pr_cas (head s) (Some entry) nx
      in (Ret (if ok then Some entry else None), s\<lparr>head := h\<rparr>))"

definition ck_stack_batch_pop_upmc :: "unit \<Rightarrow> stack_mem \<Rightarrow> (unit, ptr) ctl \<times> stack_mem" where
  "ck_stack_batch_pop_upmc _ s = (let (entry, h) = ck_pr_fas (head s) None in (Ret entry, s\<lparr>head := h\<rparr>))"

section \<open>Multiple producers, multiple consumers\<close>

definition ck_stack_push_mpmc :: "nat \<Rightarrow> push_pc \<Rightarrow> stack_mem \<Rightarrow> (push_pc, unit) ctl \<times> stack_mem" where
  "ck_stack_push_mpmc = ck_stack_push_upmc"

definition ck_stack_trypush_mpmc :: "nat \<Rightarrow> push_pc \<Rightarrow> stack_mem \<Rightarrow> (push_pc, bool) ctl \<times> stack_mem" where
  "ck_stack_trypush_mpmc = ck_stack_trypush_upmc"

datatype mpop_pc = GenLoad | HeadLoad uint64 | MpopNext uint64 nat | MpopCas uint64 nat ptr

text \<open>The double-word compare-and-swap replaces head and generation together.\<close>

fun ck_stack_pop_mpmc :: "mpop_pc \<Rightarrow> stack_mem \<Rightarrow> (mpop_pc, ptr) ctl \<times> stack_mem" where
  "ck_stack_pop_mpmc GenLoad s = (Go (HeadLoad (ck_pr_load (generation s))), s)"
| "ck_stack_pop_mpmc (HeadLoad g) s =
     (case ck_pr_load (head s) of None \<Rightarrow> (Ret None, s) | Some entry \<Rightarrow> (Go (MpopNext g entry), s))"
| "ck_stack_pop_mpmc (MpopNext g entry) s = (Go (MpopCas g entry (nexts s entry)), s)"
| "ck_stack_pop_mpmc (MpopCas g entry nx) s =
     (let (ok, (entry', g'), (h, gen)) =
            ck_pr_cas_value (head s, generation s) (Some entry, g) (nx, g + 1)
      in (if ok then Ret entry'
          else case entry' of None \<Rightarrow> Ret None | Some e \<Rightarrow> Go (MpopNext g' e),
          s\<lparr>head := h, generation := gen\<rparr>))"

fun ck_stack_trypop_mpmc :: "mpop_pc \<Rightarrow> stack_mem \<Rightarrow> (mpop_pc, ptr) ctl \<times> stack_mem" where
  "ck_stack_trypop_mpmc GenLoad s = (Go (HeadLoad (ck_pr_load (generation s))), s)"
| "ck_stack_trypop_mpmc (HeadLoad g) s =
     (case ck_pr_load (head s) of None \<Rightarrow> (Ret None, s) | Some entry \<Rightarrow> (Go (MpopNext g entry), s))"
| "ck_stack_trypop_mpmc (MpopNext g entry) s = (Go (MpopCas g entry (nexts s entry)), s)"
| "ck_stack_trypop_mpmc (MpopCas g entry nx) s =
     (let (ok, (entry', g'), (h, gen)) =
            ck_pr_cas_value (head s, generation s) (Some entry, g) (nx, g + 1)
      in (Ret (if ok then entry' else None), s\<lparr>head := h, generation := gen\<rparr>))"

definition ck_stack_batch_pop_mpmc :: "unit \<Rightarrow> stack_mem \<Rightarrow> (unit, ptr) ctl \<times> stack_mem" where
  "ck_stack_batch_pop_mpmc = ck_stack_batch_pop_upmc"

section \<open>No concurrent consumers, and no concurrency\<close>

datatype mpnc_pc = MpncClear | MpncSwap | MpncLink ptr

fun ck_stack_push_mpnc :: "nat \<Rightarrow> mpnc_pc \<Rightarrow> stack_mem \<Rightarrow> (mpnc_pc, unit) ctl \<times> stack_mem" where
  "ck_stack_push_mpnc entry MpncClear s = (Go MpncSwap, s\<lparr>nexts := (nexts s)(entry := None)\<rparr>)"
| "ck_stack_push_mpnc entry MpncSwap s =
     (let (stack, h) = ck_pr_fas (head s) (Some entry) in (Go (MpncLink stack), s\<lparr>head := h\<rparr>))"
| "ck_stack_push_mpnc entry (MpncLink stack) s =
     (Ret (), s\<lparr>nexts := (nexts s)(entry := ck_pr_store (nexts s entry) stack)\<rparr>)"

definition ck_stack_push_spnc :: "nat \<Rightarrow> stack_mem \<Rightarrow> stack_mem" where
  "ck_stack_push_spnc entry s = s\<lparr>nexts := (nexts s)(entry := head s), head := Some entry\<rparr>"

definition ck_stack_pop_npsc :: "stack_mem \<Rightarrow> ptr \<times> stack_mem" where
  "ck_stack_pop_npsc s =
     (case head s of None \<Rightarrow> (None, s) | Some n \<Rightarrow> (Some n, s\<lparr>head := nexts s n\<rparr>))"

definition ck_stack_batch_pop_npsc :: "stack_mem \<Rightarrow> ptr \<times> stack_mem" where
  "ck_stack_batch_pop_npsc s = (head s, s\<lparr>head := None\<rparr>)"

section \<open>The abstract stack\<close>

text \<open>The entries reachable from a pointer, top first.\<close>

fun chain :: "(nat \<Rightarrow> ptr) \<Rightarrow> ptr \<Rightarrow> nat list \<Rightarrow> bool" where
  "chain nx p [] \<longleftrightarrow> p = None"
| "chain nx p (x # xs) \<longleftrightarrow> p = Some x \<and> chain nx (nx x) xs"

lemma chain_upd [simp]: "x \<notin> set xs \<Longrightarrow> chain (nx(x := y)) p xs = chain nx p xs"
  by (induction xs arbitrary: p) auto

lemma chain_None [simp]: "chain nx None xs \<longleftrightarrow> xs = []"
  by (cases xs) auto

lemma chain_unique: "chain nx p xs \<Longrightarrow> chain nx p ys \<Longrightarrow> xs = ys"
proof (induction xs arbitrary: p ys)
  case Nil
  then show ?case by simp
next
  case (Cons x xs)
  then show ?case by (cases ys) auto
qed

text \<open>\<open>CK_STACK_FOREACH\<close>: the loop that follows the \<open>next\<close> pointers, with fuel for the number of entries.\<close>

fun CK_STACK_FOREACH :: "nat \<Rightarrow> (nat \<Rightarrow> ptr) \<Rightarrow> ptr \<Rightarrow> nat list option" where
  "CK_STACK_FOREACH n nx None = Some []"
| "CK_STACK_FOREACH 0 nx (Some e) = None"
| "CK_STACK_FOREACH (Suc n) nx (Some e) = map_option ((#) e) (CK_STACK_FOREACH n nx (nx e))"

lemma foreach_chain: "CK_STACK_FOREACH n nx p = Some xs \<longleftrightarrow> chain nx p xs \<and> length xs \<le> n"
proof (induction n nx p arbitrary: xs rule: CK_STACK_FOREACH.induct)
  case (2 nx e)
  then show ?case by (cases xs) auto
next
  case (3 n nx e)
  then show ?case by (cases xs) auto
qed auto

end
