(* ===== verification/StackShared.thy ===== *)
theory StackShared
  imports Stack
begin

text \<open>
  Threads that share a lock-free stack. Every entry is owned by a thread, in the stack, or retired: a
  thread pushes entries it owns, and an entry it pops becomes its own again only where the interface
  allows entries to be reused. Each completed call is an event of the history, in the order of the
  returns; the claim is that replaying the history on a list gives the entries chained in memory.
\<close>

section \<open>Histories\<close>

datatype event = Push nat | Pop nat | Empty

fun apply_event :: "event \<Rightarrow> nat list \<Rightarrow> nat list option" where
  "apply_event (Push x) xs = Some (x # xs)"
| "apply_event (Pop x) [] = None"
| "apply_event (Pop x) (y # ys) = (if x = y then Some ys else None)"
| "apply_event Empty xs = (if xs = [] then Some [] else None)"

definition replay :: "event list \<Rightarrow> nat list option" where
  "replay h = foldl (\<lambda>r e. Option.bind r (apply_event e)) (Some []) h"

lemma replay_simps [simp]:
  "replay [] = Some []" "replay (h @ [e]) = Option.bind (replay h) (apply_event e)"
  by (simp_all add: replay_def)

fun pops :: "event list \<Rightarrow> nat" where
  "pops [] = 0"
| "pops (Pop x # h) = Suc (pops h)"
| "pops (e # h) = pops h"

lemma pops_append [simp]: "pops (h @ g) = pops h + pops g"
  by (induction h rule: pops.induct) auto

lemma pops_le: "pops h \<le> length h"
  by (induction h rule: pops.induct) auto

section \<open>Clients\<close>

record ('p, 'q) stack_ops =
  push_fn :: "nat \<Rightarrow> 'p \<Rightarrow> stack_mem \<Rightarrow> ('p, bool) ctl \<times> stack_mem"
  push_entry :: 'p
  pop_fn :: "'q \<Rightarrow> stack_mem \<Rightarrow> ('q, ptr) ctl \<times> stack_mem"
  pop_entry :: 'q
  none_is_empty :: bool
  reuse :: bool

datatype ('p, 'q) stack_client = SIdle | Pushing nat 'p | Popping 'q

type_synonym stack_state = "stack_mem \<times> (nat \<Rightarrow> nat option) \<times> event list"

inductive stack_step ::
  "('p, 'q) stack_ops \<Rightarrow> nat \<Rightarrow> ('p, 'q) stack_client \<Rightarrow> stack_state \<Rightarrow> ('p, 'q) stack_client \<Rightarrow> stack_state \<Rightarrow> bool"
  for ops where
  begin_push: "own x = Some t \<Longrightarrow>
    stack_step ops t SIdle (m, own, h) (Pushing x (push_entry ops)) (m, own, h)"
| push_go: "push_fn ops x p m = (Go p', m') \<Longrightarrow>
    stack_step ops t (Pushing x p) (m, own, h) (Pushing x p') (m', own, h)"
| push_ok: "push_fn ops x p m = (Ret True, m') \<Longrightarrow>
    stack_step ops t (Pushing x p) (m, own, h) SIdle (m', own(x := None), h @ [Push x])"
| push_fail: "push_fn ops x p m = (Ret False, m') \<Longrightarrow>
    stack_step ops t (Pushing x p) (m, own, h) SIdle (m', own, h)"
| begin_pop: "stack_step ops t SIdle s (Popping (pop_entry ops)) s"
| pop_go: "pop_fn ops q m = (Go q', m') \<Longrightarrow>
    stack_step ops t (Popping q) (m, own, h) (Popping q') (m', own, h)"
| pop_ok: "pop_fn ops q m = (Ret (Some x), m') \<Longrightarrow>
    stack_step ops t (Popping q) (m, own, h) SIdle
      (m', own(x := if reuse ops then Some t else None), h @ [Pop x])"
| pop_none: "pop_fn ops q m = (Ret None, m') \<Longrightarrow>
    stack_step ops t (Popping q) (m, own, h) SIdle (m', own, if none_is_empty ops then h @ [Empty] else h)"

fun stack_move :: "('p, 'q) stack_ops \<Rightarrow> nat \<Rightarrow> nat option \<Rightarrow> ('p, 'q) stack_client \<Rightarrow> stack_state \<Rightarrow>
    (('p, 'q) stack_client \<times> stack_state) option" where
  "stack_move ops t (Some x) SIdle (m, own, h) =
     (if own x = Some t then Some (Pushing x (push_entry ops), m, own, h) else None)"
| "stack_move ops t None SIdle s = Some (Popping (pop_entry ops), s)"
| "stack_move ops t c (Pushing x p) (m, own, h) =
     Some (case push_fn ops x p m of
         (Go p', m') \<Rightarrow> (Pushing x p', m', own, h)
       | (Ret r, m') \<Rightarrow> (SIdle, m', if r then own(x := None) else own, if r then h @ [Push x] else h))"
| "stack_move ops t c (Popping q) (m, own, h) =
     Some (case pop_fn ops q m of
         (Go q', m') \<Rightarrow> (Popping q', m', own, h)
       | (Ret (Some x), m') \<Rightarrow> (SIdle, m', own(x := if reuse ops then Some t else None), h @ [Pop x])
       | (Ret None, m') \<Rightarrow> (SIdle, m', own, if none_is_empty ops then h @ [Empty] else h))"

fun stack_run :: "('p, 'q) stack_ops \<Rightarrow> (nat \<times> nat option) list \<Rightarrow>
    (nat \<Rightarrow> ('p, 'q) stack_client) \<times> stack_state \<Rightarrow> (nat \<Rightarrow> ('p, 'q) stack_client) \<times> stack_state" where
  "stack_run ops [] c = c"
| "stack_run ops ((t, c) # sch) (ls, s) =
     (case stack_move ops t c (ls t) s of
        None \<Rightarrow> stack_run ops sch (ls, s)
      | Some (l, s') \<Rightarrow> stack_run ops sch (ls(t := l), s'))"

lemma stack_move_step: "stack_move ops t c l s = Some (l', s') \<Longrightarrow> stack_step ops t l s l' s'"
  by (cases "(ops, t, c, l, s)" rule: stack_move.cases)
     (auto split: option.splits prod.splits ctl.splits if_splits intro: stack_step.intros
       dest!: stack_step.pop_none [of ops] stack_step.pop_ok [of ops])

lemma stack_run_reachable:
  assumes "list_all (\<lambda>(t, c). t < N) sch" "reachable (stack_step ops) N ls0 s0 ls s"
  shows "reachable (stack_step ops) N ls0 s0 (fst (stack_run ops sch (ls, s))) (snd (stack_run ops sch (ls, s)))"
  using assms
proof (induction sch arbitrary: ls s)
  case (Cons x sch)
  obtain t c where x: "x = (t, c)" by (cases x)
  show ?case
  proof (cases "stack_move ops t c (ls t) s")
    case None
    with Cons show ?thesis by (simp add: x)
  next
    case (Some r)
    obtain l' s' where r: "r = (l', s')" by (cases r) auto
    have "reachable (stack_step ops) N ls0 s0 (ls(t := l')) s'"
      using Cons.prems x Some r by (intro reachable.move [OF Cons.prems(2)] stack_move_step) auto
    with Cons Some show ?thesis by (simp add: x r)
  qed
qed simp

lemmas stack_run_start = stack_run_reachable [OF _ reachable.start]

section \<open>The contract between pushers and poppers\<close>

text \<open>The abstract stack is \<open>xs\<close>: the replayed history, chained in memory, owned by nobody.\<close>

definition stack_core :: "stack_state \<Rightarrow> nat list \<Rightarrow> bool" where
  "stack_core = (\<lambda>(m, own, h) xs. replay h = Some xs \<and> chain (nexts m) (head m) xs \<and> distinct xs \<and>
     (\<forall>x\<in>set xs. own x = None))"

text \<open>A push writes only the \<open>next\<close> field of its own entry and swings the head to it.\<close>

definition link :: "stack_mem \<Rightarrow> nat \<Rightarrow> ptr \<Rightarrow> stack_mem" where
  "link m x st = m\<lparr>nexts := (nexts m)(x := st)\<rparr>"

locale pusher =
  fixes push :: "nat \<Rightarrow> push_pc \<Rightarrow> stack_mem \<Rightarrow> (push_pc, bool) ctl \<times> stack_mem"
  assumes push_cases: "push x p m = (c, m') \<Longrightarrow>
      (\<exists>st. p = PushLink st \<and> c = Go (PushCas st) \<and> m' = link m x st) \<or>
      (p = PushCas (head m) \<and> c = Ret True \<and> m' = m\<lparr>head := Some x\<rparr>) \<or>
      m' = m \<and> (c = Ret False \<or> (\<exists>p'. c = Go p' \<and> (\<forall>st. p' \<noteq> PushCas st)))"

text \<open>A pop leaves the \<open>next\<close> fields alone and removes the top entry; its invariant \<open>qok\<close> survives the
  steps of the others. \<open>gok\<close> relates the generation counter to the history, \<open>small\<close> bounds it.\<close>

locale popper =
  fixes pop :: "'q \<Rightarrow> stack_mem \<Rightarrow> ('q, ptr) ctl \<times> stack_mem" and q0 :: 'q and means_empty :: bool
    and again :: bool and small :: "event list \<Rightarrow> bool" and gok :: "uint64 \<Rightarrow> nat \<Rightarrow> bool"
    and qok :: "'q \<Rightarrow> stack_state \<Rightarrow> nat list \<Rightarrow> bool"
  assumes q_start: "qok q0 s xs"
    and q_go: "stack_core (m, own, h) xs \<Longrightarrow> gok (generation m) (pops h) \<Longrightarrow> qok q (m, own, h) xs \<Longrightarrow>
      pop q m = (Go q', m') \<Longrightarrow> m' = m \<and> qok q' (m, own, h) xs"
    and q_ok: "stack_core (m, own, h) xs \<Longrightarrow> gok (generation m) (pops h) \<Longrightarrow> small h \<Longrightarrow> qok q (m, own, h) xs \<Longrightarrow>
      pop q m = (Ret (Some x), m') \<Longrightarrow>
      (\<exists>ys. xs = x # ys) \<and> head m' = nexts m x \<and> nexts m' = nexts m \<and> gok (generation m') (Suc (pops h))"
    and q_none: "stack_core (m, own, h) xs \<Longrightarrow> pop q m = (Ret None, m') \<Longrightarrow>
      m' = m \<and> (means_empty \<longrightarrow> xs = [])"
    and rely_link: "qok q (m, own, h) xs \<Longrightarrow> own x \<noteq> None \<Longrightarrow> x \<notin> set xs \<Longrightarrow> qok q (link m x st, own, h) xs"
    and rely_push: "qok q (m, own, h) xs \<Longrightarrow>
      qok q (m\<lparr>head := Some x\<rparr>, own(x := None), h @ [Push x]) (x # xs)"
    and rely_pop: "qok q (m, own, h) (x # xs) \<Longrightarrow> nexts m' = nexts m \<Longrightarrow> own x = None \<Longrightarrow>
      qok q (m', own(x := if again then Some t else None), h @ [Pop x]) xs"
    and rely_empty: "qok q (m, own, h) [] \<Longrightarrow> qok q (m, own, h @ [Empty]) []"
    and gok_start: "gok 0 0"
    and small_butlast: "small (h @ [e]) \<Longrightarrow> small h"

locale shared_stack =
  pusher "push_fn ops" + popper "pop_fn ops" "pop_entry ops" "none_is_empty ops" "reuse ops" small gok qok
  for ops :: "(push_pc, 'q) stack_ops" and small gok qok +
  assumes push_entry: "push_entry ops = PushLoad"

definition pusher_ok :: "nat \<Rightarrow> (push_pc, 'q) stack_client \<Rightarrow> stack_mem \<Rightarrow> (nat \<Rightarrow> nat option) \<Rightarrow> bool" where
  "pusher_ok t l m own \<longleftrightarrow>
     (\<forall>x p. l = Pushing x p \<longrightarrow> own x = Some t \<and> (\<forall>st. p = PushCas st \<longrightarrow> nexts m x = st))"

definition stack_inv :: "(uint64 \<Rightarrow> nat \<Rightarrow> bool) \<Rightarrow> ('q \<Rightarrow> stack_state \<Rightarrow> nat list \<Rightarrow> bool) \<Rightarrow>
    (nat \<Rightarrow> (push_pc, 'q) stack_client) \<Rightarrow> stack_state \<Rightarrow> nat list \<Rightarrow> bool" where
  "stack_inv gok qok ls = (\<lambda>(m, own, h) xs. stack_core (m, own, h) xs \<and> gok (generation m) (pops h) \<and>
     (\<forall>t. pusher_ok t (ls t) m own) \<and> (\<forall>t q. ls t = Popping q \<longrightarrow> qok q (m, own, h) xs))"

lemma stack_invD:
  assumes "stack_inv gok qok ls (m, own, h) xs"
  shows "stack_core (m, own, h) xs" "gok (generation m) (pops h)" "pusher_ok t (ls t) m own"
    "ls t = Popping q \<Longrightarrow> qok q (m, own, h) xs"
  using assms by (auto simp: stack_inv_def)

lemma stack_invI:
  assumes "stack_core (m, own, h) xs" "gok (generation m) (pops h)"
    "\<And>u. pusher_ok u ((ls(t := l)) u) m own" "\<And>u q. (ls(t := l)) u = Popping q \<Longrightarrow> qok q (m, own, h) xs"
  shows "stack_inv gok qok (ls(t := l)) (m, own, h) xs"
  using assms by (simp add: stack_inv_def)

lemma link_sel [simp]:
  "head (link m x st) = head m" "generation (link m x st) = generation m"
  "nexts (link m x st) = (nexts m)(x := st)"
  by (simp_all add: link_def)

context shared_stack begin

lemma push_ok_inv:
  assumes inv: "stack_inv gok qok ls (m, own, h) xs" and l: "ls t = Pushing x (PushCas (head m))"
  shows "stack_inv gok qok (ls(t := SIdle)) (m\<lparr>head := Some x\<rparr>, own(x := None), h @ [Push x]) (x # xs)"
proof (rule stack_invI)
  have x: "own x = Some t" "nexts m x = head m" using stack_invD(3) [OF inv, of t] l by (auto simp: pusher_ok_def)
  show "stack_core (m\<lparr>head := Some x\<rparr>, own(x := None), h @ [Push x]) (x # xs)"
    using stack_invD(1) [OF inv] x by (auto simp: stack_core_def)
  show "pusher_ok u ((ls(t := SIdle)) u) (m\<lparr>head := Some x\<rparr>) (own(x := None))" for u
    using stack_invD(3) [OF inv, of u] x by (auto simp: pusher_ok_def)
  show "qok q (m\<lparr>head := Some x\<rparr>, own(x := None), h @ [Push x]) (x # xs)" if "(ls(t := SIdle)) u = Popping q" for u q
    using that stack_invD(4) [OF inv, of u q] by (auto split: if_splits intro: rely_push)
qed (use stack_invD(2) [OF inv] in simp)

lemma push_link_inv:
  assumes inv: "stack_inv gok qok ls (m, own, h) xs" and l: "ls t = Pushing x p"
  shows "stack_inv gok qok (ls(t := Pushing x (PushCas st))) (link m x st, own, h) xs"
proof (rule stack_invI)
  have x: "own x = Some t" using stack_invD(3) [OF inv, of t] l by (auto simp: pusher_ok_def)
  then have nin: "x \<notin> set xs" using stack_invD(1) [OF inv] by (auto simp: stack_core_def)
  show "stack_core (link m x st, own, h) xs" using stack_invD(1) [OF inv] nin by (auto simp: stack_core_def)
  show "pusher_ok u ((ls(t := Pushing x (PushCas st))) u) (link m x st) own" for u
    using stack_invD(3) [OF inv, of u] x by (auto simp: pusher_ok_def)
  show "qok q (link m x st, own, h) xs" if "(ls(t := Pushing x (PushCas st))) u = Popping q" for u q
    using that stack_invD(4) [OF inv, of u q] x nin by (auto split: if_splits intro: rely_link)
qed (use stack_invD(2) [OF inv] in simp)

lemma keep_inv:
  assumes inv: "stack_inv gok qok ls (m, own, h) xs" and "pusher_ok t l m own"
    and "\<And>q. l = Popping q \<Longrightarrow> qok q (m, own, h) xs"
  shows "stack_inv gok qok (ls(t := l)) (m, own, h) xs"
  using assms stack_invD [OF inv] by (intro stack_invI) (auto split: if_splits)

lemma pop_ok_inv:
  assumes inv: "stack_inv gok qok ls (m, own, h) xs" and "small h" and l: "ls t = Popping q"
    and st: "pop_fn ops q m = (Ret (Some x), m')"
  shows "\<exists>ys. stack_inv gok qok (ls(t := SIdle))
    (m', own(x := if reuse ops then Some t else None), h @ [Pop x]) ys"
proof -
  note core = stack_invD(1) [OF inv]
  obtain ys where ys: "xs = x # ys" and m': "head m' = nexts m x" "nexts m' = nexts m"
    "gok (generation m') (Suc (pops h))"
    using q_ok [OF core stack_invD(2) [OF inv] assms(2) stack_invD(4) [OF inv l] st] by auto
  have x: "own x = None" using core ys by (auto simp: stack_core_def)
  let ?own = "own(x := if reuse ops then Some t else None)"
  have "stack_inv gok qok (ls(t := SIdle)) (m', ?own, h @ [Pop x]) ys"
  proof (rule stack_invI)
    show "stack_core (m', ?own, h @ [Pop x]) ys" using core ys m' by (auto simp: stack_core_def)
    show "pusher_ok u ((ls(t := SIdle)) u) m' ?own" for u
      using stack_invD(3) [OF inv, of u] x m' by (auto simp: pusher_ok_def)
    show "qok q (m', ?own, h @ [Pop x]) ys" if "(ls(t := SIdle)) u = Popping q" for u q
      using that stack_invD(4) [OF inv, of u q] rely_pop [of q m own h x ys m' t] ys m'(2) x
      by (auto split: if_splits)
  qed (use m' in simp)
  then show ?thesis by blast
qed

lemma stack_inv_step:
  assumes inv: "stack_inv gok qok ls (m, own, h) xs" and sm: "small h"
    and st: "stack_step ops t (ls t) (m, own, h) l' (m', own', h')"
  shows "\<exists>ys. stack_inv gok qok (ls(t := l')) (m', own', h') ys"
  using st
proof (cases rule: stack_step.cases)
  case (begin_push x)
  then show ?thesis using keep_inv [OF inv, of t l'] push_entry by (auto simp: pusher_ok_def)
next
  case (push_go x p p')
  have "(\<exists>st. p' = PushCas st \<and> m' = link m x st) \<or> m' = m \<and> (\<forall>st. p' \<noteq> PushCas st)"
    using push_cases [of x p m "Go p'" m'] push_go by auto
  then show ?thesis
  proof (elim disjE exE conjE)
    fix st assume "p' = PushCas st" "m' = link m x st"
    then show ?thesis using push_link_inv [OF inv, of t x p st] push_go by auto
  next
    assume "m' = m" "\<forall>st. p' \<noteq> PushCas st"
    then show ?thesis using keep_inv [OF inv, of t l'] stack_invD(3) [OF inv, of t] push_go
      by (auto simp: pusher_ok_def)
  qed
next
  case (push_ok x p)
  then show ?thesis using push_cases [of x p m "Ret True" m'] push_ok_inv [OF inv] by auto
next
  case (push_fail x p)
  then show ?thesis using push_cases [of x p m "Ret False" m'] keep_inv [OF inv, of t l']
    by (auto simp: pusher_ok_def)
next
  case begin_pop
  then show ?thesis using keep_inv [OF inv, of t l'] q_start by (auto simp: pusher_ok_def)
next
  case (pop_go q q')
  then show ?thesis
    using q_go [OF stack_invD(1,2) [OF inv] stack_invD(4) [OF inv], of t q q' m'] keep_inv [OF inv, of t l']
    by (auto simp: pusher_ok_def)
next
  case (pop_ok q x)
  then show ?thesis using pop_ok_inv [OF inv sm, of t q x m'] by auto
next
  case (pop_none q)
  then have m: "m' = m" "none_is_empty ops \<longrightarrow> xs = []" using q_none [OF stack_invD(1) [OF inv], of q m'] by auto
  show ?thesis
  proof (cases "none_is_empty ops")
    case True
    have "stack_inv gok qok (ls(t := SIdle)) (m, own, h @ [Empty]) []"
      using stack_invD [OF inv] m True
      by (intro stack_invI) (auto simp: stack_core_def pusher_ok_def split: if_splits intro: rely_empty)
    then show ?thesis using pop_none m True by auto
  next
    case False
    then show ?thesis using pop_none m keep_inv [OF inv, of t l'] by (auto simp: pusher_ok_def)
  qed
qed

text \<open>In every reachable state the history replays to the entries chained in memory.\<close>

lemma history_ok:
  assumes "reachable (stack_step ops) N (\<lambda>_. SIdle) (m0, own0, []) ls s" "head m0 = None" "generation m0 = 0"
    and "small (snd (snd s))"
  shows "\<exists>xs. stack_inv gok qok ls s xs"
  using assms
proof (induction rule: reachable.induct)
  case start
  then show ?case by (auto simp: stack_inv_def stack_core_def pusher_ok_def gok_start)
next
  case (move ls s t l' s')
  obtain m own h m' own' h' where s: "s = (m, own, h)" "s' = (m', own', h')" by (metis surj_pair)
  have "h' = h \<or> (\<exists>e. h' = h @ [e])" using move.hyps(3) by (cases rule: stack_step.cases) (auto simp: s)
  then have sm: "small h" using move.prems(3) small_butlast by (auto simp: s)
  then obtain xs where "stack_inv gok qok ls (m, own, h) xs" using move by (auto simp: s)
  from stack_inv_step [OF this sm] move.hyps(3) show ?case by (simp only: s)
qed

end

section \<open>The interfaces\<close>

definition stack_upmc_ops :: "(push_pc, pop_pc) stack_ops" where
  "stack_upmc_ops = \<lparr>push_fn = \<lambda>x p m. ret_map (\<lambda>_. True) (ck_stack_push_upmc x p m), push_entry = PushLoad,
     pop_fn = ck_stack_pop_upmc, pop_entry = PopLoad, none_is_empty = True, reuse = False\<rparr>"

definition stack_try_upmc_ops :: "(push_pc, pop_pc) stack_ops" where
  "stack_try_upmc_ops = \<lparr>push_fn = ck_stack_trypush_upmc, push_entry = PushLoad,
     pop_fn = ck_stack_trypop_upmc, pop_entry = PopLoad, none_is_empty = False, reuse = False\<rparr>"

definition stack_mpmc_ops :: "(push_pc, mpop_pc) stack_ops" where
  "stack_mpmc_ops = \<lparr>push_fn = \<lambda>x p m. ret_map (\<lambda>_. True) (ck_stack_push_mpmc x p m), push_entry = PushLoad,
     pop_fn = ck_stack_pop_mpmc, pop_entry = GenLoad, none_is_empty = True, reuse = True\<rparr>"

definition stack_try_mpmc_ops :: "(push_pc, mpop_pc) stack_ops" where
  "stack_try_mpmc_ops = \<lparr>push_fn = ck_stack_trypush_mpmc, push_entry = PushLoad,
     pop_fn = ck_stack_trypop_mpmc, pop_entry = GenLoad, none_is_empty = False, reuse = True\<rparr>"

lemma push_upmc_pusher: "pusher (\<lambda>x p m. ret_map (\<lambda>_. True) (ck_stack_push_upmc x p m))"
proof
  fix x p m c m'
  assume "ret_map (\<lambda>_. True) (ck_stack_push_upmc x p m) = (c, m')"
  then show "(\<exists>st. p = PushLink st \<and> c = Go (PushCas st) \<and> m' = link m x st) \<or>
      (p = PushCas (head m) \<and> c = Ret True \<and> m' = m\<lparr>head := Some x\<rparr>) \<or>
      m' = m \<and> (c = Ret False \<or> (\<exists>p'. c = Go p' \<and> (\<forall>st. p' \<noteq> PushCas st)))"
    by (cases p) (auto simp: ret_map_def pr_simps link_def split: if_splits)
qed

lemma trypush_upmc_pusher: "pusher ck_stack_trypush_upmc"
proof
  fix x p m c m'
  assume "ck_stack_trypush_upmc x p m = (c, m')"
  then show "(\<exists>st. p = PushLink st \<and> c = Go (PushCas st) \<and> m' = link m x st) \<or>
      (p = PushCas (head m) \<and> c = Ret True \<and> m' = m\<lparr>head := Some x\<rparr>) \<or>
      m' = m \<and> (c = Ret False \<or> (\<exists>p'. c = Go p' \<and> (\<forall>st. p' \<noteq> PushCas st)))"
    by (cases p) (auto simp: pr_simps link_def split: if_splits)
qed

text \<open>Without reuse, an entry that was once seen at the head belongs to nobody for good, so its \<open>next\<close>
  field does not change any more.\<close>

fun up_qok :: "pop_pc \<Rightarrow> stack_state \<Rightarrow> nat list \<Rightarrow> bool" where
  "up_qok PopLoad s xs \<longleftrightarrow> True"
| "up_qok (PopNext e) (m, own, h) xs \<longleftrightarrow> own e = None"
| "up_qok (PopCas e nx) (m, own, h) xs \<longleftrightarrow> own e = None \<and> nexts m e = nx"

lemma core_head:
  "stack_core (m, own, h) xs \<Longrightarrow> head m = Some e \<Longrightarrow>
     own e = None \<and> e \<in> set xs \<and> (\<exists>ys. xs = e # ys) \<and> chain (nexts m) (nexts m e) (tl xs)"
  by (cases xs) (auto simp: stack_core_def)

lemma core_head_None: "stack_core (m, own, h) xs \<Longrightarrow> head m = None \<Longrightarrow> xs = []"
  by (simp add: stack_core_def)

lemma up_rely:
  "up_qok q (m, own, h) xs \<Longrightarrow> own x \<noteq> None \<Longrightarrow> up_qok q (link m x st, own, h) xs"
  "up_qok q (m, own, h) xs \<Longrightarrow> up_qok q (m\<lparr>head := Some x\<rparr>, own(x := None), h @ [Push x]) (x # xs)"
  "up_qok q (m, own, h) (x # xs) \<Longrightarrow> nexts m' = nexts m \<Longrightarrow> up_qok q (m', own(x := None), h @ [Pop x]) xs"
  "up_qok q (m, own, h) [] \<Longrightarrow> up_qok q (m, own, h @ [Empty]) []"
  by (cases q; auto)+

lemma pop_upmc_popper: "popper ck_stack_pop_upmc PopLoad True False (\<lambda>_. True) (\<lambda>_ _. True) up_qok"
proof unfold_locales
  fix m own h xs q q' m'
  assume core: "stack_core (m, own, h) xs" and q: "up_qok q (m, own, h) xs"
    and st: "ck_stack_pop_upmc q m = (Go q', m')"
  show "m' = m \<and> up_qok q' (m, own, h) xs"
    using st q core_head [OF core] by (cases q) (auto simp: pr_simps split: option.splits if_splits)
next
  fix m own h xs q x m'
  assume core: "stack_core (m, own, h) xs" and q: "up_qok q (m, own, h) xs"
    and st: "ck_stack_pop_upmc q m = (Ret (Some x), m')"
  show "(\<exists>ys. xs = x # ys) \<and> head m' = nexts m x \<and> nexts m' = nexts m \<and> True"
    using st q core_head [OF core] by (cases q) (auto simp: pr_simps split: option.splits if_splits)
next
  fix m own h xs q m'
  assume core: "stack_core (m, own, h) xs" and st: "ck_stack_pop_upmc q m = (Ret None, m')"
  show "m' = m \<and> (True \<longrightarrow> xs = [])"
    using st core_head_None [OF core] by (cases q) (auto simp: pr_simps split: option.splits if_splits)
qed (auto intro: up_rely)

lemma trypop_upmc_popper: "popper ck_stack_trypop_upmc PopLoad False False (\<lambda>_. True) (\<lambda>_ _. True) up_qok"
proof unfold_locales
  fix m own h xs q q' m'
  assume core: "stack_core (m, own, h) xs" and q: "up_qok q (m, own, h) xs"
    and st: "ck_stack_trypop_upmc q m = (Go q', m')"
  show "m' = m \<and> up_qok q' (m, own, h) xs"
    using st q core_head [OF core] by (cases q) (auto simp: pr_simps split: option.splits if_splits)
next
  fix m own h xs q x m'
  assume core: "stack_core (m, own, h) xs" and q: "up_qok q (m, own, h) xs"
    and st: "ck_stack_trypop_upmc q m = (Ret (Some x), m')"
  show "(\<exists>ys. xs = x # ys) \<and> head m' = nexts m x \<and> nexts m' = nexts m \<and> True"
    using st q core_head [OF core] by (cases q) (auto simp: pr_simps split: option.splits if_splits)
next
  fix m own h xs q m'
  assume "ck_stack_trypop_upmc q m = (Ret None, m')"
  then show "m' = m \<and> (False \<longrightarrow> xs = [])"
    by (cases q) (auto simp: pr_simps split: option.splits if_splits)
qed (auto intro: up_rely)

text \<open>With reuse, the generation counts the pops: as long as it has not changed since a thread read it,
  no entry has left the stack.\<close>

definition mp_gok :: "uint64 \<Rightarrow> nat \<Rightarrow> bool" where
  "mp_gok g n \<longleftrightarrow> g = of_nat n"

fun mp_qok :: "mpop_pc \<Rightarrow> stack_state \<Rightarrow> nat list \<Rightarrow> bool" where
  "mp_qok GenLoad s xs \<longleftrightarrow> True"
| "mp_qok (HeadLoad g) (m, own, h) xs \<longleftrightarrow> (\<exists>n \<le> pops h. g = of_nat n)"
| "mp_qok (MpopNext g e) (m, own, h) xs \<longleftrightarrow> (\<exists>n \<le> pops h. g = of_nat n \<and> (n = pops h \<longrightarrow> e \<in> set xs))"
| "mp_qok (MpopCas g e nx) (m, own, h) xs \<longleftrightarrow>
     (\<exists>n \<le> pops h. g = of_nat n \<and> (n = pops h \<longrightarrow> e \<in> set xs \<and> nexts m e = nx))"

lemma mpop_rely:
  "mp_qok q (m, own, h) xs \<Longrightarrow> x \<notin> set xs \<Longrightarrow> mp_qok q (link m x st, own, h) xs"
  "mp_qok q (m, own, h) xs \<Longrightarrow> mp_qok q (m\<lparr>head := Some x\<rparr>, own', h @ [Push x]) (x # xs)"
  "mp_qok q (m, own, h) (x # xs) \<Longrightarrow> nexts m' = nexts m \<Longrightarrow> mp_qok q (m', own', h @ [Pop x]) xs"
  "mp_qok q (m, own, h) [] \<Longrightarrow> mp_qok q (m, own, h @ [Empty]) []"
  by (cases q; auto intro: le_SucI)+

lemma mp_commit:
  assumes "mp_qok (MpopCas g e nx) (m, own, h) xs" "mp_gok (generation m) (pops h)" "length h < 2 ^ 64"
    and "generation m = g"
  shows "nexts m e = nx"
proof -
  obtain n where n: "n \<le> pops h" "g = of_nat n" "n = pops h \<longrightarrow> nexts m e = nx" using assms(1) by auto
  have "pops h < 2 ^ 64" using assms(3) pops_le [of h] by linarith
  then have "n = pops h" using n assms(2,4) of_nat_small_eq [of n "pops h", where ?'w = 64]
    by (simp add: mp_gok_def)
  with n show ?thesis by simp
qed

lemma mpop_cas_eq:
  "ck_stack_pop_mpmc (MpopCas g e nx) m =
     (if head m = Some e \<and> generation m = g then (Ret (Some e), m\<lparr>head := nx, generation := g + 1\<rparr>)
      else (case head m of None \<Rightarrow> Ret None | Some e' \<Rightarrow> Go (MpopNext (generation m) e'), m))"
  "ck_stack_trypop_mpmc (MpopCas g e nx) m =
     (if head m = Some e \<and> generation m = g then (Ret (Some e), m\<lparr>head := nx, generation := g + 1\<rparr>)
      else (Ret None, m))"
  by (simp_all add: pr_simps)

declare ck_stack_pop_mpmc.simps(4) [simp del] ck_stack_trypop_mpmc.simps(4) [simp del]

lemma pop_mpmc_popper:
  "popper ck_stack_pop_mpmc GenLoad True True (\<lambda>h. length h < 2 ^ 64) mp_gok mp_qok"
proof unfold_locales
  fix m own h xs q q' m'
  assume core: "stack_core (m, own, h) xs" and g: "mp_gok (generation m) (pops h)" and q: "mp_qok q (m, own, h) xs"
    and st: "ck_stack_pop_mpmc q m = (Go q', m')"
  show "m' = m \<and> mp_qok q' (m, own, h) xs"
    using st q g core_head [OF core]
    by (cases q) (auto simp: pr_simps mpop_cas_eq mp_gok_def split: option.splits if_splits)
next
  fix m own h xs q x m'
  assume core: "stack_core (m, own, h) xs" and g: "mp_gok (generation m) (pops h)" and sm: "length h < 2 ^ 64"
    and q: "mp_qok q (m, own, h) xs" and st: "ck_stack_pop_mpmc q m = (Ret (Some x), m')"
  obtain gn nx where q': "q = MpopCas gn x nx" "head m = Some x" "generation m = gn"
    "m' = m\<lparr>head := nx, generation := gn + 1\<rparr>"
    using st by (cases q) (auto simp: pr_simps mpop_cas_eq split: option.splits if_splits)
  then show "(\<exists>ys. xs = x # ys) \<and> head m' = nexts m x \<and> nexts m' = nexts m \<and>
      mp_gok (generation m') (Suc (pops h))"
    using core_head [OF core] mp_commit [of gn x nx m own h xs] q g sm by (simp add: mp_gok_def add.commute)
next
  fix m own h xs q m'
  assume core: "stack_core (m, own, h) xs" and st: "ck_stack_pop_mpmc q m = (Ret None, m')"
  show "m' = m \<and> (True \<longrightarrow> xs = [])"
    using st core_head_None [OF core] by (cases q) (auto simp: pr_simps mpop_cas_eq split: option.splits if_splits)
qed (auto intro: mpop_rely simp: mp_gok_def)

lemma trypop_mpmc_popper:
  "popper ck_stack_trypop_mpmc GenLoad False True (\<lambda>h. length h < 2 ^ 64) mp_gok mp_qok"
proof unfold_locales
  fix m own h xs q q' m'
  assume core: "stack_core (m, own, h) xs" and g: "mp_gok (generation m) (pops h)" and q: "mp_qok q (m, own, h) xs"
    and st: "ck_stack_trypop_mpmc q m = (Go q', m')"
  show "m' = m \<and> mp_qok q' (m, own, h) xs"
    using st q g core_head [OF core]
    by (cases q) (auto simp: pr_simps mpop_cas_eq mp_gok_def split: option.splits if_splits)
next
  fix m own h xs q x m'
  assume core: "stack_core (m, own, h) xs" and g: "mp_gok (generation m) (pops h)" and sm: "length h < 2 ^ 64"
    and q: "mp_qok q (m, own, h) xs" and st: "ck_stack_trypop_mpmc q m = (Ret (Some x), m')"
  obtain gn nx where q': "q = MpopCas gn x nx" "head m = Some x" "generation m = gn"
    "m' = m\<lparr>head := nx, generation := gn + 1\<rparr>"
    using st by (cases q) (auto simp: pr_simps mpop_cas_eq split: option.splits if_splits)
  then show "(\<exists>ys. xs = x # ys) \<and> head m' = nexts m x \<and> nexts m' = nexts m \<and>
      mp_gok (generation m') (Suc (pops h))"
    using core_head [OF core] mp_commit [of gn x nx m own h xs] q g sm by (simp add: mp_gok_def add.commute)
next
  fix m own h xs q m'
  assume "ck_stack_trypop_mpmc q m = (Ret None, m')"
  then show "m' = m \<and> (False \<longrightarrow> xs = [])"
    by (cases q) (auto simp: pr_simps mpop_cas_eq split: option.splits if_splits)
qed (auto intro: mpop_rely simp: mp_gok_def)

lemmas stack_ops_defs = stack_upmc_ops_def stack_try_upmc_ops_def stack_mpmc_ops_def stack_try_mpmc_ops_def
  ck_stack_push_mpmc_def ck_stack_trypush_mpmc_def
lemmas shared_stack_intro = shared_stack.intro [OF _ _ shared_stack_axioms.intro]

interpretation upmc: shared_stack stack_upmc_ops "\<lambda>_. True" "\<lambda>_ _. True" up_qok
  by (rule shared_stack_intro) (simp_all add: stack_ops_defs push_upmc_pusher pop_upmc_popper)

interpretation try_upmc: shared_stack stack_try_upmc_ops "\<lambda>_. True" "\<lambda>_ _. True" up_qok
  by (rule shared_stack_intro) (simp_all add: stack_ops_defs trypush_upmc_pusher trypop_upmc_popper)

interpretation mpmc_stack: shared_stack stack_mpmc_ops "\<lambda>h. length h < 2 ^ 64" mp_gok mp_qok
  by (rule shared_stack_intro) (simp_all only: stack_ops_defs stack_ops.simps push_upmc_pusher pop_mpmc_popper)

interpretation try_mpmc_stack: shared_stack stack_try_mpmc_ops "\<lambda>h. length h < 2 ^ 64" mp_gok mp_qok
  by (rule shared_stack_intro) (simp_all only: stack_ops_defs stack_ops.simps trypush_upmc_pusher trypop_mpmc_popper)

end
