(* ===== verification/StackSpec.thy ===== *)
theory StackSpec
  imports StackShared
begin

text \<open>
  What the stack promises: the calls that run alone are the operations of a last-in first-out stack,
  and the shared stacks are linearizable. It also holds the one operation that breaks this, the batch
  pop of the interface with reuse.
\<close>

section \<open>Calls that run alone\<close>

locale lifo =
  fixes repr :: "'s \<Rightarrow> nat list \<Rightarrow> bool" and push :: "nat \<Rightarrow> 's \<Rightarrow> 's option"
    and pop :: "'s \<Rightarrow> (ptr \<times> 's) option"
  assumes push_law: "repr s xs \<Longrightarrow> x \<notin> set xs \<Longrightarrow> \<exists>s'. push x s = Some s' \<and> repr s' (x # xs)"
    and pop_law: "repr s (x # xs) \<Longrightarrow> \<exists>s'. pop s = Some (Some x, s') \<and> repr s' xs"
    and pop_empty: "repr s [] \<Longrightarrow> pop s = Some (None, s)"

fun push_all :: "(nat \<Rightarrow> 's \<Rightarrow> 's option) \<Rightarrow> nat list \<Rightarrow> 's \<Rightarrow> 's option" where
  "push_all push [] s = Some s"
| "push_all push (x # xs) s = Option.bind (push x s) (push_all push xs)"

fun pop_all :: "('s \<Rightarrow> (ptr \<times> 's) option) \<Rightarrow> nat \<Rightarrow> 's \<Rightarrow> nat list \<times> 's" where
  "pop_all pop 0 s = ([], s)"
| "pop_all pop (Suc n) s =
     (case pop s of
        Some (Some x, s') \<Rightarrow> (let (xs, s'') = pop_all pop n s' in (x # xs, s''))
      | _ \<Rightarrow> ([], s))"

context lifo begin

lemma push_all_repr:
  "repr s ys \<Longrightarrow> distinct (xs @ ys) \<Longrightarrow> \<exists>s'. push_all push xs s = Some s' \<and> repr s' (rev xs @ ys)"
proof (induction xs arbitrary: s ys)
  case (Cons x xs)
  then obtain s1 where "push x s = Some s1" "repr s1 (x # ys)" using push_law [of s ys x] by auto
  with Cons.IH [of s1 "x # ys"] Cons.prems show ?case by auto
qed simp

lemma pop_all_repr: "repr s xs \<Longrightarrow> \<exists>s'. pop_all pop (length xs + n) s = (xs, s') \<and> repr s' []"
proof (induction xs arbitrary: s)
  case Nil
  then show ?case using pop_empty by (cases n) auto
next
  case (Cons x xs)
  then obtain s1 where "pop s = Some (Some x, s1)" "repr s1 xs" using pop_law by blast
  with Cons.IH [of s1] show ?case by auto
qed

lemma lifo_order:
  assumes "repr s []" "distinct xs"
  shows "\<exists>s1 s2. push_all push xs s = Some s1 \<and> pop_all pop (length xs + n) s1 = (rev xs, s2) \<and> repr s2 []"
proof -
  obtain s1 where s1: "push_all push xs s = Some s1" "repr s1 (rev xs)"
    using push_all_repr [of s "[]" xs] assms by auto
  with pop_all_repr [OF s1(2), of n] show ?thesis by auto
qed

end

text \<open>The stack in memory represents the list of chained entries; all entries are distinct.\<close>

definition stack_repr :: "stack_mem \<Rightarrow> nat list \<Rightarrow> bool" where
  "stack_repr s xs \<longleftrightarrow> chain (nexts s) (head s) xs \<and> distinct xs"

definition solo_push_upmc :: "nat \<Rightarrow> stack_mem \<Rightarrow> stack_mem option" where
  "solo_push_upmc x s = map_option snd (run_solo 3 (ck_stack_push_upmc x) PushLoad s)"

definition solo_push_mpnc :: "nat \<Rightarrow> stack_mem \<Rightarrow> stack_mem option" where
  "solo_push_mpnc x s = map_option snd (run_solo 3 (ck_stack_push_mpnc x) MpncClear s)"

definition solo_pop_upmc :: "stack_mem \<Rightarrow> (ptr \<times> stack_mem) option" where
  "solo_pop_upmc = run_solo 3 ck_stack_pop_upmc PopLoad"

definition solo_pop_mpmc :: "stack_mem \<Rightarrow> (ptr \<times> stack_mem) option" where
  "solo_pop_mpmc = run_solo 4 ck_stack_pop_mpmc GenLoad"

lemmas solo_stack_defs = solo_push_upmc_def solo_push_mpnc_def solo_pop_upmc_def solo_pop_mpmc_def
  ck_stack_push_spnc_def ck_stack_pop_npsc_def stack_repr_def

interpretation upmc_lifo: lifo stack_repr solo_push_upmc solo_pop_upmc
  by unfold_locales (auto simp: solo_stack_defs pr_simps)

interpretation mpmc_lifo: lifo stack_repr solo_push_upmc solo_pop_mpmc
  by unfold_locales (auto simp: solo_stack_defs pr_simps mpop_cas_eq)

interpretation npsc_lifo: lifo stack_repr "\<lambda>x s. Some (ck_stack_push_spnc x s)" "\<lambda>s. Some (ck_stack_pop_npsc s)"
  by unfold_locales (auto simp: solo_stack_defs)

interpretation mpnc_lifo: lifo stack_repr solo_push_mpnc "\<lambda>s. Some (ck_stack_pop_npsc s)"
  by unfold_locales (auto simp: solo_stack_defs pr_simps)

section \<open>Properties\<close>

text \<open>Claim C3: the stack with entry reuse is linearizable. In every state that any number of threads can
  reach by interleaving the steps of \<open>ck_stack_push_mpmc\<close> and \<open>ck_stack_pop_mpmc\<close> on an initialised
  stack, with popped entries pushed again at will, the completed calls, in the order of their returns,
  replay on an abstract stack (each pop returns the entry on top, and \<open>NULL\<close> only when the stack is
  empty), and the entries chained in memory are the result, without repetition and owned by no thread.
  The bound on the number of calls keeps the generation counter from wrapping around.\<close>

theorem mpmc_linearizable:
  assumes "reachable (stack_step stack_mpmc_ops) N (\<lambda>_. SIdle) (ck_stack_init m0, own0, []) ls (m, own, h)"
    and "length h < 2 ^ 64"
  shows "\<exists>xs. replay h = Some xs \<and> chain (nexts m) (head m) xs \<and> distinct xs \<and> set xs \<inter> {x. own x \<noteq> None} = {}"
  using mpmc_stack.history_ok [OF assms(1)] assms(2)
  by (auto simp: stack_inv_def stack_core_def ck_stack_init_def)

text \<open>Two threads race for the top entry; the winner also takes the next one, which it
  then pushes again.\<close>

definition stack_ex_mem :: stack_mem where
  "stack_ex_mem = \<lparr>head = None, generation = 5, nexts = \<lambda>_. None\<rparr>"

definition mpmc_stack_ex :: "(nat \<Rightarrow> (push_pc, mpop_pc) stack_client) \<times> stack_state" where
  "mpmc_stack_ex = stack_run stack_mpmc_ops
     (replicate 4 (0, Some 3) @ replicate 4 (0, Some 4) @ [(0, None), (1, None)] @ replicate 3 (0, None) @
      replicate 4 (1, None) @ [(0, None)] @ replicate 2 (1, None) @ replicate 7 (1, Some 3))
     (\<lambda>_. SIdle, ck_stack_init stack_ex_mem, \<lambda>_. Some 0, [])"

lemma mpmc_stack_ex_history: "snd (snd (snd mpmc_stack_ex)) = [Push 3, Push 4, Pop 4, Pop 3, Push 3]"
  by code_simp

theorem mpmc_linearizable_witness:
  "\<exists>xs. replay [Push 3, Push 4, Pop 4, Pop 3, Push 3] = Some xs \<and>
     chain (nexts (fst (snd mpmc_stack_ex))) (head (fst (snd mpmc_stack_ex))) xs \<and> distinct xs \<and>
     set xs \<inter> {x. fst (snd (snd mpmc_stack_ex)) x \<noteq> None} = {}"
proof (rule mpmc_linearizable)
  have "snd mpmc_stack_ex = (fst (snd mpmc_stack_ex), fst (snd (snd mpmc_stack_ex)), [Push 3, Push 4, Pop 4, Pop 3, Push 3])"
    by (metis mpmc_stack_ex_history prod.collapse)
  moreover have "reachable (stack_step stack_mpmc_ops) 2 (\<lambda>_. SIdle) (ck_stack_init stack_ex_mem, \<lambda>_. Some 0, [])
      (fst mpmc_stack_ex) (snd mpmc_stack_ex)"
    unfolding mpmc_stack_ex_def by (rule stack_run_start) code_simp
  ultimately show "reachable (stack_step stack_mpmc_ops) 2 (\<lambda>_. SIdle) (ck_stack_init stack_ex_mem, \<lambda>_. Some 0, [])
      (fst mpmc_stack_ex) (fst (snd mpmc_stack_ex), fst (snd (snd mpmc_stack_ex)), [Push 3, Push 4, Pop 4, Pop 3, Push 3])"
    by simp
qed simp

text \<open>The stack without reuse is linearizable for any number of calls, with no generation
  counter: an entry that has been pushed once is never pushed again, so a \<open>next\<close> field read from an
  entry of the stack stays right. This covers \<open>ck_stack_push_upmc\<close> with \<open>ck_stack_pop_upmc\<close> and the
  non-blocking \<open>ck_stack_trypush_upmc\<close> with \<open>ck_stack_trypop_upmc\<close>.\<close>

theorem upmc_linearizable:
  assumes "reachable (stack_step stack_upmc_ops) N (\<lambda>_. SIdle) (ck_stack_init m0, own0, []) ls (m, own, h) \<or>
    reachable (stack_step stack_try_upmc_ops) N (\<lambda>_. SIdle) (ck_stack_init m0, own0, []) ls (m, own, h)"
  shows "\<exists>xs. replay h = Some xs \<and> chain (nexts m) (head m) xs \<and> distinct xs"
  using assms upmc.history_ok [of N "ck_stack_init m0" own0 ls "(m, own, h)"]
    try_upmc.history_ok [of N "ck_stack_init m0" own0 ls "(m, own, h)"]
  by (auto simp: stack_inv_def stack_core_def ck_stack_init_def)

definition upmc_stack_ex :: "(nat \<Rightarrow> (push_pc, pop_pc) stack_client) \<times> stack_state" where
  "upmc_stack_ex = stack_run stack_try_upmc_ops
     ([(0, Some 3), (1, Some 4)] @ replicate 2 (0, None) @ replicate 2 (1, None) @ [(0, None), (1, None)] @
      replicate 4 (1, Some 4) @ replicate 4 (0, None))
     (\<lambda>_. SIdle, ck_stack_init stack_ex_mem, \<lambda>x. Some (x - 3), [])"

lemma upmc_stack_ex_history: "snd (snd (snd upmc_stack_ex)) = [Push 3, Push 4, Pop 4]"
  by code_simp

theorem upmc_linearizable_witness:
  "\<exists>xs. replay [Push 3, Push 4, Pop 4] = Some xs \<and>
     chain (nexts (fst (snd upmc_stack_ex))) (head (fst (snd upmc_stack_ex))) xs \<and> distinct xs"
proof (rule upmc_linearizable)
  have "snd upmc_stack_ex = (fst (snd upmc_stack_ex), fst (snd (snd upmc_stack_ex)), [Push 3, Push 4, Pop 4])"
    by (metis upmc_stack_ex_history prod.collapse)
  moreover have "reachable (stack_step stack_try_upmc_ops) 2 (\<lambda>_. SIdle)
      (ck_stack_init stack_ex_mem, \<lambda>x. Some (x - 3), []) (fst upmc_stack_ex) (snd upmc_stack_ex)"
    unfolding upmc_stack_ex_def by (rule stack_run_start) code_simp
  ultimately show "reachable (stack_step stack_upmc_ops) 2 (\<lambda>_. SIdle)
        (ck_stack_init stack_ex_mem, \<lambda>x. Some (x - 3), [])
        (fst upmc_stack_ex) (fst (snd upmc_stack_ex), fst (snd (snd upmc_stack_ex)), [Push 3, Push 4, Pop 4]) \<or>
      reachable (stack_step stack_try_upmc_ops) 2 (\<lambda>_. SIdle)
        (ck_stack_init stack_ex_mem, \<lambda>x. Some (x - 3), [])
        (fst upmc_stack_ex) (fst (snd upmc_stack_ex), fst (snd (snd upmc_stack_ex)), [Push 3, Push 4, Pop 4])"
    by simp
qed


text \<open>Calls that run alone return and are last-in first-out: entries pushed onto an empty stack
  are popped in the reverse order, for every combination of push and pop functions that the header
  offers for one consumer; a batch pop hands over the whole chain, which \<open>CK_STACK_FOREACH\<close> then
  visits from the last entry pushed to the first.\<close>

theorem stack_lifo:
  assumes "stack_repr s []" "distinct xs"
  shows "(\<exists>s1 s2. push_all solo_push_upmc xs s = Some s1 \<and>
      pop_all solo_pop_mpmc (length xs + n) s1 = (rev xs, s2) \<and> stack_repr s2 []) \<and>
    (\<exists>s1 s2. push_all solo_push_mpnc xs s = Some s1 \<and>
      pop_all (\<lambda>s. Some (ck_stack_pop_npsc s)) (length xs + n) s1 = (rev xs, s2) \<and> stack_repr s2 []) \<and>
    (\<exists>s1 s2 e. push_all (\<lambda>x s. Some (ck_stack_push_spnc x s)) xs s = Some s1 \<and>
      ck_stack_batch_pop_npsc s1 = (e, s2) \<and> stack_repr s2 [] \<and>
      CK_STACK_FOREACH (length xs) (nexts s2) e = Some (rev xs))"
proof (intro conjI)
  show "\<exists>s1 s2 e. push_all (\<lambda>x s. Some (ck_stack_push_spnc x s)) xs s = Some s1 \<and>
      ck_stack_batch_pop_npsc s1 = (e, s2) \<and> stack_repr s2 [] \<and>
      CK_STACK_FOREACH (length xs) (nexts s2) e = Some (rev xs)"
    using npsc_lifo.push_all_repr [OF assms(1), of xs] assms(2)
    by (auto simp: ck_stack_batch_pop_npsc_def stack_repr_def foreach_chain)
qed (rule mpmc_lifo.lifo_order [OF assms] mpnc_lifo.lifo_order [OF assms])+

theorem stack_lifo_witness:
  "\<exists>s1 s2. push_all solo_push_upmc [7, 8, 9] (ck_stack_init stack_ex_mem) = Some s1 \<and>
      pop_all solo_pop_mpmc (length [7, 8, 9 :: nat] + 1) s1 = ([9, 8, 7], s2) \<and> stack_repr s2 []"
proof -
  have "stack_repr (ck_stack_init stack_ex_mem) []" by (simp add: stack_repr_def ck_stack_init_def)
  from conjunct1 [OF stack_lifo [OF this, of "[7, 8, 9]" 1]] show ?thesis by simp
qed

end
