(* ===== verification/SpinlockTicket.thy ===== *)
theory SpinlockTicket
  imports SpinlockBasic
begin

text \<open>
  The ticket spinlock of \<^verbatim>\<open>ck/spinlock/ticket.h\<close> in its two forms: the portable one with two 32-bit
  counters and the x86 one that packs both counters into one word, with a trylock. Both are instances
  of one contract, from which exclusion and the absence of deadlock follow.
\<close>

section \<open>Two counters\<close>

record ck_spinlock_ticket =
  tk_next :: uint
  tk_position :: uint

definition ck_spinlock_ticket_init :: ck_spinlock_ticket where
  "ck_spinlock_ticket_init = \<lparr>tk_next = 0, tk_position = 0\<rparr>"

definition ck_spinlock_ticket_locked :: "ck_spinlock_ticket \<Rightarrow> bool" where
  "ck_spinlock_ticket_locked s \<longleftrightarrow> ck_pr_load (tk_position s) \<noteq> ck_pr_load (tk_next s)"

datatype ticket_pc = TkTake | TkWait uint

fun ck_spinlock_ticket_lock :: "ticket_pc \<Rightarrow> ck_spinlock_ticket \<Rightarrow> (ticket_pc, unit) ctl \<times> ck_spinlock_ticket" where
  "ck_spinlock_ticket_lock TkTake s =
     (let (request, m) = ck_pr_faa (tk_next s) 1 in (Go (TkWait request), s\<lparr>tk_next := m\<rparr>))"
| "ck_spinlock_ticket_lock (TkWait request) s =
     (if ck_pr_load (tk_position s) \<noteq> request then Go (TkWait request) else Ret (), s)"

text \<open>The proportional back-off waits in proportion to the distance from the position and has no effect
  on the lock; \<open>backoff\<close> is the count handed to \<open>ck_backoff_eb\<close>.\<close>

datatype ticket_pb_pc = TkPbTake | TkPbWait uint uint

fun ck_spinlock_ticket_lock_pb ::
    "nat \<Rightarrow> ticket_pb_pc \<Rightarrow> ck_spinlock_ticket \<Rightarrow> (ticket_pb_pc, unit) ctl \<times> ck_spinlock_ticket" where
  "ck_spinlock_ticket_lock_pb c TkPbTake s =
     (let (request, m) = ck_pr_faa (tk_next s) 1 in (Go (TkPbWait request 0), s\<lparr>tk_next := m\<rparr>))"
| "ck_spinlock_ticket_lock_pb c (TkPbWait request backoff) s =
     (let position = ck_pr_load (tk_position s)
      in (if position = request then Ret ()
          else Go (TkPbWait request (ck_backoff_eb (push_bit c (request - position)))), s))"

datatype ticket_unlock_pc = TkLoad | TkStore uint

fun ck_spinlock_ticket_unlock ::
    "ticket_unlock_pc \<Rightarrow> ck_spinlock_ticket \<Rightarrow> (ticket_unlock_pc, unit) ctl \<times> ck_spinlock_ticket" where
  "ck_spinlock_ticket_unlock TkLoad s = (Go (TkStore (ck_pr_load (tk_position s))), s)"
| "ck_spinlock_ticket_unlock (TkStore update) s =
     (Ret (), s\<lparr>tk_position := ck_pr_store (tk_position s) (update + 1)\<rparr>)"

definition ticket_ops :: "(unit, ticket_pc, unit, unit, ticket_unlock_pc, ck_spinlock_ticket) lock_ops" where
  "ticket_ops = \<lparr>lock_fn = ck_spinlock_ticket_lock, lock_entry = \<lambda>_. TkTake,
     try_fn = no_trylock, try_entry = \<lambda>_. None, try_result = \<lambda>_. (),
     unlock_fn = ck_spinlock_ticket_unlock, unlock_entry = \<lambda>_. TkLoad\<rparr>"

definition ticket_pb_ops :: "nat \<Rightarrow> (unit, ticket_pb_pc, unit, unit, ticket_unlock_pc, ck_spinlock_ticket) lock_ops" where
  "ticket_pb_ops c = \<lparr>lock_fn = ck_spinlock_ticket_lock_pb c, lock_entry = \<lambda>_. TkPbTake,
     try_fn = no_trylock, try_entry = \<lambda>_. None, try_result = \<lambda>_. (),
     unlock_fn = ck_spinlock_ticket_unlock, unlock_entry = \<lambda>_. TkLoad\<rparr>"

section \<open>One packed word\<close>

text \<open>The variant for x86 with a 32-bit word: the position in the low half, the next ticket in the high
  half.\<close>

record ck_spinlock_ticket_x86 = tk_value :: uint

definition CK_SPINLOCK_TICKET_INCREMENT :: uint where "CK_SPINLOCK_TICKET_INCREMENT = 0x00010000"
definition CK_SPINLOCK_TICKET_MASK :: uint where "CK_SPINLOCK_TICKET_MASK = 0xFFFF"
definition CK_SPINLOCK_TICKET_SHIFT :: nat where "CK_SPINLOCK_TICKET_SHIFT = 16"

text \<open>\<open>ck_pr_inc_16\<close> on the 16 low bits of the word (the target is little-endian).\<close>

definition CK_SPINLOCK_TICKET_INC :: "uint \<Rightarrow> uint" where
  "CK_SPINLOCK_TICKET_INC v =
     (v AND NOT CK_SPINLOCK_TICKET_MASK) OR ((v + 1) AND CK_SPINLOCK_TICKET_MASK)"

definition tk_pos :: "uint \<Rightarrow> uint" where "tk_pos v = v AND CK_SPINLOCK_TICKET_MASK"
definition tk_req :: "uint \<Rightarrow> uint" where "tk_req v = drop_bit CK_SPINLOCK_TICKET_SHIFT v"

definition x86_ticket_init :: ck_spinlock_ticket_x86 where
  "x86_ticket_init = \<lparr>tk_value = 0\<rparr>"

definition x86_ticket_locked :: "ck_spinlock_ticket_x86 \<Rightarrow> bool" where
  "x86_ticket_locked s \<longleftrightarrow> (let v = ck_pr_load (tk_value s) in tk_req v \<noteq> tk_pos v)"

fun x86_ticket_lock :: "ticket_pc \<Rightarrow> ck_spinlock_ticket_x86 \<Rightarrow> (ticket_pc, unit) ctl \<times> ck_spinlock_ticket_x86" where
  "x86_ticket_lock TkTake s =
     (let (v, m) = ck_pr_faa (tk_value s) CK_SPINLOCK_TICKET_INCREMENT
      in (if tk_req v \<noteq> tk_pos v then Go (TkWait (tk_req v)) else Ret (), s\<lparr>tk_value := m\<rparr>))"
| "x86_ticket_lock (TkWait request) s =
     (let position = tk_pos (ck_pr_load (tk_value s))
      in (if request \<noteq> position then Go (TkWait request) else Ret (), s))"

fun x86_ticket_lock_pb ::
    "nat \<Rightarrow> ticket_pb_pc \<Rightarrow> ck_spinlock_ticket_x86 \<Rightarrow> (ticket_pb_pc, unit) ctl \<times> ck_spinlock_ticket_x86" where
  "x86_ticket_lock_pb c TkPbTake s =
     (let (v, m) = ck_pr_faa (tk_value s) CK_SPINLOCK_TICKET_INCREMENT
      in (if tk_req v \<noteq> tk_pos v then Go (TkPbWait (tk_req v) 0) else Ret (), s\<lparr>tk_value := m\<rparr>))"
| "x86_ticket_lock_pb c (TkPbWait request backoff) s =
     (let position = tk_pos (ck_pr_load (tk_value s));
          backoff' = ck_backoff_eb (push_bit c ((request - position) AND CK_SPINLOCK_TICKET_MASK))
      in (if request \<noteq> position then Go (TkPbWait request backoff') else Ret (), s))"

datatype ticket_try_pc = TkSnap | TkTry uint

fun x86_ticket_trylock :: "ticket_try_pc \<Rightarrow> ck_spinlock_ticket_x86 \<Rightarrow> (ticket_try_pc, bool) ctl \<times> ck_spinlock_ticket_x86" where
  "x86_ticket_trylock TkSnap s =
     (let snapshot = ck_pr_load (tk_value s)
      in (if tk_pos snapshot \<noteq> tk_req snapshot then Ret False else Go (TkTry snapshot), s))"
| "x86_ticket_trylock (TkTry snapshot) s =
     (let (ok, m) = ck_pr_cas (tk_value s) snapshot (snapshot + CK_SPINLOCK_TICKET_INCREMENT)
      in (Ret ok, s\<lparr>tk_value := m\<rparr>))"

definition x86_ticket_unlock :: "unit \<Rightarrow> ck_spinlock_ticket_x86 \<Rightarrow> (unit, unit) ctl \<times> ck_spinlock_ticket_x86" where
  "x86_ticket_unlock _ s = (Ret (), s\<lparr>tk_value := CK_SPINLOCK_TICKET_INC (tk_value s)\<rparr>)"

definition x86_ticket_ops :: "(unit, ticket_pc, ticket_try_pc, unit, unit, ck_spinlock_ticket_x86) lock_ops" where
  "x86_ticket_ops = \<lparr>lock_fn = x86_ticket_lock, lock_entry = \<lambda>_. TkTake,
     try_fn = x86_ticket_trylock, try_entry = \<lambda>_. Some TkSnap, try_result = \<lambda>_. (),
     unlock_fn = x86_ticket_unlock, unlock_entry = \<lambda>_. ()\<rparr>"

definition x86_ticket_pb_ops :: "nat \<Rightarrow> (unit, ticket_pb_pc, ticket_try_pc, unit, unit, ck_spinlock_ticket_x86) lock_ops" where
  "x86_ticket_pb_ops c = \<lparr>lock_fn = x86_ticket_lock_pb c, lock_entry = \<lambda>_. TkPbTake,
     try_fn = x86_ticket_trylock, try_entry = \<lambda>_. Some TkSnap, try_result = \<lambda>_. (),
     unlock_fn = x86_ticket_unlock, unlock_entry = \<lambda>_. ()\<rparr>"

section \<open>The contract of a ticket lock\<close>

text \<open>\<open>nx\<close> and \<open>ps\<close> read the two counters, modulo \<open>M\<close>; \<open>tick\<close> is the ticket of a waiting program
  point. A trylock snapshot \<open>snap\<close> is taken only when both counters agree and is committed only if
  they still have the same values.\<close>

locale ticket_style =
  fixes ops :: "(unit, 'a, 'b, unit, 'c, 's) lock_ops" and s0 :: 's and M :: nat
    and nx :: "'s \<Rightarrow> nat" and ps :: "'s \<Rightarrow> nat" and tick :: "'a \<Rightarrow> nat option" and upd :: "'c \<Rightarrow> nat option"
    and snapped :: "'b \<Rightarrow> bool"
  assumes M: "0 < M" and start: "nx s0 = 0" "ps s0 = 0"
    and entry: "tick (lock_entry ops ()) = None" "upd (unlock_entry ops ()) = None"
      "try_entry ops () = Some b \<Longrightarrow> snapped b"
    and take: "tick a = None \<Longrightarrow> lock_fn ops a s = (x, s') \<Longrightarrow>
      nx s' = Suc (nx s) mod M \<and> ps s' = ps s \<and>
      ((\<exists>a'. x = Go a' \<and> tick a' = Some (nx s)) \<or> x = Ret () \<and> nx s = ps s)"
    and wait: "tick a = Some r \<Longrightarrow> lock_fn ops a s = (x, s') \<Longrightarrow>
      s' = s \<and> ((\<exists>a'. x = Go a' \<and> tick a' = Some r) \<or> x = Ret () \<and> ps s = r)"
    and tries: "snapped b \<Longrightarrow> try_fn ops b s = (y, s') \<Longrightarrow>
      (y = Ret True \<and> nx s = ps s \<and> nx s' = Suc (nx s) mod M \<and> ps s' = ps s) \<or>
      (s' = s \<and> (y = Ret False \<or> (\<exists>b'. y = Go b' \<and> snapped b')))"
    and rel_go: "unlock_fn ops c s = (Go c', s') \<Longrightarrow> s' = s \<and> upd c' = Some (ps s)"
    and rel_ret: "unlock_fn ops c s = (Ret (), s') \<Longrightarrow> upd c = None \<or> upd c = Some (ps s) \<Longrightarrow>
      ps s' = Suc (ps s) mod M \<and> nx s' = nx s"

text \<open>A thread has a ticket from its fetch-and-add (or successful trylock) to its release. Some
  numbering \<open>tk\<close> of the tickets, without wrap-around, gives every such thread its own number between
  the numbers \<open>P\<close> served and \<open>I\<close> issued; the holder has the number \<open>P\<close>.\<close>

definition ticketed :: "('a \<Rightarrow> nat option) \<Rightarrow> (unit, 'a, 'b, unit, 'c) client \<Rightarrow> bool" where
  "ticketed tick l = (case l of Acquiring a \<Rightarrow> tick a \<noteq> None | Critical r \<Rightarrow> True | Releasing c \<Rightarrow> True | _ \<Rightarrow> False)"

lemma ticketed_simps [simp]:
  "ticketed tick (Acquiring a) \<longleftrightarrow> tick a \<noteq> None" "ticketed tick (Critical r)" "ticketed tick (Releasing c)"
  "\<not> ticketed tick (Idle p)" "\<not> ticketed tick (Trying p b)"
  by (simp_all add: ticketed_def)

lemma holds_ticketed: "holds l \<Longrightarrow> ticketed tick l"
  by (cases l) auto

definition local_ok :: "('a \<Rightarrow> nat option) \<Rightarrow> ('c \<Rightarrow> nat option) \<Rightarrow> ('b \<Rightarrow> bool) \<Rightarrow> nat \<Rightarrow> nat \<Rightarrow> nat \<Rightarrow>
    (unit, 'a, 'b, unit, 'c) client \<Rightarrow> bool" where
  "local_ok tick upd snapped M P n l \<longleftrightarrow>
     (case l of Acquiring a \<Rightarrow> (case tick a of None \<Rightarrow> True | Some r \<Rightarrow> r = n mod M)
      | Critical r \<Rightarrow> n = P
      | Releasing c \<Rightarrow> n = P \<and> (upd c = None \<or> upd c = Some (P mod M))
      | Trying p b \<Rightarrow> snapped b | Idle p \<Rightarrow> True)"

lemma local_ok_simps [simp]:
  "local_ok tick upd snapped M P n (Acquiring a) \<longleftrightarrow> tick a = None \<or> tick a = Some (n mod M)"
  "local_ok tick upd snapped M P n (Critical r) \<longleftrightarrow> n = P"
  "local_ok tick upd snapped M P n (Releasing c) \<longleftrightarrow> n = P \<and> (upd c = None \<or> upd c = Some (P mod M))"
  "local_ok tick upd snapped M P n (Trying p b) \<longleftrightarrow> snapped b" "local_ok tick upd snapped M P n (Idle p)"
  by (auto simp: local_ok_def split: option.splits)

context ticket_style begin

definition ticket_at :: "(nat \<Rightarrow> nat) \<Rightarrow> nat \<Rightarrow> nat \<Rightarrow> nat \<Rightarrow> (nat \<Rightarrow> (unit, 'a, 'b, unit, 'c) client) \<Rightarrow> 's \<Rightarrow> bool" where
  "ticket_at tk I P N ls s \<longleftrightarrow>
     nx s = I mod M \<and> ps s = P mod M \<and> cnt N (ticketed tick) ls + P = I \<and>
     (\<forall>t<N. ticketed tick (ls t) \<longrightarrow> P \<le> tk t \<and> tk t < I) \<and>
     inj_on tk {t. t < N \<and> ticketed tick (ls t)} \<and>
     (\<forall>t<N. local_ok tick upd snapped M P (tk t) (ls t))"

definition ticket_inv :: "nat \<Rightarrow> (nat \<Rightarrow> (unit, 'a, 'b, unit, 'c) client) \<Rightarrow> 's \<Rightarrow> bool" where
  "ticket_inv N ls s \<longleftrightarrow> (\<exists>tk I P. ticket_at tk I P N ls s)"

lemma at_keep:
  assumes "ticket_at tk I P N ls s" "t < N" "ticketed tick l' = ticketed tick (ls t)"
    "local_ok tick upd snapped M P (tk t) l'"
  shows "ticket_inv N (ls(t := l')) s"
proof -
  have "{u. u < N \<and> ticketed tick ((ls(t := l')) u)} = {u. u < N \<and> ticketed tick (ls u)}" using assms by auto
  then have "ticket_at tk I P N (ls(t := l')) s" using assms unfolding ticket_at_def by auto
  then show ?thesis by (auto simp: ticket_inv_def)
qed

lemma at_small: "ticket_at tk I P N ls s \<Longrightarrow> t < N \<Longrightarrow> \<not> ticketed tick (ls t) \<Longrightarrow> I < P + N"
  using cnt_lt [of t N "ticketed tick" ls] by (auto simp: ticket_at_def)

lemma mod_close: "I mod M = P mod M \<Longrightarrow> P \<le> I \<Longrightarrow> I < P + M \<Longrightarrow> I = (P :: nat)"
  using mod_eq_dvd_iff_nat [of P I M] by (auto dest!: dvd_imp_le)

lemma at_take:
  assumes at: "ticket_at tk I P N ls s" and t: "t < N" and l: "\<not> ticketed tick (ls t)" "ticketed tick l'"
    and s': "nx s' = Suc (nx s) mod M" "ps s' = ps s" and ok: "local_ok tick upd snapped M P I l'"
  shows "ticket_inv N (ls(t := l')) s'"
proof -
  let ?A = "{u. u < N \<and> ticketed tick (ls u)}"
  have "{u. u < N \<and> ticketed tick ((ls(t := l')) u)} = insert t ?A" using t l by auto
  moreover have "inj_on (tk(t := I)) (insert t ?A)"
    using at l unfolding ticket_at_def inj_on_def by auto
  ultimately have "ticket_at (tk(t := I)) (Suc I) P N (ls(t := l')) s'"
    using at t l s' ok unfolding ticket_at_def by (auto simp: mod_Suc_eq less_Suc_eq)
  then show ?thesis by (auto simp: ticket_inv_def)
qed

lemma at_release:
  assumes at: "ticket_at tk I P N ls s" and t: "t < N" and l: "holds (ls t)" "\<not> ticketed tick l'"
    and s': "ps s' = Suc (ps s) mod M" "nx s' = nx s"
    and ok: "local_ok tick upd snapped M (Suc P) (tk t) l'"
  shows "ticket_inv N (ls(t := l')) s'"
proof -
  have tt: "ticketed tick (ls t)" using l(1) by (rule holds_ticketed)
  have tk: "tk t = P" using at t l(1) unfolding ticket_at_def by (cases "ls t") force+
  have other: "tk u \<noteq> P" if "u < N" "u \<noteq> t" "ticketed tick (ls u)" for u
    using at t tt tk that unfolding ticket_at_def inj_on_def by auto
  have "local_ok tick upd snapped M (Suc P) (tk u) (ls u)" if "u < N" "u \<noteq> t" for u
    using at other [OF that] that unfolding ticket_at_def by (cases "ls u") fastforce+
  moreover have "P + cnt N (ticketed tick) ls = I" "0 < cnt N (ticketed tick) ls"
    using at cnt_pos [of t N "ticketed tick" ls] t tt by (auto simp: ticket_at_def)
  moreover have "inj_on tk {u. u < N \<and> ticketed tick ((ls(t := l')) u)}"
    using at l(2) unfolding ticket_at_def inj_on_def by (auto split: if_splits)
  moreover have "P < tk u" if "u < N" "u \<noteq> t" "ticketed tick (ls u)" for u
    using other [OF that] at that unfolding ticket_at_def by (metis le_neq_implies_less)
  ultimately have "ticket_at tk I (Suc P) N (ls(t := l')) s'"
    using at t l tt s' ok unfolding ticket_at_def by (auto simp: mod_Suc_eq Suc_le_eq split: if_splits)
  then show ?thesis by (auto simp: ticket_inv_def)
qed

lemma step_inv:
  assumes N: "N < M" and inv: "ticket_inv N ls s" and t: "t < N" and st: "client_step ops t (ls t) s l' s'"
  shows "ticket_inv N (ls(t := l')) s'"
proof -
  obtain tk I P where at: "ticket_at tk I P N ls s" using inv by (auto simp: ticket_inv_def)
  have ok: "local_ok tick upd snapped M P (tk t) (ls t)" and ps: "ps s = P mod M" and nx: "nx s = I mod M"
    and PI: "P \<le> I" using at t by (auto simp: ticket_at_def)
  have free: "I = P" if "\<not> ticketed tick (ls t)" "nx s = ps s"
    using that at_small [OF at t that(1)] N nx ps PI mod_close [of I P] by simp
  note keep = at_keep [OF at t] and taken = at_take [OF at t] and release = at_release [OF at t]
  from st show ?thesis
  proof (cases rule: client_step.cases)
    case (begin_lock p)
    then show ?thesis using keep [of l'] entry by simp
  next
    case (lock_go a a')
    show ?thesis
    proof (cases "tick a")
      case None
      then show ?thesis using take [OF None lock_go(3)] lock_go taken [of l' s'] nx by simp
    next
      case (Some r)
      then show ?thesis using wait [OF Some lock_go(3)] lock_go keep [of l'] ok by simp
    qed
  next
    case (lock_ret a r)
    show ?thesis
    proof (cases "tick a")
      case None
      then show ?thesis using take [OF None lock_ret(3)] lock_ret taken [of l' s'] free by simp
    next
      case (Some q)
      have "P \<le> tk t" "tk t < I" using at t lock_ret(1) Some by (auto simp: ticket_at_def)
      moreover have "I \<le> P + N" using at cnt_le [of N "ticketed tick" ls] by (auto simp: ticket_at_def)
      moreover have "tk t mod M = P mod M" using wait [OF Some lock_ret(3)] ps ok lock_ret(1) Some by auto
      ultimately have "tk t = P" using N mod_close by simp
      then show ?thesis using wait [OF Some lock_ret(3)] lock_ret keep [of l'] Some by auto
    qed
  next
    case (begin_try p b)
    then show ?thesis using keep [of l'] entry by simp
  next
    case (try_go b b' p)
    then show ?thesis using tries [of b s "Go b'" s'] keep [of l'] ok by auto
  next
    case (try_ok b p)
    then show ?thesis using tries [of b s "Ret True" s'] taken [of l' s'] free ok by auto
  next
    case (try_fail b p)
    then show ?thesis using tries [of b s "Ret False" s'] keep [of l'] ok by auto
  next
    case (begin_unlock r)
    then show ?thesis using keep [of l'] entry ok by simp
  next
    case (unlock_go c c')
    then show ?thesis using rel_go [OF unlock_go(3)] keep [of l'] ok ps by simp
  next
    case (unlock_ret c p)
    then show ?thesis using rel_ret [of c s s'] release [of l' s'] ok ps by simp
  qed
qed

lemma ticket_excl:
  assumes "ticket_inv N ls s" "i < N" "j < N" "critical (ls i)" "critical (ls j)"
  shows "i = j"
proof -
  obtain tk I P where at: "ticket_at tk I P N ls s" using assms(1) by (auto simp: ticket_inv_def)
  have "ticketed tick (ls i)" "ticketed tick (ls j)" using assms(4,5) by (auto intro: holds_ticketed critical_holds)
  moreover have "tk i = P" if "i < N" "critical (ls i)" for i
  proof -
    have "local_ok tick upd snapped M P (tk i) (ls i)" using at that by (auto simp: ticket_at_def)
    with that show ?thesis by (cases "ls i") auto
  qed
  ultimately show ?thesis using at assms unfolding ticket_at_def inj_on_def by auto
qed

text \<open>Some thread with a ticket has the number being served, so a lock with tickets out is either held
  or will be given to the first waiting thread that looks.\<close>

lemma served:
  assumes "ticket_inv N ls s" "t < N" "ticketed tick (ls t)"
  shows "\<exists>u<N. holds (ls u) \<or> (\<exists>a. ls u = Acquiring a \<and> tick a = Some (ps s))"
proof -
  obtain tk I P where at: "ticket_at tk I P N ls s" using assms(1) by (auto simp: ticket_inv_def)
  let ?A = "{u. u < N \<and> ticketed tick (ls u)}"
  have "tk ` ?A \<subseteq> {P..<I}" using at by (auto simp: ticket_at_def)
  moreover have "card (tk ` ?A) = card {P..<I}"
    using at cnt_card [of N "ticketed tick" ls] by (auto simp: ticket_at_def card_image)
  ultimately have "tk ` ?A = {P..<I}" by (intro card_subset_eq) auto
  moreover have "P < I" using at assms by (auto simp: ticket_at_def)
  ultimately have "P \<in> tk ` ?A" by simp
  then obtain u where u: "u < N" "ticketed tick (ls u)" "tk u = P" by auto
  then have "local_ok tick upd snapped M P P (ls u)" using at by (auto simp: ticket_at_def)
  then show ?thesis using u at by (cases "ls u") (auto simp: ticket_at_def)
qed

lemma busy:
  assumes "N < M" "ticket_inv N ls s" "t < N" "ticketed tick (ls t)"
  shows "nx s \<noteq> ps s"
proof -
  obtain tk I P where at: "ticket_at tk I P N ls s" using assms(2) by (auto simp: ticket_inv_def)
  have "P < I" "I \<le> P + N" using at assms(3,4) cnt_le [of N "ticketed tick" ls] by (auto simp: ticket_at_def)
  then show ?thesis using at mod_close [of I P] assms(1) by (auto simp: ticket_at_def)
qed

end

sublocale ticket_style \<subseteq> mutex "client_step ops" "\<lambda>_. Idle ()" s0 "\<lambda>N. N < M" ticket_inv critical
proof unfold_locales
  show "ticket_inv N (\<lambda>_. Idle ()) s0" for N
    unfolding ticket_inv_def ticket_at_def
    by (rule exI [of _ "\<lambda>_. 0"], rule exI [of _ 0], rule exI [of _ 0]) (auto simp: start cnt_0)
qed (blast intro: step_inv, blast intro: ticket_excl)

section \<open>Both forms meet the contract\<close>

fun tick_of :: "ticket_pc \<Rightarrow> nat option" where
  "tick_of TkTake = None"
| "tick_of (TkWait r) = Some (unat r)"

fun tick_pb_of :: "ticket_pb_pc \<Rightarrow> nat option" where
  "tick_pb_of TkPbTake = None"
| "tick_pb_of (TkPbWait r b) = Some (unat r)"

fun upd_of :: "ticket_unlock_pc \<Rightarrow> nat option" where
  "upd_of TkLoad = None"
| "upd_of (TkStore v) = Some (unat v)"

fun snapped_of :: "ticket_try_pc \<Rightarrow> bool" where
  "snapped_of TkSnap = True"
| "snapped_of (TkTry v) \<longleftrightarrow> tk_pos v = tk_req v"

lemma unat_inc: "unat (w + 1 :: uint) = Suc (unat w) mod 2 ^ 32"
  by (simp add: unat_word_ariths)

fun_cases ticket_unlockE: "ck_spinlock_ticket_unlock c s = (x, s')"

lemmas ticket_defs = ticket_ops_def ticket_pb_ops_def no_trylock_def ck_spinlock_ticket_init_def

interpretation ticket_lock: ticket_style ticket_ops ck_spinlock_ticket_init "2 ^ 32"
  "\<lambda>s. unat (tk_next s)" "\<lambda>s. unat (tk_position s)" tick_of upd_of "\<lambda>_. True"
proof unfold_locales
  fix a and s s' :: ck_spinlock_ticket and x r
  show "tick_of a = None \<Longrightarrow> lock_fn ticket_ops a s = (x, s') \<Longrightarrow>
      unat (tk_next s') = Suc (unat (tk_next s)) mod 2 ^ 32 \<and> unat (tk_position s') = unat (tk_position s) \<and>
      ((\<exists>a'. x = Go a' \<and> tick_of a' = Some (unat (tk_next s))) \<or> x = Ret () \<and> unat (tk_next s) = unat (tk_position s))"
    by (cases a) (auto simp: ticket_defs pr_simps unat_inc)
  show "tick_of a = Some r \<Longrightarrow> lock_fn ticket_ops a s = (x, s') \<Longrightarrow>
      s' = s \<and> ((\<exists>a'. x = Go a' \<and> tick_of a' = Some r) \<or> x = Ret () \<and> unat (tk_position s) = r)"
    by (cases a) (auto simp: ticket_defs pr_simps split: if_splits)
qed (auto simp: ticket_defs pr_simps unat_inc elim!: ticket_unlockE)

interpretation ticket_pb_lock: ticket_style "ticket_pb_ops c" ck_spinlock_ticket_init "2 ^ 32"
  "\<lambda>s. unat (tk_next s)" "\<lambda>s. unat (tk_position s)" tick_pb_of upd_of "\<lambda>_. True" for c
proof unfold_locales
  fix a and s s' :: ck_spinlock_ticket and x r
  show "tick_pb_of a = None \<Longrightarrow> lock_fn (ticket_pb_ops c) a s = (x, s') \<Longrightarrow>
      unat (tk_next s') = Suc (unat (tk_next s)) mod 2 ^ 32 \<and> unat (tk_position s') = unat (tk_position s) \<and>
      ((\<exists>a'. x = Go a' \<and> tick_pb_of a' = Some (unat (tk_next s))) \<or> x = Ret () \<and> unat (tk_next s) = unat (tk_position s))"
    by (cases a) (auto simp: ticket_defs pr_simps unat_inc)
  show "tick_pb_of a = Some r \<Longrightarrow> lock_fn (ticket_pb_ops c) a s = (x, s') \<Longrightarrow>
      s' = s \<and> ((\<exists>a'. x = Go a' \<and> tick_pb_of a' = Some r) \<or> x = Ret () \<and> unat (tk_position s) = r)"
    by (cases a) (auto simp: ticket_defs pr_simps Let_def split: if_splits)
qed (auto simp: ticket_defs pr_simps unat_inc elim!: ticket_unlockE)

text \<open>The two halves of the packed word.\<close>

lemma ticket_mask: "CK_SPINLOCK_TICKET_MASK = mask 16"
  by (simp add: CK_SPINLOCK_TICKET_MASK_def mask_eq_exp_minus_1)

lemma unat_tk_pos: "unat (tk_pos v) = unat v mod 2 ^ 16"
  unfolding tk_pos_def ticket_mask take_bit_eq_mask [symmetric] unsigned_take_bit_eq by (rule take_bit_eq_mod)

lemma unat_tk_req: "unat (tk_req v) = unat v div 2 ^ 16"
  unfolding tk_req_def CK_SPINLOCK_TICKET_SHIFT_def unat_drop_bit_eq by (rule drop_bit_eq_div)

lemma tk_faa:
  "unat (tk_req (v + CK_SPINLOCK_TICKET_INCREMENT)) = Suc (unat (tk_req v)) mod 2 ^ 16"
  "tk_pos (v + CK_SPINLOCK_TICKET_INCREMENT) = tk_pos v"
proof -
  have u: "unat (v + CK_SPINLOCK_TICKET_INCREMENT) = (unat v + 2 ^ 16) mod 2 ^ 32"
    by (simp add: CK_SPINLOCK_TICKET_INCREMENT_def unat_word_ariths)
  have "(n + 2 ^ 16) mod 2 ^ 32 div 2 ^ 16 = Suc (n div 2 ^ 16) mod 2 ^ 16" for n :: nat
  proof -
    have "(n + 2 ^ 16) mod 2 ^ (16 + 16) div 2 ^ 16 = (n + 2 ^ 16) div 2 ^ 16 mod 2 ^ 16"
      by (rule div_exp_mod_exp_eq [symmetric])
    moreover have "(n + 2 ^ 16) div 2 ^ 16 = Suc (n div 2 ^ 16)" by simp
    ultimately show ?thesis by simp
  qed
  then show "unat (tk_req (v + CK_SPINLOCK_TICKET_INCREMENT)) = Suc (unat (tk_req v)) mod 2 ^ 16"
    by (simp add: unat_tk_req u)
  have "(n + 2 ^ 16) mod 2 ^ 32 mod 2 ^ 16 = n mod 2 ^ 16" for n :: nat
    by (simp add: mod_mod_cancel)
  then show "tk_pos (v + CK_SPINLOCK_TICKET_INCREMENT) = tk_pos v"
    by (simp add: word_unat_eq_iff unat_tk_pos u)
qed

lemma tk_inc:
  "unat (tk_pos (CK_SPINLOCK_TICKET_INC v)) = Suc (unat (tk_pos v)) mod 2 ^ 16"
  "tk_req (CK_SPINLOCK_TICKET_INC v) = tk_req v"
proof -
  have "tk_pos (CK_SPINLOCK_TICKET_INC v) = (v + 1) AND mask 16"
    unfolding tk_pos_def CK_SPINLOCK_TICKET_INC_def ticket_mask
    by (rule bit_word_eqI) (auto simp: bit_simps)
  then have "unat (tk_pos (CK_SPINLOCK_TICKET_INC v)) = unat (v + 1) mod 2 ^ 16"
    unfolding take_bit_eq_mask [symmetric] by (simp only: unsigned_take_bit_eq) (simp only: take_bit_eq_mod)
  also have "\<dots> = Suc (unat v) mod 2 ^ 16" by (simp add: unat_inc mod_mod_cancel)
  finally show "unat (tk_pos (CK_SPINLOCK_TICKET_INC v)) = Suc (unat (tk_pos v)) mod 2 ^ 16"
    by (simp add: unat_tk_pos mod_Suc_eq)
  show "tk_req (CK_SPINLOCK_TICKET_INC v) = tk_req v"
    unfolding tk_req_def CK_SPINLOCK_TICKET_INC_def ticket_mask CK_SPINLOCK_TICKET_SHIFT_def
    by (rule bit_word_eqI) (auto simp: bit_simps dest: bit_imp_le_length)
qed

lemma x86_ticket_zero: "tk_pos 0 = 0" "tk_req 0 = 0"
  by (simp_all add: tk_pos_def tk_req_def)

lemmas x86_ticket_defs = x86_ticket_ops_def x86_ticket_pb_ops_def x86_ticket_init_def x86_ticket_unlock_def

lemma x86_tries:
  assumes "snapped_of b" "x86_ticket_trylock b s = (y, s')"
  shows "(y = Ret True \<and> unat (tk_req (tk_value s)) = unat (tk_pos (tk_value s)) \<and>
      unat (tk_req (tk_value s')) = Suc (unat (tk_req (tk_value s))) mod 2 ^ 16 \<and>
      unat (tk_pos (tk_value s')) = unat (tk_pos (tk_value s))) \<or>
    (s' = s \<and> (y = Ret False \<or> (\<exists>b'. y = Go b' \<and> snapped_of b')))"
  using assms by (cases b) (auto simp: pr_simps tk_faa Let_def split: if_splits)

interpretation x86_ticket: ticket_style x86_ticket_ops x86_ticket_init "2 ^ 16"
  "\<lambda>s. unat (tk_req (tk_value s))" "\<lambda>s. unat (tk_pos (tk_value s))" tick_of "\<lambda>_. None" snapped_of
proof unfold_locales
  fix a and s s' :: ck_spinlock_ticket_x86 and x r
  show "tick_of a = None \<Longrightarrow> lock_fn x86_ticket_ops a s = (x, s') \<Longrightarrow>
      unat (tk_req (tk_value s')) = Suc (unat (tk_req (tk_value s))) mod 2 ^ 16 \<and>
      unat (tk_pos (tk_value s')) = unat (tk_pos (tk_value s)) \<and>
      ((\<exists>a'. x = Go a' \<and> tick_of a' = Some (unat (tk_req (tk_value s)))) \<or>
        x = Ret () \<and> unat (tk_req (tk_value s)) = unat (tk_pos (tk_value s)))"
    by (cases a) (auto simp: x86_ticket_defs pr_simps tk_faa split: if_splits)
  show "tick_of a = Some r \<Longrightarrow> lock_fn x86_ticket_ops a s = (x, s') \<Longrightarrow>
      s' = s \<and> ((\<exists>a'. x = Go a' \<and> tick_of a' = Some r) \<or> x = Ret () \<and> unat (tk_pos (tk_value s)) = r)"
    by (cases a) (auto simp: x86_ticket_defs pr_simps Let_def split: if_splits)
next
  fix b s y s'
  assume "snapped_of b" "try_fn x86_ticket_ops b s = (y, s')"
  then show "(y = Ret True \<and> unat (tk_req (tk_value s)) = unat (tk_pos (tk_value s)) \<and>
      unat (tk_req (tk_value s')) = Suc (unat (tk_req (tk_value s))) mod 2 ^ 16 \<and>
      unat (tk_pos (tk_value s')) = unat (tk_pos (tk_value s))) \<or>
    (s' = s \<and> (y = Ret False \<or> (\<exists>b'. y = Go b' \<and> snapped_of b')))"
    by (intro x86_tries) (simp_all add: x86_ticket_defs)
qed (auto simp: x86_ticket_defs tk_inc x86_ticket_zero)

interpretation x86_ticket_pb: ticket_style "x86_ticket_pb_ops c" x86_ticket_init "2 ^ 16"
  "\<lambda>s. unat (tk_req (tk_value s))" "\<lambda>s. unat (tk_pos (tk_value s))" tick_pb_of "\<lambda>_. None" snapped_of for c
proof unfold_locales
  fix a and s s' :: ck_spinlock_ticket_x86 and x r
  show "tick_pb_of a = None \<Longrightarrow> lock_fn (x86_ticket_pb_ops c) a s = (x, s') \<Longrightarrow>
      unat (tk_req (tk_value s')) = Suc (unat (tk_req (tk_value s))) mod 2 ^ 16 \<and>
      unat (tk_pos (tk_value s')) = unat (tk_pos (tk_value s)) \<and>
      ((\<exists>a'. x = Go a' \<and> tick_pb_of a' = Some (unat (tk_req (tk_value s)))) \<or>
        x = Ret () \<and> unat (tk_req (tk_value s)) = unat (tk_pos (tk_value s)))"
    by (cases a) (auto simp: x86_ticket_defs pr_simps tk_faa split: if_splits)
  show "tick_pb_of a = Some r \<Longrightarrow> lock_fn (x86_ticket_pb_ops c) a s = (x, s') \<Longrightarrow>
      s' = s \<and> ((\<exists>a'. x = Go a' \<and> tick_pb_of a' = Some r) \<or> x = Ret () \<and> unat (tk_pos (tk_value s)) = r)"
    by (cases a) (auto simp: x86_ticket_defs pr_simps Let_def split: if_splits)
next
  fix b s y s'
  assume "snapped_of b" "try_fn (x86_ticket_pb_ops c) b s = (y, s')"
  then show "(y = Ret True \<and> unat (tk_req (tk_value s)) = unat (tk_pos (tk_value s)) \<and>
      unat (tk_req (tk_value s')) = Suc (unat (tk_req (tk_value s))) mod 2 ^ 16 \<and>
      unat (tk_pos (tk_value s')) = unat (tk_pos (tk_value s))) \<or>
    (s' = s \<and> (y = Ret False \<or> (\<exists>b'. y = Go b' \<and> snapped_of b')))"
    by (intro x86_tries) (simp_all add: x86_ticket_defs)
qed (auto simp: x86_ticket_defs tk_inc x86_ticket_zero)

section \<open>Properties\<close>

text \<open>Mutual exclusion of the ticket lock with two counters for fewer than \<open>2\<^sup>3\<^sup>2\<close> threads, although
  both counters wrap around: while a thread is in its critical section it is the only one, and
  \<open>ck_spinlock_ticket_locked\<close> answers true.\<close>

theorem ticket_mutual_exclusion:
  assumes "reachable (client_step ticket_ops) N (\<lambda>_. Idle ()) ck_spinlock_ticket_init ls s"
    and "N < 2 ^ 32" "i < N" "critical (ls i)"
  shows "{j. j < N \<and> critical (ls j)} = {i} \<and> ck_spinlock_ticket_locked s"
  using ticket_lock.critical_alone [OF assms]
    ticket_lock.busy [OF assms(2) ticket_lock.reachable_inv [OF assms(1,2)] assms(3)
      holds_ticketed [OF critical_holds [OF assms(4)]]]
  by (metis ck_spinlock_ticket_locked_def ck_pr_load_def)

definition ticket_ex :: "(nat \<Rightarrow> (unit, ticket_pc, unit, unit, ticket_unlock_pc) client) \<times> ck_spinlock_ticket" where
  "ticket_ex = client_run ticket_ops
     ([(1, False), (0, False), (1, False), (0, False), (0, False)] @ replicate 4 (1, False) @ [(0, False)])
     (\<lambda>_. Idle (), ck_spinlock_ticket_init)"

theorem ticket_mutual_exclusion_witness:
  "{j. j < 2 \<and> critical (fst ticket_ex j)} = {0} \<and> ck_spinlock_ticket_locked (snd ticket_ex)"
  unfolding ticket_ex_def
  by (rule ticket_mutual_exclusion [OF client_run_start]) (code_simp, simp, simp, code_simp)

text \<open>Mutual exclusion of the packed ticket lock, trylock included, for fewer than \<open>2\<^sup>1\<^sup>6\<close> threads:
  the increment of the position in the low half never carries into the next ticket in the high half.\<close>

theorem x86_ticket_mutual_exclusion:
  assumes "reachable (client_step x86_ticket_ops) N (\<lambda>_. Idle ()) x86_ticket_init ls s"
    and "N < 2 ^ 16" "i < N" "critical (ls i)"
  shows "{j. j < N \<and> critical (ls j)} = {i} \<and> x86_ticket_locked s"
  using x86_ticket.critical_alone [OF assms]
    x86_ticket.busy [OF assms(2) x86_ticket.reachable_inv [OF assms(1,2)] assms(3)
      holds_ticketed [OF critical_holds [OF assms(4)]]]
  by (metis x86_ticket_locked_def ck_pr_load_def)

definition x86_ticket_ex :: "(nat \<Rightarrow> (unit, ticket_pc, ticket_try_pc, unit, unit) client) \<times> ck_spinlock_ticket_x86" where
  "x86_ticket_ex = client_run x86_ticket_ops
     [(1, True), (0, False), (1, False), (1, False), (0, False), (0, False), (2, True), (2, False)]
     (\<lambda>_. Idle (), x86_ticket_init)"

theorem x86_ticket_mutual_exclusion_witness:
  "{j. j < 3 \<and> critical (fst x86_ticket_ex j)} = {1} \<and> x86_ticket_locked (snd x86_ticket_ex)"
  unfolding x86_ticket_ex_def
  by (rule x86_ticket_mutual_exclusion [OF client_run_start]) (code_simp, simp, simp, code_simp)


definition ticket_wait_ex :: "(nat \<Rightarrow> (unit, ticket_pc, ticket_try_pc, unit, unit) client) \<times> ck_spinlock_ticket_x86" where
  "ticket_wait_ex = client_run x86_ticket_ops
     [(1, False), (0, False), (1, False), (0, False), (1, False), (1, False)] (\<lambda>_. Idle (), x86_ticket_init)"


end
