(* ===== verification/DrainLock.thy ===== *)
theory DrainLock
  imports Interleave
begin

text \<open>
  The contracts of the reader-writer locks of ck that count their readers. In the first, \<open>guarded_rw\<close>, writers
  exclude each other by means that the contract leaves open (the cohort locks bring a lock of their own); a
  writer enters when the count has drained, a reader when it has been counted and no writer is busy, or under the writers'
  lock. The second, \<open>drain_lock\<close>, is the case of a single flag: \<open>ck_rwlock\<close>, its recursive form and
  \<open>ck_swlock\<close>. The contracts speak of single steps only; the locales turn them into exclusion for any number of
  threads that the count can hold.
\<close>

section \<open>Readers that are counted\<close>

definition guard_law ::
    "('l \<Rightarrow> bool) \<Rightarrow> ('l \<Rightarrow> bool) \<Rightarrow> ('l \<Rightarrow> bool) \<Rightarrow> ('l \<Rightarrow> bool) \<Rightarrow> ('s \<Rightarrow> bool) \<Rightarrow> ('s \<Rightarrow> nat) \<Rightarrow> nat \<Rightarrow>
     'l \<Rightarrow> 's \<Rightarrow> 'l \<Rightarrow> 's \<Rightarrow> bool" where
  "guard_law own ctd drn adm busy rdrs cap l s l' s' \<longleftrightarrow>
     (ctd l' = ctd l \<longrightarrow> rdrs s' = rdrs s) \<and>
     (ctd l' \<and> \<not> ctd l \<longrightarrow> rdrs s < cap \<longrightarrow> rdrs s' = Suc (rdrs s)) \<and>
     (ctd l \<and> \<not> ctd l' \<longrightarrow> 0 < rdrs s \<longrightarrow> rdrs s' = rdrs s - 1) \<and>
     (drn l' \<and> \<not> drn l \<longrightarrow> rdrs s = 0) \<and>
     (adm l' \<and> \<not> adm l \<longrightarrow> \<not> busy s \<or> own l)"

definition guard_inv ::
    "('l \<Rightarrow> bool) \<Rightarrow> ('l \<Rightarrow> bool) \<Rightarrow> ('l \<Rightarrow> bool) \<Rightarrow> ('s \<Rightarrow> nat) \<Rightarrow> nat \<Rightarrow> (nat \<Rightarrow> 'l) \<Rightarrow> 's \<Rightarrow> bool" where
  "guard_inv ctd drn adm rdrs N ls s \<longleftrightarrow> rdrs s = cnt N ctd ls \<and> (cnt N drn ls = 0 \<or> cnt N adm ls = 0)"

text \<open>The law of a step may use what is known of the whole state, in the invariant \<open>aux\<close> that a lock adds.\<close>

locale guarded_rw =
  fixes step :: "nat \<Rightarrow> 'l \<Rightarrow> 's \<Rightarrow> 'l \<Rightarrow> 's \<Rightarrow> bool" and l0 :: 'l and s0 :: 's and cap :: nat
    and own :: "'l \<Rightarrow> bool" and ctd :: "'l \<Rightarrow> bool" and drn :: "'l \<Rightarrow> bool" and adm :: "'l \<Rightarrow> bool"
    and busy :: "'s \<Rightarrow> bool" and rdrs :: "'s \<Rightarrow> nat" and rd :: "'l \<Rightarrow> bool" and wr :: "'l \<Rightarrow> bool"
    and aux :: "nat \<Rightarrow> (nat \<Rightarrow> 'l) \<Rightarrow> 's \<Rightarrow> bool"
  assumes start: "rdrs s0 = 0" "\<not> drn l0" "\<not> ctd l0"
    and drn_own: "drn l \<Longrightarrow> own l"
    and adm_ctd: "adm l \<Longrightarrow> ctd l"
    and drn_adm: "drn l \<Longrightarrow> \<not> adm l"
    and wr_drn: "wr l \<Longrightarrow> drn l"
    and rd_adm: "rd l \<Longrightarrow> adm l"
    and own_alone: "N \<le> cap \<Longrightarrow> aux N ls s \<Longrightarrow> i < N \<Longrightarrow> j < N \<Longrightarrow> own (ls i) \<Longrightarrow> own (ls j) \<Longrightarrow> i = j"
    and own_busy: "N \<le> cap \<Longrightarrow> aux N ls s \<Longrightarrow> i < N \<Longrightarrow> own (ls i) \<Longrightarrow> busy s"
    and guards: "N \<le> cap \<Longrightarrow> guard_inv ctd drn adm rdrs N ls s \<Longrightarrow> aux N ls s \<Longrightarrow> t < N \<Longrightarrow>
      step t (ls t) s l' s' \<Longrightarrow> guard_law own ctd drn adm busy rdrs cap (ls t) s l' s'"
    and guarded_start: "N \<le> cap \<Longrightarrow> aux N (\<lambda>_. l0) s0"
    and guarded_step: "N \<le> cap \<Longrightarrow> guard_inv ctd drn adm rdrs N ls s \<Longrightarrow> aux N ls s \<Longrightarrow> t < N \<Longrightarrow>
      step t (ls t) s l' s' \<Longrightarrow> aux N (ls(t := l')) s'"

context guarded_rw begin

lemma readers_step:
  assumes r: "rdrs s = cnt N ctd ls" and N: "N \<le> cap" and t: "t < N"
    and st: "guard_law own ctd drn adm busy rdrs cap (ls t) s l' s'"
  shows "rdrs s' = cnt N ctd (ls(t := l'))"
proof -
  have l: "ctd l' = ctd (ls t) \<Longrightarrow> rdrs s' = rdrs s"
    "ctd l' \<Longrightarrow> \<not> ctd (ls t) \<Longrightarrow> rdrs s < cap \<Longrightarrow> rdrs s' = Suc (rdrs s)"
    "ctd (ls t) \<Longrightarrow> \<not> ctd l' \<Longrightarrow> 0 < rdrs s \<Longrightarrow> rdrs s' = rdrs s - 1"
    using st unfolding guard_law_def by blast+
  have u: "cnt N ctd (ls(t := l')) + of_bool (ctd (ls t)) = cnt N ctd ls + of_bool (ctd l')"
    by (rule cnt_upd [OF t])
  consider "ctd l' = ctd (ls t)" | "ctd l'" "\<not> ctd (ls t)" | "ctd (ls t)" "\<not> ctd l'" by blast
  then show ?thesis
  proof cases
    case 1
    with u l(1) r show ?thesis by simp
  next
    case 2
    moreover have "cnt N ctd ls < cap" using cnt_lt [OF t, of ctd ls] 2(2) N by simp
    ultimately show ?thesis using u l(2) r by simp
  next
    case 3
    moreover have "0 < cnt N ctd ls" using cnt_pos [OF t, of ctd ls] 3(1) .
    ultimately show ?thesis using u l(3) r by simp
  qed
qed

lemma none_drained:
  assumes "N \<le> cap" "aux N ls s" "t < N" "\<not> busy s \<or> own (ls t)" "j < N" "j \<noteq> t"
  shows "\<not> drn (ls j)"
  using assms own_alone [of N ls s j t] own_busy [of N ls s j] drn_own by blast

lemma sides_step:
  assumes i: "guard_inv ctd drn adm rdrs N ls s" and N: "N \<le> cap" and a: "aux N ls s" and t: "t < N"
    and st: "guard_law own ctd drn adm busy rdrs cap (ls t) s l' s'"
  shows "cnt N drn (ls(t := l')) = 0 \<or> cnt N adm (ls(t := l')) = 0"
proof -
  have r: "rdrs s = cnt N ctd ls" and e: "cnt N drn ls = 0 \<or> cnt N adm ls = 0" using i by (auto simp: guard_inv_def)
  have nd: "drn l' \<Longrightarrow> \<not> drn (ls t) \<Longrightarrow> rdrs s = 0" and na: "adm l' \<Longrightarrow> \<not> adm (ls t) \<Longrightarrow> \<not> busy s \<or> own (ls t)"
    using st unfolding guard_law_def by blast+
  consider (drain) "drn l'" "\<not> drn (ls t)" | (admit) "adm l'" "\<not> adm (ls t)"
    | (same) "drn l' \<longrightarrow> drn (ls t)" "adm l' \<longrightarrow> adm (ls t)" by blast
  then show ?thesis
  proof cases
    case drain
    then have "cnt N ctd ls = 0" using nd r by simp
    then have "cnt N adm ls = 0" using cnt_mono [of adm ctd N ls, OF adm_ctd] by simp
    then show ?thesis using drn_adm [OF drain(1)] by (auto simp: cnt_0)
  next
    case admit
    then show ?thesis using none_drained [OF N a t na [OF admit]] drn_adm by (auto simp: cnt_0)
  next
    case same
    then show ?thesis using e t by (auto simp: cnt_0)
  qed
qed

lemma guard_inv_step:
  assumes "guard_inv ctd drn adm rdrs N ls s" "aux N ls s" "N \<le> cap" "t < N" "step t (ls t) s l' s'"
  shows "guard_inv ctd drn adm rdrs N (ls(t := l')) s'"
proof -
  have "guard_law own ctd drn adm busy rdrs cap (ls t) s l' s'" using assms by (intro guards)
  then show ?thesis using readers_step [of s N ls t l' s'] sides_step [of N ls s t l' s'] assms by (simp add: guard_inv_def)
qed

lemma guard_inv_start: "guard_inv ctd drn adm rdrs N (\<lambda>_. l0) s0"
  using start by (auto simp: guard_inv_def cnt_def)

end

sublocale guarded_rw \<subseteq> rw_exclusion step "\<lambda>_. l0" s0 "\<lambda>N. N \<le> cap"
  "\<lambda>N ls s. guard_inv ctd drn adm rdrs N ls s \<and> aux N ls s" rd wr
proof unfold_locales
  fix N ls s i j
  assume N: "N \<le> cap" and *: "guard_inv ctd drn adm rdrs N ls s \<and> aux N ls s" and i: "i < N" "j < N" "wr (ls i)"
  show "i = j" if "wr (ls j)" using own_alone [OF N _ i(1,2)] * i(3) that wr_drn drn_own by blast
  have "0 < cnt N drn ls" using cnt_pos [of i N drn ls] i wr_drn by blast
  then have "cnt N adm ls = 0" using * by (auto simp: guard_inv_def)
  then show "\<not> rd (ls j)" using i(2) rd_adm by (auto simp: cnt_0)
qed (blast intro: guard_inv_start guard_inv_step guarded_start guarded_step)+

section \<open>A flag for the writer\<close>

definition drain_law ::
    "('l \<Rightarrow> bool) \<Rightarrow> ('l \<Rightarrow> bool) \<Rightarrow> ('l \<Rightarrow> bool) \<Rightarrow> ('l \<Rightarrow> bool) \<Rightarrow> ('s \<Rightarrow> bool) \<Rightarrow> ('s \<Rightarrow> nat) \<Rightarrow> nat \<Rightarrow>
     'l \<Rightarrow> 's \<Rightarrow> 'l \<Rightarrow> 's \<Rightarrow> bool" where
  "drain_law own ctd drn adm flag rdrs cap l s l' s' \<longleftrightarrow>
     (own l' = own l \<longrightarrow> flag s' = flag s) \<and>
     (own l' \<and> \<not> own l \<longrightarrow> \<not> flag s \<and> flag s') \<and>
     (own l \<and> \<not> own l' \<longrightarrow> \<not> flag s') \<and>
     (ctd l' = ctd l \<longrightarrow> rdrs s' = rdrs s) \<and>
     (ctd l' \<and> \<not> ctd l \<longrightarrow> rdrs s < cap \<longrightarrow> rdrs s' = Suc (rdrs s)) \<and>
     (ctd l \<and> \<not> ctd l' \<longrightarrow> 0 < rdrs s \<longrightarrow> rdrs s' = rdrs s - 1) \<and>
     (drn l' \<and> \<not> drn l \<longrightarrow> rdrs s = 0) \<and>
     (adm l' \<and> \<not> adm l \<longrightarrow> \<not> flag s \<or> drn l \<and> \<not> drn l')"

definition drain_inv ::
    "('l \<Rightarrow> bool) \<Rightarrow> ('l \<Rightarrow> bool) \<Rightarrow> ('l \<Rightarrow> bool) \<Rightarrow> ('l \<Rightarrow> bool) \<Rightarrow> ('s \<Rightarrow> bool) \<Rightarrow> ('s \<Rightarrow> nat) \<Rightarrow>
     nat \<Rightarrow> (nat \<Rightarrow> 'l) \<Rightarrow> 's \<Rightarrow> bool" where
  "drain_inv own ctd drn adm flag rdrs N ls s \<longleftrightarrow>
     cnt N own ls = of_bool (flag s) \<and> rdrs s = cnt N ctd ls \<and> (cnt N drn ls = 0 \<or> cnt N adm ls = 0)"

lemma drain_guard_inv:
  "drain_inv own ctd drn adm flag rdrs N ls s \<longleftrightarrow>
     cnt N own ls = of_bool (flag s) \<and> guard_inv ctd drn adm rdrs N ls s"
  by (auto simp: drain_inv_def guard_inv_def)

locale drain_lock =
  fixes step :: "nat \<Rightarrow> 'l \<Rightarrow> 's \<Rightarrow> 'l \<Rightarrow> 's \<Rightarrow> bool" and l0 :: 'l and s0 :: 's and cap :: nat
    and own :: "'l \<Rightarrow> bool" and ctd :: "'l \<Rightarrow> bool" and drn :: "'l \<Rightarrow> bool" and adm :: "'l \<Rightarrow> bool"
    and flag :: "'s \<Rightarrow> bool" and rdrs :: "'s \<Rightarrow> nat" and rd :: "'l \<Rightarrow> bool" and wr :: "'l \<Rightarrow> bool"
    and aux :: "nat \<Rightarrow> (nat \<Rightarrow> 'l) \<Rightarrow> 's \<Rightarrow> bool"
  assumes init: "\<not> flag s0" "rdrs s0 = 0" "\<not> own l0" "\<not> ctd l0"
    and drained_own: "drn l \<Longrightarrow> own l"
    and admitted_ctd: "adm l \<Longrightarrow> ctd l"
    and drained_out: "drn l \<Longrightarrow> \<not> adm l"
    and writer_drained: "wr l \<Longrightarrow> drn l"
    and reader_admitted: "rd l \<Longrightarrow> adm l"
    and law: "N \<le> cap \<Longrightarrow> drain_inv own ctd drn adm flag rdrs N ls s \<Longrightarrow> aux N ls s \<Longrightarrow> t < N \<Longrightarrow>
      step t (ls t) s l' s' \<Longrightarrow> drain_law own ctd drn adm flag rdrs cap (ls t) s l' s'"
    and aux_start: "N \<le> cap \<Longrightarrow> aux N (\<lambda>_. l0) s0"
    and aux_step: "N \<le> cap \<Longrightarrow> drain_inv own ctd drn adm flag rdrs N ls s \<Longrightarrow> aux N ls s \<Longrightarrow> t < N \<Longrightarrow>
      step t (ls t) s l' s' \<Longrightarrow> aux N (ls(t := l')) s'"

text \<open>The flag is what keeps the writers apart.\<close>

sublocale drain_lock \<subseteq> guarded_rw step l0 s0 cap own ctd drn adm flag rdrs rd wr
  "\<lambda>N ls s. cnt N own ls = of_bool (flag s) \<and> aux N ls s"
proof unfold_locales
  fix N ls s i j
  assume a: "cnt N own ls = of_bool (flag s) \<and> aux N ls s" and i: "i < N" "own (ls i)"
  show "flag s" using a cnt_pos [OF i(1), of own ls] i(2) by (cases "flag s") auto
  show "i = j" if "j < N" "own (ls j)" using a cnt_le1 [of N own ls i j] i that by (cases "flag s") auto
next
  fix N ls s t l' s'
  assume *: "N \<le> cap" "guard_inv ctd drn adm rdrs N ls s" "cnt N own ls = of_bool (flag s) \<and> aux N ls s" "t < N" "step t (ls t) s l' s'"
  then have d: "drain_inv own ctd drn adm flag rdrs N ls s" by (simp add: drain_guard_inv)
  have l: "drain_law own ctd drn adm flag rdrs cap (ls t) s l' s'" using * by (intro law [OF _ d]) auto
  then show "guard_law own ctd drn adm flag rdrs cap (ls t) s l' s'"
    using drained_own unfolding drain_law_def guard_law_def by blast
  have "cnt N own (ls(t := l')) = of_bool (flag s')"
    using l * unfolding drain_law_def by (intro cnt_flag_step [of N own ls "flag s" t]) blast+
  then show "cnt N own (ls(t := l')) = of_bool (flag s') \<and> aux N (ls(t := l')) s'"
    using aux_step [OF _ d] * by blast
qed (use init drained_own admitted_ctd drained_out writer_drained reader_admitted aux_start in \<open>auto simp: cnt_0\<close>)

end
