(* ===== verification/Rwlock.thy ===== *)
theory Rwlock
  imports CkPr DrainLock
begin

text \<open>
  The reader-writer lock of \<^verbatim>\<open>ck/ck_rwlock.h\<close>. A writer claims
  the flag and waits for the readers to drain; a reader announces itself and withdraws if it then sees
  the flag.
\<close>

section \<open>The lock\<close>

record ck_rwlock =
  writer :: uint
  n_readers :: uint

definition ck_rwlock_init :: ck_rwlock where
  "ck_rwlock_init = \<lparr>writer = 0, n_readers = 0\<rparr>"

definition ck_rwlock_write_unlock :: "unit \<Rightarrow> ck_rwlock \<Rightarrow> (unit, unit) ctl \<times> ck_rwlock" where
  "ck_rwlock_write_unlock _ rw = (Ret (), rw\<lparr>writer := ck_pr_store (writer rw) 0\<rparr>)"

definition ck_rwlock_locked_writer :: "ck_rwlock \<Rightarrow> bool" where
  "ck_rwlock_locked_writer rw \<longleftrightarrow> ck_pr_load (writer rw) \<noteq> 0"

datatype downgrade_pc = DgInc | DgUnlock

fun ck_rwlock_write_downgrade :: "downgrade_pc \<Rightarrow> ck_rwlock \<Rightarrow> (downgrade_pc, unit) ctl \<times> ck_rwlock" where
  "ck_rwlock_write_downgrade DgInc rw = (Go DgUnlock, rw\<lparr>n_readers := ck_pr_inc (n_readers rw)\<rparr>)"
| "ck_rwlock_write_downgrade DgUnlock rw = (Ret (), snd (ck_rwlock_write_unlock () rw))"

definition ck_rwlock_locked :: "ck_rwlock \<Rightarrow> bool" where
  "ck_rwlock_locked rw \<longleftrightarrow> ck_pr_load (n_readers rw) OR ck_pr_load (writer rw) \<noteq> 0"

datatype wtry_pc = WtSwap | WtCheck | WtUndo

fun ck_rwlock_write_trylock :: "wtry_pc \<Rightarrow> ck_rwlock \<Rightarrow> (wtry_pc, bool) ctl \<times> ck_rwlock" where
  "ck_rwlock_write_trylock WtSwap rw =
     (let (v, m) = ck_pr_fas (writer rw) 1
      in (if v \<noteq> 0 then Ret False else Go WtCheck, rw\<lparr>writer := m\<rparr>))"
| "ck_rwlock_write_trylock WtCheck rw =
     (if ck_pr_load (n_readers rw) \<noteq> 0 then Go WtUndo else Ret True, rw)"
| "ck_rwlock_write_trylock WtUndo rw = (Ret False, snd (ck_rwlock_write_unlock () rw))"

datatype wlock_pc = WlSwap | WlDrain

fun ck_rwlock_write_lock :: "wlock_pc \<Rightarrow> ck_rwlock \<Rightarrow> (wlock_pc, unit) ctl \<times> ck_rwlock" where
  "ck_rwlock_write_lock WlSwap rw =
     (let (v, m) = ck_pr_fas (writer rw) 1
      in (if v \<noteq> 0 then Go WlSwap else Go WlDrain, rw\<lparr>writer := m\<rparr>))"
| "ck_rwlock_write_lock WlDrain rw =
     (if ck_pr_load (n_readers rw) \<noteq> 0 then Go WlDrain else Ret (), rw)"

datatype rtry_pc = RtLoad | RtInc | RtCheck | RtDec

fun ck_rwlock_read_trylock :: "rtry_pc \<Rightarrow> ck_rwlock \<Rightarrow> (rtry_pc, bool) ctl \<times> ck_rwlock" where
  "ck_rwlock_read_trylock RtLoad rw = (if ck_pr_load (writer rw) \<noteq> 0 then Ret False else Go RtInc, rw)"
| "ck_rwlock_read_trylock RtInc rw = (Go RtCheck, rw\<lparr>n_readers := ck_pr_inc (n_readers rw)\<rparr>)"
| "ck_rwlock_read_trylock RtCheck rw = (if ck_pr_load (writer rw) = 0 then Ret True else Go RtDec, rw)"
| "ck_rwlock_read_trylock RtDec rw = (Ret False, rw\<lparr>n_readers := ck_pr_dec (n_readers rw)\<rparr>)"

datatype rlock_pc = RlSpin | RlInc | RlCheck | RlDec

fun ck_rwlock_read_lock :: "rlock_pc \<Rightarrow> ck_rwlock \<Rightarrow> (rlock_pc, unit) ctl \<times> ck_rwlock" where
  "ck_rwlock_read_lock RlSpin rw = (if ck_pr_load (writer rw) \<noteq> 0 then Go RlSpin else Go RlInc, rw)"
| "ck_rwlock_read_lock RlInc rw = (Go RlCheck, rw\<lparr>n_readers := ck_pr_inc (n_readers rw)\<rparr>)"
| "ck_rwlock_read_lock RlCheck rw = (if ck_pr_load (writer rw) = 0 then Ret () else Go RlDec, rw)"
| "ck_rwlock_read_lock RlDec rw = (Go RlSpin, rw\<lparr>n_readers := ck_pr_dec (n_readers rw)\<rparr>)"

definition ck_rwlock_locked_reader :: "ck_rwlock \<Rightarrow> bool" where
  "ck_rwlock_locked_reader rw \<longleftrightarrow> ck_pr_load (n_readers rw) \<noteq> 0"

definition ck_rwlock_read_unlock :: "unit \<Rightarrow> ck_rwlock \<Rightarrow> (unit, unit) ctl \<times> ck_rwlock" where
  "ck_rwlock_read_unlock _ rw = (Ret (), rw\<lparr>n_readers := ck_pr_dec (n_readers rw)\<rparr>)"

type_synonym rwlock_client = "(wlock_pc, wtry_pc, unit, rlock_pc, rtry_pc, unit, downgrade_pc) rw_client"

definition rwlock_ops ::
    "(wlock_pc, wtry_pc, unit, rlock_pc, rtry_pc, unit, downgrade_pc, ck_rwlock) rw_ops" where
  "rwlock_ops = \<lparr>wlock_fn = ck_rwlock_write_lock, wlock_entry = WlSwap,
     wtry_fn = ck_rwlock_write_trylock, wtry_entry = Some WtSwap,
     wunlock_fn = ck_rwlock_write_unlock, wunlock_entry = (),
     rlock_fn = ck_rwlock_read_lock, rlock_entry = RlSpin,
     rtry_fn = ck_rwlock_read_trylock, rtry_entry = Some RtLoad,
     runlock_fn = ck_rwlock_read_unlock, runlock_entry = (),
     downgrade_fn = ck_rwlock_write_downgrade, downgrade_entry = Some DgInc\<rparr>"

section \<open>Exclusion\<close>

text \<open>What each program point stands for in the drain contract: the writer flag is owned, the thread is
  counted among the readers, the writer is past the drain, the reader is past its check.\<close>

fun owns :: "rwlock_client \<Rightarrow> bool" where
  "owns (WLock WlDrain) = True" | "owns (WTry WtCheck) = True" | "owns (WTry WtUndo) = True"
| "owns WCrit = True" | "owns (WUnlock _) = True" | "owns (Downgrade _) = True" | "owns _ = False"

fun counted :: "rwlock_client \<Rightarrow> bool" where
  "counted (RLock RlCheck) = True" | "counted (RLock RlDec) = True"
| "counted (RTry RtCheck) = True" | "counted (RTry RtDec) = True"
| "counted RCrit = True" | "counted (RUnlock _) = True" | "counted (Downgrade DgUnlock) = True"
| "counted _ = False"

fun drained :: "rwlock_client \<Rightarrow> bool" where
  "drained WCrit = True" | "drained (WUnlock _) = True" | "drained (Downgrade _) = True" | "drained _ = False"

fun admitted :: "rwlock_client \<Rightarrow> bool" where
  "admitted RCrit = True" | "admitted (RUnlock _) = True" | "admitted _ = False"

lemmas rwlock_defs = drain_law_def rwlock_ops_def ck_rwlock_write_unlock_def ck_rwlock_read_unlock_def pr_simps

lemma rwlock_step_law:
  assumes "rw_step rwlock_ops t l s l' s'"
  shows "drain_law owns counted drained admitted (\<lambda>s. writer s \<noteq> 0) (\<lambda>s. unat (n_readers s)) (2 ^ 32 - 1) l s l' s'"
  using assms
proof (cases rule: rw_step.cases)
  case (wlock_go a a')
  then show ?thesis by (cases a) (auto simp: rwlock_defs split: if_splits)
next
  case (wlock_ret a)
  then show ?thesis by (cases a) (auto simp: rwlock_defs split: if_splits)
next
  case (wtry_go a a')
  then show ?thesis by (cases a) (auto simp: rwlock_defs split: if_splits)
next
  case (wtry_ok a)
  then show ?thesis by (cases a) (auto simp: rwlock_defs split: if_splits)
next
  case (wtry_fail a)
  then show ?thesis by (cases a) (auto simp: rwlock_defs split: if_splits)
next
  case (rlock_go a a')
  then show ?thesis by (cases a) (auto simp: rwlock_defs unat_inc_small unat_dec_pos split: if_splits)
next
  case (rlock_ret a)
  then show ?thesis by (cases a) (auto simp: rwlock_defs split: if_splits)
next
  case (rtry_go a a')
  then show ?thesis by (cases a) (auto simp: rwlock_defs unat_inc_small unat_dec_pos split: if_splits)
next
  case (rtry_ok a)
  then show ?thesis by (cases a) (auto simp: rwlock_defs split: if_splits)
next
  case (rtry_fail a)
  then show ?thesis by (cases a) (auto simp: rwlock_defs unat_dec_pos split: if_splits)
next
  case (downgrade_go a a')
  then show ?thesis by (cases a) (auto simp: rwlock_defs unat_inc_small split: if_splits)
next
  case (downgrade_ret a)
  then show ?thesis by (cases a) (auto simp: rwlock_defs split: if_splits)
qed (auto simp: rwlock_defs unat_dec_pos)

interpretation rwlock: drain_lock "rw_step rwlock_ops" RwIdle ck_rwlock_init "2 ^ 32 - 1" owns counted
  drained admitted "\<lambda>s. writer s \<noteq> 0" "\<lambda>s. unat (n_readers s)" reading writing "\<lambda>N ls s. True"
proof unfold_locales
  fix l :: rwlock_client
  show "drained l \<Longrightarrow> owns l" by (cases l rule: drained.cases) auto
  show "admitted l \<Longrightarrow> counted l" by (cases l rule: admitted.cases) auto
  show "drained l \<Longrightarrow> \<not> admitted l" by (cases l rule: drained.cases) auto
  show "writing l \<Longrightarrow> drained l" by (cases l) auto
  show "reading l \<Longrightarrow> admitted l" by (cases l) auto
qed (simp_all add: ck_rwlock_init_def rwlock_step_law [simplified])

text \<open>In every interleaving of any number of threads below \<open>2 ^ 32\<close> that lock, try, unlock and
  downgrade a \<open>ck_rwlock\<close>, a thread that writes is the only writer and there is no reader.\<close>

theorem rwlock_exclusion:
  assumes "reachable (rw_step rwlock_ops) N (\<lambda>_. RwIdle) ck_rwlock_init ls s"
    and "N < 2 ^ 32" and "i < N" and "writing (ls i)"
  shows "{j. j < N \<and> writing (ls j)} = {i} \<and> {j. j < N \<and> reading (ls j)} = {}"
  using rwlock.writers_exclude [OF assms(1) _ assms(3,4)] assms(2) by simp

text \<open>Thread 0 reads while thread 1 raises the flag; the writer enters when the reader is gone, and
  thread 2, a reader, has withdrawn.\<close>

definition rwlock_schedule :: "(nat \<times> nat) list" where
  "rwlock_schedule = [(0,1),(0,0),(0,0),(0,0),(2,1),(2,0),(1,0),(1,0),(2,0),(2,0),(1,0),(2,0),(0,0),(0,0),(1,0)]"

theorem rwlock_exclusion_witness:
  "let ls = fst (rw_run rwlock_ops rwlock_schedule (\<lambda>_. RwIdle, ck_rwlock_init))
   in {j. j < 3 \<and> writing (ls j)} = {1} \<and> {j. j < 3 \<and> reading (ls j)} = {}"
  unfolding Let_def
  by (rule rwlock_exclusion [OF rw_run_start]) (code_simp, simp, simp, code_simp)

end
