(* ===== verification/RwlockRecursive.thy ===== *)
theory RwlockRecursive
  imports Rwlock
begin

text \<open>
  The reader-writer lock with a recursive writer of \<^verbatim>\<open>ck/ck_rwlock.h\<close>: the writer field holds the
  thread identifier of the owner, and the owner may take the lock again, up to the width of the nesting
  counter.
\<close>

section \<open>The lock\<close>

record ck_rwlock_recursive =
  rw :: ck_rwlock
  wc :: uint

definition CK_RWLOCK_RECURSIVE_INITIALIZER :: ck_rwlock_recursive where
  "CK_RWLOCK_RECURSIVE_INITIALIZER = \<lparr>rw = \<lparr>writer = 0, n_readers = 0\<rparr>, wc = 0\<rparr>"

text \<open>The flag and the nesting counter, as the writers update them.\<close>

definition set_writer :: "uint \<Rightarrow> ck_rwlock_recursive \<Rightarrow> ck_rwlock_recursive" where
  "set_writer v r = r\<lparr>rw := (rw r)\<lparr>writer := v\<rparr>\<rparr>"

datatype rec_pc = RecLoad | RecCas | RecDrain | RecLeave

fun ck_rwlock_recursive_write_lock ::
    "uint \<Rightarrow> rec_pc \<Rightarrow> ck_rwlock_recursive \<Rightarrow> (rec_pc, unit) ctl \<times> ck_rwlock_recursive" where
  "ck_rwlock_recursive_write_lock tid RecLoad r =
     (if ck_pr_load (writer (rw r)) = tid then Go RecLeave else Go RecCas, r)"
| "ck_rwlock_recursive_write_lock tid RecCas r =
     (let (ok, m) = ck_pr_cas (writer (rw r)) 0 tid
      in (if ok then Go RecDrain else Go RecCas, set_writer m r))"
| "ck_rwlock_recursive_write_lock tid RecDrain r =
     (if ck_pr_load (n_readers (rw r)) \<noteq> 0 then Go RecDrain else Go RecLeave, r)"
| "ck_rwlock_recursive_write_lock tid RecLeave r = (Ret (), r\<lparr>wc := wc r + 1\<rparr>)"

datatype rectry_pc = RetLoad | RetCas | RetDrain | RetUndo | RetLeave

fun ck_rwlock_recursive_write_trylock ::
    "uint \<Rightarrow> rectry_pc \<Rightarrow> ck_rwlock_recursive \<Rightarrow> (rectry_pc, bool) ctl \<times> ck_rwlock_recursive" where
  "ck_rwlock_recursive_write_trylock tid RetLoad r =
     (if ck_pr_load (writer (rw r)) = tid then Go RetLeave else Go RetCas, r)"
| "ck_rwlock_recursive_write_trylock tid RetCas r =
     (let (ok, m) = ck_pr_cas (writer (rw r)) 0 tid
      in (if ok then Go RetDrain else Ret False, set_writer m r))"
| "ck_rwlock_recursive_write_trylock tid RetDrain r =
     (if ck_pr_load (n_readers (rw r)) \<noteq> 0 then Go RetUndo else Go RetLeave, r)"
| "ck_rwlock_recursive_write_trylock tid RetUndo r =
     (Ret False, set_writer (ck_pr_store (writer (rw r)) 0) r)"
| "ck_rwlock_recursive_write_trylock tid RetLeave r = (Ret True, r\<lparr>wc := wc r + 1\<rparr>)"

datatype recun_pc = RunDec | RunStore

fun ck_rwlock_recursive_write_unlock ::
    "recun_pc \<Rightarrow> ck_rwlock_recursive \<Rightarrow> (recun_pc, unit) ctl \<times> ck_rwlock_recursive" where
  "ck_rwlock_recursive_write_unlock RunDec r =
     (if wc r - 1 = 0 then Go RunStore else Ret (), r\<lparr>wc := wc r - 1\<rparr>)"
| "ck_rwlock_recursive_write_unlock RunStore r =
     (Ret (), set_writer (ck_pr_store (writer (rw r)) 0) r)"

text \<open>The readers are those of the lock inside.\<close>

definition inner :: "('p \<Rightarrow> ck_rwlock \<Rightarrow> ('p, 'a) ctl \<times> ck_rwlock) \<Rightarrow>
    'p \<Rightarrow> ck_rwlock_recursive \<Rightarrow> ('p, 'a) ctl \<times> ck_rwlock_recursive" where
  "inner f p r = (let (c, m) = f p (rw r) in (c, r\<lparr>rw := m\<rparr>))"

definition ck_rwlock_recursive_read_lock ::
    "rlock_pc \<Rightarrow> ck_rwlock_recursive \<Rightarrow> (rlock_pc, unit) ctl \<times> ck_rwlock_recursive" where
  "ck_rwlock_recursive_read_lock = inner ck_rwlock_read_lock"

definition ck_rwlock_recursive_read_trylock ::
    "rtry_pc \<Rightarrow> ck_rwlock_recursive \<Rightarrow> (rtry_pc, bool) ctl \<times> ck_rwlock_recursive" where
  "ck_rwlock_recursive_read_trylock = inner ck_rwlock_read_trylock"

definition ck_rwlock_recursive_read_unlock ::
    "unit \<Rightarrow> ck_rwlock_recursive \<Rightarrow> (unit, unit) ctl \<times> ck_rwlock_recursive" where
  "ck_rwlock_recursive_read_unlock = inner ck_rwlock_read_unlock"

section \<open>Clients that nest\<close>

text \<open>A writer knows how deep it has nested; it may lock or try again, and each unlock gives back one
  level.\<close>

datatype nest_client =
  NIdle | NWLock nat rec_pc | NWTry nat rectry_pc | NWrite nat | NWUnlock nat recun_pc
  | NRLock rlock_pc | NRTry rtry_pc | NRead | NRUnlock

fun at_depth :: "nat \<Rightarrow> nest_client" where
  "at_depth 0 = NIdle"
| "at_depth (Suc d) = NWrite (Suc d)"

definition thread_id :: "nat \<Rightarrow> uint" where
  "thread_id t = of_nat (Suc t)"

fun nest_begin :: "nat \<Rightarrow> nest_client \<Rightarrow> nest_client" where
  "nest_begin c NIdle = (if c = 0 then NWLock 0 RecLoad else if c = 1 then NRLock RlSpin
     else if c = 2 then NWTry 0 RetLoad else NRTry RtLoad)"
| "nest_begin c (NWrite d) = (if c = 0 \<and> Suc d < 2 ^ 32 then NWLock d RecLoad
     else if c = 2 \<and> Suc d < 2 ^ 32 then NWTry d RetLoad else NWUnlock d RunDec)"
| "nest_begin c NRead = NRUnlock"
| "nest_begin c l = l"

text \<open>One step of thread \<open>t\<close>; \<open>c\<close> is the choice of the client where it has one.\<close>

fun nest_move :: "nat \<Rightarrow> nat \<Rightarrow> nest_client \<Rightarrow> ck_rwlock_recursive \<Rightarrow> nest_client \<times> ck_rwlock_recursive" where
  "nest_move c t (NWLock d a) r = (case ck_rwlock_recursive_write_lock (thread_id t) a r of
     (Go a', r') \<Rightarrow> (NWLock d a', r') | (Ret _, r') \<Rightarrow> (NWrite (Suc d), r'))"
| "nest_move c t (NWTry d a) r = (case ck_rwlock_recursive_write_trylock (thread_id t) a r of
     (Go a', r') \<Rightarrow> (NWTry d a', r') | (Ret ok, r') \<Rightarrow> (if ok then NWrite (Suc d) else at_depth d, r'))"
| "nest_move c t (NWUnlock d a) r = (case ck_rwlock_recursive_write_unlock a r of
     (Go a', r') \<Rightarrow> (NWUnlock d a', r') | (Ret _, r') \<Rightarrow> (at_depth (d - 1), r'))"
| "nest_move c t (NRLock a) r = (case ck_rwlock_recursive_read_lock a r of
     (Go a', r') \<Rightarrow> (NRLock a', r') | (Ret _, r') \<Rightarrow> (NRead, r'))"
| "nest_move c t (NRTry a) r = (case ck_rwlock_recursive_read_trylock a r of
     (Go a', r') \<Rightarrow> (NRTry a', r') | (Ret ok, r') \<Rightarrow> (if ok then NRead else NIdle, r'))"
| "nest_move c t NRUnlock r = (NIdle, snd (ck_rwlock_recursive_read_unlock () r))"
| "nest_move c t l r = (nest_begin c l, r)"

inductive nest_step :: "nat \<Rightarrow> nest_client \<Rightarrow> ck_rwlock_recursive \<Rightarrow> nest_client \<Rightarrow> ck_rwlock_recursive \<Rightarrow> bool" where
  "nest_move c t l r = (l', r') \<Longrightarrow> nest_step t l r l' r'"

inductive_cases nest_stepE: "nest_step t l r l' r'"

section \<open>Exclusion\<close>

fun rec_owns :: "nest_client \<Rightarrow> bool" where
  "rec_owns (NWLock d a) \<longleftrightarrow> 0 < d \<or> a = RecDrain \<or> a = RecLeave"
| "rec_owns (NWTry d a) \<longleftrightarrow> 0 < d \<or> a = RetDrain \<or> a = RetLeave \<or> a = RetUndo"
| "rec_owns (NWrite d) = True" | "rec_owns (NWUnlock d a) = True" | "rec_owns _ = False"

fun rec_counted :: "nest_client \<Rightarrow> bool" where
  "rec_counted (NRLock a) \<longleftrightarrow> a = RlCheck \<or> a = RlDec"
| "rec_counted (NRTry a) \<longleftrightarrow> a = RtCheck \<or> a = RtDec"
| "rec_counted NRead = True" | "rec_counted NRUnlock = True" | "rec_counted _ = False"

fun rec_drained :: "nest_client \<Rightarrow> bool" where
  "rec_drained (NWLock d a) \<longleftrightarrow> 0 < d \<or> a = RecLeave"
| "rec_drained (NWTry d a) \<longleftrightarrow> 0 < d \<or> a = RetLeave"
| "rec_drained (NWrite d) = True" | "rec_drained (NWUnlock d a) = True" | "rec_drained _ = False"

fun rec_admitted :: "nest_client \<Rightarrow> bool" where
  "rec_admitted NRead = True" | "rec_admitted NRUnlock = True" | "rec_admitted _ = False"

fun rec_writing :: "nest_client \<Rightarrow> bool" where
  "rec_writing (NWrite d) = True" | "rec_writing _ = False"

fun rec_reading :: "nest_client \<Rightarrow> bool" where
  "rec_reading NRead = True" | "rec_reading _ = False"

text \<open>How deep the counter says the thread is, and the points a thread that already owns the lock can
  be at: it never waits for itself.\<close>

fun depth_ok :: "nest_client \<Rightarrow> uint \<Rightarrow> bool" where
  "depth_ok (NWLock d a) w \<longleftrightarrow> Suc d < 2 ^ 32 \<and> w = of_nat d \<and> (0 < d \<longrightarrow> a = RecLoad \<or> a = RecLeave)"
| "depth_ok (NWTry d a) w \<longleftrightarrow> Suc d < 2 ^ 32 \<and> w = of_nat d \<and> (0 < d \<longrightarrow> a = RetLoad \<or> a = RetLeave)"
| "depth_ok (NWrite d) w \<longleftrightarrow> 0 < d \<and> d < 2 ^ 32 \<and> w = of_nat d"
| "depth_ok (NWUnlock d RunDec) w \<longleftrightarrow> 0 < d \<and> d < 2 ^ 32 \<and> w = of_nat d"
| "depth_ok (NWUnlock d RunStore) w \<longleftrightarrow> d = 1 \<and> w = 0"
| "depth_ok _ w \<longleftrightarrow> True"

definition rec_local :: "nat \<Rightarrow> nest_client \<Rightarrow> ck_rwlock_recursive \<Rightarrow> bool" where
  "rec_local t l s \<longleftrightarrow> (writer (rw s) = 0 \<longrightarrow> wc s = 0) \<and> (writer (rw s) = thread_id t \<longleftrightarrow> rec_owns l) \<and>
     (rec_owns l \<longrightarrow> depth_ok l (wc s))"

definition rec_aux :: "nat \<Rightarrow> (nat \<Rightarrow> nest_client) \<Rightarrow> ck_rwlock_recursive \<Rightarrow> bool" where
  "rec_aux N ls s \<longleftrightarrow> (\<forall>t<N. rec_local t (ls t) s)"

definition rec_effect :: "nat \<Rightarrow> nest_client \<Rightarrow> ck_rwlock_recursive \<Rightarrow> ck_rwlock_recursive \<Rightarrow> bool" where
  "rec_effect t l s s' \<longleftrightarrow> writer (rw s') = writer (rw s) \<and> wc s' = wc s \<or>
     rec_owns l \<and> (writer (rw s') = writer (rw s) \<or> writer (rw s') = 0) \<or>
     writer (rw s) = 0 \<and> writer (rw s') = thread_id t"

lemma thread_id_inj: "Suc t < 2 ^ 32 \<Longrightarrow> Suc u < 2 ^ 32 \<Longrightarrow> thread_id t = thread_id u \<longleftrightarrow> t = u"
  by (simp add: thread_id_def del: of_nat_Suc add: of_nat_small_eq)

lemma thread_id_nz: "Suc t < 2 ^ 32 \<Longrightarrow> thread_id t \<noteq> 0"
  using of_nat_small_eq [of "Suc t" 0, where ?'w = 32] by (simp add: thread_id_def)

abbreviation "rec_law \<equiv> drain_law rec_owns rec_counted rec_drained rec_admitted
  (\<lambda>s. writer (rw s) \<noteq> 0) (\<lambda>s. unat (n_readers (rw s))) (2 ^ 32 - 1)"

lemmas rec_defs = rec_local_def rec_effect_def drain_law_def set_writer_def inner_def pr_simps
  ck_rwlock_recursive_read_lock_def ck_rwlock_recursive_read_trylock_def
  ck_rwlock_recursive_read_unlock_def ck_rwlock_read_unlock_def

lemma rec_move_wlock:
  assumes "rec_local t (NWLock d a) s" "thread_id t \<noteq> 0" "nest_move c t (NWLock d a) s = (l', s')"
  shows "rec_local t l' s' \<and> rec_effect t (NWLock d a) s s' \<and> rec_law (NWLock d a) s l' s'"
  using assms by (cases a) (auto simp: rec_defs split: if_splits)

lemma rec_move_wtry:
  assumes "rec_local t (NWTry d a) s" "thread_id t \<noteq> 0" "nest_move c t (NWTry d a) s = (l', s')"
  shows "rec_local t l' s' \<and> rec_effect t (NWTry d a) s s' \<and> rec_law (NWTry d a) s l' s'"
  using assms by (cases a) (auto simp: rec_defs split: if_splits)

lemma at_depth_owns [simp]: "rec_owns (at_depth d) \<longleftrightarrow> 0 < d" "rec_drained (at_depth d) \<longleftrightarrow> 0 < d"
  "rec_counted (at_depth d) = False" "rec_admitted (at_depth d) = False"
  "0 < d \<Longrightarrow> depth_ok (at_depth d) w \<longleftrightarrow> d < 2 ^ 32 \<and> w = of_nat d"
  by (cases d; simp)+

lemma rec_move_wunlock:
  assumes "rec_local t (NWUnlock d a) s" "thread_id t \<noteq> 0" "nest_move c t (NWUnlock d a) s = (l', s')"
  shows "rec_local t l' s' \<and> rec_effect t (NWUnlock d a) s s' \<and> rec_law (NWUnlock d a) s l' s'"
proof (cases a)
  case RunDec
  then have d: "0 < d" "d < 2 ^ 32" "wc s = of_nat d" using assms(1) by (auto simp: rec_local_def)
  have w: "wc s - 1 = of_nat (d - 1)" using d by (simp add: of_nat_diff)
  have "wc s - 1 = 0 \<longleftrightarrow> d = 1"
    unfolding w using d of_nat_small_eq [of "d - 1" 0, where ?'w = 32] by auto
  then show ?thesis using assms d w RunDec by (auto simp: rec_defs split: if_splits)
next
  case RunStore
  then show ?thesis using assms by (auto simp: rec_defs)
qed

lemma rec_move_rlock:
  assumes "rec_local t (NRLock a) s" "nest_move c t (NRLock a) s = (l', s')"
  shows "rec_local t l' s' \<and> rec_effect t (NRLock a) s s' \<and> rec_law (NRLock a) s l' s'"
  using assms by (cases a) (auto simp: rec_defs unat_inc_small unat_dec_pos split: if_splits)

lemma rec_move_rtry:
  assumes "rec_local t (NRTry a) s" "nest_move c t (NRTry a) s = (l', s')"
  shows "rec_local t l' s' \<and> rec_effect t (NRTry a) s s' \<and> rec_law (NRTry a) s l' s'"
  using assms by (cases a) (auto simp: rec_defs unat_inc_small unat_dec_pos split: if_splits)

lemma rec_move:
  assumes "rec_local t l s" "thread_id t \<noteq> 0" "nest_move c t l s = (l', s')"
  shows "rec_local t l' s' \<and> rec_effect t l s s' \<and> rec_law l s l' s'"
proof (cases l)
  case NIdle
  then show ?thesis using assms by (auto simp: rec_defs split: if_splits)
next
  case (NWrite d)
  then show ?thesis using assms by (auto simp: rec_defs split: if_splits)
next
  case (NWLock d a)
  then show ?thesis using rec_move_wlock assms by simp
next
  case (NWTry d a)
  then show ?thesis using rec_move_wtry assms by simp
next
  case (NWUnlock d a)
  then show ?thesis using rec_move_wunlock assms by simp
next
  case (NRLock a)
  then show ?thesis using rec_move_rlock assms by simp
next
  case (NRTry a)
  then show ?thesis using rec_move_rtry assms by simp
qed (use assms in \<open>auto simp: rec_defs unat_dec_pos\<close>)

lemma rec_local_other:
  assumes "rec_local t l s" "rec_local u k s" "rec_effect t l s s'" "rec_local t l' s'"
    and ids: "thread_id u \<noteq> 0" "thread_id u \<noteq> thread_id t"
  shows "rec_local u k s'"
proof (cases "rec_owns k")
  case True
  then have w: "writer (rw s) = thread_id u" using assms(2) by (simp add: rec_local_def)
  then have "\<not> rec_owns l" using assms(1) ids by (simp add: rec_local_def)
  with w ids assms(3) have "writer (rw s') = writer (rw s)" "wc s' = wc s" by (auto simp: rec_effect_def)
  then show ?thesis using assms(2) by (simp add: rec_local_def)
next
  case False
  then have "writer (rw s) \<noteq> thread_id u" using assms(2) by (simp add: rec_local_def)
  then have "writer (rw s') \<noteq> thread_id u" using assms(3) ids by (auto simp: rec_effect_def)
  then show ?thesis using False assms(4) by (simp add: rec_local_def)
qed

lemma rec_step:
  assumes N: "N \<le> 2 ^ 32 - 1" and a: "rec_aux N ls s" and t: "t < N" and st: "nest_step t (ls t) s l' s'"
  shows "rec_law (ls t) s l' s' \<and> rec_aux N (ls(t := l')) s'"
proof -
  have nz: "thread_id u \<noteq> 0" if "u < N" for u using that N by (intro thread_id_nz) simp
  have ne: "thread_id u \<noteq> thread_id t" if "u < N" "u \<noteq> t" for u
    using thread_id_inj [of u t] that t N by simp
  obtain c where m: "nest_move c t (ls t) s = (l', s')" using st by (auto elim: nest_stepE)
  have l: "rec_local t (ls t) s" using a t by (simp add: rec_aux_def)
  have r: "rec_local t l' s'" "rec_effect t (ls t) s s'" "rec_law (ls t) s l' s'"
    using rec_move [OF l nz [OF t] m] by blast+
  have "rec_local u ((ls(t := l')) u) s'" if u: "u < N" for u
  proof (cases "u = t")
    case False
    moreover have "rec_local u (ls u) s" using a u by (simp add: rec_aux_def)
    ultimately show ?thesis using rec_local_other [OF l _ r(2,1) nz [OF u] ne [OF u]] by simp
  qed (simp add: r)
  with r show ?thesis by (simp add: rec_aux_def)
qed

interpretation rwrec: drain_lock nest_step NIdle CK_RWLOCK_RECURSIVE_INITIALIZER "2 ^ 32 - 1" rec_owns rec_counted
  rec_drained rec_admitted "\<lambda>s. writer (rw s) \<noteq> 0" "\<lambda>s. unat (n_readers (rw s))" rec_reading rec_writing rec_aux
proof unfold_locales
  fix l
  show "rec_drained l \<Longrightarrow> rec_owns l" by (cases l) auto
  show "rec_admitted l \<Longrightarrow> rec_counted l" by (cases l) auto
  show "rec_drained l \<Longrightarrow> \<not> rec_admitted l" by (cases l) auto
  show "rec_writing l \<Longrightarrow> rec_drained l" by (cases l) auto
  show "rec_reading l \<Longrightarrow> rec_admitted l" by (cases l) auto
next
  fix N :: nat
  assume N: "N \<le> 2 ^ 32 - 1"
  have "thread_id u \<noteq> 0" if "u < N" for u using that N by (intro thread_id_nz) simp
  then show "rec_aux N (\<lambda>_. NIdle) CK_RWLOCK_RECURSIVE_INITIALIZER"
    by (auto simp: rec_aux_def rec_local_def CK_RWLOCK_RECURSIVE_INITIALIZER_def dest: sym)
next
  fix N :: nat and ls s t l' s'
  assume "N \<le> 2 ^ 32 - 1" "rec_aux N ls s" "t < N" "nest_step t (ls t) s l' s'"
  then have "rec_law (ls t) s l' s' \<and> rec_aux N (ls(t := l')) s'" by (rule rec_step)
  then show "rec_law (ls t) s l' s'" "rec_aux N (ls(t := l')) s'" by blast+
qed (simp_all add: CK_RWLOCK_RECURSIVE_INITIALIZER_def)

lemma depth_ok_writer: "rec_local t l s \<Longrightarrow> l = NWrite d \<Longrightarrow> unat (wc s) = d"
  by (simp add: rec_local_def unat_of_nat_small)

text \<open>In every interleaving of any number of threads below \<open>2 ^ 32\<close> that use the recursive
  lock and nest below \<open>2 ^ 32\<close>, a writer at nesting depth \<open>d\<close> is the only writer, there is no reader,
  and the counter of the lock is exactly \<open>d\<close>.\<close>

theorem rwlock_recursive_exclusion:
  assumes "reachable nest_step N (\<lambda>_. NIdle) CK_RWLOCK_RECURSIVE_INITIALIZER ls s"
    and "N < 2 ^ 32" and "i < N" and "ls i = NWrite d"
  shows "{j. j < N \<and> rec_writing (ls j)} = {i} \<and> {j. j < N \<and> rec_reading (ls j)} = {} \<and> unat (wc s) = d"
proof -
  have N: "N \<le> 2 ^ 32 - 1" using assms(2) by simp
  have "rec_local i (ls i) s" using rwrec.reachable_inv [OF assms(1) N] assms(3) by (simp add: rec_aux_def)
  then show ?thesis
    using rwrec.writers_exclude [OF assms(1) N assms(3)] assms(4) depth_ok_writer by simp
qed

text \<open>An executable run of nesting clients.\<close>

lemma nest_run_reachable:
  "list_all (\<lambda>(t, c). t < N) sch \<Longrightarrow> reachable nest_step N ls0 s0 ls s \<Longrightarrow>
     reachable nest_step N ls0 s0 (fst (move_run nest_move sch (ls, s))) (snd (move_run nest_move sch (ls, s)))"
  by (rule move_run_reachable) (auto intro: nest_step.intros)

definition nest_schedule :: "(nat \<times> nat) list" where
  "nest_schedule = [(0,0),(0,0),(0,0),(1,1),(1,0),(0,0),(0,0),(0,0),(0,0),(0,0),(1,0)]"

theorem rwlock_recursive_exclusion_witness:
  "let (ls, s) = move_run nest_move nest_schedule (\<lambda>_. NIdle, CK_RWLOCK_RECURSIVE_INITIALIZER)
   in {j. j < 2 \<and> rec_writing (ls j)} = {0} \<and> {j. j < 2 \<and> rec_reading (ls j)} = {} \<and> unat (wc s) = Suc (Suc 0)"
  unfolding case_prod_beta Let_def
  by (rule rwlock_recursive_exclusion [OF nest_run_reachable [OF _ reachable.start]])
     (simp_all add: nest_schedule_def CK_RWLOCK_RECURSIVE_INITIALIZER_def thread_id_def rec_defs)

end
