(* ===== verification/Bitmap.thy ===== *)
theory Bitmap
  imports CkPr "HOL-Library.Monad_Syntax"
begin

text \<open>
  The bitmap of \<^verbatim>\<open>ck/ck_bitmap.h\<close> and the bit helpers of \<^verbatim>\<open>ck/ck_cc.h\<close> it rests on. The flexible array
  is a list of 32-bit blocks; an access outside of it is undefined and yields \<open>None\<close>. The macros
  compute block numbers in \<open>size_t\<close>, where a 32-bit argument cannot overflow: they are natural numbers
  here, and what is stored back into an \<open>unsigned int\<close> is truncated. Run without interference, the bitmap
  implements a finite set of bit numbers; its iterator lists that set.
\<close>

section \<open>Bit helpers\<close>

text \<open>The loops shift the argument right until it is odd, or zero; each takes at most one turn per bit.\<close>

lemma unat_drop_bit_less: "x \<noteq> 0 \<Longrightarrow> unat (drop_bit (Suc 0) x :: uint) < unat x"
proof -
  assume "x \<noteq> 0"
  then have "0 < unat x" by (simp add: unat_gt_0)
  moreover have "unat (drop_bit (Suc 0) x) = unat x div 2" 
    unfolding unat_drop_bit_eq by (simp add: drop_bit_eq_div)
  ultimately show ?thesis by simp
qed

function ctz_loop :: "nat \<Rightarrow> uint \<Rightarrow> nat" where
  "ctz_loop i x = (if x = 0 \<or> x AND 1 \<noteq> 0 then i else ctz_loop (i + 1) (drop_bit 1 x))"
  by pat_completeness auto
termination
proof (relation "measure (\<lambda>(i, x). unat x)")
  fix i :: nat and x :: uint
  assume "\<not> (x = 0 \<or> x AND 1 \<noteq> 0)"
  then have "unat (drop_bit 1 x) < unat x" by (simp add: unat_drop_bit_less)
  then show "((i + 1, drop_bit 1 x), i, x) \<in> measure (\<lambda>(i, x). unat x)" by simp
qed simp

definition ck_cc_ctz :: "uint \<Rightarrow> nat" where
  "ck_cc_ctz x = (if x = 0 then 0 else ctz_loop 0 x)"

definition ck_cc_ffs :: "uint \<Rightarrow> nat" where
  "ck_cc_ffs v = (if v = 0 then 0 else ctz_loop 1 v)"

function popcount_loop :: "nat \<Rightarrow> uint \<Rightarrow> nat" where
  "popcount_loop acc x = (if x = 0 then acc else popcount_loop (acc + unat (x AND 1)) (drop_bit 1 x))"
  by pat_completeness auto
termination
proof (relation "measure (\<lambda>(acc, x). unat x)")
  fix acc :: nat and x :: uint
  assume "x \<noteq> 0"
  then have "unat (drop_bit 1 x) < unat x" by (simp add: unat_drop_bit_less)
  then show "((acc + unat (x AND 1), drop_bit 1 x), acc, x) \<in> measure (\<lambda>(acc, x). unat x)" by simp
qed simp

definition ck_cc_popcount :: "uint \<Rightarrow> nat" where
  "ck_cc_popcount x = popcount_loop 0 x"

declare ctz_loop.simps [simp del] popcount_loop.simps [simp del]

section \<open>The bitmap\<close>

definition CK_BITMAP_BLOCK :: nat where "CK_BITMAP_BLOCK = 32"
definition CK_BITMAP_OFFSET :: "nat \<Rightarrow> nat" where "CK_BITMAP_OFFSET i = i mod CK_BITMAP_BLOCK"
definition CK_BITMAP_BIT :: "nat \<Rightarrow> uint" where "CK_BITMAP_BIT i = push_bit (CK_BITMAP_OFFSET i) 1"
definition CK_BITMAP_PTR :: "nat \<Rightarrow> nat" where "CK_BITMAP_PTR i = i div CK_BITMAP_BLOCK"
definition CK_BITMAP_BLOCKS :: "nat \<Rightarrow> nat" where
  "CK_BITMAP_BLOCKS n = (n + CK_BITMAP_BLOCK - 1) div CK_BITMAP_BLOCK"

record ck_bitmap =
  n_bits :: uint
  blocks :: "uint list"

record ck_bitmap_iterator =
  cache :: uint
  n_block :: uint
  n_limit :: uint

definition ck_bitmap_base :: "uint \<Rightarrow> uint" where
  "ck_bitmap_base n = of_nat (CK_BITMAP_BLOCKS (unat n) * 4)"

definition ck_bitmap_size :: "uint \<Rightarrow> uint" where
  "ck_bitmap_size n = of_nat (unat (ck_bitmap_base n) + 4)"

definition ck_bitmap_bits :: "ck_bitmap \<Rightarrow> uint" where
  "ck_bitmap_bits bm = n_bits bm"

definition ck_bitmap_buffer :: "ck_bitmap \<Rightarrow> uint list" where
  "ck_bitmap_buffer bm = blocks bm"

text \<open>One block, read and written.\<close>

definition load_block :: "ck_bitmap \<Rightarrow> nat \<Rightarrow> uint option" where
  "load_block bm k = (if k < length (blocks bm) then Some (ck_pr_load (blocks bm ! k)) else None)"

definition upd_block :: "(uint \<Rightarrow> uint) \<Rightarrow> ck_bitmap \<Rightarrow> nat \<Rightarrow> ck_bitmap option" where
  "upd_block f bm k = (if k < length (blocks bm) then Some (bm\<lparr>blocks := (blocks bm)[k := f (blocks bm ! k)]\<rparr>)
     else None)"

definition ck_bitmap_set :: "ck_bitmap \<Rightarrow> uint \<Rightarrow> ck_bitmap option" where
  "ck_bitmap_set bm n = upd_block (\<lambda>m. ck_pr_or m (CK_BITMAP_BIT (unat n))) bm (CK_BITMAP_PTR (unat n))"

definition ck_bitmap_bts :: "ck_bitmap \<Rightarrow> uint \<Rightarrow> (bool \<times> ck_bitmap) option" where
  "ck_bitmap_bts bm n = do {
     m \<leftarrow> load_block bm (CK_BITMAP_PTR (unat n));
     let r = fst (ck_pr_bts m (CK_BITMAP_OFFSET (unat n)));
     bm' \<leftarrow> upd_block (\<lambda>m. snd (ck_pr_bts m (CK_BITMAP_OFFSET (unat n)))) bm (CK_BITMAP_PTR (unat n));
     Some (r, bm') }"

definition ck_bitmap_reset :: "ck_bitmap \<Rightarrow> uint \<Rightarrow> ck_bitmap option" where
  "ck_bitmap_reset bm n =
     upd_block (\<lambda>m. ck_pr_and m (NOT (CK_BITMAP_BIT (unat n)))) bm (CK_BITMAP_PTR (unat n))"

definition ck_bitmap_test :: "ck_bitmap \<Rightarrow> uint \<Rightarrow> bool option" where
  "ck_bitmap_test bm n = do {
     block \<leftarrow> load_block bm (CK_BITMAP_PTR (unat n));
     Some (block AND CK_BITMAP_BIT (unat n) \<noteq> 0) }"

text \<open>A counted loop \<open>for (n = a; n < b; n++)\<close> whose body may fail.\<close>

fun for_blocks :: "(nat \<Rightarrow> 's \<Rightarrow> 's option) \<Rightarrow> nat list \<Rightarrow> 's \<Rightarrow> 's option" where
  "for_blocks body [] s = Some s"
| "for_blocks body (n # ns) s = body n s \<bind> for_blocks body ns"

definition ck_bitmap_union :: "ck_bitmap \<Rightarrow> ck_bitmap \<Rightarrow> ck_bitmap option" where
  "ck_bitmap_union dst src =
     (let n_buckets = (if n_bits src < n_bits dst then n_bits src else n_bits dst);
          n_buckets = CK_BITMAP_BLOCKS (unat n_buckets)
      in for_blocks (\<lambda>n d. load_block src n \<bind> (\<lambda>v. upd_block (\<lambda>m. ck_pr_or m v) d n)) [0..<n_buckets] dst)"

definition ck_bitmap_intersection :: "ck_bitmap \<Rightarrow> ck_bitmap \<Rightarrow> ck_bitmap option" where
  "ck_bitmap_intersection dst src =
     (let n_intersect = (if n_bits src < n_bits dst then n_bits src else n_bits dst);
          n_buckets = CK_BITMAP_BLOCKS (unat (n_bits dst));
          n_intersect = CK_BITMAP_BLOCKS (unat n_intersect)
      in for_blocks (\<lambda>n d. load_block src n \<bind> (\<lambda>v. upd_block (\<lambda>m. ck_pr_and m v) d n)) [0..<n_intersect] dst \<bind>
         for_blocks (\<lambda>n d. upd_block (\<lambda>m. ck_pr_store m 0) d n) [n_intersect..<n_buckets])"

definition ck_bitmap_intersection_negate :: "ck_bitmap \<Rightarrow> ck_bitmap \<Rightarrow> ck_bitmap option" where
  "ck_bitmap_intersection_negate dst src =
     (let n_intersect = (if n_bits src < n_bits dst then n_bits src else n_bits dst);
          n_intersect = CK_BITMAP_BLOCKS (unat n_intersect)
      in for_blocks (\<lambda>n d. load_block src n \<bind> (\<lambda>v. upd_block (\<lambda>m. ck_pr_and m (NOT v)) d n)) [0..<n_intersect] dst)"

definition ck_bitmap_clear :: "ck_bitmap \<Rightarrow> ck_bitmap option" where
  "ck_bitmap_clear bm =
     (let n_buckets = unat (ck_bitmap_base (n_bits bm)) div 4
      in for_blocks (\<lambda>i b. upd_block (\<lambda>m. ck_pr_store m 0) b i) [0..<n_buckets] bm)"

text \<open>The scans: \<open>all_blocks\<close> returns false at the first block that fails the test, and
  \<open>sum_blocks\<close> adds up a value of each block.\<close>

fun all_blocks :: "(nat \<Rightarrow> bool option) \<Rightarrow> nat list \<Rightarrow> bool option" where
  "all_blocks ok [] = Some True"
| "all_blocks ok (i # is) = ok i \<bind> (\<lambda>b. if b then all_blocks ok is else Some False)"

definition slop_mask :: "nat \<Rightarrow> uint" where
  "slop_mask slop = push_bit slop 1 - 1"

definition ck_bitmap_empty :: "ck_bitmap \<Rightarrow> uint \<Rightarrow> bool option" where
  "ck_bitmap_empty bm limit =
     (let limit = unat (if limit > n_bits bm then n_bits bm else limit);
          words = limit div CK_BITMAP_BLOCK;
          slop = limit mod CK_BITMAP_BLOCK
      in all_blocks (\<lambda>i. load_block bm i \<bind> (\<lambda>w. Some (w = 0))) [0..<words] \<bind> (\<lambda>ok.
         if \<not> ok then Some False
         else if slop > 0 then load_block bm words \<bind> (\<lambda>word. Some (word AND slop_mask slop = 0))
         else Some True))"

definition ck_bitmap_full :: "ck_bitmap \<Rightarrow> uint \<Rightarrow> bool option" where
  "ck_bitmap_full bm limit =
     (let limit = unat (if limit > n_bits bm then n_bits bm else limit);
          words = limit div CK_BITMAP_BLOCK;
          slop = limit mod CK_BITMAP_BLOCK
      in all_blocks (\<lambda>i. load_block bm i \<bind> (\<lambda>w. Some (w = - 1))) [0..<words] \<bind> (\<lambda>ok.
         if \<not> ok then Some False
         else if slop > 0 then load_block bm words \<bind> (\<lambda>word. Some (NOT word AND slop_mask slop = 0))
         else Some True))"

definition ck_bitmap_count :: "ck_bitmap \<Rightarrow> uint \<Rightarrow> uint option" where
  "ck_bitmap_count bm limit =
     (let limit = unat (if limit > n_bits bm then n_bits bm else limit);
          words = limit div CK_BITMAP_BLOCK;
          slop = limit mod CK_BITMAP_BLOCK
      in for_blocks (\<lambda>i count. load_block bm i \<bind> (\<lambda>w. Some (count + of_nat (ck_cc_popcount w)))) [0..<words] 0 \<bind>
         (\<lambda>count. if slop > 0
            then load_block bm words \<bind> (\<lambda>word. Some (count + of_nat (ck_cc_popcount (word AND slop_mask slop))))
            else Some count))"

definition ck_bitmap_count_intersect :: "ck_bitmap \<Rightarrow> ck_bitmap \<Rightarrow> uint \<Rightarrow> uint option" where
  "ck_bitmap_count_intersect x y limit =
     (let limit = (if limit > n_bits x then n_bits x else limit);
          limit = unat (if limit > n_bits y then n_bits y else limit);
          words = limit div CK_BITMAP_BLOCK;
          slop = limit mod CK_BITMAP_BLOCK
      in for_blocks (\<lambda>i count. do {
             xi \<leftarrow> load_block x i;
             yi \<leftarrow> load_block y i;
             Some (count + of_nat (ck_cc_popcount (xi AND yi))) }) [0..<words] 0 \<bind>
         (\<lambda>count. if slop > 0
            then do {
              xi \<leftarrow> load_block x words;
              yi \<leftarrow> load_block y words;
              Some (count + of_nat (ck_cc_popcount ((xi AND yi) AND slop_mask slop))) }
            else Some count))"

text \<open>\<open>memset\<close> of the first \<open>k\<close> bytes, a whole number of blocks, with all-zero or all-one bytes.\<close>

definition memset_blocks :: "uint list \<Rightarrow> uint \<Rightarrow> nat \<Rightarrow> uint list option" where
  "memset_blocks m v k = (if k \<le> length m then Some (replicate k v @ drop k m) else None)"

definition ck_bitmap_init :: "ck_bitmap \<Rightarrow> uint \<Rightarrow> bool \<Rightarrow> ck_bitmap option" where
  "ck_bitmap_init bm n on = do {
     m \<leftarrow> memset_blocks (blocks bm) (if on then - 1 else 0) (unat (ck_bitmap_base n) div 4);
     let bm' = bm\<lparr>n_bits := n, blocks := m\<rparr>;
     if on then
       let b = unat n mod CK_BITMAP_BLOCK
       in if b = 0 then Some bm'
          else upd_block (\<lambda>m. m AND slop_mask b) bm' (CK_BITMAP_PTR (unat (n - 1)))
     else Some bm' }"

section \<open>The iterator\<close>

definition ck_bitmap_iterator_init :: "ck_bitmap \<Rightarrow> ck_bitmap_iterator option" where
  "ck_bitmap_iterator_init bm =
     (let limit = of_nat (CK_BITMAP_BLOCKS (unat (n_bits bm)))
      in if limit > 0
         then load_block bm 0 \<bind> (\<lambda>c. Some \<lparr>cache = c, n_block = 0, n_limit = limit\<rparr>)
         else Some \<lparr>cache = 0, n_block = 0, n_limit = limit\<rparr>)"

text \<open>The search for the next block that is not zero: its number and contents, or where it stopped.\<close>

function next_block :: "ck_bitmap \<Rightarrow> uint \<Rightarrow> uint \<Rightarrow> (uint \<times> uint) option" where
  "next_block bm k limit =
     (if k < limit then load_block bm (unat k) \<bind> (\<lambda>c. if c \<noteq> 0 then Some (k, c) else next_block bm (k + 1) limit)
      else Some (k, 0))"
  by pat_completeness auto
termination
proof (relation "measure (\<lambda>(bm, k, limit). unat limit - unat k)")
  fix bm and k limit :: uint and c
  assume "k < limit"
  then have l: "unat k < unat limit" by (simp only: word_less_nat_alt)
  moreover have "unat limit < 2 ^ 32" using unsigned_less [of limit] by simp
  ultimately have "unat (k + 1) = Suc (unat k)" by (intro unat_inc_small) simp
  with l show "((bm, k + 1, limit), bm, k, limit) \<in> measure (\<lambda>(bm, k, limit). unat limit - unat k)" by simp
qed simp

declare next_block.simps [simp del]

definition found_bit :: "ck_bitmap_iterator \<Rightarrow> uint \<Rightarrow> uint \<Rightarrow> bool \<times> uint \<times> ck_bitmap_iterator" where
  "found_bit i k c = (True, of_nat (CK_BITMAP_BLOCK * unat k + ck_cc_ctz c),
     i\<lparr>cache := c AND (c - 1), n_block := k\<rparr>)"

text \<open>The result is whether a bit was found, the bit (0 where the code leaves it unset), and the iterator.\<close>

definition ck_bitmap_next :: "ck_bitmap \<Rightarrow> ck_bitmap_iterator \<Rightarrow> (bool \<times> uint \<times> ck_bitmap_iterator) option" where
  "ck_bitmap_next bm i =
     (if cache i = 0 then
        if n_block i \<ge> n_limit i then Some (False, 0, i)
        else do {
          (k, c) \<leftarrow> next_block bm (n_block i + 1) (n_limit i);
          if c \<noteq> 0 then Some (found_bit i k c)
          else Some (False, 0, i\<lparr>cache := 0, n_block := k\<rparr>) }
      else Some (found_bit i (n_block i) (cache i)))"

end
