(* ===== verification/BitmapSpec.thy ===== *)
theory BitmapSpec
  imports Bitmap
begin

text \<open>
  What \<^verbatim>\<open>ck/ck_bitmap.h\<close> promises: a bitmap of \<open>n_bits\<close> bits is a set of numbers below \<open>n_bits\<close>, the
  operations are the operations of sets, the counts are cardinalities and the iterator lists the set in
  ascending order.
\<close>

section \<open>Words as sets of bits\<close>

lemma nat_pred_bit:
  fixes n :: nat
  assumes "bit n k" "\<forall>j<k. \<not> bit n j"
  shows "bit (n - 1) i \<longleftrightarrow> i < k \<or> k < i \<and> bit n i"
  using assms
proof (induction k arbitrary: n i)
  case 0
  then obtain m where "n = 2 * m + 1" by (auto simp: bit_0 elim: oddE)
  then show ?case by (cases i) (simp_all add: bit_0 bit_Suc)
next
  case (Suc k)
  then have "\<not> bit n 0" by blast
  then obtain m where n: "n = 2 * m" by (auto simp: bit_0 elim: evenE)
  have b: "bit n (Suc j) \<longleftrightarrow> bit m j" for j using n by (simp add: bit_Suc)
  have m: "bit m k" "\<forall>j<k. \<not> bit m j" using Suc.prems b by (blast, metis Suc_less_eq)
  have "m > 0" using m(1) by (cases m) auto
  then have "n - 1 = 2 * (m - 1) + 1" using n by simp
  then show ?case using Suc.IH [OF m] n by (cases i) (simp_all add: bit_0 bit_Suc)
qed

lemma word_pred_bit:
  fixes c :: uint
  assumes "bit c k" "\<forall>j<k. \<not> bit c j"
  shows "bit (c AND (c - 1)) i \<longleftrightarrow> bit c i \<and> i \<noteq> k"
proof -
  have "c \<noteq> 0" using assms(1) by auto
  then have u: "unat (c - 1) = unat c - 1" by (intro unat_dec_pos) (simp add: unat_gt_0)
  have b: "bit (unat w) j \<longleftrightarrow> bit w j" for w :: uint and j by (simp add: bit_unsigned_iff)
  have "bit (c - 1) i \<longleftrightarrow> bit (unat c - 1) i" by (simp only: b [symmetric] u)
  also have "\<dots> \<longleftrightarrow> i < k \<or> k < i \<and> bit (unat c) i"
    using assms by (intro nat_pred_bit) (simp_all add: b)
  finally show ?thesis using assms by (auto simp: bit_and_iff b)
qed

lemma ctz_loop_least:
  "x \<noteq> 0 \<Longrightarrow> \<exists>k. ctz_loop i x = i + k \<and> bit x k \<and> (\<forall>j<k. \<not> bit x j)"
proof (induction i x rule: ctz_loop.induct)
  case (1 i x)
  show ?case
  proof (cases "bit x 0")
    case True
    then have "ctz_loop i x = i" using ctz_loop.simps [of i x] by (simp add: bit_0 one_and_eq and_one_eq odd_iff_mod_2_eq_one)
    then show ?thesis using True by (intro exI [of _ 0]) simp
  next
    case False
    then have e: "x AND 1 = 0" by (simp add: bit_0 and_one_eq even_iff_mod_2_eq_zero)
    obtain k where "bit x k" using 1(2) by (metis bit_eqI bit_0_eq bot_fun_def bot_bool_def)
    then have "bit (drop_bit 1 x) (k - 1)" using False by (cases k) (simp_all add: bit_drop_bit_eq)
    then have nz: "drop_bit 1 x \<noteq> 0" by (metis bit_0_eq bot_fun_def bot_bool_def)
    obtain k where k: "ctz_loop (i + 1) (drop_bit 1 x) = i + 1 + k" "bit (drop_bit 1 x) k"
      "\<forall>j<k. \<not> bit (drop_bit 1 x) j" using 1(1) [OF _ nz] 1(2) e by auto
    have "ctz_loop i x = i + Suc k" using ctz_loop.simps [of i x] 1(2) e k(1) by simp
    moreover have "\<forall>j<Suc k. \<not> bit x j"
    proof (intro allI impI)
      fix j assume "j < Suc k"
      then show "\<not> bit x j" using False k(3) by (cases j) (auto simp: bit_drop_bit_eq)
    qed
    ultimately show ?thesis using k(2) by (intro exI [of _ "Suc k"]) (simp add: bit_drop_bit_eq)
  qed
qed

lemma ctz_bit: "c \<noteq> 0 \<Longrightarrow> bit c (ck_cc_ctz c)"
  and ctz_min: "bit c j \<Longrightarrow> ck_cc_ctz c \<le> j"
  and ctz_less: "c \<noteq> 0 \<Longrightarrow> ck_cc_ctz c < 32"
proof -
  show b: "c \<noteq> 0 \<Longrightarrow> bit c (ck_cc_ctz c)" for c using ctz_loop_least [of c 0] by (auto simp: ck_cc_ctz_def)
  show "bit c j \<Longrightarrow> ck_cc_ctz c \<le> j" for c j
    using ctz_loop_least [of c 0] linorder_not_less by (cases "c = 0") (auto simp: ck_cc_ctz_def)
  show "c \<noteq> 0 \<Longrightarrow> ck_cc_ctz c < 32" for c using b [of c] bit_imp_le_length [of c "ck_cc_ctz c"] by simp
qed

lemma clear_lowest: "c \<noteq> 0 \<Longrightarrow> bit (c AND (c - 1)) i \<longleftrightarrow> bit c i \<and> i \<noteq> ck_cc_ctz c"
  by (intro word_pred_bit ctz_bit) (auto dest: ctz_min)

lemma finite_word_bits [simp]: "finite {i. bit (x :: uint) i}"
  by (rule finite_subset [of _ "{..<32}"]) (auto dest: bit_imp_le_length)

lemma card_bits_shift: "card {i. bit x i} = unat (x AND 1) + card {i. bit (drop_bit 1 x) i}" for x :: uint
proof -
  have "{i. bit x i} = (if bit x 0 then {0} else {}) \<union> Suc ` {i. bit (drop_bit 1 x) i}"
    by (auto simp: bit_drop_bit_eq image_iff gr0_conv_Suc split: if_splits) (metis not0_implies_Suc)+
  moreover have "unat (x AND 1) = of_bool (bit x 0)" by (simp add: bit_0 and_one_eq mod_2_eq_odd)
  ultimately show ?thesis by (simp add: card_Un_disjoint card_image)
qed

lemma popcount_loop_card: "popcount_loop acc x = acc + card {i. bit x i}"
proof (induction acc x rule: popcount_loop.induct)
  case (1 acc x)
  show ?case
  proof (cases "x = 0")
    case False
    then show ?thesis using 1 popcount_loop.simps [of acc x] card_bits_shift [of x] by simp
  qed (simp add: popcount_loop.simps)
qed

lemma popcount_card: "ck_cc_popcount x = card {i. bit x i}"
  by (simp add: ck_cc_popcount_def popcount_loop_card)

lemma slop_mask_bit: "s < 32 \<Longrightarrow> bit (slop_mask s) i \<longleftrightarrow> i < s"
  unfolding slop_mask_def push_bit_eq_mult mult_1 mask_eq_exp_minus_1 [symmetric]
  by (auto simp: bit_mask_iff)

section \<open>Bitmaps as sets\<close>

text \<open>\<open>raw bm\<close> is every bit that is set in the blocks, \<open>bits bm\<close> those below \<open>n_bits\<close>. A bitmap is
  well-formed when its blocks are as many as its bits need, and clean when no bit at or above \<open>n_bits\<close>
  is set in the last block.\<close>

definition raw :: "ck_bitmap \<Rightarrow> nat set" where
  "raw bm = {i. i div 32 < length (blocks bm) \<and> bit (blocks bm ! (i div 32)) (i mod 32)}"

definition bits :: "ck_bitmap \<Rightarrow> nat set" where
  "bits bm = {i \<in> raw bm. i < unat (n_bits bm)}"

definition bitmap_ok :: "ck_bitmap \<Rightarrow> bool" where
  "bitmap_ok bm \<longleftrightarrow> length (blocks bm) = CK_BITMAP_BLOCKS (unat (n_bits bm))"

definition bitmap_clean :: "ck_bitmap \<Rightarrow> bool" where
  "bitmap_clean bm \<longleftrightarrow> bitmap_ok bm \<and> raw bm \<subseteq> {..<unat (n_bits bm)}"

lemmas bitmap_consts = CK_BITMAP_BLOCK_def CK_BITMAP_OFFSET_def CK_BITMAP_BIT_def CK_BITMAP_PTR_def
  CK_BITMAP_BLOCKS_def

lemma blocks_bound: "i < n \<Longrightarrow> i div 32 < CK_BITMAP_BLOCKS n"
  by (simp add: bitmap_consts)

lemma ok_bound: "bitmap_ok bm \<Longrightarrow> i < unat (n_bits bm) \<Longrightarrow> i div 32 < length (blocks bm)"
  by (simp add: bitmap_ok_def blocks_bound)

lemma n_bits_less: "unat (n_bits bm) < 2 ^ 32"
  using unsigned_less [of "n_bits bm"] by simp

lemma raw_upd_bit:
  assumes k: "n div 32 < length (blocks bm)"
    and v: "\<And>j. bit v j \<longleftrightarrow> (if j = n mod 32 then P else bit (blocks bm ! (n div 32)) j)"
  shows "raw (bm\<lparr>blocks := (blocks bm)[n div 32 := v]\<rparr>) = (if P then insert n (raw bm) else raw bm - {n})"
proof (rule set_eqI)
  fix i
  show "i \<in> raw (bm\<lparr>blocks := (blocks bm)[n div 32 := v]\<rparr>) \<longleftrightarrow>
     i \<in> (if P then insert n (raw bm) else raw bm - {n})"
  proof (cases "i div 32 = n div 32")
    case True
    then have "i mod 32 = n mod 32 \<longleftrightarrow> i = n" by (metis div_mult_mod_eq)
    with True k v show ?thesis by (simp add: raw_def)
  next
    case False
    then show ?thesis by (auto simp: raw_def nth_list_update)
  qed
qed

lemma bit_BIT: "bit (CK_BITMAP_BIT n) j \<longleftrightarrow> j = n mod 32"
  by (auto simp: bitmap_consts bit_exp_iff)

text \<open>One operation on one bit, at a valid position.\<close>

lemma valid_block: "bitmap_ok bm \<Longrightarrow> n < n_bits bm \<Longrightarrow> unat n div 32 < length (blocks bm)"
  by (intro ok_bound) (simp_all add: word_less_nat_alt)

lemmas bit_op_defs = upd_block_def load_block_def bitmap_ok_def pr_simps CK_BITMAP_PTR_def CK_BITMAP_BLOCK_def

lemma set_ok:
  assumes "bitmap_ok bm" "n < n_bits bm"
  shows "\<exists>bm'. ck_bitmap_set bm n = Some bm' \<and> bitmap_ok bm' \<and> n_bits bm' = n_bits bm \<and>
     raw bm' = insert (unat n) (raw bm)"
  using assms(1) valid_block [OF assms] raw_upd_bit [OF valid_block [OF assms], of _ True]
  by (simp add: ck_bitmap_set_def bit_op_defs bit_or_iff bit_BIT)

lemma reset_ok:
  assumes "bitmap_ok bm" "n < n_bits bm"
  shows "\<exists>bm'. ck_bitmap_reset bm n = Some bm' \<and> bitmap_ok bm' \<and> n_bits bm' = n_bits bm \<and>
     raw bm' = raw bm - {unat n}"
proof -
  let ?k = "unat n div 32"
  have "bit (blocks bm ! ?k AND NOT (CK_BITMAP_BIT (unat n))) j \<longleftrightarrow>
     (if j = unat n mod 32 then False else bit (blocks bm ! ?k) j)" for j
    using bit_imp_le_length [of "blocks bm ! ?k" j] by (auto simp: bit_and_iff bit_not_iff bit_BIT)
  note r = raw_upd_bit [OF valid_block [OF assms], OF this]
  show ?thesis using assms(1) valid_block [OF assms] r by (simp add: ck_bitmap_reset_def bit_op_defs)
qed

lemma and_BIT: "w AND CK_BITMAP_BIT m \<noteq> 0 \<longleftrightarrow> bit w (m mod 32)"
proof
  assume "w AND CK_BITMAP_BIT m \<noteq> 0"
  then obtain j where "bit (w AND CK_BITMAP_BIT m) j" by (metis bit_eqI bit_0_eq bot_apply bot_bool_def)
  then show "bit w (m mod 32)" by (auto simp: bit_and_iff bit_BIT)
next
  assume "bit w (m mod 32)"
  then have "bit (w AND CK_BITMAP_BIT m) (m mod 32)" by (simp add: bit_and_iff bit_BIT)
  then show "w AND CK_BITMAP_BIT m \<noteq> 0" by (metis bit_0_eq bot_apply bot_bool_def)
qed

lemma test_ok:
  assumes "bitmap_ok bm" "n < n_bits bm"
  shows "ck_bitmap_test bm n = Some (unat n \<in> raw bm)"
  using valid_block [OF assms] by (simp add: ck_bitmap_test_def bit_op_defs raw_def and_BIT)

lemma bts_ok:
  assumes "bitmap_ok bm" "n < n_bits bm"
  shows "ck_bitmap_bts bm n = Option.bind (ck_bitmap_set bm n) (\<lambda>bm'. Some (unat n \<in> raw bm, bm'))"
  using valid_block [OF assms]
  by (simp add: ck_bitmap_bts_def ck_bitmap_set_def bit_op_defs raw_def CK_BITMAP_BIT_def CK_BITMAP_OFFSET_def)

section \<open>Loops over blocks\<close>

lemma for_blocks_append: "for_blocks body (xs @ ys) s = Option.bind (for_blocks body xs s) (for_blocks body ys)"
  by (induction xs arbitrary: s) (auto split: Option.bind_splits)

lemma for_blocks_upd:
  assumes "distinct ns" "\<forall>n\<in>set ns. n < length (blocks d)"
    and "\<And>n d'. n \<in> set ns \<Longrightarrow> length (blocks d') = length (blocks d) \<Longrightarrow>
       body n d' = Some (d'\<lparr>blocks := (blocks d')[n := f n (blocks d' ! n)]\<rparr>)"
  shows "for_blocks body ns d =
     Some (d\<lparr>blocks := map (\<lambda>k. if k \<in> set ns then f k (blocks d ! k) else blocks d ! k) [0..<length (blocks d)]\<rparr>)"
  using assms
proof (induction ns arbitrary: d)
  case Nil
  then show ?case by (simp add: map_nth)
next
  case (Cons n ns)
  let ?d = "d\<lparr>blocks := (blocks d)[n := f n (blocks d ! n)]\<rparr>"
  have b: "body n d = Some ?d" using Cons.prems(3) [of n d] by simp
  have "for_blocks body ns ?d = Some (?d\<lparr>blocks := map (\<lambda>k. if k \<in> set ns then f k (blocks ?d ! k)
      else blocks ?d ! k) [0..<length (blocks ?d)]\<rparr>)"
    using Cons.prems by (intro Cons.IH) simp_all
  moreover have "map (\<lambda>k. if k \<in> set ns then f k (blocks ?d ! k) else blocks ?d ! k) [0..<length (blocks ?d)] =
      map (\<lambda>k. if k \<in> set (n # ns) then f k (blocks d ! k) else blocks d ! k) [0..<length (blocks d)]"
    using Cons.prems(1,2) by (auto simp: nth_list_update intro!: nth_equalityI)
  ultimately show ?case using b by simp
qed

lemma raw_map:
  "raw (d\<lparr>blocks := map F [0..<L]\<rparr>) = {i. i div 32 < L \<and> bit (F (i div 32)) (i mod 32)}"
  by (auto simp: raw_def)

lemma bitmap_ok_map: "bitmap_ok d \<Longrightarrow> bitmap_ok (d\<lparr>blocks := map F [0..<length (blocks d)]\<rparr>)"
  by (simp add: bitmap_ok_def)

text \<open>The number of blocks two bitmaps share.\<close>

lemma blocks_min:
  assumes "bitmap_ok dst" "bitmap_ok src"
  shows "CK_BITMAP_BLOCKS (unat (if n_bits src < n_bits dst then n_bits src else n_bits dst)) =
     min (length (blocks dst)) (length (blocks src))"
proof -
  have mono: "m \<le> n \<Longrightarrow> CK_BITMAP_BLOCKS m \<le> CK_BITMAP_BLOCKS n" for m n
    unfolding CK_BITMAP_BLOCKS_def by (intro div_le_mono diff_le_mono add_le_mono1)
  have "n_bits src < n_bits dst \<Longrightarrow> unat (n_bits src) \<le> unat (n_bits dst)"
    "\<not> n_bits src < n_bits dst \<Longrightarrow> unat (n_bits dst) \<le> unat (n_bits src)"
    unfolding word_less_nat_alt by simp_all
  then show ?thesis using mono assms by (auto simp: bitmap_ok_def min_def le_antisym)
qed

lemma union_ok:
  assumes "bitmap_ok dst" "bitmap_ok src"
  shows "\<exists>d. ck_bitmap_union dst src = Some d \<and> bitmap_ok d \<and> n_bits d = n_bits dst \<and>
     raw d = raw dst \<union> {i \<in> raw src. i div 32 < length (blocks dst)}"
proof -
  let ?f = "\<lambda>k m. m OR blocks src ! k" and ?k = "min (length (blocks dst)) (length (blocks src))"
  have "ck_bitmap_union dst src = Some (dst\<lparr>blocks := map (\<lambda>k. if k \<in> set [0..<?k] then ?f k (blocks dst ! k)
      else blocks dst ! k) [0..<length (blocks dst)]\<rparr>)"
    unfolding ck_bitmap_union_def Let_def blocks_min [OF assms]
    by (rule for_blocks_upd) (simp_all add: upd_block_def load_block_def pr_simps)
  moreover note bitmap_ok_map [OF assms(1)]
  ultimately show ?thesis by (auto simp: raw_map raw_def bit_or_iff split: if_splits)
qed

lemma negate_ok:
  assumes "bitmap_ok dst" "bitmap_ok src"
  shows "\<exists>d. ck_bitmap_intersection_negate dst src = Some d \<and> bitmap_ok d \<and> n_bits d = n_bits dst \<and>
     raw d = raw dst - raw src"
proof -
  let ?f = "\<lambda>k m. m AND NOT (blocks src ! k)" and ?k = "min (length (blocks dst)) (length (blocks src))"
  have "ck_bitmap_intersection_negate dst src = Some (dst\<lparr>blocks := map (\<lambda>k. if k \<in> set [0..<?k] then
      ?f k (blocks dst ! k) else blocks dst ! k) [0..<length (blocks dst)]\<rparr>)"
    unfolding ck_bitmap_intersection_negate_def Let_def blocks_min [OF assms]
    by (rule for_blocks_upd) (simp_all add: upd_block_def load_block_def pr_simps)
  moreover note bitmap_ok_map [OF assms(1)]
  ultimately show ?thesis by (auto simp: raw_map raw_def bit_and_iff bit_not_iff split: if_splits)
qed

lemma zero_ok:
  assumes "b \<le> length (blocks d)"
  shows "for_blocks (\<lambda>i b. upd_block (\<lambda>m. ck_pr_store m 0) b i) [a..<b] d =
     Some (d\<lparr>blocks := map (\<lambda>k. if k \<in> set [a..<b] then 0 else blocks d ! k) [0..<length (blocks d)]\<rparr>)"
  using assms by (intro for_blocks_upd) (simp_all add: upd_block_def pr_simps)

lemma intersection_ok:
  assumes "bitmap_ok dst" "bitmap_ok src"
  shows "\<exists>d. ck_bitmap_intersection dst src = Some d \<and> bitmap_ok d \<and> n_bits d = n_bits dst \<and>
     raw d = raw dst \<inter> raw src"
proof -
  let ?f = "\<lambda>k m. m AND blocks src ! k" and ?k = "min (length (blocks dst)) (length (blocks src))"
  let ?d = "dst\<lparr>blocks := map (\<lambda>k. if k \<in> set [0..<?k] then ?f k (blocks dst ! k)
      else blocks dst ! k) [0..<length (blocks dst)]\<rparr>"
  have 1: "for_blocks (\<lambda>n d. load_block src n \<bind> (\<lambda>v. upd_block (\<lambda>m. ck_pr_and m v) d n)) [0..<?k] dst = Some ?d"
    by (rule for_blocks_upd) (simp_all add: upd_block_def load_block_def pr_simps)
  have L: "CK_BITMAP_BLOCKS (unat (n_bits dst)) = length (blocks dst)" using assms(1) by (simp add: bitmap_ok_def)
  let ?e = "?d\<lparr>blocks := map (\<lambda>k. if k \<in> set [?k..<length (blocks dst)] then 0 else blocks ?d ! k) [0..<length (blocks ?d)]\<rparr>"
  have "ck_bitmap_intersection dst src = Some ?e"
    unfolding ck_bitmap_intersection_def Let_def blocks_min [OF assms] L 1
    using zero_ok [of "length (blocks dst)" ?d ?k] by simp
  moreover have "bitmap_ok ?e" using assms(1) by (simp add: bitmap_ok_def)
  moreover have "raw ?e = raw dst \<inter> raw src" by (auto simp: raw_map raw_def bit_and_iff split: if_splits)
  ultimately show ?thesis by simp
qed

lemma base_div: "unat (ck_bitmap_base n) div 4 = CK_BITMAP_BLOCKS (unat n)"
proof -
  have "unat n < 2 ^ 32" using unsigned_less [of n] by simp
  then have "CK_BITMAP_BLOCKS (unat n) * 4 < 2 ^ 32" by (simp add: bitmap_consts)
  then show ?thesis unfolding ck_bitmap_base_def by (subst unat_of_nat_small) simp_all
qed

lemma clear_ok:
  assumes "bitmap_ok bm"
  shows "\<exists>d. ck_bitmap_clear bm = Some d \<and> bitmap_ok d \<and> n_bits d = n_bits bm \<and> raw d = {}"
proof -
  have L: "CK_BITMAP_BLOCKS (unat (n_bits bm)) = length (blocks bm)" using assms by (simp add: bitmap_ok_def)
  show ?thesis using assms bitmap_ok_map
    by (simp add: ck_bitmap_clear_def base_div L zero_ok raw_map)
qed

text \<open>Quotient and remainder by the block size, as two numbers for linear arithmetic.\<close>

lemma split32:
  fixes i :: nat
  obtains q r where "i = 32 * q + r" "r < 32" "i div 32 = q" "i mod 32 = r"
  by (metis mult_div_mod_eq mod_less_divisor zero_less_numeral)

lemma blocks_tail: "0 < n mod 32 \<Longrightarrow> CK_BITMAP_BLOCKS n = Suc (n div 32)"
  "n mod 32 = 0 \<Longrightarrow> CK_BITMAP_BLOCKS n = n div 32" for n
proof -
  obtain q r where n: "n = 32 * q + r" "r < 32" "n div 32 = q" "n mod 32 = r" by (rule split32)
  show "CK_BITMAP_BLOCKS n = Suc (n div 32)" if "0 < n mod 32"
  proof -
    have "n + 32 - 1 = 32 * Suc q + (r - 1)" "r - 1 < 32" using n that by auto
    then have "(n + 32 - 1) div 32 = Suc q" by (metis div_mult_self4 div_less add.right_neutral add.commute zero_neq_numeral)
    then show ?thesis using n by (simp add: bitmap_consts)
  qed
  show "CK_BITMAP_BLOCKS n = n div 32" if "n mod 32 = 0"
    using n that by (simp add: bitmap_consts)
qed

lemma lin32:
  fixes q k r s j :: nat
  assumes "r < 32" "s \<le> 32"
  shows "32 * q + r < 32 * k + s \<longleftrightarrow> 32 * q + r < 32 * k \<or> q = k \<and> r < s"
    and "32 * q + r = 32 * k + j \<and> j < s \<longleftrightarrow> q = k \<and> r = j \<and> j < s"
  using assms by (cases q k rule: linorder_cases; auto)+

lemma same_block: "i div 32 = n div 32 \<Longrightarrow> i < n \<longleftrightarrow> i mod 32 < n mod 32" for i n :: nat
  by (rule split32 [of i], rule split32 [of n]) simp

lemma other_block: "i div 32 \<noteq> n div 32 \<Longrightarrow> i < n \<longleftrightarrow> i div 32 < n div 32" for i n :: nat
  by (rule split32 [of i], rule split32 [of n]) (simp, arith)

lemma pred_block: "0 < n mod 32 \<Longrightarrow> (n - Suc 0) div 32 = n div 32" for n :: nat
proof -
  assume a: "0 < n mod 32"
  obtain q r where n: "n = 32 * q + r" "r < 32" "n div 32 = q" "n mod 32 = r" by (rule split32)
  then have "n - Suc 0 = 32 * q + (r - 1)" "r - 1 < 32" using a by auto
  then show ?thesis using n by simp
qed

lemma bit_minus_one: "bit (- 1 :: uint) j \<longleftrightarrow> j < 32"
  by (simp add: bit_minus_1_iff)

lemma raw_ones: "raw (bm\<lparr>n_bits := n, blocks := replicate L (- 1)\<rparr>) = {i. i div 32 < L}"
  by (auto simp: raw_def bit_minus_one)

lemma init_ok:
  assumes "length (blocks bm) = CK_BITMAP_BLOCKS (unat n)"
  shows "\<exists>d. ck_bitmap_init bm n on = Some d \<and> bitmap_ok d \<and> n_bits d = n \<and>
     raw d = (if on then {..<unat n} else {})"
proof -
  let ?L = "CK_BITMAP_BLOCKS (unat n)" and ?b = "unat n mod 32"
  let ?d = "bm\<lparr>n_bits := n, blocks := replicate ?L (if on then - 1 else 0)\<rparr>"
  have m: "memset_blocks (blocks bm) (if on then - 1 else 0) ?L = Some (blocks ?d)"
    using assms by (simp add: memset_blocks_def)
  have ok: "bitmap_ok ?d" by (simp add: bitmap_ok_def)
  consider "\<not> on" | "on" "?b = 0" | "on" "0 < ?b" by auto
  then show ?thesis
  proof cases
    case 1
    then show ?thesis using m ok by (simp add: ck_bitmap_init_def base_div raw_def)
  next
    case 2
    then have lt: "i div 32 < ?L \<longleftrightarrow> i < unat n" for i
      using same_block [of i "unat n"] other_block [of i "unat n"] blocks_tail(2) [of "unat n"]
      by (metis less_irrefl not_less_zero)
    have "raw ?d = {i. i div 32 < ?L}" using 2 by (simp add: raw_ones)
    also have "\<dots> = {..<unat n}" unfolding lt lessThan_def ..
    finally have "raw ?d = {..<unat n}" .
    then show ?thesis using 2 m ok by (simp add: ck_bitmap_init_def base_div CK_BITMAP_BLOCK_def)
  next
    case 3
    then have L: "?L = Suc (unat n div 32)" by (simp add: blocks_tail)
    then have kL: "unat n div 32 < ?L" by simp
    have n0: "0 < unat n" using 3 by (cases "unat n") auto
    then have k: "CK_BITMAP_PTR (unat (n - 1)) = unat n div 32"
      using 3 by (simp add: unat_dec_pos CK_BITMAP_PTR_def CK_BITMAP_BLOCK_def pred_block)
    let ?e = "?d\<lparr>blocks := (blocks ?d)[unat n div 32 := - 1 AND slop_mask ?b]\<rparr>"
    have "ck_bitmap_init bm n on = Some ?e"
      using 3 m k kL by (simp add: ck_bitmap_init_def base_div CK_BITMAP_BLOCK_def upd_block_def)
    moreover have "bitmap_ok ?e" by (simp add: bitmap_ok_def)
    moreover have "i \<in> raw ?e \<longleftrightarrow> i < unat n" for i
    proof (cases "i div 32 = unat n div 32")
      case True
      then have "i < unat n \<longleftrightarrow> i mod 32 < ?b" by (rule same_block)
      then show ?thesis using True 3 kL by (simp add: raw_def slop_mask_bit)
    next
      case False
      then have "i < unat n \<longleftrightarrow> i div 32 < unat n div 32" by (rule other_block)
      moreover have "i div 32 < ?L \<longleftrightarrow> i div 32 < unat n div 32" using L False by linarith
      ultimately show ?thesis using False 3 by (cases "i div 32 < ?L") (simp_all add: raw_def bit_minus_one)
    qed
    then have "raw ?e = {..<unat n}" by blast
    ultimately show ?thesis using 3 by auto
  qed
qed

section \<open>Counts\<close>

text \<open>The bits of a sequence of words, and how they split at a block.\<close>

definition word_bits :: "(nat \<Rightarrow> uint) \<Rightarrow> nat \<Rightarrow> nat set" where
  "word_bits w n = {i. i < n \<and> bit (w (i div 32)) (i mod 32)}"

lemma finite_word_bits_upto [simp]: "finite (word_bits w n)"
  by (rule finite_subset [of _ "{..<n}"]) (auto simp: word_bits_def)

lemma card_word_bits:
  assumes "s \<le> 32"
  shows "card (word_bits w (32 * k + s)) = card (word_bits w (32 * k)) + card {j. j < s \<and> bit (w k) j}"
proof -
  have "word_bits w (32 * k + s) = word_bits w (32 * k) \<union> (\<lambda>j. 32 * k + j) ` {j. j < s \<and> bit (w k) j}"
  proof (rule set_eqI)
    fix i :: nat
    obtain q r where i: "i = 32 * q + r" "r < 32" "i div 32 = q" "i mod 32 = r" by (rule split32)
    have "i < 32 * k + s \<longleftrightarrow> i < 32 * k \<or> (i div 32 = k \<and> i mod 32 < s)"
      unfolding i(3,4) unfolding i(1) by (rule lin32 [OF i(2) assms])
    moreover have "i = 32 * k + j \<and> j < s \<longleftrightarrow> i div 32 = k \<and> i mod 32 = j \<and> j < s" for j
      unfolding i(3,4) unfolding i(1) by (rule lin32 [OF i(2) assms])
    ultimately show "i \<in> word_bits w (32 * k + s) \<longleftrightarrow>
       i \<in> word_bits w (32 * k) \<union> (\<lambda>j. 32 * k + j) ` {j. j < s \<and> bit (w k) j}"
      unfolding word_bits_def image_iff Un_iff mem_Collect_eq Bex_def by metis
  qed
  moreover have "word_bits w (32 * k) \<inter> (\<lambda>j. 32 * k + j) ` {j. j < s \<and> bit (w k) j} = {}"
    by (auto simp: word_bits_def)
  ultimately show ?thesis by (simp add: card_Un_disjoint card_image)
qed

lemma popcount_upto: "ck_cc_popcount x = card {j. j < 32 \<and> bit x j}"
proof -
  have "{j. bit x j} = {j. j < 32 \<and> bit x j}" by (auto dest: bit_imp_le_length)
  then show ?thesis by (simp add: popcount_card)
qed

lemma popcount_slop: "s < 32 \<Longrightarrow> ck_cc_popcount (x AND slop_mask s) = card {j. j < s \<and> bit x j}"
  unfolding popcount_card by (rule arg_cong [of _ _ card]) (auto simp: bit_and_iff slop_mask_bit)

lemma sum_blocks:
  assumes "\<And>i c. i < k \<Longrightarrow> body i c = Some (c + of_nat (ck_cc_popcount (w i)))"
  shows "for_blocks body [0..<k] (0 :: uint) = Some (of_nat (card (word_bits w (32 * k))))"
  using assms
proof (induction k)
  case (Suc k)
  have "card (word_bits w (32 * Suc k)) = card (word_bits w (32 * k)) + ck_cc_popcount (w k)"
    using card_word_bits [of 32 w k] by (simp add: popcount_upto add.commute)
  then show ?case using Suc by (simp add: for_blocks_append)
qed (simp add: word_bits_def)

lemma limit_min: "unat (if limit > m then m else limit) = min (unat limit) (unat m)" for limit m :: uint
  unfolding word_less_nat_alt by (simp add: min_def)

lemma raw_word_bits: "n \<le> 32 * length (blocks bm) \<Longrightarrow> word_bits ((!) (blocks bm)) n = {i \<in> raw bm. i < n}"
  by (auto simp: word_bits_def raw_def)

lemma ok_room: "bitmap_ok bm \<Longrightarrow> n \<le> unat (n_bits bm) \<Longrightarrow> n \<le> 32 * length (blocks bm)"
  by (simp add: bitmap_ok_def bitmap_consts)

lemma count_words:
  assumes "n div 32 \<le> k" "0 < n mod 32 \<Longrightarrow> n div 32 < k"
    and "\<And>i. i < k \<Longrightarrow> ld i = Some (w i)"
  shows "Option.bind (for_blocks (\<lambda>i count. Option.bind (ld i) (\<lambda>x. Some (count + of_nat (ck_cc_popcount x)))) [0..<n div 32] 0)
      (\<lambda>count. if n mod 32 > 0
         then Option.bind (ld (n div 32)) (\<lambda>x. Some (count + of_nat (ck_cc_popcount (x AND slop_mask (n mod 32)))))
         else Some count) = Some (of_nat (card (word_bits w n)) :: uint)"
proof -
  have "card (word_bits w n) = card (word_bits w (32 * (n div 32))) + card {j. j < n mod 32 \<and> bit (w (n div 32)) j}"
    using card_word_bits [of "n mod 32" w "n div 32"] by simp
  moreover have "for_blocks (\<lambda>i count. Option.bind (ld i) (\<lambda>x. Some (count + of_nat (ck_cc_popcount x)))) [0..<n div 32] (0 :: uint)
     = Some (of_nat (card (word_bits w (32 * (n div 32)))))" using assms by (intro sum_blocks) simp
  ultimately show ?thesis using assms by (cases "n mod 32 > 0") (simp_all add: popcount_slop)
qed

lemma load_ok: "i < length (blocks bm) \<Longrightarrow> load_block bm i = Some (blocks bm ! i)"
  by (simp add: load_block_def pr_simps)

lemma ok_div:
  assumes "bitmap_ok bm" "n \<le> unat (n_bits bm)"
  shows "n div 32 \<le> length (blocks bm)" "0 < n mod 32 \<Longrightarrow> n div 32 < length (blocks bm)"
proof -
  obtain q r where n: "n = 32 * q + r" "r < 32" "n div 32 = q" "n mod 32 = r" by (rule split32)
  show "n div 32 \<le> length (blocks bm)" "0 < n mod 32 \<Longrightarrow> n div 32 < length (blocks bm)"
    unfolding n(3,4) using ok_room [OF assms] n(1) by simp_all
qed

lemma count_ok:
  assumes "bitmap_ok bm"
  shows "ck_bitmap_count bm limit = Some (of_nat (card {i \<in> bits bm. i < unat limit}))"
proof -
  let ?n = "min (unat limit) (unat (n_bits bm))"
  have "ck_bitmap_count bm limit = Some (of_nat (card (word_bits ((!) (blocks bm)) ?n)))"
    unfolding ck_bitmap_count_def Let_def limit_min CK_BITMAP_BLOCK_def
    by (rule count_words [OF ok_div [OF assms]]) (simp_all add: load_ok)
  also have "word_bits ((!) (blocks bm)) ?n = {i \<in> bits bm. i < unat limit}"
    by (subst raw_word_bits [OF ok_room [OF assms]]) (auto simp: bits_def)
  finally show ?thesis .
qed

lemma count_intersect_ok:
  assumes "bitmap_ok x" "bitmap_ok y"
  shows "ck_bitmap_count_intersect x y limit = Some (of_nat (card {i \<in> bits x \<inter> bits y. i < unat limit}))"
proof -
  let ?n = "min (min (unat limit) (unat (n_bits x))) (unat (n_bits y))"
  let ?w = "\<lambda>i. blocks x ! i AND blocks y ! i" and ?k = "min (length (blocks x)) (length (blocks y))"
  let ?ld = "\<lambda>i. Option.bind (load_block x i) (\<lambda>xi. Option.bind (load_block y i) (\<lambda>yi. Some (xi AND yi)))"
  have n: "?n \<le> unat (n_bits x)" "?n \<le> unat (n_bits y)" by simp_all
  have ld: "i < ?k \<Longrightarrow> ?ld i = Some (?w i)" for i by (simp add: load_ok)
  have k: "?n div 32 \<le> ?k" "0 < ?n mod 32 \<Longrightarrow> ?n div 32 < ?k"
    using ok_div [OF assms(1) n(1)] ok_div [OF assms(2) n(2)] by simp_all
  have "ck_bitmap_count_intersect x y limit = Some (of_nat (card (word_bits ?w ?n)))"
    using count_words [where ld = ?ld and w = ?w and k = ?k and n = ?n, OF k ld]
    unfolding ck_bitmap_count_intersect_def Let_def limit_min CK_BITMAP_BLOCK_def Option.bind_assoc bind.bind_lunit .
  also have "word_bits ?w ?n = word_bits ((!) (blocks x)) ?n \<inter> word_bits ((!) (blocks y)) ?n"
    by (auto simp: word_bits_def bit_and_iff)
  also have "\<dots> = {i \<in> bits x \<inter> bits y. i < unat limit}"
    unfolding raw_word_bits [OF ok_room [OF assms(1) n(1)]] raw_word_bits [OF ok_room [OF assms(2) n(2)]]
    by (auto simp: bits_def)
  finally show ?thesis .
qed

lemma all_blocks_ok:
  "(\<And>i. i \<in> set ns \<Longrightarrow> ok i = Some (P i)) \<Longrightarrow> all_blocks ok ns = Some (\<forall>i\<in>set ns. P i)"
  by (induction ns) auto

lemma all_bits_split:
  "(\<forall>i<n. Q (i div 32) (i mod 32)) \<longleftrightarrow> (\<forall>k<n div 32. \<forall>j<32. Q k j) \<and> (\<forall>j<n mod 32. Q (n div 32) j)"
  (is "?L \<longleftrightarrow> ?R") for n :: nat
proof -
  have lt: "(i < n) \<longleftrightarrow> i div 32 < n div 32 \<or> i div 32 = n div 32 \<and> i mod 32 < n mod 32" for i
    using same_block [of i n] other_block [of i n] by (metis less_irrefl)
  have dm: "(32 * k + j) div 32 = k" "(32 * k + j) mod 32 = j" if "j < 32" for k j :: nat using that by simp_all
  show ?thesis
  proof
    assume L: ?L
    have *: "Q k j" if "32 * k + j < n" "j < 32" for k j using L that dm [OF that(2)] by metis
    show ?R
    proof (intro conjI allI impI)
      fix k j :: nat assume "k < n div 32" "j < 32"
      then show "Q k j" using lt [of "32 * k + j"] dm [of j k] by (intro *) simp_all
    next
      fix j :: nat assume "j < n mod 32"
      moreover from this have "j < 32" by (rule order.strict_trans) simp
      ultimately show "Q (n div 32) j" using lt [of "32 * (n div 32) + j"] dm [of j "n div 32"] by (intro *) simp_all
    qed
  next
    assume R: ?R
    show ?L
    proof (intro allI impI)
      fix i assume "i < n"
      moreover have "i mod 32 < 32" by simp
      ultimately show "Q (i div 32) (i mod 32)" using R lt [of i] by metis
    qed
  qed
qed

lemma word_zero_iff: "w = 0 \<longleftrightarrow> (\<forall>j<32. \<not> bit w j)" for w :: uint
proof
  assume "\<forall>j<32. \<not> bit w j"
  then show "w = 0" by (intro bit_word_eqI) simp
qed simp

lemma word_ones_iff: "w = - 1 \<longleftrightarrow> (\<forall>j<32. bit w j)" for w :: uint
proof
  show "w = - 1 \<Longrightarrow> \<forall>j<32. bit w j" by (simp add: bit_minus_one)
  assume "\<forall>j<32. bit w j"
  then show "w = - 1" by (intro bit_word_eqI) (simp add: bit_minus_one)
qed

lemma slop_zero: "t < 32 \<Longrightarrow> w AND slop_mask t = 0 \<longleftrightarrow> (\<forall>j < t. \<not> bit w j)" for w :: uint
  unfolding word_zero_iff [of "w AND slop_mask t"] by (auto simp: bit_and_iff slop_mask_bit) (metis order.strict_trans)

lemma slop_ones: "t < 32 \<Longrightarrow> NOT w AND slop_mask t = 0 \<longleftrightarrow> (\<forall>j < t. bit w j)" for w :: uint
  by (auto simp: slop_zero bit_not_iff)

lemma raw_below:
  assumes "bitmap_ok bm" "n \<le> unat (n_bits bm)" "i < n"
  shows "i \<in> raw bm \<longleftrightarrow> bit (blocks bm ! (i div 32)) (i mod 32)"
  using ok_bound [OF assms(1), of i] assms(2,3) by (simp add: raw_def)

lemma empty_ok:
  assumes "bitmap_ok bm"
  shows "ck_bitmap_empty bm limit = Some ({i \<in> bits bm. i < unat limit} = {})"
proof -
  let ?n = "min (unat limit) (unat (n_bits bm))"
  have n: "?n \<le> unat (n_bits bm)" by simp
  note k = ok_div [OF assms n]
  have "ck_bitmap_empty bm limit = Some ((\<forall>k<?n div 32. blocks bm ! k = 0) \<and>
      (\<forall>j<?n mod 32. \<not> bit (blocks bm ! (?n div 32)) j))"
    unfolding ck_bitmap_empty_def Let_def limit_min CK_BITMAP_BLOCK_def
    using k by (subst all_blocks_ok [of _ _ "\<lambda>i. blocks bm ! i = 0"]) (auto simp: load_ok slop_zero)
  also have "((\<forall>k<?n div 32. blocks bm ! k = 0) \<and> (\<forall>j<?n mod 32. \<not> bit (blocks bm ! (?n div 32)) j)) \<longleftrightarrow>
      (\<forall>i<?n. \<not> bit (blocks bm ! (i div 32)) (i mod 32))"
    unfolding word_zero_iff by (rule all_bits_split [symmetric, of ?n "\<lambda>k j. \<not> bit (blocks bm ! k) j"])
  also have "\<dots> \<longleftrightarrow> (\<forall>i<?n. i \<notin> raw bm)" using raw_below [OF assms n] by blast
  also have "\<dots> \<longleftrightarrow> {i \<in> bits bm. i < unat limit} = {}" by (auto simp: bits_def)
  finally show ?thesis .
qed

lemma full_ok:
  assumes "bitmap_ok bm"
  shows "ck_bitmap_full bm limit = Some (\<forall>i. i < unat limit \<and> i < unat (n_bits bm) \<longrightarrow> i \<in> bits bm)"
proof -
  let ?n = "min (unat limit) (unat (n_bits bm))"
  have n: "?n \<le> unat (n_bits bm)" by simp
  note k = ok_div [OF assms n]
  have "ck_bitmap_full bm limit = Some ((\<forall>k<?n div 32. blocks bm ! k = - 1) \<and>
      (\<forall>j<?n mod 32. bit (blocks bm ! (?n div 32)) j))"
    unfolding ck_bitmap_full_def Let_def limit_min CK_BITMAP_BLOCK_def
    using k by (subst all_blocks_ok [of _ _ "\<lambda>i. blocks bm ! i = - 1"]) (auto simp: load_ok slop_ones)
  also have "((\<forall>k<?n div 32. blocks bm ! k = - 1) \<and> (\<forall>j<?n mod 32. bit (blocks bm ! (?n div 32)) j)) \<longleftrightarrow>
      (\<forall>i<?n. bit (blocks bm ! (i div 32)) (i mod 32))"
    unfolding word_ones_iff by (rule all_bits_split [symmetric, of ?n "\<lambda>k j. bit (blocks bm ! k) j"])
  also have "\<dots> \<longleftrightarrow> (\<forall>i<?n. i \<in> raw bm)" using raw_below [OF assms n] by blast
  also have "\<dots> \<longleftrightarrow> (\<forall>i. i < unat limit \<and> i < unat (n_bits bm) \<longrightarrow> i \<in> bits bm)" by (auto simp: bits_def)
  finally show ?thesis .
qed

section \<open>The iterator\<close>

text \<open>What an iterator still has to deliver: the bits left in its cache, and those of the later blocks.\<close>

definition it_ok :: "ck_bitmap \<Rightarrow> ck_bitmap_iterator \<Rightarrow> bool" where
  "it_ok bm i \<longleftrightarrow> bitmap_ok bm \<and> unat (n_limit i) = length (blocks bm) \<and>
     (cache i \<noteq> 0 \<longrightarrow> n_block i < n_limit i)"

definition later :: "ck_bitmap \<Rightarrow> nat \<Rightarrow> nat set" where
  "later bm k = {i \<in> raw bm. k \<le> i div 32}"

definition in_block :: "nat \<Rightarrow> uint \<Rightarrow> nat set" where
  "in_block k c = {i. i div 32 = k \<and> bit c (i mod 32)}"

definition remaining :: "ck_bitmap \<Rightarrow> ck_bitmap_iterator \<Rightarrow> nat set" where
  "remaining bm i = in_block (unat (n_block i)) (cache i) \<union> later bm (Suc (unat (n_block i)))"

lemma finite_raw: "finite (raw bm)"
proof (rule finite_subset)
  show "raw bm \<subseteq> {..<32 * length (blocks bm)}" by (auto simp: raw_def)
qed simp

lemma finite_remaining [simp]: "finite (remaining bm i)"
proof -
  have "finite (in_block k c)" for k c
    by (rule finite_subset [of _ "{..<32 * Suc k}"]) (auto simp: in_block_def)
  then show ?thesis using finite_raw [of bm] by (simp add: remaining_def later_def)
qed

lemma later_step: "k < length (blocks bm) \<Longrightarrow> later bm k = in_block k (blocks bm ! k) \<union> later bm (Suc k)"
  by (auto simp: later_def in_block_def raw_def Suc_le_eq le_less)

lemma later_end: "length (blocks bm) \<le> k \<Longrightarrow> later bm k = {}"
  by (auto simp: later_def raw_def)

lemma in_block_0 [simp]: "in_block k 0 = {}"
  by (simp add: in_block_def)

lemma ok_length: "bitmap_ok bm \<Longrightarrow> 32 * length (blocks bm) \<le> 2 ^ 32"
  using n_bits_less [of bm] by (simp add: bitmap_ok_def bitmap_consts)

lemma unat_Suc_block: "k < l \<Longrightarrow> unat (k + 1) = Suc (unat k)" for k l :: uint
  using unsigned_less [of l, where ?'a = nat] unfolding word_less_nat_alt by (intro unat_inc_small) simp

lemma next_block_ok:
  assumes "unat limit = length (blocks bm)"
  shows "\<exists>k' c. next_block bm k limit = Some (k', c) \<and>
     (if c = 0 then later bm (unat k) = {} \<and> limit \<le> k'
      else k' < limit \<and> c = blocks bm ! unat k' \<and> later bm (unat k) = later bm (unat k'))"
  using assms
proof (induction bm k limit rule: next_block.induct)
  case (1 bm k limit)
  show ?case
  proof (cases "k < limit")
    case False
    then have "later bm (unat k) = {}" using 1(2) by (intro later_end) (simp add: word_less_nat_alt)
    then show ?thesis using False by (simp add: next_block.simps [of bm k limit])
  next
    case True
    then have k: "unat k < length (blocks bm)" using 1(2) by (simp add: word_less_nat_alt)
    show ?thesis
    proof (cases "blocks bm ! unat k = 0")
      case False
      then show ?thesis using True k by (simp add: next_block.simps [of bm k limit] load_ok)
    next
      case z: True
      have "later bm (unat k) = later bm (unat (k + 1))"
        using later_step [OF k] z unat_Suc_block [OF True] by simp
      moreover have "next_block bm k limit = next_block bm (k + 1) limit"
        using z True k by (simp add: next_block.simps [of bm k limit] load_ok)
      moreover have "load_block bm (unat k) = Some 0" using z k by (simp add: load_ok)
      note 1(1) [OF True this]
      ultimately show ?thesis using 1(2) by (simp only: simp_thms)
    qed
  qed
qed

text \<open>The lowest bit of the current block comes first, and clearing it leaves the rest.\<close>

lemma block_min:
  assumes "c \<noteq> 0"
  shows "Min (in_block k c \<union> later bm (Suc k)) = 32 * k + ck_cc_ctz c"
proof (rule Min_eqI)
  have "finite (in_block k c)" by (rule finite_subset [of _ "{..<32 * Suc k}"]) (auto simp: in_block_def)
  then show "finite (in_block k c \<union> later bm (Suc k))" using finite_raw [of bm] by (simp add: later_def)
  show "32 * k + ck_cc_ctz c \<in> in_block k c \<union> later bm (Suc k)"
    using ctz_bit [OF assms] ctz_less [OF assms] by (simp add: in_block_def)
next
  fix i assume "i \<in> in_block k c \<union> later bm (Suc k)"
  moreover obtain q r where i: "i = 32 * q + r" "r < 32" "i div 32 = q" "i mod 32 = r" by (rule split32)
  ultimately consider "q = k" "bit c r" | "Suc k \<le> q" by (auto simp: in_block_def later_def)
  then show "32 * k + ck_cc_ctz c \<le> i"
  proof cases
    case 1
    then show ?thesis using i(1) ctz_min [of c r] by simp
  next
    case 2
    then show ?thesis using i(1) ctz_less [OF assms] by simp
  qed
qed

lemma block_rest:
  assumes "c \<noteq> 0"
  shows "in_block k (c AND (c - 1)) \<union> later bm (Suc k) =
     in_block k c \<union> later bm (Suc k) - {32 * k + ck_cc_ctz c}"
proof -
  let ?m = "32 * k + ck_cc_ctz c"
  have m: "?m div 32 = k" "?m mod 32 = ck_cc_ctz c" using ctz_less [OF assms] by simp_all
  have "i div 32 = k \<Longrightarrow> i mod 32 = ck_cc_ctz c \<longleftrightarrow> i = ?m" for i using m by (metis div_mult_mod_eq)
  then have "in_block k (c AND (c - 1)) = in_block k c - {?m}"
    using clear_lowest [OF assms] by (auto simp: in_block_def)
  moreover have "?m \<notin> later bm (Suc k)" using m by (simp add: later_def)
  ultimately show ?thesis by blast
qed

lemma found_ok:
  assumes "it_ok bm i" "c \<noteq> 0" "k < n_limit i"
  shows "found_bit i k c = (True, of_nat (Min (in_block (unat k) c \<union> later bm (Suc (unat k)))),
       i\<lparr>cache := c AND (c - 1), n_block := k\<rparr>) \<and>
     it_ok bm (i\<lparr>cache := c AND (c - 1), n_block := k\<rparr>) \<and>
     remaining bm (i\<lparr>cache := c AND (c - 1), n_block := k\<rparr>) =
       in_block (unat k) c \<union> later bm (Suc (unat k)) - {Min (in_block (unat k) c \<union> later bm (Suc (unat k)))}"
  using assms by (simp add: found_bit_def block_min block_rest remaining_def it_ok_def CK_BITMAP_BLOCK_def)

lemma next_ok:
  assumes "it_ok bm i"
  shows "\<exists>i'. it_ok bm i' \<and> ck_bitmap_next bm i =
       Some (if remaining bm i = {} then (False, 0, i') else (True, of_nat (Min (remaining bm i)), i')) \<and>
     remaining bm i' = remaining bm i - {Min (remaining bm i)}"
proof -
  have L: "unat (n_limit i) = length (blocks bm)" using assms by (simp add: it_ok_def)
  consider (cached) "cache i \<noteq> 0" | (over) "cache i = 0" "n_limit i \<le> n_block i"
    | (search) "cache i = 0" "n_block i < n_limit i" by fastforce
  then show ?thesis
  proof cases
    case cached
    then have "n_block i < n_limit i" using assms by (simp add: it_ok_def)
    moreover have "remaining bm i \<noteq> {}"
      using ctz_bit [OF cached] ctz_less [OF cached]
      by (auto simp: remaining_def in_block_def intro!: exI [of _ "32 * unat (n_block i) + ck_cc_ctz (cache i)"])
    ultimately show ?thesis using found_ok [OF assms cached, of "n_block i"] cached
      by (simp add: ck_bitmap_next_def remaining_def)
  next
    case over
    then have "remaining bm i = {}" using L later_end [of bm] by (simp add: remaining_def word_le_nat_alt)
    then show ?thesis using over assms by (simp add: ck_bitmap_next_def)
  next
    case search
    have R: "remaining bm i = later bm (unat (n_block i + 1))"
      using search unat_Suc_block [OF search(2)] by (simp add: remaining_def)
    obtain k c where nb: "next_block bm (n_block i + 1) (n_limit i) = Some (k, c)"
      and kc: "if c = 0 then later bm (unat (n_block i + 1)) = {} \<and> n_limit i \<le> k
        else k < n_limit i \<and> c = blocks bm ! unat k \<and> later bm (unat (n_block i + 1)) = later bm (unat k)"
      using next_block_ok [OF L, of "n_block i + 1"] by blast
    show ?thesis
    proof (cases "c = 0")
      case True
      then have "remaining bm (i\<lparr>cache := 0, n_block := k\<rparr>) = {}"
        using kc L by (simp add: remaining_def later_end word_le_nat_alt)
      then show ?thesis using search nb kc R True assms
        by (intro exI [of _ "i\<lparr>cache := 0, n_block := k\<rparr>"]) (simp add: ck_bitmap_next_def it_ok_def)
    next
      case False
      then have R': "remaining bm i = in_block (unat k) c \<union> later bm (Suc (unat k))"
        using kc R L later_step [of "unat k" bm] by (simp add: word_less_nat_alt)
      moreover have "remaining bm i \<noteq> {}"
        using ctz_bit [OF False] ctz_less [OF False]
        by (auto simp: R' in_block_def intro!: exI [of _ "32 * unat k + ck_cc_ctz c"])
      ultimately show ?thesis using found_ok [OF assms False, of k] kc False search nb
        by (simp add: ck_bitmap_next_def)
    qed
  qed
qed

text \<open>A client that iterates until the end.\<close>

fun iterate_bits :: "nat \<Rightarrow> ck_bitmap \<Rightarrow> ck_bitmap_iterator \<Rightarrow> nat list option" where
  "iterate_bits 0 bm i = None"
| "iterate_bits (Suc fuel) bm i = (case ck_bitmap_next bm i of
     None \<Rightarrow> None
   | Some (found, b, i') \<Rightarrow> if found then map_option ((#) (unat b)) (iterate_bits fuel bm i') else Some [])"

lemma remaining_less:
  assumes "it_ok bm i" "j \<in> remaining bm i"
  shows "j < 2 ^ 32"
proof -
  have "j div 32 < length (blocks bm)"
  proof (cases "j \<in> later bm (Suc (unat (n_block i)))")
    case False
    then have "j div 32 = unat (n_block i)" "cache i \<noteq> 0" using assms(2) by (auto simp: remaining_def in_block_def)
    then show ?thesis using assms(1) by (simp add: it_ok_def word_less_nat_alt)
  qed (simp add: later_def raw_def)
  then have "j < 32 * length (blocks bm)" by simp
  then show ?thesis using ok_length [of bm] assms(1) by (simp add: it_ok_def)
qed

lemma iterate_ok:
  "it_ok bm i \<Longrightarrow> card (remaining bm i) < fuel \<Longrightarrow> iterate_bits fuel bm i = Some (sorted_list_of_set (remaining bm i))"
proof (induction fuel arbitrary: i)
  case (Suc fuel)
  obtain i' where i': "it_ok bm i'" "remaining bm i' = remaining bm i - {Min (remaining bm i)}"
    "ck_bitmap_next bm i = Some (if remaining bm i = {} then (False, 0, i') else (True, of_nat (Min (remaining bm i)), i'))"
    using next_ok [OF Suc.prems(1)] by blast
  show ?case
  proof (cases "remaining bm i = {}")
    case False
    then have m: "Min (remaining bm i) \<in> remaining bm i" by simp
    then have u: "unat (of_nat (Min (remaining bm i)) :: uint) = Min (remaining bm i)"
      using remaining_less [OF Suc.prems(1)] by (simp add: unat_of_nat_small)
    have "0 < card (remaining bm i)" using m by (auto simp: card_gt_0_iff)
    then have "card (remaining bm i') < fuel" using Suc.prems(2) m i'(2) by (simp add: card_Diff_singleton)
    then show ?thesis using Suc.IH [OF i'(1)] False i' u by (simp add: sorted_list_of_set_nonempty)
  qed (simp add: i')
qed simp

lemma iterator_init_ok:
  assumes "bitmap_ok bm"
  shows "\<exists>i. ck_bitmap_iterator_init bm = Some i \<and> it_ok bm i \<and> remaining bm i = raw bm"
proof -
  let ?l = "of_nat (length (blocks bm)) :: uint"
  have L: "CK_BITMAP_BLOCKS (unat (n_bits bm)) = length (blocks bm)" using assms by (simp add: bitmap_ok_def)
  have u: "unat ?l = length (blocks bm)" using ok_length [OF assms] by (intro unat_of_nat_small) simp
  have r: "raw bm = later bm 0" by (auto simp: later_def)
  show ?thesis
  proof (cases "blocks bm = []")
    case True
    then show ?thesis using assms by (simp add: ck_bitmap_iterator_init_def L it_ok_def remaining_def later_end raw_def)
  next
    case False
    then have "0 < ?l" using u by (simp add: word_less_nat_alt)
    then show ?thesis using False assms u later_step [of 0 bm] r
      by (simp add: ck_bitmap_iterator_init_def L load_ok it_ok_def remaining_def)
  qed
qed

lemma clean_bits: "bitmap_clean bm \<Longrightarrow> bits bm = raw bm"
  by (auto simp: bitmap_clean_def bits_def)

lemma clean_ok: "bitmap_clean bm \<Longrightarrow> bitmap_ok bm"
  by (simp add: bitmap_clean_def)

lemma union_clean:
  assumes "bitmap_clean bm" "bitmap_clean src"
  shows "\<exists>b. ck_bitmap_union bm src = Some b \<and> bits b = bits bm \<union> {i \<in> bits src. i < unat (n_bits bm)} \<and>
     (n_bits src \<le> n_bits bm \<longrightarrow> bitmap_clean b)"
proof -
  obtain b where b: "ck_bitmap_union bm src = Some b" "bitmap_ok b" "n_bits b = n_bits bm"
    "raw b = raw bm \<union> {i \<in> raw src. i div 32 < length (blocks bm)}"
    using union_ok [OF clean_ok [OF assms(1)] clean_ok [OF assms(2)]] by blast
  have c: "raw bm \<subseteq> {..<unat (n_bits bm)}" "raw src \<subseteq> {..<unat (n_bits src)}"
    using assms by (auto simp: bitmap_clean_def)
  have "bits b = bits bm \<union> {i \<in> bits src. i < unat (n_bits bm)}"
    using b(3,4) c ok_bound [OF clean_ok [OF assms(1)]] by (auto simp: bits_def)
  moreover have "bitmap_clean b" if "n_bits src \<le> n_bits bm"
    using that b c by (auto simp: bitmap_clean_def word_le_nat_alt)
  ultimately show ?thesis using b(1) by blast
qed

text \<open>Executable forms, for concrete bitmaps.\<close>

definition set_bits_list :: "ck_bitmap \<Rightarrow> nat list" where
  "set_bits_list bm = filter (\<lambda>i. bit (blocks bm ! (i div 32)) (i mod 32)) [0..<32 * length (blocks bm)]"

lemma raw_list: "raw bm = set (set_bits_list bm)"
  by (auto simp: set_bits_list_def raw_def)

lemma bitmap_clean_code [code]:
  "bitmap_clean bm \<longleftrightarrow> length (blocks bm) = CK_BITMAP_BLOCKS (unat (n_bits bm)) \<and>
     list_all (\<lambda>i. i < unat (n_bits bm)) (set_bits_list bm)"
  by (auto simp: bitmap_clean_def bitmap_ok_def raw_list list_all_iff)

definition ex_map :: ck_bitmap where
  "ex_map = \<lparr>n_bits = 34, blocks = [5, 2]\<rparr>"

definition ex_src :: ck_bitmap where
  "ex_src = \<lparr>n_bits = 33, blocks = [6, 1]\<rparr>"

lemma ex_clean: "bitmap_clean ex_map" "bitmap_clean ex_src"
  by code_simp+

section \<open>Properties\<close>

text \<open>Claim C15: a clean bitmap of \<open>n_bits\<close> bits is a set of numbers below \<open>n_bits\<close>. Initialisation gives
  the empty or the full set; at every valid bit number the operations set, reset, test and
  test-and-set insert, remove and ask for membership; intersection, difference and clear are the
  operations of sets and every one of them leaves a clean bitmap. Union adds the bits of the source that
  the destination can hold, and leaves a clean bitmap when the source is not the larger one.\<close>

theorem bitmap_refines_set:
  assumes "bitmap_clean bm" "bitmap_clean src" "n < n_bits bm" "length (blocks m) = CK_BITMAP_BLOCKS (unat k)"
  shows "(\<exists>b. ck_bitmap_init m k on = Some b \<and> bitmap_clean b \<and> bits b = (if on then {..<unat k} else {})) \<and>
    (\<exists>b. ck_bitmap_set bm n = Some b \<and> bitmap_clean b \<and> bits b = insert (unat n) (bits bm) \<and>
       ck_bitmap_bts bm n = Some (unat n \<in> bits bm, b)) \<and>
    (\<exists>b. ck_bitmap_reset bm n = Some b \<and> bitmap_clean b \<and> bits b = bits bm - {unat n}) \<and>
    ck_bitmap_test bm n = Some (unat n \<in> bits bm) \<and>
    (\<exists>b. ck_bitmap_intersection bm src = Some b \<and> bitmap_clean b \<and> bits b = bits bm \<inter> bits src) \<and>
    (\<exists>b. ck_bitmap_intersection_negate bm src = Some b \<and> bitmap_clean b \<and> bits b = bits bm - bits src) \<and>
    (\<exists>b. ck_bitmap_clear bm = Some b \<and> bitmap_clean b \<and> bits b = {}) \<and>
    (\<exists>b. ck_bitmap_union bm src = Some b \<and> bits b = bits bm \<union> {i \<in> bits src. i < unat (n_bits bm)} \<and>
       (n_bits src \<le> n_bits bm \<longrightarrow> bitmap_clean b))"
proof -
  have raw: "raw bm \<subseteq> {..<unat (n_bits bm)}" "bits bm = raw bm" "bits src = raw src"
    using assms(1,2) by (auto simp: clean_bits bitmap_clean_def)
  have n: "unat n < unat (n_bits bm)" using assms(3) by (simp add: word_less_nat_alt)
  note ok = clean_ok [OF assms(1)]
  have clean: "\<exists>b. f = Some b \<and> bitmap_clean b \<and> bits b = S"
    if "\<exists>b. f = Some b \<and> bitmap_ok b \<and> n_bits b = N \<and> raw b = S" "S \<subseteq> {..<unat N}" for f S N
    using that by (auto simp: bitmap_clean_def bits_def)
  obtain b where s: "ck_bitmap_set bm n = Some b" "bitmap_ok b" "n_bits b = n_bits bm" "raw b = insert (unat n) (raw bm)"
    using set_ok [OF ok assms(3)] by blast
  then have "ck_bitmap_set bm n = Some b \<and> bitmap_clean b \<and> bits b = insert (unat n) (bits bm) \<and>
       ck_bitmap_bts bm n = Some (unat n \<in> bits bm, b)"
    using raw n bts_ok [OF ok assms(3)] by (auto simp: bitmap_clean_def bits_def)
  then have 1: "\<exists>b. ck_bitmap_set bm n = Some b \<and> bitmap_clean b \<and> bits b = insert (unat n) (bits bm) \<and>
       ck_bitmap_bts bm n = Some (unat n \<in> bits bm, b)" by blast
  have 2: "\<exists>b. ck_bitmap_init m k on = Some b \<and> bitmap_clean b \<and> bits b = (if on then {..<unat k} else {})"
    by (rule clean [OF init_ok [OF assms(4)]]) simp
  have 3: "\<exists>b. ck_bitmap_reset bm n = Some b \<and> bitmap_clean b \<and> bits b = bits bm - {unat n}"
    using raw by (intro clean [where N = "n_bits bm"]) (use reset_ok [OF ok assms(3)] in auto)
  have 4: "\<exists>b. ck_bitmap_intersection bm src = Some b \<and> bitmap_clean b \<and> bits b = bits bm \<inter> bits src"
    using raw by (intro clean [where N = "n_bits bm"]) (use intersection_ok [OF ok clean_ok [OF assms(2)]] in auto)
  have 5: "\<exists>b. ck_bitmap_intersection_negate bm src = Some b \<and> bitmap_clean b \<and> bits b = bits bm - bits src"
    using raw by (intro clean [where N = "n_bits bm"]) (use negate_ok [OF ok clean_ok [OF assms(2)]] in auto)
  have 6: "\<exists>b. ck_bitmap_clear bm = Some b \<and> bitmap_clean b \<and> bits b = {}"
    by (rule clean [OF clear_ok [OF ok]]) simp
  have 7: "\<exists>b. ck_bitmap_union bm src = Some b \<and> bits b = bits bm \<union> {i \<in> bits src. i < unat (n_bits bm)} \<and>
       (n_bits src \<le> n_bits bm \<longrightarrow> bitmap_clean b)"
    by (rule union_clean [OF assms(1,2)])
  show ?thesis using 1 2 3 4 5 6 7 test_ok [OF ok assms(3)] raw(2) by (simp only: simp_thms)
qed

theorem bitmap_refines_set_witness:
  "(\<exists>b. ck_bitmap_set ex_map 1 = Some b \<and> bits b = insert 1 (bits ex_map)) \<and>
   ck_bitmap_test ex_map 1 = Some (1 \<in> bits ex_map) \<and>
   (\<exists>b. ck_bitmap_intersection ex_map ex_src = Some b \<and> bits b = bits ex_map \<inter> bits ex_src) \<and>
   (\<exists>b. ck_bitmap_union ex_map ex_src = Some b \<and> bitmap_clean b)"
  using bitmap_refines_set [OF ex_clean, of 1 ex_map 34 True]
  by (auto simp: ex_map_def ex_src_def CK_BITMAP_BLOCKS_def CK_BITMAP_BLOCK_def)

text \<open>Claim C20: the counting scans agree with the set. For every limit, the count is the number of
  members below the limit, the count of an intersection the number of common members, and the tests for
  empty and full hold exactly when none, or all, of the bits below the limit and the size are set.\<close>

theorem bitmap_counts:
  assumes "bitmap_ok x" "bitmap_ok y"
  shows "map_option unat (ck_bitmap_count x limit) = Some (card {i \<in> bits x. i < unat limit}) \<and>
    map_option unat (ck_bitmap_count_intersect x y limit) = Some (card {i \<in> bits x \<inter> bits y. i < unat limit}) \<and>
    ck_bitmap_empty x limit = Some ({i \<in> bits x. i < unat limit} = {}) \<and>
    ck_bitmap_full x limit = Some ({i. i < unat limit \<and> i < unat (n_bits x)} \<subseteq> bits x)"
proof -
  have small: "unat (of_nat (card S) :: uint) = card S" if "S \<subseteq> {i. i < unat limit}" for S
  proof (rule unat_of_nat_small)
    have "card S \<le> unat limit" using card_mono [OF _ that] by simp
    also have "\<dots> < 2 ^ 32" using unsigned_less [of limit] by simp
    finally show "card S < 2 ^ LENGTH(32)" by simp
  qed
  have "unat (of_nat (card {i \<in> bits x. i < unat limit}) :: uint) = card {i \<in> bits x. i < unat limit}"
    "unat (of_nat (card {i \<in> bits x \<inter> bits y. i < unat limit}) :: uint) = card {i \<in> bits x \<inter> bits y. i < unat limit}"
    by (rule small, blast)+
  then show ?thesis
    using count_ok [OF assms(1)] count_intersect_ok [OF assms] empty_ok [OF assms(1)] full_ok [OF assms(1)]
    by (simp only: option.map) blast
qed

theorem bitmap_counts_witness:
  "map_option unat (ck_bitmap_count ex_map 40) = Some (card {i \<in> bits ex_map. i < 40}) \<and>
   ck_bitmap_empty ex_map 40 = Some ({i \<in> bits ex_map. i < 40} = {})"
  using bitmap_counts [OF clean_ok clean_ok, OF ex_clean, of 40] by simp

text \<open>Claim C19: iteration over a clean bitmap terminates and delivers every bit that is set exactly once,
  in ascending order: one call per bit and a last one that returns false.\<close>

theorem bitmap_iterates:
  assumes "bitmap_clean bm"
  shows "\<exists>i. ck_bitmap_iterator_init bm = Some i \<and>
    iterate_bits (Suc (card (bits bm))) bm i = Some (sorted_list_of_set (bits bm))"
proof -
  obtain i where i: "ck_bitmap_iterator_init bm = Some i" "it_ok bm i" "remaining bm i = bits bm"
    using iterator_init_ok [OF clean_ok [OF assms]] clean_bits [OF assms] by metis
  then show ?thesis using iterate_ok [OF i(2), of "Suc (card (bits bm))"] by simp
qed

theorem bitmap_iterates_witness:
  "\<exists>i. ck_bitmap_iterator_init ex_map = Some i \<and>
    iterate_bits (Suc (card (bits ex_map))) ex_map i = Some (sorted_list_of_set (bits ex_map))"
  by (rule bitmap_iterates [OF ex_clean(1)])

text \<open>A union with a larger source of the same number of blocks sets bits at or above \<open>n_bits\<close> in the last
  block; the count ignores them and the iterator delivers them.\<close>

lemma union_leaks:
  "Option.bind (ck_bitmap_union \<lparr>n_bits = 1, blocks = [0]\<rparr> \<lparr>n_bits = 2, blocks = [2]\<rparr>) (\<lambda>b.
     Option.bind (ck_bitmap_count b 32) (\<lambda>c. Option.bind (ck_bitmap_iterator_init b) (\<lambda>i.
       map_option (\<lambda>l. (n_bits b, c, l)) (iterate_bits 2 b i)))) = Some (1, 0, [1])"
  by code_simp

end
