(* ===== verification/Queue.thy ===== *)
theory Queue
  imports CkPr "HOL-Library.Monad_Syntax"
begin

text \<open>
  The linked lists of \<^verbatim>\<open>ck/ck_queue.h\<close>: singly-linked lists, singly-linked tail queues and doubly-linked
  lists. Each macro that changes a list is the sequence of its stores, in the order of the source, because
  readers may traverse the list between any two of them; \<open>run\<close> performs them all. Following a null
  pointer is undefined and yields \<open>None\<close>, and so does a search that never ends.
\<close>

section \<open>Memory\<close>

text \<open>A place that holds a forward pointer: the head of a list or the link of an element. Tail queues keep
  the place of the last link, doubly-linked elements the place of the link that points to them.\<close>

datatype place = Head nat | Link nat

record qmem =
  cell :: "place \<Rightarrow> nat option"
  last_of :: "nat \<Rightarrow> place"
  prev_of :: "nat \<Rightarrow> place"

type_synonym mstep = "qmem \<Rightarrow> qmem option"

definition put_cell :: "place \<Rightarrow> nat option \<Rightarrow> qmem \<Rightarrow> qmem" where
  "put_cell p v m = m\<lparr>cell := (cell m)(p := ck_pr_store (cell m p) v)\<rparr>"

definition put_last :: "nat \<Rightarrow> place \<Rightarrow> qmem \<Rightarrow> qmem" where
  "put_last h p m = m\<lparr>last_of := (last_of m)(h := p)\<rparr>"

definition put_prev :: "nat \<Rightarrow> place \<Rightarrow> qmem \<Rightarrow> qmem" where
  "put_prev e p m = m\<lparr>prev_of := (prev_of m)(e := p)\<rparr>"

lemma put_sel [simp]:
  "cell (put_cell p v m) = (cell m)(p := v)" "last_of (put_cell p v m) = last_of m" "prev_of (put_cell p v m) = prev_of m"
  "cell (put_last h q m) = cell m" "last_of (put_last h q m) = (last_of m)(h := q)" "prev_of (put_last h q m) = prev_of m"
  "cell (put_prev e q m) = cell m" "last_of (put_prev e q m) = last_of m" "prev_of (put_prev e q m) = (prev_of m)(e := q)"
  by (simp_all add: put_cell_def put_last_def put_prev_def pr_simps)

fun run :: "mstep list \<Rightarrow> qmem \<Rightarrow> qmem option" where
  "run [] m = Some m"
| "run (s # ss) m = s m \<bind> run ss"

lemma run_append: "run (ss @ ts) m = run ss m \<bind> run ts"
  by (induction ss arbitrary: m) (auto split: Option.bind_splits)

text \<open>The traversal of the \<open>FOREACH\<close> macros: follow the links to the end.\<close>

fun foreach :: "nat \<Rightarrow> qmem \<Rightarrow> place \<Rightarrow> nat list option" where
  "foreach 0 m p = None"
| "foreach (Suc n) m p = (case ck_pr_load (cell m p) of
     None \<Rightarrow> Some []
   | Some x \<Rightarrow> map_option ((#) x) (foreach n m (Link x)))"

text \<open>The \<open>FOREACH_SAFE\<close> macros read the next element before the body runs, so the body may change or free
  the current one. The result lists the elements the body ran on.\<close>

fun foreach_safe :: "nat \<Rightarrow> (nat \<Rightarrow> mstep) \<Rightarrow> nat option \<Rightarrow> qmem \<Rightarrow> (nat list \<times> qmem) option" where
  "foreach_safe 0 body var m = None"
| "foreach_safe (Suc n) body var m = (case var of
     None \<Rightarrow> Some ([], m)
   | Some x \<Rightarrow> (let tvar = ck_pr_load (cell m (Link x))
       in body x m \<bind> (\<lambda>m'. map_option (apfst ((#) x)) (foreach_safe n body tvar m'))))"

text \<open>The search of the \<open>REMOVE\<close> macros for the element before \<open>elm\<close>.\<close>

partial_function (option) find_before :: "qmem \<Rightarrow> nat option \<Rightarrow> nat \<Rightarrow> nat option" where
  "find_before m cur elm = (case cur of
     None \<Rightarrow> None
   | Some c \<Rightarrow> if cell m (Link c) = Some elm then Some c else find_before m (cell m (Link c)) elm)"

section \<open>Singly-linked lists\<close>

definition CK_SLIST_EMPTY :: "nat \<Rightarrow> qmem \<Rightarrow> bool" where
  "CK_SLIST_EMPTY head m \<longleftrightarrow> ck_pr_load (cell m (Head head)) = None"

definition CK_SLIST_FIRST :: "nat \<Rightarrow> qmem \<Rightarrow> nat option" where
  "CK_SLIST_FIRST head m = ck_pr_load (cell m (Head head))"

definition CK_SLIST_NEXT :: "nat \<Rightarrow> qmem \<Rightarrow> nat option" where
  "CK_SLIST_NEXT elm m = ck_pr_load (cell m (Link elm))"

definition CK_SLIST_FOREACH :: "nat \<Rightarrow> nat \<Rightarrow> qmem \<Rightarrow> nat list option" where
  "CK_SLIST_FOREACH fuel head m = foreach fuel m (Head head)"

definition CK_SLIST_FOREACH_SAFE :: "nat \<Rightarrow> (nat \<Rightarrow> mstep) \<Rightarrow> nat \<Rightarrow> qmem \<Rightarrow> (nat list \<times> qmem) option" where
  "CK_SLIST_FOREACH_SAFE fuel body head m = foreach_safe fuel body (CK_SLIST_FIRST head m) m"

text \<open>The variant that also hands the body the place of the pointer it followed.\<close>

fun foreach_prevptr :: "nat \<Rightarrow> qmem \<Rightarrow> place \<Rightarrow> (nat \<times> place) list option" where
  "foreach_prevptr 0 m varp = None"
| "foreach_prevptr (Suc n) m varp = (case ck_pr_load (cell m varp) of
     None \<Rightarrow> Some []
   | Some x \<Rightarrow> map_option ((#) (x, varp)) (foreach_prevptr n m (Link x)))"

definition CK_SLIST_FOREACH_PREVPTR :: "nat \<Rightarrow> nat \<Rightarrow> qmem \<Rightarrow> (nat \<times> place) list option" where
  "CK_SLIST_FOREACH_PREVPTR fuel head m = foreach_prevptr fuel m (Head head)"

definition CK_SLIST_INIT :: "nat \<Rightarrow> mstep list" where
  "CK_SLIST_INIT head = [\<lambda>m. Some (put_cell (Head head) None m)]"

definition CK_SLIST_INSERT_AFTER :: "nat \<Rightarrow> nat \<Rightarrow> mstep list" where
  "CK_SLIST_INSERT_AFTER a b =
     [\<lambda>m. Some (put_cell (Link b) (cell m (Link a)) m),
      \<lambda>m. Some (put_cell (Link a) (Some b) m)]"

definition CK_SLIST_INSERT_HEAD :: "nat \<Rightarrow> nat \<Rightarrow> mstep list" where
  "CK_SLIST_INSERT_HEAD head elm =
     [\<lambda>m. Some (put_cell (Link elm) (cell m (Head head)) m),
      \<lambda>m. Some (put_cell (Head head) (Some elm) m)]"

definition CK_SLIST_INSERT_PREVPTR :: "place \<Rightarrow> nat option \<Rightarrow> nat \<Rightarrow> mstep list" where
  "CK_SLIST_INSERT_PREVPTR prevp slistelm elm =
     [\<lambda>m. Some (put_cell (Link elm) slistelm m),
      \<lambda>m. Some (put_cell prevp (Some elm) m)]"

definition CK_SLIST_REMOVE_AFTER :: "nat \<Rightarrow> mstep list" where
  "CK_SLIST_REMOVE_AFTER elm =
     [\<lambda>m. cell m (Link elm) \<bind> (\<lambda>n. Some (put_cell (Link elm) (cell m (Link n)) m))]"

definition CK_SLIST_REMOVE_HEAD :: "nat \<Rightarrow> mstep list" where
  "CK_SLIST_REMOVE_HEAD head =
     [\<lambda>m. cell m (Head head) \<bind> (\<lambda>f. Some (put_cell (Head head) (cell m (Link f)) m))]"

definition CK_SLIST_REMOVE :: "nat \<Rightarrow> nat \<Rightarrow> mstep list" where
  "CK_SLIST_REMOVE head elm =
     [\<lambda>m. if cell m (Head head) = Some elm then run (CK_SLIST_REMOVE_HEAD head) m
          else find_before m (cell m (Head head)) elm \<bind> (\<lambda>cur. run (CK_SLIST_REMOVE_AFTER cur) m)]"

definition CK_SLIST_MOVE :: "nat \<Rightarrow> nat \<Rightarrow> mstep list" where
  "CK_SLIST_MOVE head1 head2 = [\<lambda>m. Some (put_cell (Head head1) (cell m (Head head2)) m)]"

text \<open>A swap keeps the first head in a local variable.\<close>

definition CK_SLIST_SWAP :: "nat \<Rightarrow> nat \<Rightarrow> qmem \<Rightarrow> mstep list" where
  "CK_SLIST_SWAP a b m0 =
     (let swap_first = cell m0 (Head a)
      in [\<lambda>m. Some (put_cell (Head a) (cell m (Head b)) m),
          \<lambda>m. Some (put_cell (Head b) swap_first m)])"

section \<open>Singly-linked tail queues\<close>

definition CK_STAILQ_INIT :: "nat \<Rightarrow> mstep list" where
  "CK_STAILQ_INIT head =
     [\<lambda>m. Some (put_cell (Head head) None m),
      \<lambda>m. Some (put_last head (Head head) m)]"

definition CK_STAILQ_CONCAT :: "nat \<Rightarrow> nat \<Rightarrow> qmem \<Rightarrow> mstep list" where
  "CK_STAILQ_CONCAT head1 head2 m0 =
     (if cell m0 (Head head2) \<noteq> None
      then [\<lambda>m. Some (put_cell (last_of m head1) (cell m (Head head2)) m),
            \<lambda>m. Some (put_last head1 (last_of m head2) m)] @ CK_STAILQ_INIT head2
      else [])"

definition CK_STAILQ_EMPTY :: "nat \<Rightarrow> qmem \<Rightarrow> bool" where
  "CK_STAILQ_EMPTY head m \<longleftrightarrow> ck_pr_load (cell m (Head head)) = None"

definition CK_STAILQ_FIRST :: "nat \<Rightarrow> qmem \<Rightarrow> nat option" where
  "CK_STAILQ_FIRST head m = ck_pr_load (cell m (Head head))"

definition CK_STAILQ_NEXT :: "nat \<Rightarrow> qmem \<Rightarrow> nat option" where
  "CK_STAILQ_NEXT elm m = ck_pr_load (cell m (Link elm))"

definition CK_STAILQ_FOREACH :: "nat \<Rightarrow> nat \<Rightarrow> qmem \<Rightarrow> nat list option" where
  "CK_STAILQ_FOREACH fuel head m = foreach fuel m (Head head)"

definition CK_STAILQ_FOREACH_SAFE :: "nat \<Rightarrow> (nat \<Rightarrow> mstep) \<Rightarrow> nat \<Rightarrow> qmem \<Rightarrow> (nat list \<times> qmem) option" where
  "CK_STAILQ_FOREACH_SAFE fuel body head m = foreach_safe fuel body (CK_STAILQ_FIRST head m) m"

text \<open>The tail is moved when the element just written is the last.\<close>

definition tail_if_last :: "nat \<Rightarrow> place \<Rightarrow> mstep" where
  "tail_if_last head p m = Some (if cell m p = None then put_last head p m else m)"

definition CK_STAILQ_INSERT_AFTER :: "nat \<Rightarrow> nat \<Rightarrow> nat \<Rightarrow> mstep list" where
  "CK_STAILQ_INSERT_AFTER head tqelm elm =
     [\<lambda>m. Some (put_cell (Link elm) (cell m (Link tqelm)) m),
      \<lambda>m. Some (put_cell (Link tqelm) (Some elm) m),
      tail_if_last head (Link elm)]"

definition CK_STAILQ_INSERT_HEAD :: "nat \<Rightarrow> nat \<Rightarrow> mstep list" where
  "CK_STAILQ_INSERT_HEAD head elm =
     [\<lambda>m. Some (put_cell (Link elm) (cell m (Head head)) m),
      \<lambda>m. Some (put_cell (Head head) (Some elm) m),
      tail_if_last head (Link elm)]"

definition CK_STAILQ_INSERT_TAIL :: "nat \<Rightarrow> nat \<Rightarrow> mstep list" where
  "CK_STAILQ_INSERT_TAIL head elm =
     [\<lambda>m. Some (put_cell (Link elm) None m),
      \<lambda>m. Some (put_cell (last_of m head) (Some elm) m),
      \<lambda>m. Some (put_last head (Link elm) m)]"

definition CK_STAILQ_REMOVE_AFTER :: "nat \<Rightarrow> nat \<Rightarrow> mstep list" where
  "CK_STAILQ_REMOVE_AFTER head elm =
     [\<lambda>m. cell m (Link elm) \<bind> (\<lambda>n. Some (put_cell (Link elm) (cell m (Link n)) m)),
      tail_if_last head (Link elm)]"

definition CK_STAILQ_REMOVE_HEAD :: "nat \<Rightarrow> mstep list" where
  "CK_STAILQ_REMOVE_HEAD head =
     [\<lambda>m. cell m (Head head) \<bind> (\<lambda>f. Some (put_cell (Head head) (cell m (Link f)) m)),
      tail_if_last head (Head head)]"

definition CK_STAILQ_REMOVE :: "nat \<Rightarrow> nat \<Rightarrow> qmem \<Rightarrow> mstep list option" where
  "CK_STAILQ_REMOVE head elm m0 =
     (if cell m0 (Head head) = Some elm then Some (CK_STAILQ_REMOVE_HEAD head)
      else find_before m0 (cell m0 (Head head)) elm \<bind> (\<lambda>cur. Some (CK_STAILQ_REMOVE_AFTER head cur)))"

definition CK_STAILQ_MOVE :: "nat \<Rightarrow> nat \<Rightarrow> mstep list" where
  "CK_STAILQ_MOVE head1 head2 =
     [\<lambda>m. Some (put_cell (Head head1) (cell m (Head head2)) m),
      \<lambda>m. Some (put_last head1 (last_of m head2) m),
      \<lambda>m. Some (if last_of m head2 = Head head2 then put_last head1 (Head head1) m else m)]"

section \<open>Doubly-linked lists\<close>

definition CK_LIST_FIRST :: "nat \<Rightarrow> qmem \<Rightarrow> nat option" where
  "CK_LIST_FIRST head m = ck_pr_load (cell m (Head head))"

definition CK_LIST_EMPTY :: "nat \<Rightarrow> qmem \<Rightarrow> bool" where
  "CK_LIST_EMPTY head m \<longleftrightarrow> CK_LIST_FIRST head m = None"

definition CK_LIST_NEXT :: "nat \<Rightarrow> qmem \<Rightarrow> nat option" where
  "CK_LIST_NEXT elm m = ck_pr_load (cell m (Link elm))"

definition CK_LIST_FOREACH :: "nat \<Rightarrow> nat \<Rightarrow> qmem \<Rightarrow> nat list option" where
  "CK_LIST_FOREACH fuel head m = foreach fuel m (Head head)"

definition CK_LIST_FOREACH_SAFE :: "nat \<Rightarrow> (nat \<Rightarrow> mstep) \<Rightarrow> nat \<Rightarrow> qmem \<Rightarrow> (nat list \<times> qmem) option" where
  "CK_LIST_FOREACH_SAFE fuel body head m = foreach_safe fuel body (CK_LIST_FIRST head m) m"

definition CK_LIST_INIT :: "nat \<Rightarrow> mstep list" where
  "CK_LIST_INIT head = [\<lambda>m. Some (put_cell (Head head) None m)]"

text \<open>The back link of the element a place points to, if there is one.\<close>

definition back_link :: "place \<Rightarrow> place \<Rightarrow> mstep" where
  "back_link p q m = Some (case cell m p of None \<Rightarrow> m | Some x \<Rightarrow> put_prev x q m)"

definition CK_LIST_INSERT_AFTER :: "nat \<Rightarrow> nat \<Rightarrow> mstep list" where
  "CK_LIST_INSERT_AFTER listelm elm =
     [\<lambda>m. Some (put_cell (Link elm) (cell m (Link listelm)) m),
      \<lambda>m. Some (put_prev elm (Link listelm) m),
      back_link (Link listelm) (Link elm),
      \<lambda>m. Some (put_cell (Link listelm) (Some elm) m)]"

definition CK_LIST_INSERT_BEFORE :: "nat \<Rightarrow> nat \<Rightarrow> mstep list" where
  "CK_LIST_INSERT_BEFORE listelm elm =
     [\<lambda>m. Some (put_prev elm (prev_of m listelm) m),
      \<lambda>m. Some (put_cell (Link elm) (Some listelm) m),
      \<lambda>m. Some (put_cell (prev_of m listelm) (Some elm) m),
      \<lambda>m. Some (put_prev listelm (Link elm) m)]"

definition CK_LIST_INSERT_HEAD :: "nat \<Rightarrow> nat \<Rightarrow> mstep list" where
  "CK_LIST_INSERT_HEAD head elm =
     [\<lambda>m. Some (put_cell (Link elm) (cell m (Head head)) m),
      \<lambda>m. if cell m (Link elm) \<noteq> None
          then cell m (Head head) \<bind> (\<lambda>f. Some (put_prev f (Link elm) m)) else Some m,
      \<lambda>m. Some (put_cell (Head head) (Some elm) m),
      \<lambda>m. Some (put_prev elm (Head head) m)]"

definition CK_LIST_REMOVE :: "nat \<Rightarrow> mstep list" where
  "CK_LIST_REMOVE elm =
     [\<lambda>m. Some (put_cell (prev_of m elm) (cell m (Link elm)) m),
      \<lambda>m. back_link (Link elm) (prev_of m elm) m]"

definition CK_LIST_MOVE :: "nat \<Rightarrow> nat \<Rightarrow> mstep list" where
  "CK_LIST_MOVE head1 head2 =
     [\<lambda>m. Some (put_cell (Head head1) (cell m (Head head2)) m),
      back_link (Head head1) (Head head1)]"

definition CK_LIST_SWAP :: "nat \<Rightarrow> nat \<Rightarrow> qmem \<Rightarrow> mstep list" where
  "CK_LIST_SWAP head1 head2 m0 =
     (let swap_tmp = cell m0 (Head head1)
      in [\<lambda>m. Some (put_cell (Head head1) (cell m (Head head2)) m),
          \<lambda>m. Some (put_cell (Head head2) swap_tmp m),
          back_link (Head head1) (Head head1),
          back_link (Head head2) (Head head2)])"

end
