(* ===== verification/QueueSpec.thy ===== *)
theory QueueSpec
  imports Queue
begin

text \<open>
  The lists of \<^verbatim>\<open>ck/ck_queue.h\<close> as sequences of elements: what a head denotes, that every macro performs
  the operation on the sequence it is named after, and that a reader who traverses the list between the
  stores of a writer sees the sequence before or after the operation.
\<close>

section \<open>Sequences in memory\<close>

text \<open>\<open>path m p xs\<close>: the links from the place \<open>p\<close> run through \<open>xs\<close> to the end. \<open>end_place p ys\<close> is the
  place where what follows \<open>ys\<close> hangs.\<close>

fun path :: "qmem \<Rightarrow> place \<Rightarrow> nat list \<Rightarrow> bool" where
  "path m p [] \<longleftrightarrow> cell m p = None"
| "path m p (x # xs) \<longleftrightarrow> cell m p = Some x \<and> path m (Link x) xs"

fun end_place :: "place \<Rightarrow> nat list \<Rightarrow> place" where
  "end_place p [] = p"
| "end_place p (x # xs) = end_place (Link x) xs"

fun backs :: "qmem \<Rightarrow> place \<Rightarrow> nat list \<Rightarrow> bool" where
  "backs m p [] \<longleftrightarrow> True"
| "backs m p (x # xs) \<longleftrightarrow> prev_of m x = p \<and> backs m (Link x) xs"

lemma end_place_append [simp]: "end_place p (xs @ ys) = end_place (end_place p xs) ys"
  by (induction xs arbitrary: p) auto

lemma end_place_in: "end_place p xs = p \<or> end_place p xs \<in> Link ` set xs"
  by (induction xs arbitrary: p) auto

lemma end_place_eq: "end_place p xs = Link e \<Longrightarrow> p \<noteq> Link e \<Longrightarrow> e \<in> set xs"
  using end_place_in [of p xs] by auto

lemma path_frame:
  "path m p xs \<Longrightarrow> cell m' p = cell m p \<Longrightarrow> \<forall>x\<in>set xs. cell m' (Link x) = cell m (Link x) \<Longrightarrow> path m' p xs"
  by (induction xs arbitrary: p) auto

lemma path_put: "path m p xs \<Longrightarrow> q \<noteq> p \<Longrightarrow> q \<notin> Link ` set xs \<Longrightarrow> path (put_cell q v m) p xs"
  by (rule path_frame) auto

lemma path_cell [simp]: "path (put_last h q m) p xs = path m p xs" "path (put_prev e q m) p xs = path m p xs"
  by (induction xs arbitrary: p) auto

lemma backs_frame: "backs m p xs \<Longrightarrow> \<forall>x\<in>set xs. prev_of m' x = prev_of m x \<Longrightarrow> backs m' p xs"
  by (induction xs arbitrary: p) auto

lemma backs_cell [simp]: "backs (put_cell q v m) p xs = backs m p xs" "backs (put_last h q m) p xs = backs m p xs"
  by (induction xs arbitrary: p) auto

lemma path_append:
  "path m p (ys @ zs) \<Longrightarrow> cell m (end_place p ys) = (case zs of [] \<Rightarrow> None | z # _ \<Rightarrow> Some z)"
  by (induction ys arbitrary: p) (auto split: list.splits)

lemma path_end: "path m p xs \<Longrightarrow> cell m (end_place p xs) = None"
  using path_append [of m p xs "[]"] by simp

lemma path_unique: "path m p xs \<Longrightarrow> path m p ys \<Longrightarrow> xs = ys"
  by (induction xs arbitrary: p ys; case_tac ys) auto

lemma path_length: "path m p xs \<Longrightarrow> length xs < n \<Longrightarrow> foreach n m p = Some xs"
proof (induction xs arbitrary: p n)
  case Nil
  then show ?case by (cases n) (auto simp: pr_simps)
next
  case (Cons x xs)
  then show ?case by (cases n) (auto simp: pr_simps)
qed

lemma foreach_path: "foreach n m p = Some xs \<Longrightarrow> path m p xs"
  by (induction n arbitrary: p xs) (auto simp: pr_simps split: option.splits)

text \<open>Linking an element in, and out.\<close>

lemma path_insert:
  assumes "path m p (ys @ zs)" "distinct (ys @ zs)" "e \<notin> set (ys @ zs)" "p \<notin> Link ` set (e # ys @ zs)"
    and "cell m' (Link e) = cell m (end_place p ys)" "cell m' (end_place p ys) = Some e"
    and "\<And>q. q \<noteq> Link e \<Longrightarrow> q \<noteq> end_place p ys \<Longrightarrow> cell m' q = cell m q"
  shows "path m' p (ys @ e # zs)"
  using assms
proof (induction ys arbitrary: p)
  case Nil
  have "\<forall>x\<in>set zs. cell m' (Link x) = cell m (Link x)" using Nil.prems by (intro ballI Nil.prems(7)) auto
  then show ?case using Nil by (cases zs) (auto intro!: path_frame [of m])
next
  case (Cons y ys)
  have "end_place (Link y) ys \<noteq> p" using end_place_in [of "Link y" ys] Cons.prems(4) by auto
  then have "cell m' p = Some y" using Cons.prems by auto
  moreover have "path m' (Link y) (ys @ e # zs)" using Cons.prems by (intro Cons.IH) auto
  ultimately show ?case by simp
qed

lemma path_remove:
  assumes "path m p (ys @ x # zs)" "distinct (ys @ x # zs)" "p \<notin> Link ` set (ys @ x # zs)"
    and "cell m' (end_place p ys) = cell m (Link x)"
    and "\<And>q. q \<noteq> end_place p ys \<Longrightarrow> cell m' q = cell m q"
  shows "path m' p (ys @ zs)"
  using assms
proof (induction ys arbitrary: p)
  case Nil
  have "\<forall>x\<in>set zs. cell m' (Link x) = cell m (Link x)" using Nil.prems by (intro ballI Nil.prems(5)) auto
  then show ?case using Nil by (cases zs) (auto intro!: path_frame [of m])
next
  case (Cons y ys)
  have "end_place (Link y) ys \<noteq> p" using end_place_in [of "Link y" ys] Cons.prems(3) by auto
  then have "cell m' p = Some y" using Cons.prems by auto
  moreover have "path m' (Link y) (ys @ zs)" using Cons.prems by (intro Cons.IH) auto
  ultimately show ?case by simp
qed

lemma path_concat:
  assumes "path m p xs" "path m q ys" "distinct xs" "set xs \<inter> set ys = {}" "p \<notin> Link ` (set xs \<union> set ys)"
    and "cell m' (end_place p xs) = cell m q"
    and "\<And>r. r \<noteq> end_place p xs \<Longrightarrow> r \<noteq> q \<Longrightarrow> cell m' r = cell m r" "q \<notin> Link ` (set xs \<union> set ys)" "q \<noteq> p"
  shows "path m' p (xs @ ys)"
  using assms
proof (induction xs arbitrary: p)
  case Nil
  have "\<forall>x\<in>set ys. cell m' (Link x) = cell m (Link x)" using Nil.prems by (intro ballI Nil.prems(7)) auto
  then show ?case using Nil by (cases ys) (auto intro!: path_frame [of m])
next
  case (Cons x xs)
  have "end_place (Link x) xs \<noteq> p" using end_place_in [of "Link x" xs] Cons.prems(5) by auto
  then have "cell m' p = Some x" using Cons.prems by auto
  moreover have "path m' (Link x) (xs @ ys)" using Cons.prems by (intro Cons.IH) auto
  ultimately show ?case by simp
qed

lemma backs_append: "backs m p (ys @ zs) \<longleftrightarrow> backs m p ys \<and> backs m (end_place p ys) zs"
  by (induction ys arbitrary: p) auto

section \<open>The lists\<close>

definition slist :: "qmem \<Rightarrow> nat \<Rightarrow> nat list \<Rightarrow> bool" where
  "slist m h xs \<longleftrightarrow> path m (Head h) xs \<and> distinct xs"

definition stailq :: "qmem \<Rightarrow> nat \<Rightarrow> nat list \<Rightarrow> bool" where
  "stailq m h xs \<longleftrightarrow> slist m h xs \<and> last_of m h = end_place (Head h) xs"

definition dlist :: "qmem \<Rightarrow> nat \<Rightarrow> nat list \<Rightarrow> bool" where
  "dlist m h xs \<longleftrightarrow> slist m h xs \<and> backs m (Head h) xs"

lemma slist_insert:
  assumes "slist m h (ys @ zs)" "e \<notin> set (ys @ zs)"
    and "cell m' = (cell m)(Link e := cell m (end_place (Head h) ys), end_place (Head h) ys := Some e)"
  shows "slist m' h (ys @ e # zs)"
proof -
  have "end_place (Head h) ys \<noteq> Link e" using end_place_eq [of "Head h" ys e] assms(2) by auto
  moreover have a: "path m (Head h) (ys @ zs)" "distinct (ys @ zs)" using assms(1) by (simp_all only: slist_def)
  ultimately have "path m' (Head h) (ys @ e # zs)" by (intro path_insert [OF a assms(2)]) (auto simp: assms(3))
  then show ?thesis using a(2) assms(2) by (auto simp: slist_def)
qed

lemma slist_remove:
  assumes "slist m h (ys @ x # zs)" "cell m' = (cell m)(end_place (Head h) ys := cell m (Link x))"
  shows "slist m' h (ys @ zs)"
proof -
  have a: "path m (Head h) (ys @ x # zs)" "distinct (ys @ x # zs)" using assms(1) by (simp_all only: slist_def)
  then have "path m' (Head h) (ys @ zs)" by (rule path_remove) (auto simp: assms(2))
  then show ?thesis using a(2) by (simp add: slist_def)
qed

lemma slist_cong: "cell m' = cell m \<Longrightarrow> slist m' h xs = slist m h xs"
  using path_frame [of m "Head h" xs m'] path_frame [of m' "Head h" xs m] by (auto simp: slist_def)

lemma slist_unlinked: "slist m h xs \<Longrightarrow> e \<notin> set xs \<Longrightarrow> slist (put_cell (Link e) v m) h xs"
  by (auto simp: slist_def intro: path_put)

lemma slist_other:
  assumes "slist m h xs" "slist m h' us" "h' \<noteq> h" "set xs \<inter> set us = {}" "e \<notin> set us"
    and "\<And>q. q \<noteq> Link e \<Longrightarrow> q \<noteq> Head h \<Longrightarrow> q \<notin> Link ` set xs \<Longrightarrow> cell m' q = cell m q"
  shows "slist m' h' us"
proof -
  have "cell m' (Head h') = cell m (Head h')" using assms(3) by (intro assms(6)) auto
  moreover have "\<forall>x\<in>set us. cell m' (Link x) = cell m (Link x)" using assms(4,5) by (intro ballI assms(6)) auto
  ultimately show ?thesis using assms(2) path_frame [of m "Head h'" us m'] by (simp add: slist_def)
qed

lemma slist_cells:
  assumes "slist m h (ys @ zs)"
  shows "cell m (end_place (Head h) ys) = (case zs of [] \<Rightarrow> None | z # _ \<Rightarrow> Some z)"
  using assms path_append by (simp add: slist_def)

lemma slist_link:
  assumes "slist m h (ys @ a # zs)"
  shows "cell m (Link a) = (case zs of [] \<Rightarrow> None | z # _ \<Rightarrow> Some z)" "cell m (end_place (Head h) ys) = Some a"
  using slist_cells [of m h "ys @ [a]" zs] slist_cells [of m h ys "a # zs"] assms by simp_all

lemma find_before_path:
  "path m p (ys @ a # x # zs) \<Longrightarrow> distinct (ys @ a # x # zs) \<Longrightarrow> find_before m (cell m p) x = Some a"
proof (induction ys arbitrary: p)
  case Nil
  then show ?case by (simp add: find_before.simps)
next
  case (Cons y ys)
  have "path m (Link y) (ys @ a # x # zs)" using Cons.prems by simp
  moreover from this have "cell m (Link y) \<noteq> Some x" using Cons.prems(2) by (cases ys) auto
  ultimately show ?case using Cons.IH [of "Link y"] Cons.prems by (subst find_before.simps) simp
qed

lemma slist_find:
  "slist m h (ys @ a # x # zs) \<Longrightarrow> find_before m (cell m (Head h)) x = Some a"
  unfolding slist_def by (rule find_before_path) auto

lemma first_not_later: "slist m h (ys @ a # x # zs) \<Longrightarrow> cell m (Head h) \<noteq> Some x"
  by (cases ys) (auto simp: slist_def)

lemma end_place_snoc [simp]: "end_place p (ys @ [a]) = Link a"
  by simp

subsection \<open>Singly-linked lists\<close>

lemma slist_insert_head:
  assumes "slist m h xs" "e \<notin> set xs"
  shows "\<exists>m'. run (CK_SLIST_INSERT_HEAD h e) m = Some m' \<and> slist m' h (e # xs)"
  using slist_insert [of m h "[]" xs e] assms by (simp add: CK_SLIST_INSERT_HEAD_def)

lemma slist_insert_after:
  assumes "slist m h (ys @ a # zs)" "e \<notin> set (ys @ a # zs)"
  shows "\<exists>m'. run (CK_SLIST_INSERT_AFTER a e) m = Some m' \<and> slist m' h (ys @ a # e # zs)"
  using slist_insert [of m h "ys @ [a]" zs e] assms by (simp add: CK_SLIST_INSERT_AFTER_def)

lemma slist_remove_head:
  assumes "slist m h (x # xs)"
  shows "\<exists>m'. run (CK_SLIST_REMOVE_HEAD h) m = Some m' \<and> slist m' h xs"
  using slist_remove [of m h "[]" x xs] slist_link [of m h "[]" x xs] assms by (simp add: CK_SLIST_REMOVE_HEAD_def)

lemma slist_remove_after:
  assumes "slist m h (ys @ a # x # zs)"
  shows "\<exists>m'. run (CK_SLIST_REMOVE_AFTER a) m = Some m' \<and> slist m' h (ys @ a # zs)"
  using slist_remove [of m h "ys @ [a]" x zs] slist_link [of m h ys a "x # zs"] assms
  by (simp add: CK_SLIST_REMOVE_AFTER_def)

lemma slist_remove_elem:
  assumes "slist m h (ys @ x # zs)"
  shows "\<exists>m'. run (CK_SLIST_REMOVE h x) m = Some m' \<and> slist m' h (ys @ zs)"
proof (cases ys rule: rev_cases)
  case Nil
  then show ?thesis using assms slist_remove_head [of m h x zs]
    by (auto simp: CK_SLIST_REMOVE_def slist_def CK_SLIST_REMOVE_HEAD_def)
next
  case (snoc ys' a)
  then have *: "slist m h (ys' @ a # x # zs)" using assms by simp
  show ?thesis using slist_remove_after [OF *] slist_find [OF *] first_not_later [OF *] snoc
    by (auto simp: CK_SLIST_REMOVE_def CK_SLIST_REMOVE_AFTER_def split: Option.bind_splits)
qed

subsection \<open>Tail queues\<close>

lemma end_place_indep: "xs \<noteq> [] \<Longrightarrow> end_place p xs = end_place q xs"
  by (cases xs) auto

lemma end_place_head: "end_place (Head h) xs = Head h' \<longleftrightarrow> xs = [] \<and> h = h'"
  using end_place_in [of "Link (hd xs)" "tl xs"] by (cases xs) auto

lemma stailq_insert:
  assumes "stailq m h (ys @ zs)" "e \<notin> set (ys @ zs)"
    and "cell m' = (cell m)(Link e := cell m (end_place (Head h) ys), end_place (Head h) ys := Some e)"
    and "last_of m' h = (if zs = [] then Link e else last_of m h)"
  shows "stailq m' h (ys @ e # zs)"
  using slist_insert [of m h ys zs e m'] assms end_place_indep [of zs "end_place (Head h) ys" "Link e"]
  by (auto simp: stailq_def)

lemma stailq_remove:
  assumes "stailq m h (ys @ x # zs)" "cell m' = (cell m)(end_place (Head h) ys := cell m (Link x))"
    and "last_of m' h = (if zs = [] then end_place (Head h) ys else last_of m h)"
  shows "stailq m' h (ys @ zs)"
  using slist_remove [of m h ys x zs m'] assms end_place_indep [of zs "end_place (Head h) ys" "Link x"]
  by (auto simp: stailq_def)

lemma stailq_insert_head:
  assumes "stailq m h xs" "e \<notin> set xs"
  shows "\<exists>m'. run (CK_STAILQ_INSERT_HEAD h e) m = Some m' \<and> stailq m' h (e # xs)"
proof -
  have "cell m (Head h) = None \<longleftrightarrow> xs = []"
    using slist_cells [of m h "[]" xs] assms(1) by (simp add: stailq_def split: list.splits)
  then show ?thesis using stailq_insert [of m h "[]" xs e] assms
    by (simp add: CK_STAILQ_INSERT_HEAD_def tail_if_last_def)
qed

lemma stailq_insert_after:
  assumes "stailq m h (ys @ a # zs)" "e \<notin> set (ys @ a # zs)"
  shows "\<exists>m'. run (CK_STAILQ_INSERT_AFTER h a e) m = Some m' \<and> stailq m' h (ys @ a # e # zs)"
proof -
  have "cell m (Link a) = None \<longleftrightarrow> zs = []"
    using slist_link [of m h ys a zs] assms(1) by (simp add: stailq_def split: list.splits)
  then show ?thesis using stailq_insert [of m h "ys @ [a]" zs e] assms
    by (simp add: CK_STAILQ_INSERT_AFTER_def tail_if_last_def)
qed

lemma stailq_insert_tail:
  assumes "stailq m h xs" "e \<notin> set xs"
  shows "\<exists>m'. run (CK_STAILQ_INSERT_TAIL h e) m = Some m' \<and> stailq m' h (xs @ [e])"
proof -
  have l: "last_of m h = end_place (Head h) xs" "cell m (end_place (Head h) xs) = None"
    using assms(1) slist_cells [of m h xs "[]"] by (simp_all add: stailq_def)
  then show ?thesis using stailq_insert [of m h xs "[]" e] assms
    by (simp add: CK_STAILQ_INSERT_TAIL_def)
qed

lemma stailq_remove_head:
  assumes "stailq m h (x # xs)"
  shows "\<exists>m'. run (CK_STAILQ_REMOVE_HEAD h) m = Some m' \<and> stailq m' h xs"
proof -
  have "cell m (Link x) = None \<longleftrightarrow> xs = []" "cell m (Head h) = Some x"
    using slist_link [of m h "[]" x xs] assms by (simp_all add: stailq_def split: list.splits)
  then show ?thesis using stailq_remove [of m h "[]" x xs] assms
    by (simp add: CK_STAILQ_REMOVE_HEAD_def tail_if_last_def)
qed

lemma stailq_remove_after:
  assumes "stailq m h (ys @ a # x # zs)"
  shows "\<exists>m'. run (CK_STAILQ_REMOVE_AFTER h a) m = Some m' \<and> stailq m' h (ys @ a # zs)"
proof -
  have "cell m (Link x) = None \<longleftrightarrow> zs = []" "cell m (Link a) = Some x"
    using slist_link [of m h "ys @ [a]" x zs] slist_link [of m h ys a "x # zs"] assms
    by (simp_all add: stailq_def split: list.splits)
  then show ?thesis using stailq_remove [of m h "ys @ [a]" x zs] assms
    by (simp add: CK_STAILQ_REMOVE_AFTER_def tail_if_last_def)
qed

lemma stailq_remove_elem:
  assumes "stailq m h (ys @ x # zs)"
  shows "\<exists>m'. Option.bind (CK_STAILQ_REMOVE h x m) (\<lambda>ss. run ss m) = Some m' \<and> stailq m' h (ys @ zs)"
proof (cases ys rule: rev_cases)
  case Nil
  then have "cell m (Head h) = Some x" using assms by (simp add: stailq_def slist_def)
  then show ?thesis using Nil assms stailq_remove_head [of m h x zs] by (simp add: CK_STAILQ_REMOVE_def)
next
  case (snoc ys' a)
  then have *: "stailq m h (ys' @ a # x # zs)" and s: "slist m h (ys' @ a # x # zs)"
    using assms by (simp_all add: stailq_def)
  show ?thesis using stailq_remove_after [OF *] slist_find [OF s] first_not_later [OF s] snoc
    by (simp add: CK_STAILQ_REMOVE_def)
qed

lemma stailq_concat:
  assumes "stailq m h xs" "stailq m h2 us" "h2 \<noteq> h" "set xs \<inter> set us = {}"
  shows "\<exists>m'. run (CK_STAILQ_CONCAT h h2 m) m = Some m' \<and> stailq m' h (xs @ us) \<and> stailq m' h2 []"
proof (cases "us = []")
  case True
  then have "cell m (Head h2) = None" using assms(2) by (simp add: stailq_def slist_def)
  then show ?thesis using assms True by (simp add: CK_STAILQ_CONCAT_def)
next
  case False
  then obtain u where u: "cell m (Head h2) = Some u" using assms(2) by (cases us) (auto simp: stailq_def slist_def)
  have e: "last_of m h = end_place (Head h) xs" "last_of m h2 = end_place (Head h2) us"
    and d: "distinct xs" "distinct us" "path m (Head h) xs" "path m (Head h2) us"
    using assms(1,2) by (auto simp: stailq_def slist_def)
  have n: "end_place (Head h) xs \<noteq> Head h2" using end_place_in [of "Head h" xs] assms(3) by auto
  let ?m = "put_last h2 (Head h2) (put_cell (Head h2) None (put_last h (end_place (Head h2) us)
     (put_cell (end_place (Head h) xs) (Some u) m)))"
  have "path ?m (Head h) (xs @ us)"
    using d(1,3,4) assms(3,4) u n by (intro path_concat [of m _ _ "Head h2"]) auto
  then have "stailq ?m h (xs @ us)"
    using d assms(3,4) False end_place_indep [of us "end_place (Head h) xs" "Head h2"]
    by (auto simp: stailq_def slist_def)
  moreover have "stailq ?m h2 []" by (simp add: stailq_def slist_def)
  ultimately show ?thesis using u e assms(3) n by (simp add: CK_STAILQ_CONCAT_def CK_STAILQ_INIT_def)
qed

lemma path_from:
  assumes "path m p us" "cell m' q = cell m p" "\<And>u. u \<in> set us \<Longrightarrow> cell m' (Link u) = cell m (Link u)"
  shows "path m' q us"
  using assms path_frame by (cases us) (auto intro: path_frame [of m])

lemma stailq_move:
  assumes "stailq m h2 us" "h2 \<noteq> h"
  shows "\<exists>m'. run (CK_STAILQ_MOVE h h2) m = Some m' \<and> stailq m' h us"
proof -
  have e: "last_of m h2 = Head h2 \<longleftrightarrow> us = []" "last_of m h2 = end_place (Head h2) us"
    using assms(1) end_place_head [of h2 us h2] by (auto simp: stailq_def)
  let ?m = "if us = [] then put_last h (Head h) (put_last h (last_of m h2) (put_cell (Head h) (cell m (Head h2)) m))
     else put_last h (last_of m h2) (put_cell (Head h) (cell m (Head h2)) m)"
  have "run (CK_STAILQ_MOVE h h2) m = Some ?m" using e assms(2) by (simp add: CK_STAILQ_MOVE_def)
  moreover have "path m (Head h2) us" using assms(1) by (simp add: stailq_def slist_def)
  then have "path ?m (Head h) us" by (rule path_from) auto
  ultimately show ?thesis
    using assms(1) e end_place_indep [of us "Head h" "Head h2"] by (auto simp: stailq_def slist_def)
qed

subsection \<open>Doubly-linked lists\<close>

lemma dlist_insert:
  assumes d: "dlist m h (ys @ zs)" and e: "e \<notin> set (ys @ zs)"
    and c: "cell m' = (cell m)(Link e := cell m (end_place (Head h) ys), end_place (Head h) ys := Some e)"
    and p: "prev_of m' = (case zs of [] \<Rightarrow> (prev_of m)(e := end_place (Head h) ys)
      | z # _ \<Rightarrow> (prev_of m)(e := end_place (Head h) ys, z := Link e))"
  shows "dlist m' h (ys @ e # zs)"
proof -
  have di: "distinct (ys @ zs)" and b: "backs m (Head h) ys" "backs m (end_place (Head h) ys) zs"
    using d by (auto simp: dlist_def slist_def backs_append)
  have "backs m' (Head h) ys" using b(1) p e di by (intro backs_frame [OF b(1)]) (auto split: list.splits)
  moreover have "prev_of m' e = end_place (Head h) ys" using p e by (auto split: list.splits)
  moreover have "backs m' (Link e) zs"
  proof (cases zs)
    case (Cons z zs')
    then have "backs m (Link z) zs'" using b(2) by simp
    then have "backs m' (Link z) zs'" by (rule backs_frame) (use Cons p e di in auto)
    then show ?thesis using Cons p by simp
  qed simp
  ultimately show ?thesis using slist_insert [of m h ys zs e m'] d e c by (simp add: dlist_def backs_append)
qed

lemma dlist_remove:
  assumes d: "dlist m h (ys @ x # zs)"
    and c: "cell m' = (cell m)(end_place (Head h) ys := cell m (Link x))"
    and p: "prev_of m' = (case zs of [] \<Rightarrow> prev_of m | z # _ \<Rightarrow> (prev_of m)(z := end_place (Head h) ys))"
  shows "dlist m' h (ys @ zs)"
proof -
  have di: "distinct (ys @ x # zs)" and b: "backs m (Head h) ys" "backs m (Link x) zs"
    using d by (auto simp: dlist_def slist_def backs_append)
  have "backs m' (Head h) ys" using p di by (intro backs_frame [OF b(1)]) (auto split: list.splits)
  moreover have "backs m' (end_place (Head h) ys) zs"
  proof (cases zs)
    case (Cons z zs')
    then have "backs m (Link z) zs'" using b(2) by simp
    then have "backs m' (Link z) zs'" by (rule backs_frame) (use Cons p di in auto)
    then show ?thesis using Cons p by simp
  qed simp
  ultimately show ?thesis using slist_remove [of m h ys x zs m'] d c by (simp add: dlist_def backs_append)
qed

lemma dlist_slist: "dlist m h xs \<Longrightarrow> slist m h xs"
  by (simp add: dlist_def)

lemma dlist_prev: "dlist m h (ys @ a # zs) \<Longrightarrow> prev_of m a = end_place (Head h) ys"
  by (simp add: dlist_def backs_append)

lemma dlist_insert_head:
  assumes "dlist m h xs" "e \<notin> set xs"
  shows "\<exists>m'. run (CK_LIST_INSERT_HEAD h e) m = Some m' \<and> dlist m' h (e # xs)"
proof (cases xs)
  case Nil
  then have "cell m (Head h) = None" using assms(1) by (simp add: dlist_def slist_def)
  then show ?thesis using Nil dlist_insert [of m h "[]" "[]" e] assms by (simp add: CK_LIST_INSERT_HEAD_def)
next
  case (Cons x xs')
  then have "cell m (Head h) = Some x" using assms(1) by (simp add: dlist_def slist_def)
  moreover have "x \<noteq> e" using Cons assms(2) by auto
  ultimately show ?thesis using Cons dlist_insert [of m h "[]" "x # xs'" e] assms
    by (simp add: CK_LIST_INSERT_HEAD_def fun_upd_twist)
qed

lemma dlist_insert_after:
  assumes "dlist m h (ys @ a # zs)" "e \<notin> set (ys @ a # zs)"
  shows "\<exists>m'. run (CK_LIST_INSERT_AFTER a e) m = Some m' \<and> dlist m' h (ys @ a # e # zs)"
proof -
  have "cell m (Link a) = (case zs of [] \<Rightarrow> None | z # _ \<Rightarrow> Some z)"
    using slist_link [OF dlist_slist [OF assms(1)]] by simp
  moreover have "a \<noteq> e" using assms(2) by auto
  ultimately show ?thesis using dlist_insert [of m h "ys @ [a]" zs e] assms
    by (simp add: CK_LIST_INSERT_AFTER_def back_link_def split: list.splits)
qed

lemma dlist_insert_before:
  assumes "dlist m h (ys @ a # zs)" "e \<notin> set (ys @ a # zs)"
  shows "\<exists>m'. run (CK_LIST_INSERT_BEFORE a e) m = Some m' \<and> dlist m' h (ys @ e # a # zs)"
proof -
  have "prev_of m a = end_place (Head h) ys" "cell m (end_place (Head h) ys) = Some a"
    using dlist_prev [OF assms(1)] slist_link [OF dlist_slist [OF assms(1)]] by simp_all
  moreover have "a \<noteq> e" using assms(2) by auto
  ultimately show ?thesis using dlist_insert [of m h ys "a # zs" e] assms
    by (simp add: CK_LIST_INSERT_BEFORE_def)
qed

lemma dlist_remove_elem:
  assumes "dlist m h (ys @ x # zs)"
  shows "\<exists>m'. run (CK_LIST_REMOVE x) m = Some m' \<and> dlist m' h (ys @ zs)"
proof -
  have p: "prev_of m x = end_place (Head h) ys" "cell m (Link x) = (case zs of [] \<Rightarrow> None | z # _ \<Rightarrow> Some z)"
    using dlist_prev [OF assms(1)] slist_link [OF dlist_slist [OF assms(1)]] by simp_all
  have "end_place (Head h) ys \<noteq> Link x"
    using end_place_eq [of "Head h" ys x] assms by (auto simp: dlist_def slist_def)
  then show ?thesis using p dlist_remove [OF assms]
    by (simp add: CK_LIST_REMOVE_def back_link_def split: list.splits)
qed

lemma dlist_from:
  assumes "dlist m h2 us" "cell m' (Head h) = cell m (Head h2)"
    and "\<And>u. u \<in> set us \<Longrightarrow> cell m' (Link u) = cell m (Link u)"
    and "\<And>u. u \<in> set us \<Longrightarrow> prev_of m' u = (if cell m (Head h2) = Some u then Head h else prev_of m u)"
  shows "dlist m' h us"
proof -
  have "path m (Head h2) us" using assms(1) by (simp add: dlist_def slist_def)
  then have "path m' (Head h) us" by (rule path_from) (use assms(2,3) in auto)
  moreover have "backs m' (Head h) us"
  proof (cases us)
    case (Cons u us')
    then have f: "cell m (Head h2) = Some u" "u \<notin> set us'" and b: "backs m (Link u) us'"
      using assms(1) by (auto simp: dlist_def slist_def)
    have "backs m' (Link u) us'" using assms(4) Cons f by (intro backs_frame [OF b]) auto
    then show ?thesis using assms(4) Cons f by simp
  qed simp
  ultimately show ?thesis using assms(1) by (simp add: dlist_def slist_def)
qed

lemma dlist_move:
  assumes "dlist m h2 us" "h2 \<noteq> h"
  shows "\<exists>m'. run (CK_LIST_MOVE h h2) m = Some m' \<and> dlist m' h us"
  using dlist_from [OF assms(1), of _ h] by (auto simp: CK_LIST_MOVE_def back_link_def split: option.splits)

lemma list_swap_mem:
  assumes "h2 \<noteq> h" "\<And>u. cell m (Head h) = Some u \<Longrightarrow> cell m (Head h2) \<noteq> Some u"
  shows "\<exists>m'. run (CK_LIST_SWAP h h2 m) m = Some m' \<and>
     cell m' = (cell m)(Head h := cell m (Head h2), Head h2 := cell m (Head h)) \<and>
     (\<forall>u. prev_of m' u = (if cell m (Head h2) = Some u then Head h else
        if cell m (Head h) = Some u then Head h2 else prev_of m u))"
  using assms
  by (cases "cell m (Head h)"; cases "cell m (Head h2)") (simp_all add: CK_LIST_SWAP_def back_link_def)

lemma dlist_first: "dlist m h xs \<Longrightarrow> cell m (Head h) = Some u \<Longrightarrow> u \<in> set xs"
  by (cases xs) (auto simp: dlist_def slist_def)

lemma dlist_swap:
  assumes "dlist m h xs" "dlist m h2 us" "h2 \<noteq> h" "set xs \<inter> set us = {}"
  shows "\<exists>m'. run (CK_LIST_SWAP h h2 m) m = Some m' \<and> dlist m' h us \<and> dlist m' h2 xs"
proof -
  note x = dlist_first [OF assms(1)] dlist_first [OF assms(2)]
  obtain m' where m': "run (CK_LIST_SWAP h h2 m) m = Some m'"
    "cell m' = (cell m)(Head h := cell m (Head h2), Head h2 := cell m (Head h))"
    "\<And>u. prev_of m' u = (if cell m (Head h2) = Some u then Head h else
        if cell m (Head h) = Some u then Head h2 else prev_of m u)"
    using list_swap_mem [OF assms(3), of m] x assms(4) by blast
  have "dlist m' h us" using assms(3,4) x m'(2,3) by (intro dlist_from [OF assms(2)]) auto
  moreover have "dlist m' h2 xs" using assms(3,4) x m'(2,3) by (intro dlist_from [OF assms(1)]) auto
  ultimately show ?thesis using m'(1) by blast
qed

subsection \<open>Traversal\<close>

fun from_var :: "qmem \<Rightarrow> nat option \<Rightarrow> nat list \<Rightarrow> bool" where
  "from_var m var [] \<longleftrightarrow> var = None"
| "from_var m var (x # xs) \<longleftrightarrow> var = Some x \<and> path m (Link x) xs"

lemma path_from_var: "path m p xs \<longleftrightarrow> from_var m (cell m p) xs"
  by (cases xs) auto

lemma foreach_safe_var:
  assumes "from_var m var xs" "distinct xs" "length xs < n"
  shows "map_option fst (foreach_safe n (\<lambda>x m. Some (put_cell (Link x) v m)) var m) = Some xs"
  using assms
proof (induction xs arbitrary: m var n)
  case Nil
  then show ?case by (cases n) auto
next
  case (Cons x xs)
  then obtain k where n: "n = Suc k" "length xs < k" by (cases n) auto
  have "from_var (put_cell (Link x) v m) (cell m (Link x)) xs"
    using Cons.prems by (cases xs) (auto intro!: path_put)
  then have "map_option fst (foreach_safe k (\<lambda>x m. Some (put_cell (Link x) v m)) (cell m (Link x))
      (put_cell (Link x) v m)) = Some xs" using Cons.prems n by (intro Cons.IH) auto
  then show ?case using Cons.prems n by (auto simp: pr_simps)
qed

text \<open>The traversals of a list: the plain one, the one that hands out the places, and the one whose body
  overwrites the link of the element it is given.\<close>

lemma foreach_prevptr_path:
  "path m p xs \<Longrightarrow> length xs < n \<Longrightarrow>
     foreach_prevptr n m p = Some (zip xs (map (\<lambda>k. end_place p (take k xs)) [0..<length xs]))"
proof (induction xs arbitrary: p n)
  case Nil
  then show ?case by (cases n) (auto simp: pr_simps)
next
  case (Cons x xs)
  have "map (\<lambda>k. end_place p (take k (x # xs))) [0..<length (x # xs)] =
      p # map (\<lambda>k. end_place (Link x) (take k xs)) [0..<length xs]"
    by (simp add: upt_conv_Cons map_Suc_upt [symmetric] del: upt_Suc)
  with Cons show ?case by (cases n) (auto simp: pr_simps)
qed

lemma slist_traverse:
  assumes "slist m h xs"
  shows "foreach (Suc (length xs)) m (Head h) = Some xs"
    and "map_option fst (foreach_safe (Suc (length xs)) (\<lambda>x m. Some (put_cell (Link x) v m)) (cell m (Head h)) m) = Some xs"
    and "(cell m (Head h) = None) = (xs = [])" "cell m (Head h) = (case xs of [] \<Rightarrow> None | x # _ \<Rightarrow> Some x)"
proof -
  have p: "path m (Head h) xs" "distinct xs" using assms by (simp_all add: slist_def)
  show "foreach (Suc (length xs)) m (Head h) = Some xs" by (rule path_length [OF p(1)]) simp
  show "map_option fst (foreach_safe (Suc (length xs)) (\<lambda>x m. Some (put_cell (Link x) v m)) (cell m (Head h)) m) = Some xs"
    using p by (intro foreach_safe_var) (simp_all add: path_from_var)
  show "(cell m (Head h) = None) = (xs = [])" "cell m (Head h) = (case xs of [] \<Rightarrow> None | x # _ \<Rightarrow> Some x)"
    using p(1) by (cases xs; simp)+
qed

section \<open>Readers between the stores of a writer\<close>

text \<open>\<open>always P ss m\<close>: the stores \<open>ss\<close> can all be performed from \<open>m\<close>, and \<open>P\<close> holds before, between and after
  them.\<close>

fun always :: "(qmem \<Rightarrow> bool) \<Rightarrow> mstep list \<Rightarrow> qmem \<Rightarrow> bool" where
  "always P [] m \<longleftrightarrow> P m"
| "always P (s # ss) m \<longleftrightarrow> P m \<and> (case s m of None \<Rightarrow> False | Some m' \<Rightarrow> always P ss m')"

lemma always_run: "always P ss m \<Longrightarrow> \<exists>m'. run ss m = Some m' \<and> P m'"
  by (induction ss arbitrary: m) (auto split: option.splits)

lemma always_single: "always P [s] m \<longleftrightarrow> P m \<and> (\<exists>m'. run [s] m = Some m' \<and> P m')"
  by (cases "s m") simp_all

lemma slist_always_insert:
  assumes "slist m h (ys @ zs)" "e \<notin> set (ys @ zs)" "k = end_place (Head h) ys"
  shows "slist (put_cell (Link e) (cell m k) m) h (ys @ zs)"
    and "slist (put_cell k (Some e) (put_cell (Link e) (cell m k) m)) h (ys @ e # zs)"
  using assms slist_insert [OF assms(1,2)] slist_unlinked [OF assms(1,2)] by simp_all

lemma slist_puts [simp]: "slist (put_last g q m) h xs = slist m h xs" "slist (put_prev e q m) h xs = slist m h xs"
  by (simp_all add: slist_def)

lemma put_cell_prev: "put_cell p v (put_prev e q m) = put_prev e q (put_cell p v m)"
  by (simp add: put_cell_def put_prev_def)

section \<open>Properties\<close>

lemma slist_init: "\<exists>m'. run (CK_SLIST_INIT h) m = Some m' \<and> slist m' h []"
  "\<exists>m'. run (CK_STAILQ_INIT h) m = Some m' \<and> stailq m' h []"
  "\<exists>m'. run (CK_LIST_INIT h) m = Some m' \<and> dlist m' h []"
  by (simp_all add: CK_SLIST_INIT_def CK_STAILQ_INIT_def CK_LIST_INIT_def slist_def stailq_def dlist_def)

lemma slist_swap:
  assumes "slist m h xs" "slist m h2 us" "h2 \<noteq> h"
  shows "\<exists>m'. run (CK_SLIST_SWAP h h2 m) m = Some m' \<and> slist m' h us \<and> slist m' h2 xs"
proof -
  let ?m = "put_cell (Head h2) (cell m (Head h)) (put_cell (Head h) (cell m (Head h2)) m)"
  have p: "path m (Head h) xs" "path m (Head h2) us" using assms by (simp_all add: slist_def)
  have "path ?m (Head h) us" by (rule path_from [OF p(2)]) (use assms(3) in auto)
  moreover have "path ?m (Head h2) xs" by (rule path_from [OF p(1)]) auto
  ultimately show ?thesis using assms by (simp add: CK_SLIST_SWAP_def slist_def)
qed

lemma slist_move:
  assumes "slist m h2 us"
  shows "\<exists>m'. run (CK_SLIST_MOVE h h2) m = Some m' \<and> slist m' h us"
proof -
  have p: "path m (Head h2) us" using assms by (simp add: slist_def)
  have "path (put_cell (Head h) (cell m (Head h2)) m) (Head h) us" by (rule path_from [OF p]) auto
  then show ?thesis using assms by (simp add: CK_SLIST_MOVE_def slist_def)
qed

text \<open>The singly-linked list is a sequence. On a list with the elements \<open>ys @ a # zs\<close> and an
  element \<open>e\<close> outside of it, inserting at the head or after \<open>a\<close> and removing the head or \<open>a\<close> are the
  operations on the sequence, moving and swapping exchange the sequences of two heads, and all three
  traversals visit the elements in order, even when the body overwrites the link of the current one.\<close>

theorem slist_refines_sequence:
  assumes "slist m h (ys @ a # zs)" "e \<notin> set (ys @ a # zs)" "slist m h2 us" "h2 \<noteq> h"
  shows "(\<exists>m'. run (CK_SLIST_INSERT_HEAD h e) m = Some m' \<and> slist m' h (e # ys @ a # zs)) \<and>
    (\<exists>m'. run (CK_SLIST_INSERT_AFTER a e) m = Some m' \<and> slist m' h (ys @ a # e # zs)) \<and>
    (\<exists>m'. run (CK_SLIST_REMOVE_HEAD h) m = Some m' \<and> slist m' h (tl (ys @ a # zs))) \<and>
    (\<exists>m'. run (CK_SLIST_REMOVE h a) m = Some m' \<and> slist m' h (ys @ zs)) \<and>
    (\<exists>m'. run (CK_SLIST_MOVE h h2) m = Some m' \<and> slist m' h us) \<and>
    (\<exists>m'. run (CK_SLIST_SWAP h h2 m) m = Some m' \<and> slist m' h us \<and> slist m' h2 (ys @ a # zs)) \<and>
    (\<exists>m'. run (CK_SLIST_INIT h) m = Some m' \<and> slist m' h []) \<and>
    CK_SLIST_EMPTY h2 m = (us = []) \<and>
    CK_SLIST_FIRST h2 m = (case us of [] \<Rightarrow> None | u # _ \<Rightarrow> Some u) \<and>
    CK_SLIST_NEXT a m = (case zs of [] \<Rightarrow> None | z # _ \<Rightarrow> Some z) \<and>
    CK_SLIST_FOREACH (Suc (length us)) h2 m = Some us \<and>
    map_option fst (CK_SLIST_FOREACH_SAFE (Suc (length us)) (\<lambda>x m. Some (put_cell (Link x) v m)) h2 m) = Some us \<and>
    map_option (map fst) (CK_SLIST_FOREACH_PREVPTR (Suc (length us)) h2 m) = Some us"
proof -
  have "\<exists>m'. run (CK_SLIST_REMOVE_HEAD h) m = Some m' \<and> slist m' h (tl (ys @ a # zs))"
    using slist_remove_head [of m h "hd (ys @ a # zs)" "tl (ys @ a # zs)"] assms(1) by (cases ys) auto
  moreover have "map_option (map fst) (CK_SLIST_FOREACH_PREVPTR (Suc (length us)) h2 m) = Some us"
    using foreach_prevptr_path [of m "Head h2" us "Suc (length us)"] assms(3)
    by (simp add: CK_SLIST_FOREACH_PREVPTR_def slist_def del: foreach_prevptr.simps)
  ultimately show ?thesis
    using slist_insert_head [OF assms(1,2)] slist_insert_after [OF assms(1,2)] slist_remove_elem [OF assms(1)]
      slist_move [OF assms(3), of h] slist_swap [OF assms(1,3,4)] slist_init(1) [of h m]
      slist_traverse(1,3,4) [OF assms(3)] slist_traverse(2) [OF assms(3), of v] slist_link(1) [OF assms(1)]
    unfolding CK_SLIST_EMPTY_def CK_SLIST_FIRST_def CK_SLIST_NEXT_def CK_SLIST_FOREACH_def
      CK_SLIST_FOREACH_SAFE_def ck_pr_load_def append_Cons by blast
qed

text \<open>A memory that holds the list 1, 2, 3 at head 0 and the list 5 at head 1, with all links set.\<close>

definition ex_qmem :: qmem where
  "ex_qmem = \<lparr>cell = (\<lambda>_. None)(Head 0 := Some 1, Link 1 := Some 2, Link 2 := Some 3, Head 1 := Some 5),
     last_of = (\<lambda>_. Head 9)(0 := Link 3, 1 := Link 5),
     prev_of = (\<lambda>_. Head 9)(1 := Head 0, 2 := Link 1, 3 := Link 2, 5 := Head 1)\<rparr>"

lemma ex_qmem_lists:
  "slist ex_qmem 0 ([1] @ 2 # [3])" "slist ex_qmem 1 [5]" "stailq ex_qmem 0 ([1] @ 2 # [3])" "stailq ex_qmem 1 [5]"
  "dlist ex_qmem 0 ([1] @ 2 # [3])" "dlist ex_qmem 1 [5]"
  by (simp_all add: ex_qmem_def slist_def stailq_def dlist_def)

theorem slist_refines_sequence_witness:
  "(\<exists>m'. run (CK_SLIST_INSERT_AFTER 2 7) ex_qmem = Some m' \<and> slist m' 0 [1, 2, 7, 3]) \<and>
   (\<exists>m'. run (CK_SLIST_REMOVE 0 2) ex_qmem = Some m' \<and> slist m' 0 [1, 3]) \<and>
   (\<exists>m'. run (CK_SLIST_SWAP 0 1 ex_qmem) ex_qmem = Some m' \<and> slist m' 0 [5] \<and> slist m' 1 [1, 2, 3])"
  using slist_refines_sequence [where e = 7, OF ex_qmem_lists(1) _ ex_qmem_lists(2)] by simp





text \<open>Claim C16: readers may traverse during an update. Before, between and after the stores of an insertion or a
  removal, in all three kinds of list, the links from the head run through the old or the new sequence:
  a new element is linked in only when its own link is set.\<close>

theorem queue_snapshots:
  assumes "dlist m h (ys @ a # zs)" "last_of m h = end_place (Head h) (ys @ a # zs)" "e \<notin> set (ys @ a # zs)"
  shows "always (\<lambda>m'. slist m' h (ys @ a # zs) \<or> slist m' h (e # ys @ a # zs)) (CK_SLIST_INSERT_HEAD h e) m \<and>
    always (\<lambda>m'. slist m' h (ys @ a # zs) \<or> slist m' h (ys @ a # e # zs)) (CK_SLIST_INSERT_AFTER a e) m \<and>
    always (\<lambda>m'. slist m' h (ys @ a # zs) \<or> slist m' h (ys @ zs)) (CK_SLIST_REMOVE h a) m \<and>
    always (\<lambda>m'. slist m' h (ys @ a # zs) \<or> slist m' h (ys @ a # zs @ [e])) (CK_STAILQ_INSERT_TAIL h e) m \<and>
    always (\<lambda>m'. slist m' h (ys @ a # zs) \<or> slist m' h (ys @ a # e # zs)) (CK_STAILQ_INSERT_AFTER h a e) m \<and>
    always (\<lambda>m'. slist m' h (ys @ a # zs) \<or> slist m' h (ys @ a # e # zs)) (CK_LIST_INSERT_AFTER a e) m \<and>
    always (\<lambda>m'. slist m' h (ys @ a # zs) \<or> slist m' h (ys @ e # a # zs)) (CK_LIST_INSERT_BEFORE a e) m \<and>
    always (\<lambda>m'. slist m' h (ys @ a # zs) \<or> slist m' h (ys @ zs)) (CK_LIST_REMOVE a) m"
proof -
  let ?S = "\<lambda>xs m'. slist m' h (ys @ a # zs) \<or> slist m' h xs"
  have s: "slist m h (ys @ a # zs)" "slist m h ((ys @ [a]) @ zs)" "slist m h ((ys @ a # zs) @ [])"
    "e \<notin> set ((ys @ [a]) @ zs)" "e \<notin> set ((ys @ a # zs) @ [])"
    using assms(1,3) by (simp_all add: dlist_def)
  have n: "cell m (Link a) = (case zs of [] \<Rightarrow> None | z # _ \<Rightarrow> Some z)" "cell m (end_place (Head h) ys) = Some a"
    "prev_of m a = end_place (Head h) ys" "cell m (end_place (Head h) (ys @ a # zs)) = None" "a \<noteq> e"
    using slist_link [OF s(1)] dlist_prev [OF assms(1)] slist_cells [OF s(3)] assms(3) by auto
  note i = slist_always_insert [OF s(1) assms(3)] slist_always_insert [OF s(2,4)] slist_always_insert [OF s(3,5)]
  have 1: "always (?S (e # ys @ a # zs)) (CK_SLIST_INSERT_HEAD h e) m"
    using s(1) slist_always_insert [of m h "[]" "ys @ a # zs" e "Head h"] assms(3) by (simp add: CK_SLIST_INSERT_HEAD_def)
  have 2: "always (?S (ys @ a # e # zs)) (CK_SLIST_INSERT_AFTER a e) m"
    using s(1) i(3,4) by (simp add: CK_SLIST_INSERT_AFTER_def)
  have 3: "always (?S (ys @ zs)) (CK_SLIST_REMOVE h a) m"
    using s(1) slist_remove_elem [OF s(1)] unfolding CK_SLIST_REMOVE_def always_single by blast
  have 4: "always (?S (ys @ a # zs @ [e])) (CK_STAILQ_INSERT_TAIL h e) m"
    using s(1) i(5,6) n assms(2) by (simp add: CK_STAILQ_INSERT_TAIL_def)
  have 5: "always (?S (ys @ a # e # zs)) (CK_STAILQ_INSERT_AFTER h a e) m"
    using s(1) i(3,4) by (simp add: CK_STAILQ_INSERT_AFTER_def tail_if_last_def)
  have 6: "always (?S (ys @ a # e # zs)) (CK_LIST_INSERT_AFTER a e) m"
    using s(1) i(3,4) n(5) by (cases "cell m (Link a)") (simp_all add: CK_LIST_INSERT_AFTER_def back_link_def put_cell_prev)
  have 7: "always (?S (ys @ e # a # zs)) (CK_LIST_INSERT_BEFORE a e) m"
    using s(1) i(1,2) n by (simp add: CK_LIST_INSERT_BEFORE_def put_cell_prev)
  have 8: "always (?S (ys @ zs)) (CK_LIST_REMOVE a) m"
    using s(1) slist_remove [OF s(1)] n by (simp add: CK_LIST_REMOVE_def back_link_def split: option.splits)
  show ?thesis using 1 2 3 4 5 6 7 8 by (simp only: simp_thms)
qed

theorem queue_snapshots_witness:
  "always (\<lambda>m'. slist m' 0 [1, 2, 3] \<or> slist m' 0 [1, 2, 7, 3]) (CK_LIST_INSERT_AFTER 2 7) ex_qmem \<and>
   always (\<lambda>m'. slist m' 0 [1, 2, 3] \<or> slist m' 0 [1, 3]) (CK_LIST_REMOVE 2) ex_qmem"
  using queue_snapshots [where e = 7, OF ex_qmem_lists(5)] by (simp add: ex_qmem_def)

end
