(* ===== verification/Clock.thy ===== *)
theory Clock
  imports Prelude "HOL-Library.Monad_Syntax" "HOL-Library.Signed_Division"
begin

text \<open>
  The clock helpers of \<^verbatim>\<open>citrusleaf/cf_clock.h\<close> for the three platforms of the header. What the system
  calls \<open>clock_gettime\<close>, \<open>gettimeofday\<close>, \<open>mach_absolute_time\<close> and \<open>GetSystemTimeAsFileTime\<close> return is an
  argument. Signed arithmetic is on integers with the range of the C type checked at every operation:
  an overflow is undefined and yields \<open>None\<close>; unsigned arithmetic is on words. The conversion of the
  Windows performance counter divides by a \<open>double\<close> and is left out.
\<close>

section \<open>Machine arithmetic\<close>

definition s64 :: "int \<Rightarrow> int option" where
  "s64 x = (if - (2 ^ 63) \<le> x \<and> x < 2 ^ 63 then Some x else None)"

definition s32 :: "int \<Rightarrow> int option" where
  "s32 x = (if - (2 ^ 31) \<le> x \<and> x < 2 ^ 31 then Some x else None)"

lemma s64_ok: "- (2 ^ 63) \<le> x \<Longrightarrow> x < 2 ^ 63 \<Longrightarrow> s64 x = Some x"
  by (simp add: s64_def)

lemma s32_ok: "- (2 ^ 31) \<le> x \<Longrightarrow> x < 2 ^ 31 \<Longrightarrow> s32 x = Some x"
  by (simp add: s32_def)

record timespec =
  tv_sec :: int
  tv_nsec :: int

record timeval =
  tvl_sec :: int
  tv_usec :: int

record FILETIME =
  dwLowDateTime :: uint
  dwHighDateTime :: uint

type_synonym cf_clock = uint64

definition CITRUSLEAF_EPOCH :: int where "CITRUSLEAF_EPOCH = 1262304000"
definition CITRUSLEAF_EPOCH_MS :: uint64 where "CITRUSLEAF_EPOCH_MS = of_int CITRUSLEAF_EPOCH * 1000"
definition CITRUSLEAF_EPOCH_US :: uint64 where "CITRUSLEAF_EPOCH_US = of_int CITRUSLEAF_EPOCH * 1000000"
definition CITRUSLEAF_EPOCH_NS :: uint64 where "CITRUSLEAF_EPOCH_NS = of_int CITRUSLEAF_EPOCH * 1000000000"

section \<open>Linux\<close>

definition cf_getns :: "timespec \<Rightarrow> cf_clock option" where
  "cf_getns ts = do {
     a \<leftarrow> s64 (tv_sec ts * 1000);
     b \<leftarrow> s64 (a * 1000);
     c \<leftarrow> s64 (b * 1000);
     d \<leftarrow> s64 (c + tv_nsec ts);
     Some (of_int d) }"

definition cf_getus :: "timespec \<Rightarrow> cf_clock option" where
  "cf_getus ts = do {
     a \<leftarrow> s64 (tv_sec ts * 1000);
     b \<leftarrow> s64 (a * 1000);
     c \<leftarrow> s64 (b + tv_nsec ts sdiv 1000);
     Some (of_int c) }"

definition cf_getms :: "timespec \<Rightarrow> cf_clock option" where
  "cf_getms ts = do {
     a \<leftarrow> s64 (tv_sec ts * 1000);
     b \<leftarrow> s64 (a + tv_nsec ts sdiv (1000 * 1000));
     Some (of_int b) }"

definition cf_get_seconds :: "timespec \<Rightarrow> cf_clock option" where
  "cf_get_seconds ts = Some (of_int (tv_sec ts))"

definition cf_clock_getabsolute :: "timespec \<Rightarrow> cf_clock option" where
  "cf_clock_getabsolute ts = do {
     a \<leftarrow> s64 (tv_sec ts * 1000);
     b \<leftarrow> s64 (a + tv_nsec ts sdiv (1000 * 1000));
     Some (of_int b) }"

text \<open>The carry of a sum of nanoseconds, as all the functions below write it: with \<open>>\<close>.\<close>

definition carry_nsec :: "timespec \<Rightarrow> timespec option" where
  "carry_nsec out =
     (if tv_nsec out > 1000 * 1000 * 1000
      then do {
        sec \<leftarrow> s64 (tv_sec out + 1);
        Some (out\<lparr>tv_nsec := tv_nsec out - 1000 * 1000 * 1000, tv_sec := sec\<rparr>) }
      else Some out)"

definition cf_set_wait_timespec :: "timespec \<Rightarrow> int \<Rightarrow> timespec option" where
  "cf_set_wait_timespec now ms_wait = do {
     sec \<leftarrow> s64 (tv_sec now + ms_wait sdiv 1000);
     a \<leftarrow> s32 (ms_wait smod 1000 * 1000);
     b \<leftarrow> s32 (a * 1000);
     nsec \<leftarrow> s64 (tv_nsec now + b);
     carry_nsec \<lparr>tv_sec = sec, tv_nsec = nsec\<rparr> }"

definition cf_clock_current_add :: "timespec \<Rightarrow> timespec \<Rightarrow> timespec option" where
  "cf_clock_current_add now delta = do {
     sec \<leftarrow> s64 (tv_sec now + tv_sec delta);
     nsec \<leftarrow> s64 (tv_nsec now + tv_nsec delta);
     carry_nsec \<lparr>tv_sec = sec, tv_nsec = nsec\<rparr> }"

definition cf_clepoch_milliseconds :: "timespec \<Rightarrow> cf_clock option" where
  "cf_clepoch_milliseconds ts = do {
     a \<leftarrow> s64 (tv_sec ts * 1000);
     b \<leftarrow> s64 (a + tv_nsec ts sdiv (1000 * 1000));
     Some (of_int b - CITRUSLEAF_EPOCH_MS) }"

definition cf_secs_since_clepoch :: "timespec \<Rightarrow> cf_clock option" where
  "cf_secs_since_clepoch ts = s64 (tv_sec ts - CITRUSLEAF_EPOCH) \<bind> (\<lambda>d. Some (of_int d))"

section \<open>Apple\<close>

definition apple_getns :: "uint64 \<Rightarrow> cf_clock" where
  "apple_getns mach_absolute_time = mach_absolute_time"

definition apple_clock_getabsolute :: "timeval \<Rightarrow> cf_clock option" where
  "apple_clock_getabsolute tv = do {
     a \<leftarrow> s64 (tvl_sec tv * 1000);
     b \<leftarrow> s64 (a + tv_usec tv sdiv 1000);
     Some (of_int b) }"

text \<open>\<open>suseconds_t\<close> is an \<open>int\<close> there: the microseconds are scaled in 32 bits.\<close>

definition apple_set_wait_timespec :: "timeval \<Rightarrow> int \<Rightarrow> timespec option" where
  "apple_set_wait_timespec now ms_wait = do {
     sec \<leftarrow> s64 (tvl_sec now + ms_wait sdiv 1000);
     u \<leftarrow> s32 (tv_usec now * 1000);
     a \<leftarrow> s32 (ms_wait smod 1000 * 1000);
     b \<leftarrow> s32 (a * 1000);
     nsec \<leftarrow> s32 (u + b);
     carry_nsec \<lparr>tv_sec = sec, tv_nsec = nsec\<rparr> }"

definition apple_clock_current_add :: "timeval \<Rightarrow> timespec \<Rightarrow> timespec option" where
  "apple_clock_current_add now delta = do {
     sec \<leftarrow> s64 (tvl_sec now + tv_sec delta);
     u \<leftarrow> s32 (tv_usec now * 1000);
     nsec \<leftarrow> s64 (u + tv_nsec delta);
     carry_nsec \<lparr>tv_sec = sec, tv_nsec = nsec\<rparr> }"

definition apple_clepoch_milliseconds :: "timeval \<Rightarrow> cf_clock option" where
  "apple_clepoch_milliseconds tv = do {
     a \<leftarrow> s64 (tvl_sec tv * 1000);
     b \<leftarrow> s64 (a + tv_usec tv sdiv 1000);
     Some (of_int b - CITRUSLEAF_EPOCH_MS) }"

definition apple_secs_since_clepoch :: "timeval \<Rightarrow> cf_clock option" where
  "apple_secs_since_clepoch tv = s64 (tvl_sec tv - CITRUSLEAF_EPOCH) \<bind> (\<lambda>d. Some (of_int d))"

section \<open>Windows\<close>

text \<open>File times count 100 nanosecond units; \<open>start\<close> is \<open>cf_wall_clock_start\<close>, the file time of the system
  epoch. The nanoseconds are stored in a \<open>long\<close> of 32 bits.\<close>

definition filetime_val :: "FILETIME \<Rightarrow> uint64" where
  "filetime_val f = push_bit 32 (ucast (dwHighDateTime f)) + ucast (dwLowDateTime f)"

definition msvc_clock_getabsolute :: "uint64 \<Rightarrow> FILETIME \<Rightarrow> cf_clock" where
  "msvc_clock_getabsolute start f = (filetime_val f - start) div (10 * 1000)"

definition msvc_set_wait_timespec :: "uint64 \<Rightarrow> FILETIME \<Rightarrow> int \<Rightarrow> timespec option" where
  "msvc_set_wait_timespec start f ms_wait = do {
     a \<leftarrow> s32 (ms_wait * 1000);
     b \<leftarrow> s32 (a * 1000);
     let nanos = (filetime_val f - start) * 100 + of_int b;
     Some \<lparr>tv_sec = uint (nanos div (1000 * 1000 * 1000)), tv_nsec = uint (nanos mod (1000 * 1000 * 1000))\<rparr> }"

definition msvc_clock_current_add :: "uint64 \<Rightarrow> FILETIME \<Rightarrow> timespec \<Rightarrow> timespec option" where
  "msvc_clock_current_add start f delta =
     (let nanos = (filetime_val f - start) * 100
      in carry_nsec \<lparr>tv_sec = sint (nanos div (1000 * 1000 * 1000) + of_int (tv_sec delta)),
           tv_nsec = sint (ucast (nanos mod (1000 * 1000 * 1000) + of_int (tv_nsec delta)) :: uint)\<rparr>)"

definition msvc_clepoch_milliseconds :: "uint64 \<Rightarrow> FILETIME \<Rightarrow> cf_clock" where
  "msvc_clepoch_milliseconds start f = (filetime_val f - start) div (10 * 1000) - CITRUSLEAF_EPOCH_MS"

definition msvc_secs_since_clepoch :: "uint64 \<Rightarrow> FILETIME \<Rightarrow> cf_clock" where
  "msvc_secs_since_clepoch start f = (filetime_val f - start) div (10 * 1000 * 1000) - of_int CITRUSLEAF_EPOCH"

text \<open>Shared by the last two platforms, on the nanoseconds of \<open>cf_getns\<close>.\<close>

definition ns_getus :: "cf_clock \<Rightarrow> cf_clock" where "ns_getus ns = ns div 1000"
definition ns_getms :: "cf_clock \<Rightarrow> cf_clock" where "ns_getms ns = ns div (1000 * 1000)"
definition ns_get_seconds :: "cf_clock \<Rightarrow> cf_clock" where "ns_get_seconds ns = ns div (1000 * 1000 * 1000)"

section \<open>Common functions\<close>

definition cf_clock_set_timespec_ms :: "int \<Rightarrow> timespec option" where
  "cf_clock_set_timespec_ms ms = do {
     a \<leftarrow> s32 (ms smod 1000 * 1000);
     b \<leftarrow> s32 (a * 1000);
     Some \<lparr>tv_sec = ms sdiv 1000, tv_nsec = b\<rparr> }"

definition cf_clepoch_ns_from_utc_ns :: "uint64 \<Rightarrow> uint64" where
  "cf_clepoch_ns_from_utc_ns utc_ns = (if utc_ns > CITRUSLEAF_EPOCH_NS then utc_ns - CITRUSLEAF_EPOCH_NS else 0)"

definition cf_clepoch_us_from_utc_ns :: "uint64 \<Rightarrow> uint64" where
  "cf_clepoch_us_from_utc_ns utc_ns = cf_clepoch_ns_from_utc_ns utc_ns div 1000"

definition cf_clepoch_ms_from_utc_ns :: "uint64 \<Rightarrow> uint64" where
  "cf_clepoch_ms_from_utc_ns utc_ns = cf_clepoch_ns_from_utc_ns utc_ns div 1000000"

definition cf_clepoch_sec_from_utc_ns :: "uint64 \<Rightarrow> uint64" where
  "cf_clepoch_sec_from_utc_ns utc_ns = cf_clepoch_ns_from_utc_ns utc_ns div 1000000000"

definition cf_utc_ns_from_clepoch_ns :: "uint64 \<Rightarrow> uint64" where
  "cf_utc_ns_from_clepoch_ns clepoch_ns = CITRUSLEAF_EPOCH_NS + clepoch_ns"

definition cf_utc_ns_from_clepoch_us :: "uint64 \<Rightarrow> uint64" where
  "cf_utc_ns_from_clepoch_us clepoch_us = CITRUSLEAF_EPOCH_NS + clepoch_us * 1000"

definition cf_utc_ns_from_clepoch_ms :: "uint64 \<Rightarrow> uint64" where
  "cf_utc_ns_from_clepoch_ms clepoch_ms = CITRUSLEAF_EPOCH_NS + clepoch_ms * 1000000"

definition cf_utc_ns_from_clepoch_sec :: "uint64 \<Rightarrow> uint64" where
  "cf_utc_ns_from_clepoch_sec clepoch_sec = CITRUSLEAF_EPOCH_NS + clepoch_sec * 1000000000"

definition cf_clepoch_seconds :: "timespec \<Rightarrow> uint option" where
  "cf_clepoch_seconds ts = map_option ucast (cf_secs_since_clepoch ts)"

definition cf_server_void_time_to_ttl :: "timespec \<Rightarrow> uint \<Rightarrow> uint option" where
  "cf_server_void_time_to_ttl ts server_void_time =
     (if server_void_time = 0 then Some (- 1)
      else do {
        now \<leftarrow> cf_clepoch_seconds ts;
        Some (if server_void_time > now then server_void_time - now else 1) })"

section \<open>Time values\<close>

text \<open>The instant a \<open>timespec\<close> stands for, in nanoseconds, and the form POSIX asks for.\<close>

definition ts_ns :: "timespec \<Rightarrow> int" where
  "ts_ns ts = tv_sec ts * 10 ^ 9 + tv_nsec ts"

definition ts_ok :: "timespec \<Rightarrow> bool" where
  "ts_ok ts \<longleftrightarrow> 0 \<le> tv_nsec ts \<and> tv_nsec ts < 10 ^ 9 \<and> \<bar>tv_sec ts\<bar> < 2 ^ 33"

lemma sdiv_nonneg: "0 \<le> a \<Longrightarrow> 0 < b \<Longrightarrow> a sdiv b = a div b" "0 \<le> a \<Longrightarrow> 0 < b \<Longrightarrow> a smod b = a mod b" for a b :: int
  by (simp_all add: signed_divide_int_def signed_modulo_int_def sgn_if minus_mult_div_eq_mod)

lemma carry_ok:
  assumes "\<bar>tv_sec out\<bar> < 2 ^ 40" "0 \<le> tv_nsec out" "tv_nsec out < 2 * 10 ^ 9"
  shows "\<exists>r. carry_nsec out = Some r \<and> ts_ns r = ts_ns out \<and> 0 \<le> tv_nsec r \<and> tv_nsec r \<le> 10 ^ 9 \<and>
     (tv_nsec r = 10 ^ 9 \<longleftrightarrow> tv_nsec out = 10 ^ 9)"
proof (cases "tv_nsec out > 10 ^ 9")
  case True
  moreover have "s64 (tv_sec out + 1) = Some (tv_sec out + 1)" using assms(1) by (intro s64_ok) auto
  ultimately show ?thesis using assms by (simp add: carry_nsec_def ts_ns_def)
qed (use assms in \<open>simp add: carry_nsec_def\<close>)

lemma ms_parts:
  assumes "0 \<le> ms" "ms < 2 ^ 31"
  shows "ms sdiv 1000 = ms div 1000" "s32 (ms smod 1000 * 1000) = Some (ms mod 1000 * 1000)"
    "s32 (ms mod 1000 * 1000 * 1000) = Some (ms mod 1000 * 1000 * 1000)"
    "0 \<le> ms mod 1000" "ms mod 1000 < 1000" "0 \<le> ms div 1000" "ms div 1000 < 2 ^ 31"
    "ms div 1000 * 1000 + ms mod 1000 = ms"
proof -
  show "0 \<le> ms mod 1000" "ms mod 1000 < 1000" "0 \<le> ms div 1000" "ms div 1000 * 1000 + ms mod 1000 = ms"
    using assms by simp_all
  then show "s32 (ms smod 1000 * 1000) = Some (ms mod 1000 * 1000)"
    "s32 (ms mod 1000 * 1000 * 1000) = Some (ms mod 1000 * 1000 * 1000)" "ms div 1000 < 2 ^ 31"
    using assms by (auto simp: s32_def sdiv_nonneg)
qed (use assms in \<open>simp add: sdiv_nonneg\<close>)

lemma wait_linux:
  assumes "ts_ok now" "0 \<le> ms" "ms < 2 ^ 31"
  shows "\<exists>r. cf_set_wait_timespec now ms = Some r \<and> ts_ns r = ts_ns now + ms * 10 ^ 6 \<and>
     0 \<le> tv_nsec r \<and> tv_nsec r \<le> 10 ^ 9 \<and>
     (tv_nsec r = 10 ^ 9 \<longleftrightarrow> tv_nsec now + ms mod 1000 * 10 ^ 6 = 10 ^ 9)"
proof -
  note p = ms_parts [OF assms(2,3)]
  let ?out = "\<lparr>tv_sec = tv_sec now + ms div 1000, tv_nsec = tv_nsec now + ms mod 1000 * 1000 * 1000\<rparr>"
  have b: "\<bar>tv_sec now\<bar> < 2 ^ 33" "0 \<le> tv_nsec now" "tv_nsec now < 10 ^ 9" using assms(1) by (auto simp: ts_ok_def)
  have "s64 (tv_sec now + ms div 1000) = Some (tv_sec now + ms div 1000)"
    "s64 (tv_nsec now + ms mod 1000 * 1000 * 1000) = Some (tv_nsec now + ms mod 1000 * 1000 * 1000)"
    using b p(4-7) by (auto simp: s64_def abs_less_iff)
  then have r: "cf_set_wait_timespec now ms = carry_nsec ?out"
    unfolding cf_set_wait_timespec_def p(1,2) by (simp only: p(3) bind.bind_lunit)
  have "q * 1000 + r = ms \<Longrightarrow> q * 1000000000 + 1000000 * r = ms * 1000000" for q r by linarith
  from this [OF p(8)] have "ts_ns ?out = ts_ns now + ms * 10 ^ 6" by (simp add: ts_ns_def)
  moreover have "\<bar>tv_sec ?out\<bar> < 2 ^ 40" "0 \<le> tv_nsec ?out" "tv_nsec ?out < 2 * 10 ^ 9" using b p(4-7) by auto
  ultimately show ?thesis using carry_ok [of ?out] r by (simp add: mult.assoc)
qed

lemma add_linux:
  assumes "ts_ok now" "ts_ok delta"
  shows "\<exists>r. cf_clock_current_add now delta = Some r \<and> ts_ns r = ts_ns now + ts_ns delta \<and>
     0 \<le> tv_nsec r \<and> tv_nsec r \<le> 10 ^ 9 \<and> (tv_nsec r = 10 ^ 9 \<longleftrightarrow> tv_nsec now + tv_nsec delta = 10 ^ 9)"
proof -
  let ?out = "\<lparr>tv_sec = tv_sec now + tv_sec delta, tv_nsec = tv_nsec now + tv_nsec delta\<rparr>"
  have b: "\<bar>tv_sec now\<bar> < 2 ^ 33" "0 \<le> tv_nsec now" "tv_nsec now < 10 ^ 9" "\<bar>tv_sec delta\<bar> < 2 ^ 33"
    "0 \<le> tv_nsec delta" "tv_nsec delta < 10 ^ 9" using assms by (auto simp: ts_ok_def)
  then have "s64 (tv_sec now + tv_sec delta) = Some (tv_sec now + tv_sec delta)"
    "s64 (tv_nsec now + tv_nsec delta) = Some (tv_nsec now + tv_nsec delta)" by (auto simp: s64_def abs_less_iff)
  then have "cf_clock_current_add now delta = carry_nsec ?out" by (simp add: cf_clock_current_add_def)
  moreover have "ts_ns ?out = ts_ns now + ts_ns delta" by (simp add: ts_ns_def)
  moreover have "\<bar>tv_sec ?out\<bar> < 2 ^ 40" "0 \<le> tv_nsec ?out" "tv_nsec ?out < 2 * 10 ^ 9" using b by auto
  ultimately show ?thesis using carry_ok [of ?out] by simp
qed

text \<open>The microsecond clock of the second platform, as nanoseconds.\<close>

definition tv_ok :: "timeval \<Rightarrow> bool" where
  "tv_ok tv \<longleftrightarrow> 0 \<le> tv_usec tv \<and> tv_usec tv < 10 ^ 6 \<and> \<bar>tvl_sec tv\<bar> < 2 ^ 33"

definition tv_ts :: "timeval \<Rightarrow> timespec" where
  "tv_ts tv = \<lparr>tv_sec = tvl_sec tv, tv_nsec = tv_usec tv * 1000\<rparr>"

lemma tv_ts_ok: "tv_ok tv \<Longrightarrow> ts_ok (tv_ts tv)"
  by (simp add: tv_ok_def ts_ok_def tv_ts_def)

lemma wait_apple: 
  assumes "tv_ok now" "0 \<le> ms" "ms < 2 ^ 31"
  shows "apple_set_wait_timespec now ms = cf_set_wait_timespec (tv_ts now) ms"
proof -
  note p = ms_parts [OF assms(2,3)]
  have b: "0 \<le> tv_usec now" "tv_usec now < 10 ^ 6" using assms(1) by (auto simp: tv_ok_def)
  have "s32 (tv_usec now * 1000) = Some (tv_usec now * 1000)"
    "s32 (tv_usec now * 1000 + ms mod 1000 * 1000 * 1000) = Some (tv_usec now * 1000 + ms mod 1000 * 1000 * 1000)"
    "s64 (tv_usec now * 1000 + ms mod 1000 * 1000 * 1000) = Some (tv_usec now * 1000 + ms mod 1000 * 1000 * 1000)"
    using b p(4,5) by (auto simp: s32_def s64_def)
  then show ?thesis
    unfolding apple_set_wait_timespec_def cf_set_wait_timespec_def p(1,2) tv_ts_def timespec.simps
    by (simp only: p(3) bind.bind_lunit)
qed

lemma add_apple:
  assumes "tv_ok now"
  shows "apple_clock_current_add now delta = cf_clock_current_add (tv_ts now) delta"
proof -
  have "s32 (tv_usec now * 1000) = Some (tv_usec now * 1000)" using assms by (auto simp: s32_def tv_ok_def)
  then show ?thesis by (simp add: apple_clock_current_add_def cf_clock_current_add_def tv_ts_def)
qed

section \<open>Properties\<close>

text \<open>Claim C21: waiting is exact. On Linux and, from its microsecond clock, on Apple, adding a wait in
  milliseconds or another time to the current time succeeds without overflow and yields exactly the sum;
  the nanoseconds lie between 0 and one second, and reach a full second, outside of the range POSIX
  allows, exactly when the two parts add up to it.\<close>

theorem wait_is_exact:
  assumes "ts_ok now" "tv_ok tod" "ts_ok delta" "0 \<le> ms" "ms < 2 ^ 31"
  shows "(\<exists>r. cf_set_wait_timespec now ms = Some r \<and> ts_ns r = ts_ns now + ms * 10 ^ 6 \<and>
       0 \<le> tv_nsec r \<and> tv_nsec r \<le> 10 ^ 9 \<and> (tv_nsec r = 10 ^ 9 \<longleftrightarrow> tv_nsec now + ms mod 1000 * 10 ^ 6 = 10 ^ 9)) \<and>
    (\<exists>r. cf_clock_current_add now delta = Some r \<and> ts_ns r = ts_ns now + ts_ns delta \<and>
       0 \<le> tv_nsec r \<and> tv_nsec r \<le> 10 ^ 9 \<and> (tv_nsec r = 10 ^ 9 \<longleftrightarrow> tv_nsec now + tv_nsec delta = 10 ^ 9)) \<and>
    apple_set_wait_timespec tod ms = cf_set_wait_timespec (tv_ts tod) ms \<and>
    apple_clock_current_add tod delta = cf_clock_current_add (tv_ts tod) delta"
  using wait_linux [OF assms(1,4,5)] add_linux [OF assms(1,3)] wait_apple [OF assms(2,4,5)] add_apple [OF assms(2)]
  by blast

definition ex_now :: timespec where
  "ex_now = \<lparr>tv_sec = 1700000000, tv_nsec = 500000000\<rparr>"

theorem wait_is_exact_witness:
  "\<exists>r. cf_set_wait_timespec ex_now 1700 = Some r \<and> ts_ns r = ts_ns ex_now + 1700 * 10 ^ 6"
  using wait_is_exact [of ex_now "\<lparr>tvl_sec = 0, tv_usec = 0\<rparr>" ex_now 1700]
  by (auto simp: ex_now_def ts_ok_def tv_ok_def)

text \<open>A wait of half a second at half past a second: the nanoseconds are not normalised.\<close>

lemma wait_not_normal:
  "cf_set_wait_timespec ex_now 500 = Some \<lparr>tv_sec = 1700000000, tv_nsec = 1000000000\<rparr>"
  by (simp add: cf_set_wait_timespec_def carry_nsec_def ex_now_def s64_def s32_def sdiv_nonneg)

text \<open>The multiplication of the Windows version is done in 32 bits: waits from 2148 milliseconds on
  overflow.\<close>

lemma msvc_wait_overflows: "2148 \<le> ms \<Longrightarrow> msvc_set_wait_timespec start f ms = None"
  by (simp add: msvc_set_wait_timespec_def s32_def split: Option.bind_splits)

lemma epoch_ns: "unat CITRUSLEAF_EPOCH_NS = 1262304000000000000"
  by (simp add: CITRUSLEAF_EPOCH_NS_def CITRUSLEAF_EPOCH_def)

lemma scale_back:
  fixes t k :: uint64
  assumes "0 < unat k" "1262304000000000000 + unat t * unat k < 2 ^ 64"
  shows "cf_clepoch_ns_from_utc_ns (CITRUSLEAF_EPOCH_NS + t * k) div k = t"
proof -
  have m: "unat (t * k) = unat t * unat k" using assms by (simp add: unat_word_ariths)
  have a: "unat (CITRUSLEAF_EPOCH_NS + t * k) = 1262304000000000000 + unat t * unat k"
    using assms m by (simp add: unat_word_ariths(1) epoch_ns)
  have "cf_clepoch_ns_from_utc_ns (CITRUSLEAF_EPOCH_NS + t * k) = t * k"
  proof (cases "t * k = 0")
    case False
    then have "0 < unat t * unat k" using m by (metis unat_gt_0)
    then have "CITRUSLEAF_EPOCH_NS < CITRUSLEAF_EPOCH_NS + t * k" unfolding word_less_nat_alt a epoch_ns by simp
    then show ?thesis by (simp add: cf_clepoch_ns_from_utc_ns_def)
  qed (simp add: cf_clepoch_ns_from_utc_ns_def)
  moreover have "unat (t * k div k) = unat t" using assms(1) m by (simp add: unat_div_distrib)
  ultimately show ?thesis by (simp only: word_unat_eq_iff [of _ t])
qed

text \<open>The conversions between the two epochs are inverse. A time since the Citrusleaf epoch in
  nano-, micro-, milliseconds or seconds that does not overflow as UTC nanoseconds comes back
  unchanged, and UTC times before the epoch become 0.\<close>

theorem clepoch_roundtrip:
  fixes t :: uint64
  assumes "1262304000000000000 + unat t * 1000000000 < 2 ^ 64" "u \<le> CITRUSLEAF_EPOCH_NS"
  shows "cf_clepoch_ns_from_utc_ns (cf_utc_ns_from_clepoch_ns t) = t \<and>
    cf_clepoch_us_from_utc_ns (cf_utc_ns_from_clepoch_us t) = t \<and>
    cf_clepoch_ms_from_utc_ns (cf_utc_ns_from_clepoch_ms t) = t \<and>
    cf_clepoch_sec_from_utc_ns (cf_utc_ns_from_clepoch_sec t) = t \<and>
    cf_clepoch_ns_from_utc_ns u = 0 \<and> cf_clepoch_sec_from_utc_ns u = 0"
proof -
  have "cf_clepoch_ns_from_utc_ns (CITRUSLEAF_EPOCH_NS + t * 1) div 1 = t"
    "cf_clepoch_ns_from_utc_ns (CITRUSLEAF_EPOCH_NS + t * 1000) div 1000 = t"
    "cf_clepoch_ns_from_utc_ns (CITRUSLEAF_EPOCH_NS + t * 1000000) div 1000000 = t"
    "cf_clepoch_ns_from_utc_ns (CITRUSLEAF_EPOCH_NS + t * 1000000000) div 1000000000 = t"
    using assms(1) by (intro scale_back; simp)+
  moreover have "cf_clepoch_ns_from_utc_ns u = 0" using assms(2) by (simp add: cf_clepoch_ns_from_utc_ns_def not_less [symmetric])
  ultimately show ?thesis
    by (simp add: cf_utc_ns_from_clepoch_ns_def cf_utc_ns_from_clepoch_us_def cf_utc_ns_from_clepoch_ms_def
        cf_utc_ns_from_clepoch_sec_def cf_clepoch_us_from_utc_ns_def cf_clepoch_ms_from_utc_ns_def
        cf_clepoch_sec_from_utc_ns_def)
qed

theorem clepoch_roundtrip_witness:
  "cf_clepoch_sec_from_utc_ns (cf_utc_ns_from_clepoch_sec 437696000) = 437696000 \<and>
   cf_clepoch_sec_from_utc_ns 0 = 0"
  using clepoch_roundtrip [of 437696000 0] by simp

text \<open>A time to live is never the old code for a record that never expires.\<close>

lemma ttl_positive: "cf_server_void_time_to_ttl ts v = Some r \<Longrightarrow> r \<noteq> 0"
  by (auto simp: cf_server_void_time_to_ttl_def split: if_splits Option.bind_splits)

end
