(* ===== verification/Sds.thy ===== *)
theory Sds
  imports Prelude "HOL-Library.Monad_Syntax"
begin

text \<open>
  The string headers of \<^verbatim>\<open>hiredis/sds.h\<close>. A string is a position \<open>s\<close> in a memory of bytes: the
  characters start at \<open>s\<close>, the byte before holds the type of the header, and the packed header of that
  type, with the length and the allocated size, ends there. Reading or writing outside of the memory
  is undefined and yields \<open>None\<close>; \<open>size_t\<close> is a 64-bit word.
\<close>

section \<open>Headers\<close>

definition SDS_TYPE_5 :: nat where "SDS_TYPE_5 = 0"
definition SDS_TYPE_8 :: nat where "SDS_TYPE_8 = 1"
definition SDS_TYPE_16 :: nat where "SDS_TYPE_16 = 2"
definition SDS_TYPE_32 :: nat where "SDS_TYPE_32 = 3"
definition SDS_TYPE_64 :: nat where "SDS_TYPE_64 = 4"
definition SDS_TYPE_MASK :: byte where "SDS_TYPE_MASK = 7"
definition SDS_TYPE_BITS :: nat where "SDS_TYPE_BITS = 3"

definition SDS_TYPE_5_LEN :: "byte \<Rightarrow> byte" where
  "SDS_TYPE_5_LEN f = drop_bit SDS_TYPE_BITS f"

text \<open>The packed structures \<open>sdshdr8\<close> to \<open>sdshdr64\<close>, for fields of \<open>w\<close> bytes: length, allocated size,
  flags, then the characters.\<close>

definition sdshdr :: "nat \<Rightarrow> nat" where
  "sdshdr w = w + w + 1"

definition get_field :: "byte list \<Rightarrow> nat \<Rightarrow> nat \<Rightarrow> nat \<Rightarrow> nat option" where
  "get_field m s w k = (if sdshdr w \<le> s \<and> s \<le> length m then Some (le_val (read_at m (s - sdshdr w + k * w) w)) else None)"

definition put_field :: "byte list \<Rightarrow> nat \<Rightarrow> nat \<Rightarrow> nat \<Rightarrow> nat \<Rightarrow> byte list option" where
  "put_field m s w k v = (if sdshdr w \<le> s \<and> s \<le> length m
     then Some (write_at m (s - sdshdr w + k * w) (le_bytes w v)) else None)"

definition flags_of :: "byte list \<Rightarrow> nat \<Rightarrow> byte option" where
  "flags_of m s = (if 0 < s \<and> s \<le> length m then Some (m ! (s - 1)) else None)"

definition put_flags :: "byte list \<Rightarrow> nat \<Rightarrow> byte \<Rightarrow> byte list option" where
  "put_flags m s f = (if 0 < s \<and> s \<le> length m then Some (m[s - 1 := f]) else None)"

definition sds_type :: "byte \<Rightarrow> nat" where
  "sds_type flags = unat (flags AND SDS_TYPE_MASK)"

definition sdslen :: "byte list \<Rightarrow> nat \<Rightarrow> uint64 option" where
  "sdslen m s = do {
     flags \<leftarrow> flags_of m s;
     if sds_type flags = SDS_TYPE_5 then Some (ucast (SDS_TYPE_5_LEN flags))
     else if sds_type flags = SDS_TYPE_8 then map_option of_nat (get_field m s 1 0)
     else if sds_type flags = SDS_TYPE_16 then map_option of_nat (get_field m s 2 0)
     else if sds_type flags = SDS_TYPE_32 then map_option of_nat (get_field m s 4 0)
     else if sds_type flags = SDS_TYPE_64 then map_option of_nat (get_field m s 8 0)
     else Some 0 }"

text \<open>The difference is taken in \<open>int\<close> for the two small types, and in the type of the field for the others.\<close>

definition sdsavail :: "byte list \<Rightarrow> nat \<Rightarrow> uint64 option" where
  "sdsavail m s = do {
     flags \<leftarrow> flags_of m s;
     if sds_type flags = SDS_TYPE_5 then Some 0
     else if sds_type flags = SDS_TYPE_8 then do {
       a \<leftarrow> get_field m s 1 1; l \<leftarrow> get_field m s 1 0; Some (of_int (int a - int l)) }
     else if sds_type flags = SDS_TYPE_16 then do {
       a \<leftarrow> get_field m s 2 1; l \<leftarrow> get_field m s 2 0; Some (of_int (int a - int l)) }
     else if sds_type flags = SDS_TYPE_32 then do {
       a \<leftarrow> get_field m s 4 1; l \<leftarrow> get_field m s 4 0; Some (ucast (of_nat a - of_nat l :: uint)) }
     else if sds_type flags = SDS_TYPE_64 then do {
       a \<leftarrow> get_field m s 8 1; l \<leftarrow> get_field m s 8 0; Some (of_nat a - of_nat l) }
     else Some 0 }"

definition sdssetlen :: "byte list \<Rightarrow> nat \<Rightarrow> uint64 \<Rightarrow> byte list option" where
  "sdssetlen m s newlen = do {
     flags \<leftarrow> flags_of m s;
     if sds_type flags = SDS_TYPE_5 then put_flags m s (of_nat SDS_TYPE_5 OR ucast (push_bit SDS_TYPE_BITS newlen))
     else if sds_type flags = SDS_TYPE_8 then put_field m s 1 0 (unat newlen)
     else if sds_type flags = SDS_TYPE_16 then put_field m s 2 0 (unat newlen)
     else if sds_type flags = SDS_TYPE_32 then put_field m s 4 0 (unat newlen)
     else if sds_type flags = SDS_TYPE_64 then put_field m s 8 0 (unat newlen)
     else Some m }"

definition sdsinclen :: "byte list \<Rightarrow> nat \<Rightarrow> uint64 \<Rightarrow> byte list option" where
  "sdsinclen m s inc = do {
     flags \<leftarrow> flags_of m s;
     if sds_type flags = SDS_TYPE_5 then
       (let newlen = SDS_TYPE_5_LEN flags + ucast inc
        in put_flags m s (of_nat SDS_TYPE_5 OR push_bit SDS_TYPE_BITS newlen))
     else if sds_type flags = SDS_TYPE_8 then get_field m s 1 0 \<bind> (\<lambda>l. put_field m s 1 0 (l + unat inc mod 2 ^ 8))
     else if sds_type flags = SDS_TYPE_16 then get_field m s 2 0 \<bind> (\<lambda>l. put_field m s 2 0 (l + unat inc mod 2 ^ 16))
     else if sds_type flags = SDS_TYPE_32 then get_field m s 4 0 \<bind> (\<lambda>l. put_field m s 4 0 (l + unat inc mod 2 ^ 32))
     else if sds_type flags = SDS_TYPE_64 then get_field m s 8 0 \<bind> (\<lambda>l. put_field m s 8 0 (l + unat inc mod 2 ^ 64))
     else Some m }"

definition sdsalloc :: "byte list \<Rightarrow> nat \<Rightarrow> uint64 option" where
  "sdsalloc m s = do {
     flags \<leftarrow> flags_of m s;
     if sds_type flags = SDS_TYPE_5 then Some (ucast (SDS_TYPE_5_LEN flags))
     else if sds_type flags = SDS_TYPE_8 then map_option of_nat (get_field m s 1 1)
     else if sds_type flags = SDS_TYPE_16 then map_option of_nat (get_field m s 2 1)
     else if sds_type flags = SDS_TYPE_32 then map_option of_nat (get_field m s 4 1)
     else if sds_type flags = SDS_TYPE_64 then map_option of_nat (get_field m s 8 1)
     else Some 0 }"

definition sdssetalloc :: "byte list \<Rightarrow> nat \<Rightarrow> uint64 \<Rightarrow> byte list option" where
  "sdssetalloc m s newlen = do {
     flags \<leftarrow> flags_of m s;
     if sds_type flags = SDS_TYPE_5 then Some m
     else if sds_type flags = SDS_TYPE_8 then put_field m s 1 1 (unat newlen)
     else if sds_type flags = SDS_TYPE_16 then put_field m s 2 1 (unat newlen)
     else if sds_type flags = SDS_TYPE_32 then put_field m s 4 1 (unat newlen)
     else if sds_type flags = SDS_TYPE_64 then put_field m s 8 1 (unat newlen)
     else Some m }"

section \<open>The fields\<close>

text \<open>A header of fields of \<open>w\<close> bytes is in memory, and a width is right for a type.\<close>

definition has_hdr :: "byte list \<Rightarrow> nat \<Rightarrow> nat \<Rightarrow> bool" where
  "has_hdr m s w \<longleftrightarrow> sdshdr w \<le> s \<and> s \<le> length m"

lemma get_field_ok: "has_hdr m s w \<Longrightarrow> get_field m s w k = Some (le_val (read_at m (s - sdshdr w + k * w) w))"
  by (simp add: has_hdr_def get_field_def)

lemma put_field_ok:
  assumes "has_hdr m s w" "k < 2" "j < 2"
  shows "\<exists>m'. put_field m s w k v = Some m' \<and> has_hdr m' s w \<and> length m' = length m \<and> drop (s - 1) m' = drop (s - 1) m \<and>
     get_field m' s w j = (if j = k then Some (v mod 256 ^ w) else get_field m s w j)"
proof -
  let ?o = "\<lambda>k. s - sdshdr w + k * w" and ?m = "write_at m (s - sdshdr w + k * w) (le_bytes w v)"
  have k: "k = 0 \<or> k = 1" "j = 0 \<or> j = 1" using assms(2,3) by auto
  then have o: "?o k + w \<le> s - 1" "?o j + w \<le> s - 1" "s \<le> length m"
    using assms(1) by (auto simp: has_hdr_def sdshdr_def)
  have l: "length ?m = length m" using o by (intro length_write_at) simp
  then have h: "has_hdr ?m s w" using assms(1) by (simp add: has_hdr_def)
  have "read_at ?m (?o j) w = (if j = k then le_bytes w v else read_at m (?o j) w)"
  proof (cases "j = k")
    case True
    then show ?thesis using read_write_same [of "?o k" "le_bytes w v" m] o by simp
  next
    case False
    then have "j = 0 \<and> k = 1 \<or> j = 1 \<and> k = 0" using assms(2,3) by auto
    then show ?thesis
      using False o read_write_before [of "?o j" w "?o k" "le_bytes w v" m]
        read_write_after [of "?o k" "le_bytes w v" "?o j" m w] by auto
  qed
  then have "get_field ?m s w j = (if j = k then Some (v mod 256 ^ w) else get_field m s w j)"
    by (simp add: get_field_ok [OF h] get_field_ok [OF assms(1)] le_val_le_bytes)
  moreover have "drop (s - 1) ?m = drop (s - 1) m" using o by (intro drop_write_at) simp_all
  ultimately show ?thesis using assms(1) h l by (simp add: put_field_def has_hdr_def)
qed

text \<open>The width of the fields of a type.\<close>

fun sds_width :: "nat \<Rightarrow> nat option" where
  "sds_width t = (if t = 1 then Some 1 else if t = 2 then Some 2 else if t = 3 then Some 4 else if t = 4 then Some 8 else None)"

definition sds_ok :: "byte list \<Rightarrow> nat \<Rightarrow> bool" where
  "sds_ok m s \<longleftrightarrow> (case flags_of m s of None \<Rightarrow> False
     | Some f \<Rightarrow> sds_type f = 0 \<or> (case sds_width (sds_type f) of None \<Rightarrow> False | Some w \<Rightarrow> has_hdr m s w))"

definition sds_cap :: "byte list \<Rightarrow> nat \<Rightarrow> nat" where
  "sds_cap m s = (case flags_of m s of None \<Rightarrow> 0
     | Some f \<Rightarrow> (case sds_width (sds_type f) of None \<Rightarrow> 32 | Some w \<Rightarrow> 256 ^ w))"

lemmas sds_types = SDS_TYPE_5_def SDS_TYPE_8_def SDS_TYPE_16_def SDS_TYPE_32_def SDS_TYPE_64_def

lemma flags_of_drop:
  assumes "drop (s - 1) m' = drop (s - 1) m" "length m' = length m"
  shows "flags_of m' s = flags_of m s"
proof (cases "0 < s \<and> s \<le> length m")
  case True
  then have "s - 1 < length m" by auto
  then have "m' ! (s - 1) = hd (drop (s - 1) m')" "m ! (s - 1) = hd (drop (s - 1) m)"
    using assms(2) by (simp_all add: hd_drop_conv_nth)
  then show ?thesis using assms by (simp add: flags_of_def)
qed (use assms in \<open>auto simp: flags_of_def\<close>)

lemma wide_eqs:
  assumes "flags_of m s = Some f" "sds_width (sds_type f) = Some w"
  shows "sdslen m s = map_option of_nat (get_field m s w 0)" "sdsalloc m s = map_option of_nat (get_field m s w 1)"
    "sdssetlen m s n = put_field m s w 0 (unat n)" "sdssetalloc m s n = put_field m s w 1 (unat n)"
    "sdsinclen m s n = get_field m s w 0 \<bind> (\<lambda>l. put_field m s w 0 (l + unat n mod 256 ^ w))"
proof -
  have "sds_type f = 1 \<and> w = 1 \<or> sds_type f = 2 \<and> w = 2 \<or> sds_type f = 3 \<and> w = 4 \<or> sds_type f = 4 \<and> w = 8"
    using assms(2) by (auto split: if_splits)
  then show "sdslen m s = map_option of_nat (get_field m s w 0)" "sdsalloc m s = map_option of_nat (get_field m s w 1)"
    "sdssetlen m s n = put_field m s w 0 (unat n)" "sdssetalloc m s n = put_field m s w 1 (unat n)"
    "sdsinclen m s n = get_field m s w 0 \<bind> (\<lambda>l. put_field m s w 0 (l + unat n mod 256 ^ w))"
    using assms(1) by (elim disjE conjE;
      simp add: sdslen_def sdsalloc_def sdssetlen_def sdssetalloc_def sdsinclen_def sds_types)+
qed

lemma sds_type_mod: "sds_type f = unat f mod 8"
proof -
  have "SDS_TYPE_MASK = mask 3" by (simp add: SDS_TYPE_MASK_def mask_eq_exp_minus_1)
  then have "sds_type f = unat (take_bit 3 f)" by (simp add: sds_type_def take_bit_eq_mask)
  also have "\<dots> = unat f mod 2 ^ 3" unfolding unsigned_take_bit_eq by (rule take_bit_eq_mod)
  finally show ?thesis by simp
qed

lemma len5: "unat (SDS_TYPE_5_LEN f) = unat f div 8"
  unfolding SDS_TYPE_5_LEN_def SDS_TYPE_BITS_def unat_drop_bit_eq by (simp add: drop_bit_eq_div)

lemma ucast_len5: "(ucast (SDS_TYPE_5_LEN f) :: uint64) = of_nat (unat f div 8)"
  by (simp add: len5 [symmetric])

lemma flags5:
  assumes v: "v < 32"
  shows "sds_type (of_nat (8 * v)) = 0" "SDS_TYPE_5_LEN (of_nat (8 * v)) = of_nat v"
proof -
  have u: "unat (of_nat (8 * v) :: byte) = 8 * v" using v by (intro unat_of_nat_small) simp
  then show "sds_type (of_nat (8 * v)) = 0" unfolding sds_type_mod by simp
  have "unat (of_nat v :: byte) = v" using v by (intro unat_of_nat_small) simp
  then show "SDS_TYPE_5_LEN (of_nat (8 * v)) = of_nat v" unfolding word_unat_eq_iff len5 u by simp
qed

lemma setlen5: "unat n < 32 \<Longrightarrow> of_nat SDS_TYPE_5 OR ucast (push_bit SDS_TYPE_BITS n) = (of_nat (8 * unat n) :: byte)" for n :: uint64
proof -
  assume "unat n < 32"
  have "push_bit 3 n = of_nat (8 * unat n)" by (simp add: push_bit_eq_mult mult.commute)
  then have "(ucast (push_bit 3 n) :: byte) = of_nat (unat (of_nat (8 * unat n) :: uint64))" by simp
  also have "\<dots> = of_nat (8 * unat n)" using \<open>unat n < 32\<close> by (subst unat_of_nat_small) simp_all
  finally show ?thesis by (simp add: SDS_TYPE_5_def SDS_TYPE_BITS_def)
qed

lemma inclen5:
  fixes n :: uint64
  assumes "unat (SDS_TYPE_5_LEN f) + unat n < 32"
  shows "of_nat SDS_TYPE_5 OR push_bit SDS_TYPE_BITS (SDS_TYPE_5_LEN f + ucast n) =
     (of_nat (8 * (unat (SDS_TYPE_5_LEN f) + unat n)) :: byte)"
proof -
  have "(ucast n :: byte) = of_nat (unat n)" by simp
  then have "SDS_TYPE_5_LEN f + ucast n = of_nat (unat (SDS_TYPE_5_LEN f) + unat n)" by simp
  then show ?thesis
    by (simp add: SDS_TYPE_5_def SDS_TYPE_BITS_def push_bit_eq_mult algebra_simps)
qed

text \<open>The state of a string header: its type, length and allocated size, and everything behind it.\<close>

definition sds_is :: "byte list \<Rightarrow> nat \<Rightarrow> nat \<Rightarrow> uint64 \<Rightarrow> uint64 \<Rightarrow> byte list \<Rightarrow> bool" where
  "sds_is m s t len alloc buf \<longleftrightarrow> sds_ok m s \<and> map_option sds_type (flags_of m s) = Some t \<and>
     sdslen m s = Some len \<and> sdsalloc m s = Some alloc \<and> drop s m = buf"

definition type_cap :: "nat \<Rightarrow> nat" where
  "type_cap t = (case sds_width t of None \<Rightarrow> 32 | Some w \<Rightarrow> 256 ^ w)"

lemma put_flags_ok:
  assumes "sds_ok m s"
  shows "\<exists>m'. put_flags m s f = Some m' \<and> flags_of m' s = Some f \<and> drop s m' = drop s m"
proof -
  have "0 < s" "s \<le> length m" using assms by (auto simp: sds_ok_def flags_of_def split: option.splits if_splits)
  then show ?thesis by (simp add: put_flags_def flags_of_def)
qed

lemma type5_is:
  assumes "flags_of m s = Some (of_nat (8 * v))" "v < 32"
  shows "sds_is m s 0 (of_nat v) (of_nat v) (drop s m)"
proof -
  have "unat (of_nat v :: byte) = v" using assms(2) by (intro unat_of_nat_small) simp
  then have "(ucast (of_nat v :: byte) :: uint64) = of_nat v" by (metis of_nat_unat ucast_id unsigned_of_nat)
  then show ?thesis using assms flags5 [OF assms(2)]
    by (simp add: sds_is_def sds_ok_def sdslen_def sdsalloc_def sds_types del: of_nat_mult)
qed

lemma unat_ucast_byte: "unat (ucast b :: uint64) = unat (b :: byte)"
proof -
  have "unat b < 2 ^ 64" using unsigned_less [of b, where ?'a = nat] by simp
  then show ?thesis by (simp add: unsigned_ucast_eq take_bit_nat_eq_self)
qed

lemma type5_len:
  assumes "sds_is m s 0 len alloc buf" "flags_of m s = Some f"
  shows "alloc = len" "unat (SDS_TYPE_5_LEN f) = unat len"
proof -
  have "sds_type f = 0" "len = ucast (SDS_TYPE_5_LEN f)" "alloc = ucast (SDS_TYPE_5_LEN f)"
    using assms by (auto simp: sds_is_def sdslen_def sdsalloc_def sds_types)
  then show "alloc = len" "unat (SDS_TYPE_5_LEN f) = unat len" by (simp_all add: unat_ucast_byte)
qed

lemma wide_cases:
  assumes "sds_is m s t len alloc buf" "t \<noteq> 0"
  obtains f w where "flags_of m s = Some f" "sds_type f = t" "sds_width t = Some w" "has_hdr m s w" "w \<le> 8"
    "get_field m s w 0 = Some (unat len)" "get_field m s w 1 = Some (unat alloc)" "unat len < 256 ^ w"
proof -
  obtain f where f: "flags_of m s = Some f" "sds_type f = t" using assms(1) by (auto simp: sds_is_def)
  then obtain w where w: "sds_width t = Some w" "has_hdr m s w"
    using assms by (auto simp: sds_is_def sds_ok_def split: option.splits)
  have w8: "w \<le> 8" using w(1) by (auto split: if_splits)
  have lt: "get_field m s w k = Some v \<Longrightarrow> v < 256 ^ w" for k v
  proof -
    assume "get_field m s w k = Some v"
    then have "v = le_val (read_at m (s - sdshdr w + k * w) w)" using get_field_ok [OF w(2)] by simp
    also have "\<dots> < 256 ^ length (read_at m (s - sdshdr w + k * w) w)" by (rule le_val_less)
    also have "\<dots> \<le> 256 ^ w" by (rule power_increasing) (auto simp: read_at_def)
    finally show "v < 256 ^ w" .
  qed
  have "(256 :: nat) ^ w \<le> 256 ^ 8" using w8 by (intro power_increasing) simp_all
  then have small: "v < 256 ^ w \<Longrightarrow> unat (of_nat v :: uint64) = v" for v by (intro unat_of_nat_small) simp
  have "map_option of_nat (get_field m s w 0) = Some len" "map_option of_nat (get_field m s w 1) = Some alloc"
    using wide_eqs(1,2) [of m s f w] f w assms(1) by (auto simp: sds_is_def)
  then obtain a b where ab: "get_field m s w 0 = Some a" "len = of_nat a" "get_field m s w 1 = Some b" "alloc = of_nat b"
    by auto
  then show thesis using that [OF f w w8] lt small by (metis)
qed

lemma wide_is:
  assumes "flags_of m s = Some f" "sds_width (sds_type f) = Some w" "has_hdr m s w"
    and "get_field m s w 0 = Some l" "get_field m s w 1 = Some a"
  shows "sds_is m s (sds_type f) (of_nat l) (of_nat a) (drop s m)"
  using assms wide_eqs(1,2) [OF assms(1,2)] by (simp add: sds_is_def sds_ok_def del: sds_width.simps)

lemma wide_put:
  assumes "sds_is m s t len alloc buf" "t \<noteq> 0" "k < 2" "sds_width t = Some w" "v < 256 ^ w"
  shows "\<exists>m'. put_field m s w k v = Some m' \<and>
     sds_is m' s t (if k = 0 then of_nat v else len) (if k = 1 then of_nat v else alloc) buf"
proof -
  obtain f where f: "flags_of m s = Some f" "sds_type f = t" "has_hdr m s w"
    "get_field m s w 0 = Some (unat len)" "get_field m s w 1 = Some (unat alloc)"
    using wide_cases [OF assms(1,2)] assms(4) by (metis option.inject)
  obtain m' where m': "put_field m s w k v = Some m'" "has_hdr m' s w" "length m' = length m"
    "drop (s - 1) m' = drop (s - 1) m" "get_field m' s w 0 = (if 0 = k then Some v else get_field m s w 0)"
    using put_field_ok [OF f(3) assms(3), of 0 v] assms(5) by auto
  then have g: "get_field m' s w 1 = (if 1 = k then Some v else get_field m s w 1)"
    using put_field_ok [OF f(3) assms(3), of 1 v] assms(5) by auto
  have "flags_of m' s = Some f" using flags_of_drop [OF m'(4,3)] f(1) by simp
  moreover have "drop s m' = buf" using m'(4) assms(1) f(3)
    by (metis Suc_diff_1 drop_Suc has_hdr_def sds_is_def sdshdr_def tl_drop less_le_trans zero_less_Suc add.commute plus_1_eq_Suc)
  ultimately show ?thesis
    using wide_is [of m' s f w "if 0 = k then v else unat len" "if 1 = k then v else unat alloc"] m' g f assms(4) by auto
qed

lemma type_cap_wide: "sds_width t = Some w \<Longrightarrow> type_cap t = 256 ^ w"
  by (simp add: type_cap_def del: sds_width.simps)

lemma setlen_is:
  assumes "sds_is m s t len alloc buf" "unat n < type_cap t"
  shows "\<exists>m'. sdssetlen m s n = Some m' \<and> sds_is m' s t n (if t = 0 then n else alloc) buf"
proof (cases "t = 0")
  case True
  then have n: "unat n < 32" using assms(2) by (simp add: type_cap_def)
  obtain f where f: "flags_of m s = Some f" "sds_type f = 0" and b: "drop s m = buf" "sds_ok m s"
    using assms(1) True by (auto simp: sds_is_def)
  obtain m' where m': "put_flags m s (of_nat (8 * unat n)) = Some m'" "flags_of m' s = Some (of_nat (8 * unat n))"
    "drop s m' = buf" using put_flags_ok [OF b(2)] b(1) by blast
  have "sdssetlen m s n = put_flags m s (of_nat (8 * unat n))"
    using f setlen5 [OF n] by (simp add: sdssetlen_def sds_types)
  then show ?thesis using True m' type5_is [OF m'(2) n] by simp
next
  case False
  obtain f w where w: "flags_of m s = Some f" "sds_type f = t" "sds_width t = Some w"
    by (rule wide_cases [OF assms(1) False])
  show ?thesis using wide_put [OF assms(1) False _ w(3), of 0 "unat n"] assms(2) False wide_eqs(3) [OF w(1)] w(2,3)
    by (simp add: type_cap_wide [OF w(3)] del: sds_width.simps)
qed

lemma inclen_is:
  assumes "sds_is m s t len alloc buf" "unat len + unat n < type_cap t"
  shows "\<exists>m'. sdsinclen m s n = Some m' \<and> sds_is m' s t (len + n) (if t = 0 then len + n else alloc) buf"
proof (cases "t = 0")
  case True
  then have n: "unat len + unat n < 32" using assms(2) by (simp add: type_cap_def)
  obtain f where f: "flags_of m s = Some f" "sds_type f = 0" and b: "drop s m = buf" "sds_ok m s"
    using assms(1) True by (auto simp: sds_is_def)
  have l: "unat (SDS_TYPE_5_LEN f) = unat len" using type5_len(2) [OF _ f(1)] assms(1) True by blast
  let ?f = "of_nat (8 * (unat len + unat n)) :: byte"
  obtain m' where m': "put_flags m s ?f = Some m'" "flags_of m' s = Some ?f" "drop s m' = buf"
    using put_flags_ok [OF b(2)] b(1) by blast
  have "sdsinclen m s n = put_flags m s ?f"
    using f inclen5 [of f n] l n by (simp add: sdsinclen_def sds_types)
  moreover have "of_nat (unat len + unat n) = len + n" by simp
  ultimately show ?thesis using True m' type5_is [OF m'(2) n] by simp
next
  case False
  obtain f w where w: "flags_of m s = Some f" "sds_type f = t" "sds_width t = Some w" "has_hdr m s w"
    "get_field m s w 0 = Some (unat len)" by (rule wide_cases [OF assms(1) False])
  have c: "unat len + unat n < 256 ^ w" using assms(2) type_cap_wide [OF w(3)] by simp
  then have "sdsinclen m s n = put_field m s w 0 (unat len + unat n)"
    using wide_eqs(5) [OF w(1)] w(2,3,5) by (simp del: sds_width.simps)
  then show ?thesis using wide_put [OF assms(1) False _ w(3) c, of 0] False by simp
qed

lemma setalloc_is:
  assumes "sds_is m s t len alloc buf" "unat n < type_cap t" "t \<noteq> 0"
  shows "\<exists>m'. sdssetalloc m s n = Some m' \<and> sds_is m' s t len n buf"
proof -
  obtain f w where w: "flags_of m s = Some f" "sds_type f = t" "sds_width t = Some w"
    by (rule wide_cases [OF assms(1,3)])
  show ?thesis using wide_put [OF assms(1,3) _ w(3), of 1 "unat n"] assms(2) wide_eqs(4) [OF w(1)] w(2,3)
    by (simp add: type_cap_wide [OF w(3)] del: sds_width.simps)
qed

lemma avail_is:
  assumes "sds_is m s t len alloc buf" "len \<le> alloc"
  shows "\<exists>a. sdsavail m s = Some a \<and> a + len = alloc"
proof (cases "t = 0")
  case True
  then obtain f where "flags_of m s = Some f" "sds_type f = 0" using assms(1) by (auto simp: sds_is_def)
  then show ?thesis using True type5_len(1) [of m s len alloc buf f] assms(1) by (simp add: sdsavail_def sds_types)
next
  case False
  obtain f w where w: "flags_of m s = Some f" "sds_type f = t" "sds_width t = Some w"
    "get_field m s w 0 = Some (unat len)" "get_field m s w 1 = Some (unat alloc)"
    by (rule wide_cases [OF assms(1) False])
  have i: "(of_int (int (unat alloc) - int (unat len)) :: uint64) = alloc - len" by simp
  have le: "unat len \<le> unat alloc" using assms(2) by (simp add: word_le_nat_alt)
  consider "t = 1" "w = 1" | "t = 2" "w = 2" | "t = 3" "w = 4" | "t = 4" "w = 8" using w(3) by (auto split: if_splits)
  then show ?thesis
  proof cases
    case 3
    have lt: "unat alloc < 2 ^ 32"
      using w(5) le_val_less [of "read_at m (s - sdshdr w + 1 * w) w"] 3
        power_increasing [of "length (read_at m (s - sdshdr w + 1 * w) w)" 4 "256 :: nat"]
      by (auto simp: get_field_def read_at_def split: if_splits)
    let ?d = "of_nat (unat alloc) - of_nat (unat len) :: uint"
    have d: "unat ?d = unat alloc - unat len"
    proof -
      have "?d = of_nat (unat alloc - unat len)" using le by (simp add: of_nat_diff)
      then show ?thesis using lt by (simp only: unat_of_nat_small) (subst unat_of_nat_small, simp_all)
    qed
    have "(ucast ?d :: uint64) = of_nat (unat ?d)" by simp
    also have "\<dots> = alloc - len" unfolding d using le by (simp add: of_nat_diff)
    finally show ?thesis using w 3 by (simp add: sdsavail_def sds_types)
  qed (use w i in \<open>simp_all add: sdsavail_def sds_types\<close>)
qed

section \<open>Properties\<close>

text \<open>Claim C24: the header keeps its type and its fields apart. Setting or increasing the length to a value
  the type can hold gives back exactly that length and leaves the allocated size (which for the smallest
  type is the length), the type and every character as they were; setting the allocated size leaves the
  length; and the available space and the length add up to the allocated size.\<close>

theorem sds_fields:
  assumes "sds_is m s t len alloc buf" "unat n < type_cap t" "unat len + unat i < type_cap t" "len \<le> alloc"
  shows "(\<exists>m'. sdssetlen m s n = Some m' \<and> sds_is m' s t n (if t = 0 then n else alloc) buf) \<and>
    (\<exists>m'. sdsinclen m s i = Some m' \<and> sds_is m' s t (len + i) (if t = 0 then len + i else alloc) buf) \<and>
    (\<exists>m'. sdssetalloc m s n = Some m' \<and> sds_is m' s t len (if t = 0 then alloc else n) buf) \<and>
    (\<exists>a. sdsavail m s = Some a \<and> a + len = alloc)"
proof -
  have "\<exists>m'. sdssetalloc m s n = Some m' \<and> sds_is m' s t len (if t = 0 then alloc else n) buf"
  proof (cases "t = 0")
    case True
    then have "sdssetalloc m s n = Some m" using assms(1) by (auto simp: sds_is_def sdssetalloc_def sds_types)
    then show ?thesis using True assms(1) by simp
  qed (use setalloc_is [OF assms(1,2)] in simp)
  then show ?thesis using setlen_is [OF assms(1,2)] inclen_is [OF assms(1,3)] avail_is [OF assms(1,4)] by blast
qed

definition ex_sds :: "byte list" where
  "ex_sds = [3, 0, 10, 0, 2, 97, 98, 99, 0]"

lemma ex_sds_is: "sds_is ex_sds 5 2 3 10 [97, 98, 99, 0]"
  by (simp add: ex_sds_def sds_is_def sds_ok_def sds_type_mod flags_of_def sdslen_def sdsalloc_def get_field_def
      sdshdr_def has_hdr_def read_at_def sds_types)

theorem sds_fields_witness:
  "(\<exists>m'. sdssetlen ex_sds 5 7 = Some m' \<and> sds_is m' 5 2 7 10 [97, 98, 99, 0]) \<and>
   (\<exists>m'. sdsinclen ex_sds 5 4 = Some m' \<and> sds_is m' 5 2 (3 + 4) 10 [97, 98, 99, 0])"
  using sds_fields [OF ex_sds_is, of 7 4] by (simp add: type_cap_def)

end
