(* ===== verification/Swlock.thy ===== *)
theory Swlock
  imports CkPr DrainLock
begin

text \<open>
  The copy-safe reader-writer lock with a single writer of \<^verbatim>\<open>ck/ck_swlock.h\<close>: one word holds the writer
  bit, the latch bit and the count of readers. A latched writer lets late readers add to the count without
  taking it back, and clears the whole word when it leaves.
\<close>

section \<open>The lock\<close>

record ck_swlock = sw_value :: uint

definition CK_SWLOCK_WRITER_BIT :: uint where "CK_SWLOCK_WRITER_BIT = push_bit 31 1"
definition CK_SWLOCK_LATCH_BIT :: uint where "CK_SWLOCK_LATCH_BIT = push_bit 30 1"
definition CK_SWLOCK_WRITER_MASK :: uint where "CK_SWLOCK_WRITER_MASK = CK_SWLOCK_LATCH_BIT OR CK_SWLOCK_WRITER_BIT"
definition CK_SWLOCK_READER_MASK :: uint where "CK_SWLOCK_READER_MASK = (- 1) XOR CK_SWLOCK_WRITER_MASK"

definition ck_swlock_init :: ck_swlock where
  "ck_swlock_init = \<lparr>sw_value = 0\<rparr>"

definition ck_swlock_write_unlock :: "unit \<Rightarrow> ck_swlock \<Rightarrow> (unit, unit) ctl \<times> ck_swlock" where
  "ck_swlock_write_unlock _ rw = (Ret (), rw\<lparr>sw_value := ck_pr_and (sw_value rw) CK_SWLOCK_READER_MASK\<rparr>)"

definition ck_swlock_locked_writer :: "ck_swlock \<Rightarrow> bool" where
  "ck_swlock_locked_writer rw \<longleftrightarrow> ck_pr_load (sw_value rw) AND CK_SWLOCK_WRITER_BIT \<noteq> 0"

datatype sw_down_pc = SdInc | SdUnlock

fun ck_swlock_write_downgrade :: "sw_down_pc \<Rightarrow> ck_swlock \<Rightarrow> (sw_down_pc, unit) ctl \<times> ck_swlock" where
  "ck_swlock_write_downgrade SdInc rw = (Go SdUnlock, rw\<lparr>sw_value := ck_pr_inc (sw_value rw)\<rparr>)"
| "ck_swlock_write_downgrade SdUnlock rw = (Ret (), snd (ck_swlock_write_unlock () rw))"

definition ck_swlock_locked :: "ck_swlock \<Rightarrow> bool" where
  "ck_swlock_locked rw \<longleftrightarrow> ck_pr_load (sw_value rw) \<noteq> 0"

definition ck_swlock_write_trylock :: "unit \<Rightarrow> ck_swlock \<Rightarrow> (unit, bool) ctl \<times> ck_swlock" where
  "ck_swlock_write_trylock _ rw =
     (let (r, m) = ck_pr_cas (sw_value rw) 0 CK_SWLOCK_WRITER_BIT in (Ret r, rw\<lparr>sw_value := m\<rparr>))"

datatype sw_lock_pc = SlOr | SlDrain

fun ck_swlock_write_lock :: "sw_lock_pc \<Rightarrow> ck_swlock \<Rightarrow> (sw_lock_pc, unit) ctl \<times> ck_swlock" where
  "ck_swlock_write_lock SlOr rw =
     (Go SlDrain, rw\<lparr>sw_value := ck_pr_or (sw_value rw) CK_SWLOCK_WRITER_BIT\<rparr>)"
| "ck_swlock_write_lock SlDrain rw =
     (if ck_pr_load (sw_value rw) AND CK_SWLOCK_READER_MASK \<noteq> 0 then Go SlDrain else Ret (), rw)"

datatype sw_latch_pc = LaOr | LaCas | LaSpin

fun ck_swlock_write_latch :: "sw_latch_pc \<Rightarrow> ck_swlock \<Rightarrow> (sw_latch_pc, unit) ctl \<times> ck_swlock" where
  "ck_swlock_write_latch LaOr rw =
     (Go LaCas, rw\<lparr>sw_value := ck_pr_or (sw_value rw) CK_SWLOCK_WRITER_BIT\<rparr>)"
| "ck_swlock_write_latch LaCas rw =
     (let (ok, m) = ck_pr_cas (sw_value rw) CK_SWLOCK_WRITER_BIT CK_SWLOCK_WRITER_MASK
      in (if ok then Ret () else Go LaSpin, rw\<lparr>sw_value := m\<rparr>))"
| "ck_swlock_write_latch LaSpin rw =
     (if ck_pr_load (sw_value rw) \<noteq> CK_SWLOCK_WRITER_BIT then Go LaSpin else Go LaCas, rw)"

definition ck_swlock_write_unlatch :: "unit \<Rightarrow> ck_swlock \<Rightarrow> (unit, unit) ctl \<times> ck_swlock" where
  "ck_swlock_write_unlatch _ rw = (Ret (), rw\<lparr>sw_value := ck_pr_store (sw_value rw) 0\<rparr>)"

datatype sw_rtry_pc = StLoad | StFaa | StDec

fun ck_swlock_read_trylock :: "sw_rtry_pc \<Rightarrow> ck_swlock \<Rightarrow> (sw_rtry_pc, bool) ctl \<times> ck_swlock" where
  "ck_swlock_read_trylock StLoad rw =
     (if ck_pr_load (sw_value rw) AND CK_SWLOCK_WRITER_BIT \<noteq> 0 then Ret False else Go StFaa, rw)"
| "ck_swlock_read_trylock StFaa rw =
     (let (v, m) = ck_pr_faa (sw_value rw) 1; l = v AND CK_SWLOCK_WRITER_MASK
      in (if l = CK_SWLOCK_WRITER_BIT then Go StDec else Ret (l = 0), rw\<lparr>sw_value := m\<rparr>))"
| "ck_swlock_read_trylock StDec rw = (Ret False, rw\<lparr>sw_value := ck_pr_dec (sw_value rw)\<rparr>)"

datatype sw_rlock_pc = SrSpin | SrFaa | SrDec

fun ck_swlock_read_lock :: "sw_rlock_pc \<Rightarrow> ck_swlock \<Rightarrow> (sw_rlock_pc, unit) ctl \<times> ck_swlock" where
  "ck_swlock_read_lock SrSpin rw =
     (if ck_pr_load (sw_value rw) AND CK_SWLOCK_WRITER_BIT \<noteq> 0 then Go SrSpin else Go SrFaa, rw)"
| "ck_swlock_read_lock SrFaa rw =
     (let (v, m) = ck_pr_faa (sw_value rw) 1; l = v AND CK_SWLOCK_WRITER_MASK
      in (if l = 0 then Ret () else if l = CK_SWLOCK_WRITER_BIT then Go SrDec else Go SrSpin, rw\<lparr>sw_value := m\<rparr>))"
| "ck_swlock_read_lock SrDec rw = (Go SrSpin, rw\<lparr>sw_value := ck_pr_dec (sw_value rw)\<rparr>)"

definition ck_swlock_locked_reader :: "ck_swlock \<Rightarrow> bool" where
  "ck_swlock_locked_reader rw \<longleftrightarrow> ck_pr_load (sw_value rw) AND CK_SWLOCK_READER_MASK \<noteq> 0"

definition ck_swlock_read_unlock :: "unit \<Rightarrow> ck_swlock \<Rightarrow> (unit, unit) ctl \<times> ck_swlock" where
  "ck_swlock_read_unlock _ rw = (Ret (), rw\<lparr>sw_value := ck_pr_dec (sw_value rw)\<rparr>)"

section \<open>Clients\<close>

text \<open>The writer, thread 0, locks, tries or latches, and leaves the way it came in; every thread may read.\<close>

datatype sw_client =
  SwIdle | SwLock sw_lock_pc | SwTry | SwLatch sw_latch_pc | SwWrite bool | SwUnlock | SwUnlatch | SwDown sw_down_pc
  | SwRLock sw_rlock_pc | SwRTry sw_rtry_pc | SwRead | SwRUnlock

fun sw_begin :: "nat \<Rightarrow> nat \<Rightarrow> sw_client \<Rightarrow> sw_client" where
  "sw_begin c t SwIdle = (if c = 0 then SwRLock SrSpin else if c = 1 \<or> t \<noteq> 0 then SwRTry StLoad
     else if c = 2 then SwLock SlOr else if c = 3 then SwTry else SwLatch LaOr)"
| "sw_begin c t (SwWrite latched) = (if latched then SwUnlatch else if c = 0 then SwUnlock else SwDown SdInc)"
| "sw_begin c t SwRead = SwRUnlock"
| "sw_begin c t l = l"

fun sw_move :: "nat \<Rightarrow> nat \<Rightarrow> sw_client \<Rightarrow> ck_swlock \<Rightarrow> sw_client \<times> ck_swlock" where
  "sw_move c t (SwLock a) s = (case ck_swlock_write_lock a s of
     (Go a', s') \<Rightarrow> (SwLock a', s') | (Ret _, s') \<Rightarrow> (SwWrite False, s'))"
| "sw_move c t SwTry s = (case ck_swlock_write_trylock () s of
     (Go _, s') \<Rightarrow> (SwTry, s') | (Ret ok, s') \<Rightarrow> (if ok then SwWrite False else SwIdle, s'))"
| "sw_move c t (SwLatch a) s = (case ck_swlock_write_latch a s of
     (Go a', s') \<Rightarrow> (SwLatch a', s') | (Ret _, s') \<Rightarrow> (SwWrite True, s'))"
| "sw_move c t SwUnlock s = (SwIdle, snd (ck_swlock_write_unlock () s))"
| "sw_move c t SwUnlatch s = (SwIdle, snd (ck_swlock_write_unlatch () s))"
| "sw_move c t (SwDown a) s = (case ck_swlock_write_downgrade a s of
     (Go a', s') \<Rightarrow> (SwDown a', s') | (Ret _, s') \<Rightarrow> (SwRead, s'))"
| "sw_move c t (SwRLock a) s = (case ck_swlock_read_lock a s of
     (Go a', s') \<Rightarrow> (SwRLock a', s') | (Ret _, s') \<Rightarrow> (SwRead, s'))"
| "sw_move c t (SwRTry a) s = (case ck_swlock_read_trylock a s of
     (Go a', s') \<Rightarrow> (SwRTry a', s') | (Ret ok, s') \<Rightarrow> (if ok then SwRead else SwIdle, s'))"
| "sw_move c t SwRUnlock s = (SwIdle, snd (ck_swlock_read_unlock () s))"
| "sw_move c t l s = (sw_begin c t l, s)"

inductive sw_step :: "nat \<Rightarrow> sw_client \<Rightarrow> ck_swlock \<Rightarrow> sw_client \<Rightarrow> ck_swlock \<Rightarrow> bool" where
  "sw_move c t l s = (l', s') \<Longrightarrow> sw_step t l s l' s'"

inductive_cases sw_stepE: "sw_step t l s l' s'"

section \<open>The word\<close>

text \<open>The word as its three parts.\<close>

definition hi :: "bool \<Rightarrow> bool \<Rightarrow> uint" where
  "hi wb lb = (if wb then push_bit 31 1 else 0) OR (if lb then push_bit 30 1 else 0)"

definition sv :: "bool \<Rightarrow> bool \<Rightarrow> nat \<Rightarrow> uint" where
  "sv wb lb n = hi wb lb + of_nat n"

lemma bit_one_at: "bit (push_bit j 1 :: uint) k \<longleftrightarrow> k = j \<and> j < 32"
  by (auto simp: bit_exp_iff)

lemma bit_hi: "bit (hi wb lb) k \<longleftrightarrow> wb \<and> k = 31 \<or> lb \<and> k = 30"
proof -
  have "bit (if wb then push_bit 31 1 else 0 :: uint) k \<longleftrightarrow> wb \<and> k = 31"
    using bit_one_at [of 31 k] by (cases wb) simp_all
  moreover have "bit (if lb then push_bit 30 1 else 0 :: uint) k \<longleftrightarrow> lb \<and> k = 30"
    using bit_one_at [of 30 k] by (cases lb) simp_all
  ultimately show ?thesis unfolding hi_def bit_or_iff by (simp only:)
qed

lemma bit_small: "n < 2 ^ 30 \<Longrightarrow> bit (of_nat n :: uint) k \<longleftrightarrow> bit n k"
  and bit_small_less: "n < 2 ^ 30 \<Longrightarrow> bit n k \<Longrightarrow> k < 30" for n k :: nat
proof -
  show less: "n < 2 ^ 30 \<Longrightarrow> bit n k \<Longrightarrow> k < 30" for n k :: nat
    by (metis bit_take_bit_iff take_bit_nat_eq_self)
  show "n < 2 ^ 30 \<Longrightarrow> bit (of_nat n :: uint) k \<longleftrightarrow> bit n k" for n k :: nat
    using less [of n k] by (auto simp: bit_of_nat_iff)
qed

lemma bit_sv:
  assumes "n < 2 ^ 30"
  shows "bit (sv wb lb n) k \<longleftrightarrow> wb \<and> k = 31 \<or> lb \<and> k = 30 \<or> bit n k"
proof -
  have "hi wb lb AND of_nat n = 0"
    using bit_small [OF assms] bit_small_less [OF assms, of 31] bit_small_less [OF assms, of 30]
    by (intro bit_word_eqI) (auto simp: bit_and_iff bit_hi)
  then have "sv wb lb n = hi wb lb OR of_nat n" by (simp add: sv_def disjunctive_add_eq_or)
  then show ?thesis using bit_small [OF assms] by (auto simp: bit_or_iff bit_hi)
qed

lemma mask_bits:
  "bit CK_SWLOCK_WRITER_BIT k \<longleftrightarrow> k = 31" "bit CK_SWLOCK_WRITER_MASK k \<longleftrightarrow> k = 30 \<or> k = 31"
  "bit CK_SWLOCK_READER_MASK k \<longleftrightarrow> k < 30"
proof -
  have b: "bit CK_SWLOCK_WRITER_BIT k \<longleftrightarrow> k = 31"
    using bit_one_at [of 31 k] unfolding CK_SWLOCK_WRITER_BIT_def by simp
  have l: "bit CK_SWLOCK_LATCH_BIT k \<longleftrightarrow> k = 30"
    using bit_one_at [of 30 k] unfolding CK_SWLOCK_LATCH_BIT_def by simp
  show "bit CK_SWLOCK_WRITER_BIT k \<longleftrightarrow> k = 31" by (rule b)
  show m: "bit CK_SWLOCK_WRITER_MASK k \<longleftrightarrow> k = 30 \<or> k = 31" unfolding CK_SWLOCK_WRITER_MASK_def bit_or_iff b l ..
  show "bit CK_SWLOCK_READER_MASK k \<longleftrightarrow> k < 30"
    unfolding CK_SWLOCK_READER_MASK_def bit_xor_iff m by (auto simp: bit_minus_1_iff)
qed

lemma sv_word:
  assumes "n < 2 ^ 30"
  shows "sv wb lb n OR CK_SWLOCK_WRITER_BIT = sv True lb n"
    "sv wb lb n AND CK_SWLOCK_READER_MASK = of_nat n"
    "sv wb lb n AND CK_SWLOCK_WRITER_MASK = sv wb lb 0"
    "sv wb lb n AND CK_SWLOCK_WRITER_BIT = sv wb False 0"
proof -
  note b = bit_sv [OF assms] bit_small [OF assms] bit_small_less [OF assms] bit_or_iff bit_and_iff mask_bits
  have z: "bit (sv wb lb 0) k \<longleftrightarrow> wb \<and> k = 31 \<or> lb \<and> k = 30" for wb lb k using bit_sv [of 0 wb lb k] by simp
  show "sv wb lb n OR CK_SWLOCK_WRITER_BIT = sv True lb n" by (rule bit_word_eqI) (auto simp: b)
  show "sv wb lb n AND CK_SWLOCK_READER_MASK = of_nat n" by (rule bit_word_eqI) (auto simp: b)
  show "sv wb lb n AND CK_SWLOCK_WRITER_MASK = sv wb lb 0"
    using bit_small_less [OF assms, of 30] bit_small_less [OF assms, of 31]
    by (intro bit_word_eqI) (auto simp: b(1) bit_and_iff mask_bits z)
  show "sv wb lb n AND CK_SWLOCK_WRITER_BIT = sv wb False 0"
    using bit_small_less [OF assms, of 31] by (intro bit_word_eqI) (auto simp: b(1) bit_and_iff mask_bits z)
qed

lemma sv_bits:
  "CK_SWLOCK_WRITER_BIT = sv True False 0" "CK_SWLOCK_WRITER_MASK = sv True True 0" "0 = sv False False 0"
proof -
  have z: "bit (sv wb lb 0) k \<longleftrightarrow> wb \<and> k = 31 \<or> lb \<and> k = 30" for wb lb k using bit_sv [of 0 wb lb k] by simp
  show "CK_SWLOCK_WRITER_BIT = sv True False 0" by (rule bit_word_eqI) (simp add: z mask_bits)
  show "CK_SWLOCK_WRITER_MASK = sv True True 0" by (rule bit_word_eqI) (auto simp: z mask_bits)
  show "0 = sv False False 0" by (rule bit_word_eqI) (simp add: z)
qed

lemma sv_inj:
  assumes "n < 2 ^ 30" "n' < 2 ^ 30"
  shows "sv wb lb n = sv wb' lb' n' \<longleftrightarrow> wb = wb' \<and> lb = lb' \<and> n = n'"
proof
  assume e: "sv wb lb n = sv wb' lb' n'"
  then have b: "bit (sv wb lb n) k = bit (sv wb' lb' n') k" for k by simp
  have "wb = wb'" "lb = lb'"
    using b [of 31] b [of 30] bit_small_less [OF assms(1), of 30] bit_small_less [OF assms(1), of 31]
      bit_small_less [OF assms(2), of 30] bit_small_less [OF assms(2), of 31]
    by (auto simp: bit_sv [OF assms(1)] bit_sv [OF assms(2)])
  moreover from this e have "(of_nat n :: uint) = of_nat n'" by (simp add: sv_def)
  then have "n = n'" using assms by (subst (asm) of_nat_small_eq) simp_all
  ultimately show "wb = wb' \<and> lb = lb' \<and> n = n'" by blast
qed simp

lemma sv_arith: "sv wb lb n + 1 = sv wb lb (Suc n)" "0 < n \<Longrightarrow> sv wb lb n - 1 = sv wb lb (n - 1)"
  by (simp_all add: sv_def of_nat_diff)

lemma sv_tests:
  assumes "n < 2 ^ 30"
  shows "sv wb lb n AND CK_SWLOCK_WRITER_BIT \<noteq> 0 \<longleftrightarrow> wb" "sv wb lb n AND CK_SWLOCK_READER_MASK \<noteq> 0 \<longleftrightarrow> n \<noteq> 0"
    "sv wb lb n AND CK_SWLOCK_WRITER_MASK = 0 \<longleftrightarrow> \<not> wb \<and> \<not> lb"
    "sv wb lb n AND CK_SWLOCK_WRITER_MASK = CK_SWLOCK_WRITER_BIT \<longleftrightarrow> wb \<and> \<not> lb"
    "sv wb lb n = 0 \<longleftrightarrow> \<not> wb \<and> \<not> lb \<and> n = 0" "sv wb lb n = CK_SWLOCK_WRITER_BIT \<longleftrightarrow> wb \<and> \<not> lb \<and> n = 0"
    "sv wb lb n AND CK_SWLOCK_READER_MASK = sv False False n"
proof -
  have i: "sv w l a = sv w' l' b \<longleftrightarrow> w = w' \<and> l = l' \<and> a = b" if "a < 2 ^ 30" "b < 2 ^ 30" for w l a w' l' b
    using that by (rule sv_inj)
  have z: "(0 :: nat) < 2 ^ 30" by simp
  have r: "of_nat n = sv False False n" by (simp add: sv_def hi_def)
  show "sv wb lb n AND CK_SWLOCK_READER_MASK = sv False False n" using sv_word(2) [OF assms] r by simp
  have e: "sv w l a = 0 \<longleftrightarrow> \<not> w \<and> \<not> l \<and> a = 0" "sv w l a = CK_SWLOCK_WRITER_BIT \<longleftrightarrow> w \<and> \<not> l \<and> a = 0"
    if "a < 2 ^ 30" for w l a
    using i [OF that z, of w l False False] i [OF that z, of w l True False] unfolding sv_bits(1) sv_bits(3) [symmetric]
    by blast+
  show "sv wb lb n AND CK_SWLOCK_READER_MASK \<noteq> 0 \<longleftrightarrow> n \<noteq> 0"
    unfolding sv_word(2) [OF assms] r e(1) [OF assms] by simp
  show "sv wb lb n AND CK_SWLOCK_WRITER_BIT \<noteq> 0 \<longleftrightarrow> wb" unfolding sv_word(4) [OF assms] e(1) [OF z] by simp
  show "sv wb lb n AND CK_SWLOCK_WRITER_MASK = 0 \<longleftrightarrow> \<not> wb \<and> \<not> lb"
    "sv wb lb n AND CK_SWLOCK_WRITER_MASK = CK_SWLOCK_WRITER_BIT \<longleftrightarrow> wb \<and> \<not> lb"
    unfolding sv_word(3) [OF assms] e [OF z] by simp_all
  show "sv wb lb n = 0 \<longleftrightarrow> \<not> wb \<and> \<not> lb \<and> n = 0" "sv wb lb n = CK_SWLOCK_WRITER_BIT \<longleftrightarrow> wb \<and> \<not> lb \<and> n = 0"
    by (rule e [OF assms])+
qed

section \<open>Exclusion\<close>

fun sw_owns :: "sw_client \<Rightarrow> bool" where
  "sw_owns (SwLock a) = (a = SlDrain)" | "sw_owns (SwLatch a) = (a \<noteq> LaOr)" | "sw_owns (SwWrite b) = True"
| "sw_owns SwUnlock = True" | "sw_owns SwUnlatch = True" | "sw_owns (SwDown a) = True" | "sw_owns _ = False"

fun sw_ctd :: "sw_client \<Rightarrow> bool" where
  "sw_ctd (SwRLock a) = (a = SrDec)" | "sw_ctd (SwRTry a) = (a = StDec)" | "sw_ctd SwRead = True"
| "sw_ctd SwRUnlock = True" | "sw_ctd (SwDown a) = (a = SdUnlock)" | "sw_ctd _ = False"

fun sw_drn :: "sw_client \<Rightarrow> bool" where
  "sw_drn (SwWrite b) = True" | "sw_drn SwUnlock = True" | "sw_drn SwUnlatch = True" | "sw_drn (SwDown a) = True"
| "sw_drn _ = False"

fun sw_adm :: "sw_client \<Rightarrow> bool" where
  "sw_adm SwRead = True" | "sw_adm SwRUnlock = True" | "sw_adm _ = False"

fun sw_latched :: "sw_client \<Rightarrow> bool" where
  "sw_latched (SwWrite b) = b" | "sw_latched SwUnlatch = True" | "sw_latched _ = False"

fun at_faa :: "sw_client \<Rightarrow> bool" where
  "at_faa (SwRLock a) = (a = SrFaa)" | "at_faa (SwRTry a) = (a = StFaa)" | "at_faa _ = False"

fun sw_writer :: "sw_client \<Rightarrow> bool" where
  "sw_writer SwIdle = False" | "sw_writer (SwRLock a) = False" | "sw_writer (SwRTry a) = False"
| "sw_writer SwRead = False" | "sw_writer SwRUnlock = False" | "sw_writer _ = True"

text \<open>What a step does to the three parts of the word.\<close>

definition next_low :: "sw_client \<Rightarrow> sw_client \<Rightarrow> nat \<Rightarrow> nat" where
  "next_low l l' n = (if sw_latched l \<and> \<not> sw_latched l' then 0 else
     n + of_bool (at_faa l) + of_bool (sw_ctd l' \<and> \<not> sw_ctd l \<and> \<not> at_faa l) - of_bool (sw_ctd l \<and> \<not> sw_ctd l'))"

definition sw_effect :: "nat \<Rightarrow> sw_client \<Rightarrow> sw_client \<Rightarrow> bool \<Rightarrow> bool \<Rightarrow> nat \<Rightarrow> uint \<Rightarrow> bool" where
  "sw_effect t l l' w b n v' \<longleftrightarrow>
     v' = sv (if t = 0 then sw_owns l' else w) (if t = 0 then sw_latched l' else b) (next_low l l' n) \<and>
     (t \<noteq> 0 \<longrightarrow> \<not> sw_writer l') \<and>
     (at_faa l \<longrightarrow> \<not> at_faa l' \<and> (sw_ctd l' \<longleftrightarrow> \<not> b)) \<and>
     (at_faa l' \<longrightarrow> \<not> w) \<and>
     (sw_drn l' \<and> \<not> sw_drn l \<longrightarrow> n = 0 \<and> \<not> b) \<and>
     (sw_latched l' \<and> \<not> sw_latched l \<longrightarrow> \<not> sw_drn l) \<and>
     (sw_ctd l' \<and> \<not> sw_ctd l \<longrightarrow> \<not> b) \<and>
     (sw_adm l' \<and> \<not> sw_adm l \<longrightarrow> \<not> w \<or> sw_drn l \<and> \<not> sw_drn l')"

lemma sw_move_effect:
  assumes m: "sw_move c t l s = (l', s')" and v: "sw_value s = sv w b n" and n: "Suc n < 2 ^ 30"
    and t: "t = 0 \<Longrightarrow> w = sw_owns l \<and> b = sw_latched l" "t \<noteq> 0 \<Longrightarrow> \<not> sw_writer l"
    and ct: "sw_ctd l \<Longrightarrow> 0 < n \<and> \<not> b" and bw: "b \<Longrightarrow> w"
  shows "sw_effect t l l' w b n (sw_value s')"
proof -
  have n': "n < 2 ^ 30" using n by simp
  have z: "(0 :: uint) = sv False False 0" "CK_SWLOCK_WRITER_BIT = sv True False 0" "CK_SWLOCK_WRITER_MASK = sv True True 0"
    by (rule sv_bits)+
  have vs: "s = s' \<Longrightarrow> sw_value s' = sv w b n" using v by simp
  note d = sw_effect_def next_low_def pr_simps v vs sv_tests [OF n'] sv_word(1) [OF n'] sv_arith
  show ?thesis
  proof (cases l)
    case SwIdle
    then show ?thesis using m t by (cases "t = 0") (auto simp: d split: if_splits)
  next
    case (SwLock a)
    then show ?thesis using m t by (cases a; cases "t = 0") (auto simp: d split: if_splits)
  next
    case SwTry
    then show ?thesis using m t z by (cases "t = 0") (auto simp: d ck_swlock_write_trylock_def split: if_splits)
  next
    case (SwLatch a)
    then show ?thesis using m t z by (cases a; cases "t = 0") (auto simp: d split: if_splits)
  next
    case (SwWrite a)
    then show ?thesis using m t by (cases "t = 0") (auto simp: d split: if_splits)
  next
    case SwUnlock
    then show ?thesis using m t by (cases "t = 0") (auto simp: d ck_swlock_write_unlock_def)
  next
    case SwUnlatch
    then show ?thesis using m t z(1) by (cases "t = 0") (auto simp: d ck_swlock_write_unlatch_def)
  next
    case (SwDown a)
    then show ?thesis using m t ct by (cases a; cases "t = 0") (auto simp: d ck_swlock_write_unlock_def)
  next
    case (SwRLock a)
    then show ?thesis using m t ct bw by (cases a; cases "t = 0") (auto simp: d split: if_splits)
  next
    case (SwRTry a)
    then show ?thesis using m t ct bw by (cases a; cases "t = 0") (auto simp: d split: if_splits)
  next
    case SwRead
    then show ?thesis using m t by (cases "t = 0") (auto simp: d)
  next
    case SwRUnlock
    then show ?thesis using m t ct by (cases "t = 0") (auto simp: d ck_swlock_read_unlock_def)
  qed
qed

text \<open>Only thread 0 writes; without the latch the low bits count the readers, under the latch there is no
  reader and the low bits count the threads that came too late, each at most once.\<close>

definition sw_aux :: "nat \<Rightarrow> (nat \<Rightarrow> sw_client) \<Rightarrow> ck_swlock \<Rightarrow> bool" where
  "sw_aux N ls s \<longleftrightarrow> (\<forall>t<N. t \<noteq> 0 \<longrightarrow> \<not> sw_writer (ls t)) \<and>
     (\<exists>n. sw_value s = sv (sw_owns (ls 0)) (sw_latched (ls 0)) n \<and>
       (if sw_latched (ls 0) then n + cnt N at_faa ls \<le> N \<and> cnt N sw_ctd ls = 0 else n = cnt N sw_ctd ls))"

definition sw_flag :: "ck_swlock \<Rightarrow> bool" where "sw_flag s = bit (sw_value s) 31"
definition sw_rdrs :: "ck_swlock \<Rightarrow> nat" where
  "sw_rdrs s = (if bit (sw_value s) 30 then 0 else unat (sw_value s AND CK_SWLOCK_READER_MASK))"

lemma sv_read:
  assumes "n < 2 ^ 30" and "sw_value s = sv w b n"
  shows "sw_flag s = w" "sw_rdrs s = (if b then 0 else n)"
proof -
  have "unat (of_nat n :: uint) = n" using assms(1) by (simp add: unat_of_nat take_bit_nat_eq_self)
  then show "sw_flag s = w" "sw_rdrs s = (if b then 0 else n)"
    using bit_small_less [OF assms(1), of 31] bit_small_less [OF assms(1), of 30]
    by (auto simp: sw_flag_def sw_rdrs_def assms(2) bit_sv [OF assms(1)] sv_word(2) [OF assms(1)])
qed

lemma sw_points:
  "sw_owns l \<Longrightarrow> sw_writer l" "sw_latched l \<Longrightarrow> sw_drn l" "sw_drn l \<Longrightarrow> sw_owns l" "sw_latched l \<Longrightarrow> \<not> sw_ctd l"
  "at_faa l \<Longrightarrow> \<not> sw_ctd l" "at_faa l \<Longrightarrow> \<not> sw_latched l" "sw_adm l \<Longrightarrow> sw_ctd l" "sw_drn l \<Longrightarrow> \<not> sw_adm l"
  by (cases l; simp)+

lemma sw_aux_step_cases:
  assumes aux: "sw_aux N ls s" and t: "t < N" and N: "N \<le> 2 ^ 30 - 2" and st: "sw_step t (ls t) s l' s'"
  obtains n where "sw_value s = sv (sw_owns (ls 0)) (sw_latched (ls 0)) n" "Suc n < 2 ^ 30"
    "if sw_latched (ls 0) then n + cnt N at_faa ls \<le> N \<and> cnt N sw_ctd ls = 0 else n = cnt N sw_ctd ls"
    "sw_effect t (ls t) l' (sw_owns (ls 0)) (sw_latched (ls 0)) n (sw_value s')"
    "t \<noteq> 0 \<longrightarrow> \<not> sw_writer (ls t)" "sw_ctd (ls t) \<longrightarrow> 0 < n \<and> \<not> sw_latched (ls 0)"
proof -
  obtain n where v: "sw_value s = sv (sw_owns (ls 0)) (sw_latched (ls 0)) n"
    and i: "if sw_latched (ls 0) then n + cnt N at_faa ls \<le> N \<and> cnt N sw_ctd ls = 0 else n = cnt N sw_ctd ls"
    and w: "t \<noteq> 0 \<longrightarrow> \<not> sw_writer (ls t)"
    using aux t unfolding sw_aux_def by blast
  have n: "Suc n < 2 ^ 30" using i N cnt_le [of N sw_ctd ls] by (simp split: if_splits)
  have c: "sw_ctd (ls t) \<longrightarrow> 0 < n \<and> \<not> sw_latched (ls 0)" using cnt_pos [OF t, of sw_ctd ls] i by (auto split: if_splits)
  obtain c where "sw_move c t (ls t) s = (l', s')" using st by (rule sw_stepE)
  then have e: "sw_effect t (ls t) l' (sw_owns (ls 0)) (sw_latched (ls 0)) n (sw_value s')"
    by (rule sw_move_effect [OF _ v n]) (use w c sw_points(2,3) [of "ls 0"] in simp_all)
  show ?thesis by (rule that [OF v n i e w c])
qed

lemma next_low_le: "next_low l l' n \<le> Suc n"
  using sw_points(5) [of l] by (auto simp: next_low_def of_bool_def)

lemma low_cases:
  assumes e: "sw_effect t l l' w b n v'" and t: "t = 0 \<longrightarrow> w = sw_owns l \<and> b = sw_latched l" "t \<noteq> 0 \<longrightarrow> \<not> sw_writer l"
    and c: "sw_ctd l \<longrightarrow> 0 < n \<and> \<not> b" and b: "b \<longrightarrow> w" and b': "b' = (if t = 0 then sw_latched l' else b)"
  shows "\<not> b \<Longrightarrow> \<not> b' \<Longrightarrow> next_low l l' n + of_bool (sw_ctd l) = n + of_bool (sw_ctd l')"
    "b \<Longrightarrow> b' \<Longrightarrow> next_low l l' n = n + of_bool (at_faa l) \<and> \<not> sw_ctd l \<and> \<not> sw_ctd l' \<and> \<not> at_faa l'"
    "b \<Longrightarrow> \<not> b' \<Longrightarrow> next_low l l' n = 0 \<and> \<not> sw_ctd l \<and> \<not> sw_ctd l'"
    "\<not> b \<Longrightarrow> b' \<Longrightarrow> next_low l l' n = 0 \<and> n = 0 \<and> \<not> sw_ctd l \<and> \<not> sw_ctd l'"
proof -
  note e = e [unfolded sw_effect_def]
  have lw: "t \<noteq> 0 \<Longrightarrow> \<not> sw_latched l \<and> \<not> sw_latched l'" using e t(2) sw_points(1-3) by blast
  show "next_low l l' n + of_bool (sw_ctd l) = n + of_bool (sw_ctd l')" if "\<not> b" "\<not> b'"
  proof -
    have "\<not> sw_latched l" using lw t(1) that by (cases "t = 0") auto
    moreover have "at_faa l \<Longrightarrow> sw_ctd l' \<and> \<not> sw_ctd l" using e that(1) sw_points(5) by blast
    ultimately show ?thesis using c by (cases "sw_ctd l"; cases "at_faa l"; cases "sw_ctd l'") (simp_all add: next_low_def)
  qed
  have k: "\<not> sw_ctd l \<and> \<not> sw_ctd l'" if b using e c that by blast
  show "next_low l l' n = n + of_bool (at_faa l) \<and> \<not> sw_ctd l \<and> \<not> sw_ctd l' \<and> \<not> at_faa l'" if "b" "b'"
  proof -
    have "sw_latched l \<Longrightarrow> sw_latched l'" using lw b' that(2) by (cases "t = 0") auto
    moreover have "\<not> at_faa l'" using e b that(1) by blast
    ultimately show ?thesis using k [OF that(1)] by (auto simp: next_low_def)
  qed
  show "next_low l l' n = 0 \<and> \<not> sw_ctd l \<and> \<not> sw_ctd l'" if "b" "\<not> b'"
  proof -
    have "sw_latched l \<and> \<not> sw_latched l'" using b' t(1) that by (cases "t = 0") auto
    then show ?thesis using k [OF that(1)] by (simp add: next_low_def)
  qed
  show "next_low l l' n = 0 \<and> n = 0 \<and> \<not> sw_ctd l \<and> \<not> sw_ctd l'" if "\<not> b" "b'"
  proof -
    have "t = 0" "sw_latched l'" "\<not> sw_latched l" using that b' t(1) by (auto split: if_splits)
    then have "n = 0" "\<not> sw_ctd l'" using e sw_points(2,4) [of l'] by blast+
    moreover have "\<not> sw_ctd l" using c \<open>n = 0\<close> by simp
    moreover have "\<not> at_faa l" using e that(1) \<open>\<not> sw_ctd l'\<close> by blast
    ultimately show ?thesis using \<open>\<not> sw_latched l\<close> by (simp add: next_low_def)
  qed
qed

lemma sw_step_law:
  assumes "sw_aux N ls s" "t < N" "N \<le> 2 ^ 30 - 2" "sw_step t (ls t) s l' s'"
  shows "drain_law sw_owns sw_ctd sw_drn sw_adm sw_flag sw_rdrs (2 ^ 30 - 2) (ls t) s l' s'"
proof -
  obtain n where v: "sw_value s = sv (sw_owns (ls 0)) (sw_latched (ls 0)) n" and n: "Suc n < 2 ^ 30"
    and i: "if sw_latched (ls 0) then n + cnt N at_faa ls \<le> N \<and> cnt N sw_ctd ls = 0 else n = cnt N sw_ctd ls"
    and e: "sw_effect t (ls t) l' (sw_owns (ls 0)) (sw_latched (ls 0)) n (sw_value s')"
    and w: "t \<noteq> 0 \<longrightarrow> \<not> sw_writer (ls t)" and c: "sw_ctd (ls t) \<longrightarrow> 0 < n \<and> \<not> sw_latched (ls 0)"
    using assms by (rule sw_aux_step_cases)
  note p = sw_points [of "ls t"] sw_points [of l']
  define b' where "b' = (if t = 0 then sw_latched l' else sw_latched (ls 0))"
  have v': "sw_value s' = sv (if t = 0 then sw_owns l' else sw_owns (ls 0)) b' (next_low (ls t) l' n)"
    using e unfolding sw_effect_def b'_def by blast
  have r: "sw_flag s = sw_owns (ls 0)" "sw_rdrs s = (if sw_latched (ls 0) then 0 else n)"
    using n by (intro sv_read [OF _ v]; simp)+
  have n': "next_low (ls t) l' n < 2 ^ 30" using next_low_le [of "ls t" l' n] n by simp
  note r' = sv_read [OF n' v']
  note e' = e [unfolded sw_effect_def]
  have "sw_flag s' = (if t = 0 then sw_owns l' else sw_owns (ls 0))" by (rule r'(1))
  then have f: "sw_owns l' = sw_owns (ls t) \<Longrightarrow> sw_flag s' = sw_flag s" "sw_owns l' \<Longrightarrow> \<not> sw_owns (ls t) \<Longrightarrow> \<not> sw_flag s \<and> sw_flag s'"
    "sw_owns (ls t) \<Longrightarrow> \<not> sw_owns l' \<Longrightarrow> \<not> sw_flag s'"
    using e' w p(1) p(9) r(1) by (metis (full_types))+
  have h: "t = 0 \<longrightarrow> sw_owns (ls 0) = sw_owns (ls t) \<and> sw_latched (ls 0) = sw_latched (ls t)"
    "sw_latched (ls 0) \<longrightarrow> sw_owns (ls 0)" using sw_points(2,3) by auto
  note low = low_cases [OF e h(1) w c h(2) b'_def]
  have k: "sw_rdrs s' + of_bool (sw_ctd (ls t)) = sw_rdrs s + of_bool (sw_ctd l')"
    unfolding r(2) r'(2) using low
    by (cases "sw_latched (ls 0)"; cases b') simp_all
  have d: "sw_drn l' \<and> \<not> sw_drn (ls t) \<longrightarrow> sw_rdrs s = 0" using e' r(2) by (cases "sw_latched (ls 0)") simp_all
  have a: "sw_adm l' \<and> \<not> sw_adm (ls t) \<longrightarrow> \<not> sw_flag s \<or> sw_drn (ls t) \<and> \<not> sw_drn l'" using e' r(1) by blast
  show ?thesis unfolding drain_law_def using f k d a by (cases "sw_ctd (ls t)"; cases "sw_ctd l'") simp_all
qed

lemma sw_aux_step:
  assumes "sw_aux N ls s" "t < N" "N \<le> 2 ^ 30 - 2" "sw_step t (ls t) s l' s'"
  shows "sw_aux N (ls(t := l')) s'"
proof -
  obtain n where v: "sw_value s = sv (sw_owns (ls 0)) (sw_latched (ls 0)) n" and n: "Suc n < 2 ^ 30"
    and i: "if sw_latched (ls 0) then n + cnt N at_faa ls \<le> N \<and> cnt N sw_ctd ls = 0 else n = cnt N sw_ctd ls"
    and e: "sw_effect t (ls t) l' (sw_owns (ls 0)) (sw_latched (ls 0)) n (sw_value s')"
    and w: "t \<noteq> 0 \<longrightarrow> \<not> sw_writer (ls t)" and c: "sw_ctd (ls t) \<longrightarrow> 0 < n \<and> \<not> sw_latched (ls 0)"
    using assms by (rule sw_aux_step_cases)
  have u: "cnt N sw_ctd (ls(t := l')) + of_bool (sw_ctd (ls t)) = cnt N sw_ctd ls + of_bool (sw_ctd l')"
    "cnt N at_faa (ls(t := l')) + of_bool (at_faa (ls t)) = cnt N at_faa ls + of_bool (at_faa l')"
    by (rule cnt_upd [OF assms(2)])+
  define b' where "b' = (if t = 0 then sw_latched l' else sw_latched (ls 0))"
  have h: "t = 0 \<longrightarrow> sw_owns (ls 0) = sw_owns (ls t) \<and> sw_latched (ls 0) = sw_latched (ls t)"
    "sw_latched (ls 0) \<longrightarrow> sw_owns (ls 0)" using sw_points(2,3) by auto
  note low = low_cases [OF e h(1) w c h(2) b'_def]
  have q: "sw_latched ((ls(t := l')) 0) = b'" by (simp add: b'_def)
  have "if sw_latched ((ls(t := l')) 0) then next_low (ls t) l' n + cnt N at_faa (ls(t := l')) \<le> N \<and> cnt N sw_ctd (ls(t := l')) = 0
     else next_low (ls t) l' n = cnt N sw_ctd (ls(t := l'))"
    using low i u cnt_le [of N at_faa "ls(t := l')"] unfolding q
    by (cases "sw_latched (ls 0)"; cases b') simp_all
  moreover have "sw_value s' = sv (sw_owns ((ls(t := l')) 0)) (sw_latched ((ls(t := l')) 0)) (next_low (ls t) l' n)"
    using e unfolding sw_effect_def by auto
  moreover have "\<forall>i<N. i \<noteq> 0 \<longrightarrow> \<not> sw_writer ((ls(t := l')) i)"
    using assms(1) e unfolding sw_aux_def sw_effect_def by auto
  ultimately show ?thesis unfolding sw_aux_def by blast
qed

fun sw_reading :: "sw_client \<Rightarrow> bool" where "sw_reading SwRead = True" | "sw_reading _ = False"
fun sw_writing :: "sw_client \<Rightarrow> bool" where "sw_writing (SwWrite _) = True" | "sw_writing _ = False"

lemma sw_aux_start: "sw_aux N (\<lambda>_. SwIdle) ck_swlock_init"
  by (auto simp: sw_aux_def ck_swlock_init_def cnt_def sv_def hi_def)

interpretation swlock: drain_lock sw_step SwIdle ck_swlock_init "2 ^ 30 - 2" sw_owns sw_ctd sw_drn sw_adm
  sw_flag sw_rdrs sw_reading sw_writing sw_aux
proof unfold_locales
  fix l
  show "sw_writing l \<Longrightarrow> sw_drn l" "sw_reading l \<Longrightarrow> sw_adm l" by (cases l; simp)+
  show "sw_drn l \<Longrightarrow> sw_owns l" "sw_adm l \<Longrightarrow> sw_ctd l" "sw_drn l \<Longrightarrow> \<not> sw_adm l" by (rule sw_points; assumption)+
  show "\<not> sw_flag ck_swlock_init" "sw_rdrs ck_swlock_init = 0" by (simp_all add: sw_flag_def sw_rdrs_def ck_swlock_init_def)
  show "\<not> sw_owns SwIdle" "\<not> sw_ctd SwIdle" by simp_all
qed (rule sw_step_law sw_aux_step sw_aux_start; assumption)+

text \<open>Claim C25: in every interleaving of a writer that locks, tries or latches a \<open>ck_swlock\<close>, unlocks,
  unlatches or downgrades it, with up to \<open>2 ^ 30 - 3\<close> reading threads, nobody reads while the writer writes;
  in particular the latch may clear the readers' count without ever losing a reader that was let in.\<close>

theorem swlock_exclusion:
  assumes "reachable sw_step N (\<lambda>_. SwIdle) ck_swlock_init ls s"
    and "N < 2 ^ 30 - 1" and "i < N" and "sw_writing (ls i)"
  shows "{j. j < N \<and> sw_writing (ls j)} = {i} \<and> {j. j < N \<and> sw_reading (ls j)} = {}"
  using swlock.writers_exclude [OF assms(1) _ assms(3,4)] assms(2) by simp

lemma sw_run_reachable:
  "list_all (\<lambda>(t, c). t < N) sch \<Longrightarrow> reachable sw_step N ls0 s0 ls s \<Longrightarrow>
     reachable sw_step N ls0 s0 (fst (move_run sw_move sch (ls, s))) (snd (move_run sw_move sch (ls, s)))"
  by (rule move_run_reachable) (auto intro: sw_step.intros)

text \<open>Thread 1 is past its test when the writer latches; its late arrival leaves a count of one under the
  latch, and it goes back to wait.\<close>

definition sw_schedule :: "(nat \<times> nat) list" where
  "sw_schedule = [(1,0),(1,0),(0,4),(0,0),(0,0),(1,0),(1,0)]"

theorem swlock_exclusion_witness:
  "let (ls, s) = move_run sw_move sw_schedule (\<lambda>_. SwIdle, ck_swlock_init)
   in ({j. j < 2 \<and> sw_writing (ls j)} = {0} \<and> {j. j < 2 \<and> sw_reading (ls j)} = {}) \<and> ck_swlock_locked_reader s"
  unfolding case_prod_beta Let_def
  by (rule conjI, rule swlock_exclusion [OF sw_run_reachable [OF _ reachable.start]])
     (code_simp, simp, simp, code_simp, code_simp)

end
