(* ===== verification/Sequence.thy ===== *)
theory Sequence
  imports CkPr Interleave "HOL-Library.Sublist"
begin

text \<open>
  The sequence lock of \<^verbatim>\<open>ck/ck_sequence.h\<close>: a writer makes the counter odd before and even after an
  update, a reader copies the data and starts again when the counter was odd or has moved. The data is a
  list of words that are stored and loaded one at a time, so a reader may well see a half-finished update;
  the theorem says that such a copy is never returned.
\<close>

section \<open>The lock\<close>

record ck_sequence = sequence :: uint

definition ck_sequence_init :: ck_sequence where
  "ck_sequence_init = \<lparr>sequence = ck_pr_store 0 0\<rparr>"

definition ck_sequence_read_begin :: "unit \<Rightarrow> ck_sequence \<Rightarrow> (unit, uint) ctl \<times> ck_sequence" where
  "ck_sequence_read_begin _ sq =
     (let version = ck_pr_load (sequence sq) in (if version AND 1 = 0 then Ret version else Go (), sq))"

definition ck_sequence_read_retry :: "ck_sequence \<Rightarrow> uint \<Rightarrow> bool" where
  "ck_sequence_read_retry sq version \<longleftrightarrow> ck_pr_load (sequence sq) \<noteq> version"

text \<open>Both ends of an update load the counter, which only the owner of the mutex changes, and store it
  incremented.\<close>

datatype seq_pc = SeqLoad | SeqStore uint

fun ck_sequence_write_begin :: "seq_pc \<Rightarrow> ck_sequence \<Rightarrow> (seq_pc, unit) ctl \<times> ck_sequence" where
  "ck_sequence_write_begin SeqLoad sq = (Go (SeqStore (sequence sq + 1)), sq)"
| "ck_sequence_write_begin (SeqStore v) sq = (Ret (), sq\<lparr>sequence := ck_pr_store (sequence sq) v\<rparr>)"

fun ck_sequence_write_end :: "seq_pc \<Rightarrow> ck_sequence \<Rightarrow> (seq_pc, unit) ctl \<times> ck_sequence" where
  "ck_sequence_write_end SeqLoad sq = (Go (SeqStore (sequence sq + 1)), sq)"
| "ck_sequence_write_end (SeqStore v) sq = (Ret (), sq\<lparr>sequence := ck_pr_store (sequence sq) v\<rparr>)"

text \<open>The loop of the macro, around a body that runs from its entry to a result. The variable that holds
  the version also holds the outcome of the test, which is not zero as long as the loop goes on.\<close>

datatype ('b, 'r) seq_read_pc = ReadBegin | ReadBody uint 'b | ReadRetry uint 'r

fun CK_SEQUENCE_READ ::
    "('s \<Rightarrow> ck_sequence) \<Rightarrow> ('s \<Rightarrow> 'b) \<Rightarrow> ('b \<Rightarrow> 's \<Rightarrow> ('b, 'r) ctl) \<Rightarrow>
     ('b, 'r) seq_read_pc \<Rightarrow> 's \<Rightarrow> (('b, 'r) seq_read_pc, 'r) ctl" where
  "CK_SEQUENCE_READ sq entry body ReadBegin s =
     (case ck_sequence_read_begin () (sq s) of
        (Go _, _) \<Rightarrow> Go ReadBegin | (Ret version, _) \<Rightarrow> Go (ReadBody version (entry s)))"
| "CK_SEQUENCE_READ sq entry body (ReadBody version b) s =
     (case body b s of Go b' \<Rightarrow> Go (ReadBody version b') | Ret r \<Rightarrow> Go (ReadRetry version r))"
| "CK_SEQUENCE_READ sq entry body (ReadRetry version r) s =
     (if ck_sequence_read_retry (sq s) version then Go ReadBegin else Ret r)"

section \<open>Readers and writers\<close>

text \<open>The data, the counter and the mutex of the writers. The code never reads \<open>total\<close>, the number of
  increments so far, and \<open>hist\<close>, the contents after each finished update.\<close>

record 'a world =
  wsq :: ck_sequence
  wdata :: "'a list"
  held :: bool
  total :: nat
  hist :: "'a list list"

definition world0 :: "'a list \<Rightarrow> 'a world" where
  "world0 xs = \<lparr>wsq = ck_sequence_init, wdata = xs, held = False, total = 0, hist = [xs]\<rparr>"

text \<open>The body copies the words in order; the copy carries the number of increments at its start.\<close>

type_synonym 'a copy = "nat \<times> 'a list"

definition copy_entry :: "'a world \<Rightarrow> 'a copy" where "copy_entry s = (total s, [])"

definition copy_body :: "'a copy \<Rightarrow> 'a world \<Rightarrow> ('a copy, 'a copy) ctl" where
  "copy_body b s = (let (c, xs) = b in
     if length xs < length (wdata s) then Go (c, xs @ [wdata s ! length xs]) else Ret b)"

datatype 'a seq_client =
  SeqIdle | Reads "('a copy, 'a copy) seq_read_pc" | ReadDone nat "'a list" nat
  | WriteBegin seq_pc "'a list" | WriteBody nat "'a list" | WriteEnd seq_pc "'a list"

text \<open>An idle thread reads, or takes the mutex when it is free and writes the words \<open>xs\<close>.\<close>

fun seq_move :: "'a list \<Rightarrow> 'a seq_client \<Rightarrow> 'a world \<Rightarrow> 'a seq_client \<times> 'a world" where
  "seq_move xs SeqIdle s =
     (if length xs \<noteq> length (wdata s) then (Reads ReadBegin, s)
      else if held s then (SeqIdle, s) else (WriteBegin SeqLoad xs, s\<lparr>held := True\<rparr>))"
| "seq_move xs (Reads p) s =
     (case CK_SEQUENCE_READ wsq copy_entry copy_body p s of
        Go p' \<Rightarrow> (Reads p', s) | Ret (c, ys) \<Rightarrow> (ReadDone c ys (total s), s))"
| "seq_move xs (ReadDone c ys d) s = (SeqIdle, s)"
| "seq_move xs (WriteBegin p ys) s =
     (case ck_sequence_write_begin p (wsq s) of
        (Go p', sq) \<Rightarrow> (WriteBegin p' ys, s\<lparr>wsq := sq\<rparr>)
      | (Ret _, sq) \<Rightarrow> (WriteBody 0 ys, s\<lparr>wsq := sq, total := Suc (total s)\<rparr>))"
| "seq_move xs (WriteBody i ys) s =
     (if i < length ys then (WriteBody (Suc i) ys, s\<lparr>wdata := (wdata s)[i := ys ! i]\<rparr>)
      else (WriteEnd SeqLoad ys, s))"
| "seq_move xs (WriteEnd p ys) s =
     (case ck_sequence_write_end p (wsq s) of
        (Go p', sq) \<Rightarrow> (WriteEnd p' ys, s\<lparr>wsq := sq\<rparr>)
      | (Ret _, sq) \<Rightarrow> (SeqIdle, s\<lparr>wsq := sq, held := False, total := Suc (total s), hist := hist s @ [wdata s]\<rparr>))"

inductive seq_step :: "nat \<Rightarrow> 'a seq_client \<Rightarrow> 'a world \<Rightarrow> 'a seq_client \<Rightarrow> 'a world \<Rightarrow> bool" where
  "seq_move xs l s = (l', s') \<Longrightarrow> seq_step t l s l' s'"

inductive_cases seq_stepE: "seq_step t l s l' s'"

section \<open>No torn reads\<close>

fun updating :: "'a seq_client \<Rightarrow> bool" where
  "updating (WriteBegin p ys) = True" | "updating (WriteBody i ys) = True" | "updating (WriteEnd p ys) = True"
| "updating _ = False"

definition seq_glob :: "'a world \<Rightarrow> bool" where
  "seq_glob s \<longleftrightarrow> sequence (wsq s) = of_nat (total s) \<and> length (hist s) = Suc (total s div 2) \<and>
     (\<not> held s \<longrightarrow> even (total s)) \<and> (even (total s) \<longrightarrow> wdata s = hist s ! (total s div 2))"

text \<open>A copy is faithful as long as the counter has not moved.\<close>

definition copying :: "'a world \<Rightarrow> uint \<Rightarrow> 'a copy \<Rightarrow> bool" where
  "copying s v b \<longleftrightarrow> (case b of (c, xs) \<Rightarrow> even c \<and> c \<le> total s \<and> v = of_nat c \<and>
     (total s = c \<longrightarrow> xs = take (length xs) (wdata s)))"

fun seq_loc :: "'a world \<Rightarrow> 'a seq_client \<Rightarrow> bool" where
  "seq_loc s SeqIdle = True"
| "seq_loc s (Reads ReadBegin) = True"
| "seq_loc s (Reads (ReadBody v b)) = (copying s v b \<and> length (snd b) \<le> length (wdata s))"
| "seq_loc s (Reads (ReadRetry v b)) = (copying s v b \<and> length (snd b) = length (wdata s))"
| "seq_loc s (ReadDone c xs d) = (even c \<and> c \<le> d \<and> d \<le> total s \<and>
     (d < c + 2 ^ 32 \<longrightarrow> d = c \<and> xs = hist s ! (c div 2)))"
| "seq_loc s (WriteBegin p ys) = (even (total s) \<and> length ys = length (wdata s) \<and>
     (p = SeqLoad \<or> p = SeqStore (sequence (wsq s) + 1)))"
| "seq_loc s (WriteBody i ys) = (odd (total s) \<and> length ys = length (wdata s) \<and> i \<le> length ys)"
| "seq_loc s (WriteEnd p ys) = (odd (total s) \<and> (p = SeqLoad \<or> p = SeqStore (sequence (wsq s) + 1)))"

lemma even_version: "(of_nat c :: uint) AND 1 = 0 \<longleftrightarrow> even c"
  by (simp add: and_one_eq even_iff_mod_2_eq_zero [symmetric])

lemma version_same: "(of_nat c :: uint) = of_nat d \<Longrightarrow> c \<le> d \<Longrightarrow> d < c + 2 ^ 32 \<Longrightarrow> d = c"
proof -
  assume a: "(of_nat c :: uint) = of_nat d" "c \<le> d" "d < c + 2 ^ 32"
  then have "(of_nat (d - c) :: uint) = of_nat 0" by (simp add: of_nat_diff)
  moreover have "d - c < 2 ^ LENGTH(32)" using a by simp
  ultimately have "d - c = 0" by (subst (asm) of_nat_small_eq) simp_all
  with a show ?thesis by simp
qed

lemmas seq_defs = seq_glob_def copying_def copy_entry_def copy_body_def
  ck_sequence_read_begin_def ck_sequence_read_retry_def pr_simps

lemma seq_reads:
  assumes "seq_glob s" "seq_loc s (Reads p)" "seq_move xs (Reads p) s = (l', s')"
  shows "s' = s \<and> seq_loc s l' \<and> \<not> updating l'"
proof (cases p)
  case ReadBegin
  then show ?thesis using assms by (auto simp: seq_defs even_version split: if_splits)
next
  case (ReadBody v b)
  obtain c ys where b: "b = (c, ys)" by (cases b)
  have c: "copying s v (c, ys)" "length ys \<le> length (wdata s)" using assms(2) ReadBody b by simp_all
  show ?thesis
  proof (cases "length ys < length (wdata s)")
    case True
    then have "ys = take (length ys) (wdata s) \<Longrightarrow>
        ys @ [wdata s ! length ys] = take (length (ys @ [wdata s ! length ys])) (wdata s)"
      using take_Suc_conv_app_nth [OF True] by simp
    then have "copying s v (c, ys @ [wdata s ! length ys])" using c(1) unfolding copying_def prod.case by blast
    with True show ?thesis using assms(3) ReadBody b by (auto simp: copy_body_def)
  next
    case False
    then show ?thesis using c assms(3) ReadBody b by (auto simp: copy_body_def)
  qed
next
  case (ReadRetry v b)
  obtain c ys where b: "b = (c, ys)" by (cases b)
  show ?thesis
  proof (cases "sequence (wsq s) = v")
    case True
    then have "total s < c + 2 ^ 32 \<Longrightarrow> total s = c"
      using version_same [of c "total s"] assms(1,2) ReadRetry b by (simp add: seq_glob_def copying_def)
    with True show ?thesis using assms ReadRetry b by (simp add: seq_defs) (clarsimp)
  next
    case False
    then show ?thesis using assms ReadRetry b by (auto simp: seq_defs)
  qed
qed

lemma seq_halves: "odd n \<Longrightarrow> Suc n div 2 = Suc (n div 2)" "even n \<Longrightarrow> Suc n div 2 = n div 2" for n :: nat
  by presburger+

lemma seq_writes:
  assumes "seq_glob s" "seq_loc s l" "\<And>p. l \<noteq> Reads p" "updating l \<Longrightarrow> held s" "seq_move xs l s = (l', s')"
  shows "seq_glob s' \<and> seq_loc s' l'"
proof (cases l)
  case (WriteBegin p ys)
  then show ?thesis using assms by (cases p) (auto simp: seq_glob_def pr_simps seq_halves)
next
  case (WriteBody i ys)
  then show ?thesis using assms by (auto simp: seq_glob_def split: if_splits)
next
  case (WriteEnd p ys)
  then show ?thesis using assms by (cases p) (auto simp: seq_glob_def pr_simps seq_halves nth_append)
qed (use assms in \<open>auto simp: seq_glob_def split: if_splits\<close>)

lemma seq_held:
  assumes "seq_move xs l s = (l', s')" "updating l \<Longrightarrow> held s"
  shows "of_bool (held s') + of_bool (updating l) = (of_bool (held s) + of_bool (updating l') :: nat)"
proof (cases l)
  case (WriteBegin p ys)
  then show ?thesis using assms by (cases p) auto
next
  case (WriteEnd p ys)
  then show ?thesis using assms by (cases p) auto
qed (use assms in \<open>auto split: if_splits ctl.splits\<close>)

text \<open>What a step of one thread leaves to another: only the owner of the mutex writes, the counter grows,
  finished contents stay, and data changes under an odd counter only.\<close>

definition seq_grows :: "'a world \<Rightarrow> 'a world \<Rightarrow> bool" where
  "seq_grows s s' \<longleftrightarrow> length (wdata s') = length (wdata s) \<and> total s \<le> total s' \<and> prefix (hist s) (hist s') \<and>
     (total s' = total s \<longrightarrow> even (total s) \<longrightarrow> wdata s' = wdata s)"

lemma seq_move_grows:
  assumes "seq_loc s l" "seq_move xs l s = (l', s')"
  shows "seq_grows s s' \<and> (updating l \<or> wsq s' = wsq s \<and> wdata s' = wdata s \<and> total s' = total s)"
proof (cases l)
  case (WriteBegin p ys)
  then show ?thesis using assms by (cases p) (auto simp: seq_grows_def)
next
  case (WriteEnd p ys)
  then show ?thesis using assms by (cases p) (auto simp: seq_grows_def)
qed (use assms in \<open>auto simp: seq_grows_def split: if_splits ctl.splits\<close>)

lemma seq_rely:
  assumes "seq_glob s" "seq_loc s k" "seq_grows s s'" "updating k \<Longrightarrow> wsq s' = wsq s \<and> wdata s' = wdata s \<and> total s' = total s"
  shows "seq_loc s' k"
proof -
  have h: "i \<le> total s div 2 \<Longrightarrow> hist s' ! i = hist s ! i" for i
    using assms(1,3) by (auto simp: seq_grows_def seq_glob_def prefix_def nth_append)
  have c: "copying s v b \<Longrightarrow> copying s' v b" for v b
    using assms(3) by (auto simp: copying_def seq_grows_def)
  show ?thesis
  proof (cases "(s, k)" rule: seq_loc.cases)
    case (5 s c xs d)
    then show ?thesis using assms h [of "c div 2"] by (auto simp: seq_grows_def div_le_mono)
  qed (use assms c in \<open>auto simp: seq_grows_def\<close>)
qed

definition seq_inv :: "nat \<Rightarrow> (nat \<Rightarrow> 'a seq_client) \<Rightarrow> 'a world \<Rightarrow> bool" where
  "seq_inv N ls s \<longleftrightarrow> seq_glob s \<and> cnt N updating ls = of_bool (held s) \<and> (\<forall>t<N. seq_loc s (ls t))"

lemma seq_inv_step:
  assumes inv: "seq_inv N ls s" and t: "t < N" and "seq_step t (ls t) s l' s'"
  shows "seq_inv N (ls(t := l')) s'"
proof -
  obtain xs where m: "seq_move xs (ls t) s = (l', s')" using assms(3) by (rule seq_stepE)
  have g: "seq_glob s" and c: "cnt N updating ls = of_bool (held s)" and l: "\<And>t. t < N \<Longrightarrow> seq_loc s (ls t)"
    using inv by (auto simp: seq_inv_def)
  have h: "held s" if "updating (ls t)" using cnt_pos [OF t, of updating ls] c that by (cases "held s") auto
  have own: "seq_glob s' \<and> seq_loc s' l'"
  proof (cases "\<exists>p. ls t = Reads p")
    case True
    then obtain p where p: "ls t = Reads p" by blast
    show ?thesis using seq_reads [of s p xs l' s'] g l [OF t] m p by simp
  next
    case False
    then show ?thesis using seq_writes [OF g l [OF t] _ h m] by blast
  qed
  have gr: "seq_grows s s'" "updating (ls t) \<or> wsq s' = wsq s \<and> wdata s' = wdata s \<and> total s' = total s"
    using seq_move_grows [OF l [OF t] m] by blast+
  have "seq_loc s' (ls k)" if "k < N" "k \<noteq> t" for k
  proof (rule seq_rely [OF g l [OF that(1)] gr(1)])
    assume "updating (ls k)"
    then have "\<not> updating (ls t)" using cnt_le1 [of N updating ls k t] that t c by (cases "held s") auto
    with gr(2) show "wsq s' = wsq s \<and> wdata s' = wdata s \<and> total s' = total s" by blast
  qed
  moreover have "cnt N updating (ls(t := l')) = of_bool (held s')"
    using cnt_upd [OF t, of updating ls l'] seq_held [OF m h] c by linarith
  ultimately show ?thesis using own by (auto simp: seq_inv_def)
qed

lemma seq_inv_start: "seq_inv N (\<lambda>_. SeqIdle) (world0 xs)"
  by (simp add: seq_inv_def seq_glob_def world0_def ck_sequence_init_def pr_simps cnt_def)

interpretation seqlock: interleaving seq_step "\<lambda>_. SeqIdle" "world0 xs" "\<lambda>N. True" seq_inv for xs :: "'a list"
  by unfold_locales (rule seq_inv_start, rule seq_inv_step)

text \<open>Claim C26: whatever writers and readers share the data, a reader of \<open>CK_SEQUENCE_READ\<close> that returns while
  the counter has made fewer than \<open>2 ^ 32\<close> increments since it began returns the contents left by one
  finished update, the last one before it began, and no update was in progress or came in between.\<close>

theorem sequence_no_torn_reads:
  assumes "reachable seq_step N (\<lambda>_. SeqIdle) (world0 xs) ls s" and "i < N"
    and "ls i = ReadDone c ys d" and "d < c + 2 ^ 32"
  shows "c = d \<and> even c \<and> c div 2 < length (hist s) \<and> ys = hist s ! (c div 2)"
proof -
  have "seq_inv N ls s" using seqlock.reachable_inv [OF assms(1)] by simp
  then have "seq_glob s" "seq_loc s (ls i)" using assms(2) by (auto simp: seq_inv_def)
  then show ?thesis using assms(3,4) by (auto simp: seq_glob_def div_le_mono less_Suc_eq_le)
qed

lemma seq_run_reachable:
  "list_all (\<lambda>(t, c). t < N) sch \<Longrightarrow> reachable seq_step N ls0 s0 ls s \<Longrightarrow>
     reachable seq_step N ls0 s0 (fst (move_run (\<lambda>xs t. seq_move xs) sch (ls, s))) (snd (move_run (\<lambda>xs t. seq_move xs) sch (ls, s)))"
  by (rule move_run_reachable) (auto intro: seq_step.intros)

text \<open>Thread 1 copies the first of two words, thread 0 replaces both, the copy is thrown away and the
  second attempt returns the new words.\<close>

definition seq_schedule :: "(nat \<times> nat list) list" where
  "seq_schedule = [(1,[]),(1,[]),(1,[])] @ map (\<lambda>i. (0,[7,8])) [0..<8] @ map (\<lambda>i. (1,[])) [0..<8]"

theorem sequence_no_torn_reads_witness:
  "let (ls, s) = move_run (\<lambda>xs t. seq_move xs) seq_schedule (\<lambda>_. SeqIdle, world0 [1,2])
   in ls 1 = ReadDone 2 [7,8] 2 \<and> ((2::nat) = 2 \<and> even (2::nat) \<and> 2 div 2 < length (hist s) \<and> [7,8] = hist s ! (2 div 2))"
  unfolding case_prod_beta Let_def
  by (rule conjI, code_simp, rule sequence_no_torn_reads [OF seq_run_reachable [where N = 2, OF _ reachable.start], where i = 1])
     (code_simp, simp, code_simp, simp)

end
