(* ===== verification/AsContainers.thy ===== *)
theory AsContainers
  imports Prelude "HOL-Library.Monad_Syntax"
begin

text \<open>
  The inline parts of the two byte containers of the Aerospike headers: the dynamic array of
  \<^verbatim>\<open>aerospike/as_vector.h\<close> and the circular queue of \<^verbatim>\<open>aerospike/as_queue.h\<close>. Items are stretches of
  \<open>item_size\<close> bytes; a pointer into the block is its byte offset, computed in 32-bit arithmetic as
  the code does. A copy that leaves the block or the caller's buffer is undefined and yields \<open>None\<close>.
  The growth of a vector is code of the client library and a parameter.
\<close>

section \<open>Items in a block\<close>

definition item_at :: "byte list \<Rightarrow> nat \<Rightarrow> nat \<Rightarrow> byte list" where
  "item_at m w i = read_at m (i * w) w"

definition copy_in :: "byte list \<Rightarrow> nat \<Rightarrow> byte list \<Rightarrow> nat \<Rightarrow> byte list option" where
  "copy_in m off src n = (if off + n \<le> length m \<and> n \<le> length src then Some (write_at m off (take n src)) else None)"

definition copy_out :: "byte list \<Rightarrow> nat \<Rightarrow> nat \<Rightarrow> byte list option" where
  "copy_out m off n = (if off + n \<le> length m then Some (read_at m off n) else None)"

lemma block_fits: "i < c \<Longrightarrow> i * w + w \<le> c * w" for i c w :: nat
  by (metis Suc_leI add.commute mult_Suc mult_le_mono1)

lemma item_at_write:
  assumes "i < c" "c * w \<le> length m" "length bs = w"
  shows "item_at (write_at m (i * w) bs) w j = (if i = j then bs else item_at m w j)"
proof -
  have f: "i * w + length bs \<le> length m" using block_fits [OF assms(1), of w] assms(2,3) by simp
  consider "i = j" | "i < j" | "j < i" by linarith
  then show ?thesis
  proof cases
    case 1
    then show ?thesis using read_write_same [OF f] assms(3) by (simp add: item_at_def)
  next
    case 2
    then show ?thesis using block_fits [OF 2, of w] read_write_after [OF _ f] assms(3) by (simp add: item_at_def)
  next
    case 3
    then show ?thesis using block_fits [OF 3, of w] read_write_before [OF _ f] by (simp add: item_at_def)
  qed
qed

lemma unat_mult_small: "unat a * unat b < 2 ^ LENGTH('w) \<Longrightarrow> unat (a * b :: 'w::len word) = unat a * unat b"
  by (metis unat_of_nat_small of_nat_mult of_nat_unat ucast_id)

lemma read_at_take: "off + w \<le> n \<Longrightarrow> read_at (take n m) off w = read_at m off w"
  by (simp add: read_at_def drop_take min_def)

section \<open>The vector\<close>

record as_vector =
  vlist :: "byte list"
  vcapacity :: uint
  vsize :: uint
  vitem_size :: uint
  vflags :: uint

text \<open>The block is what \<open>alloca\<close> returns for the product, which is taken in 32 bits for arguments of the fields' type.\<close>

definition as_vector_inita :: "(nat \<Rightarrow> byte list) \<Rightarrow> uint \<Rightarrow> uint \<Rightarrow> as_vector" where
  "as_vector_inita alloca item_size capacity =
     \<lparr>vlist = alloca (unat (capacity * item_size)), vcapacity = capacity, vsize = 0, vitem_size = item_size, vflags = 0\<rparr>"

definition as_vector_clear :: "as_vector \<Rightarrow> as_vector" where
  "as_vector_clear v = v\<lparr>vsize := 0\<rparr>"

definition as_vector_get :: "as_vector \<Rightarrow> uint \<Rightarrow> nat" where
  "as_vector_get v index = unat (vitem_size v * index)"

definition as_vector_get_ptr :: "as_vector \<Rightarrow> uint \<Rightarrow> uint64 option" where
  "as_vector_get_ptr v index = map_option (\<lambda>bs. of_nat (le_val bs)) (copy_out (vlist v) (unat (vitem_size v * index)) 8)"

definition as_vector_set :: "as_vector \<Rightarrow> uint \<Rightarrow> byte list \<Rightarrow> as_vector option" where
  "as_vector_set v index value =
     map_option (\<lambda>m. v\<lparr>vlist := m\<rparr>) (copy_in (vlist v) (unat (index * vitem_size v)) value (unat (vitem_size v)))"

definition as_vector_append :: "(as_vector \<Rightarrow> as_vector) \<Rightarrow> as_vector \<Rightarrow> byte list \<Rightarrow> as_vector option" where
  "as_vector_append increase_capacity v value = do {
     let v = (if vsize v \<ge> vcapacity v then increase_capacity v else v);
     m \<leftarrow> copy_in (vlist v) (unat (vsize v * vitem_size v)) value (unat (vitem_size v));
     Some (v\<lparr>vlist := m, vsize := vsize v + 1\<rparr>) }"

definition as_vector_reserve :: "(as_vector \<Rightarrow> as_vector) \<Rightarrow> as_vector \<Rightarrow> (nat \<times> as_vector) option" where
  "as_vector_reserve increase_capacity v = do {
     let v = (if vsize v \<ge> vcapacity v then increase_capacity v else v);
     let item = unat (vsize v * vitem_size v);
     m \<leftarrow> copy_in (vlist v) item (replicate (unat (vitem_size v)) 0) (unat (vitem_size v));
     Some (item, v\<lparr>vlist := m, vsize := vsize v + 1\<rparr>) }"

section \<open>The queue\<close>

record as_queue =
  qdata :: "byte list"
  qcapacity :: uint
  qhead :: uint
  qtail :: uint
  qitem_size :: uint
  qtotal :: uint
  qflags :: uint

definition as_queue_inita :: "(nat \<Rightarrow> byte list) \<Rightarrow> uint \<Rightarrow> uint \<Rightarrow> as_queue" where
  "as_queue_inita alloca item_size capacity =
     \<lparr>qdata = alloca (unat (capacity * item_size)), qcapacity = capacity, qhead = 0, qtail = 0,
      qitem_size = item_size, qtotal = 0, qflags = 0\<rparr>"

definition as_queue_size :: "as_queue \<Rightarrow> uint" where
  "as_queue_size q = qtail q - qhead q"

definition as_queue_empty :: "as_queue \<Rightarrow> bool" where
  "as_queue_empty q \<longleftrightarrow> qtail q = qhead q"

definition as_queue_get :: "as_queue \<Rightarrow> uint \<Rightarrow> nat option" where
  "as_queue_get q index =
     (if qcapacity q = 0 then None else Some (unat ((index mod qcapacity q) * qitem_size q)))"

definition as_queue_pop :: "as_queue \<Rightarrow> (byte list option \<times> as_queue) option" where
  "as_queue_pop q =
     (if as_queue_empty q then Some (None, q) else do {
        off \<leftarrow> as_queue_get q (qhead q);
        x \<leftarrow> copy_out (qdata q) off (unat (qitem_size q));
        let q = q\<lparr>qhead := qhead q + 1\<rparr>;
        Some (Some x, if qhead q = qtail q then q\<lparr>qhead := 0, qtail := 0\<rparr> else q) })"

definition as_queue_pop_tail :: "as_queue \<Rightarrow> (byte list option \<times> as_queue) option" where
  "as_queue_pop_tail q =
     (if as_queue_empty q then Some (None, q) else do {
        let q = q\<lparr>qtail := qtail q - 1\<rparr>;
        off \<leftarrow> as_queue_get q (qtail q);
        x \<leftarrow> copy_out (qdata q) off (unat (qitem_size q));
        Some (Some x, if qhead q = qtail q then q\<lparr>qhead := 0, qtail := 0\<rparr> else q) })"

definition as_queue_incr_total :: "as_queue \<Rightarrow> bool \<times> as_queue" where
  "as_queue_incr_total q =
     (if qtotal q < qcapacity q then (True, q\<lparr>qtotal := qtotal q + 1\<rparr>) else (False, q))"

definition as_queue_decr_total :: "as_queue \<Rightarrow> as_queue" where
  "as_queue_decr_total q = q\<lparr>qtotal := qtotal q - 1\<rparr>"

section \<open>Vectors are lists\<close>

definition vec_ok :: "as_vector \<Rightarrow> bool" where
  "vec_ok v \<longleftrightarrow> length (vlist v) = unat (vcapacity v) * unat (vitem_size v) \<and>
     unat (vcapacity v) * unat (vitem_size v) < 2 ^ 32 \<and> vsize v \<le> vcapacity v"

definition vec_items :: "as_vector \<Rightarrow> byte list list" where
  "vec_items v = map (item_at (vlist v) (unat (vitem_size v))) [0..<unat (vsize v)]"

text \<open>What the client library documents of the growth: it doubles the capacity and keeps the contents.\<close>

definition doubles :: "(as_vector \<Rightarrow> as_vector) \<Rightarrow> as_vector \<Rightarrow> bool" where
  "doubles grow v \<longleftrightarrow> vec_ok (grow v) \<and> unat (vcapacity (grow v)) = 2 * unat (vcapacity v) \<and>
     vsize (grow v) = vsize v \<and> vitem_size (grow v) = vitem_size v \<and>
     take (length (vlist v)) (vlist (grow v)) = vlist v"

lemma vec_offset:
  assumes "vec_ok v" "idx < vcapacity v"
  shows "unat (vitem_size v * idx) = unat idx * unat (vitem_size v)" "unat (idx * vitem_size v) = unat idx * unat (vitem_size v)"
    "unat idx * unat (vitem_size v) + unat (vitem_size v) \<le> length (vlist v)"
proof -
  have l: "unat idx < unat (vcapacity v)" using assms(2) by (simp add: word_less_nat_alt)
  have "unat idx * unat (vitem_size v) \<le> unat (vcapacity v) * unat (vitem_size v)" using l by (intro mult_le_mono1) simp
  also have "\<dots> < 2 ^ LENGTH(32)" using assms(1) by (simp add: vec_ok_def)
  finally have b: "unat idx * unat (vitem_size v) < 2 ^ LENGTH(32)" .
  show "unat (vitem_size v * idx) = unat idx * unat (vitem_size v)"
    using unat_mult_small [of "vitem_size v" idx] b by (simp add: mult.commute)
  show "unat (idx * vitem_size v) = unat idx * unat (vitem_size v)" using unat_mult_small [of idx "vitem_size v"] b by simp
  show "unat idx * unat (vitem_size v) + unat (vitem_size v) \<le> length (vlist v)"
    using block_fits [OF l, of "unat (vitem_size v)"] assms(1) by (simp add: vec_ok_def)
qed

lemma vec_write:
  assumes "vec_ok v" "idx < vcapacity v" "length x = unat (vitem_size v)"
  shows "copy_in (vlist v) (unat (idx * vitem_size v)) x (unat (vitem_size v)) =
      Some (write_at (vlist v) (unat idx * unat (vitem_size v)) x)"
    and "length (write_at (vlist v) (unat idx * unat (vitem_size v)) x) = length (vlist v)"
    and "item_at (write_at (vlist v) (unat idx * unat (vitem_size v)) x) (unat (vitem_size v)) j =
      (if unat idx = j then x else item_at (vlist v) (unat (vitem_size v)) j)"
proof -
  note o = vec_offset [OF assms(1,2)]
  show "copy_in (vlist v) (unat (idx * vitem_size v)) x (unat (vitem_size v)) =
      Some (write_at (vlist v) (unat idx * unat (vitem_size v)) x)" using o assms(3) by (simp add: copy_in_def)
  show "length (write_at (vlist v) (unat idx * unat (vitem_size v)) x) = length (vlist v)"
    using o(3) assms(3) by (intro length_write_at) simp
  show "item_at (write_at (vlist v) (unat idx * unat (vitem_size v)) x) (unat (vitem_size v)) j =
      (if unat idx = j then x else item_at (vlist v) (unat (vitem_size v)) j)"
    using assms by (intro item_at_write [where c = "unat (vcapacity v)"]) (auto simp: vec_ok_def word_less_nat_alt)
qed

lemma vec_push:
  assumes "vec_ok v" "vsize v < vcapacity v" "length x = unat (vitem_size v)"
  defines "v' \<equiv> v\<lparr>vlist := write_at (vlist v) (unat (vsize v) * unat (vitem_size v)) x, vsize := vsize v + 1\<rparr>"
  shows "vec_ok v'" "vec_items v' = vec_items v @ [x]"
proof -
  have "unat (vsize v) < unat (vcapacity v)" using assms(2) by (simp add: word_less_nat_alt)
  moreover have "unat (vcapacity v) < 2 ^ LENGTH(32)" by (rule unsigned_less)
  ultimately have n: "unat (vsize v + 1) = Suc (unat (vsize v))" by (intro unat_inc_small) linarith
  show "vec_ok v'" using assms(1,2) n vec_write(2) [OF assms(1,2,3)]
    by (simp add: v'_def vec_ok_def word_le_nat_alt word_less_nat_alt)
  show "vec_items v' = vec_items v @ [x]" using n vec_write(3) [OF assms(1,2,3)] by (simp add: v'_def vec_items_def)
qed

text \<open>Growth keeps the items and makes room.\<close>

lemma vec_grow:
  assumes "vec_ok v" "doubles grow v" "0 < vcapacity v"
  shows "vec_ok (grow v)" "vec_items (grow v) = vec_items v" "vsize (grow v) < vcapacity (grow v)"
    "vitem_size (grow v) = vitem_size v" "vsize (grow v) = vsize v"
proof -
  have "unat (vsize v) \<le> unat (vcapacity v)" "0 < unat (vcapacity v)" "unat (vcapacity (grow v)) = 2 * unat (vcapacity v)"
    using assms by (auto simp: vec_ok_def doubles_def word_le_nat_alt word_less_nat_alt)
  then show "vsize (grow v) < vcapacity (grow v)" using assms(2) by (simp add: doubles_def word_less_nat_alt)
  have "item_at (vlist (grow v)) (unat (vitem_size v)) i = item_at (vlist v) (unat (vitem_size v)) i"
    if "i < unat (vsize v)" for i
  proof -
    have "i * unat (vitem_size v) + unat (vitem_size v) \<le> length (vlist v)"
      using block_fits [of i "unat (vcapacity v)"] that \<open>unat (vsize v) \<le> unat (vcapacity v)\<close> assms(1)
      by (simp add: vec_ok_def)
    then show ?thesis using assms(2) read_at_take unfolding doubles_def item_at_def by metis
  qed
  then show "vec_items (grow v) = vec_items v" using assms(2) by (simp add: vec_items_def doubles_def)
  show "vec_ok (grow v)" "vitem_size (grow v) = vitem_size v" "vsize (grow v) = vsize v" using assms(2) by (auto simp: doubles_def)
qed

definition room :: "(as_vector \<Rightarrow> as_vector) \<Rightarrow> as_vector \<Rightarrow> as_vector" where
  "room grow v = (if vsize v \<ge> vcapacity v then grow v else v)"

lemma vec_room:
  assumes "vec_ok v" "vsize v = vcapacity v \<longrightarrow> 0 < vcapacity v \<and> doubles grow v"
  shows "vec_ok (room grow v)" "vec_items (room grow v) = vec_items v" "vsize (room grow v) < vcapacity (room grow v)"
    "vitem_size (room grow v) = vitem_size v" "vsize (room grow v) = vsize v"
proof -
  have "vsize v \<le> vcapacity v" using assms(1) by (simp add: vec_ok_def)
  then consider "vsize v = vcapacity v" | "vsize v < vcapacity v" by (auto simp: le_less)
  then show "vec_ok (room grow v)" "vec_items (room grow v) = vec_items v" "vsize (room grow v) < vcapacity (room grow v)"
    "vitem_size (room grow v) = vitem_size v" "vsize (room grow v) = vsize v"
    using assms vec_grow [OF assms(1)] by (cases; simp add: room_def not_le [symmetric])+
qed

text \<open>A vector is the list of its items. Appending and reserving add an item at the end, growing
  first when the block is full, setting replaces one, the offset that \<open>as_vector_get\<close> returns is the
  place of the item, and clearing leaves none; blocks are below 4 GiB, where no offset wraps around.\<close>

theorem vector_refines_list:
  assumes "vec_ok v" and "length x = unat (vitem_size v)"
    and "vsize v = vcapacity v \<longrightarrow> 0 < vcapacity v \<and> doubles grow v"
  shows "(\<exists>v'. as_vector_append grow v x = Some v' \<and> vec_ok v' \<and> vec_items v' = vec_items v @ [x]) \<and>
    (\<exists>v' off. as_vector_reserve grow v = Some (off, v') \<and> vec_ok v' \<and>
       vec_items v' = vec_items v @ [replicate (unat (vitem_size v)) 0] \<and> off = as_vector_get v' (vsize v)) \<and>
    (idx < vsize v \<longrightarrow>
       (\<exists>v'. as_vector_set v idx x = Some v' \<and> vec_ok v' \<and> vec_items v' = (vec_items v)[unat idx := x]) \<and>
       copy_out (vlist v) (as_vector_get v idx) (unat (vitem_size v)) = Some (vec_items v ! unat idx)) \<and>
    vec_ok (as_vector_clear v) \<and> vec_items (as_vector_clear v) = []"
proof -
  note r = vec_room [OF assms(1,3)]
  define u where "u = room grow v"
  have push: "\<exists>m. copy_in (vlist u) (unat (vsize u * vitem_size u)) y (unat (vitem_size u)) = Some m \<and>
      vec_ok (u\<lparr>vlist := m, vsize := vsize u + 1\<rparr>) \<and> vec_items (u\<lparr>vlist := m, vsize := vsize u + 1\<rparr>) = vec_items v @ [y]"
    if "length y = unat (vitem_size v)" for y
    using vec_write(1) [of u "vsize u" y] vec_push [of u y] r that by (simp add: u_def)
  have app: "\<exists>v'. as_vector_append grow v x = Some v' \<and> vec_ok v' \<and> vec_items v' = vec_items v @ [x]"
    using push [OF assms(2)] unfolding as_vector_append_def Let_def room_def [symmetric] u_def by auto
  have res: "\<exists>v' off. as_vector_reserve grow v = Some (off, v') \<and> vec_ok v' \<and>
       vec_items v' = vec_items v @ [replicate (unat (vitem_size v)) 0] \<and> off = as_vector_get v' (vsize v)"
    using push [of "replicate (unat (vitem_size v)) 0"] r(4,5)
    unfolding as_vector_reserve_def as_vector_get_def Let_def room_def [symmetric] u_def
    by (auto simp: mult.commute)
  have set: "(\<exists>v'. as_vector_set v idx x = Some v' \<and> vec_ok v' \<and> vec_items v' = (vec_items v)[unat idx := x]) \<and>
       copy_out (vlist v) (as_vector_get v idx) (unat (vitem_size v)) = Some (vec_items v ! unat idx)" if "idx < vsize v"
  proof -
    have c: "idx < vcapacity v" and l: "unat idx < unat (vsize v)"
      using assms(1) that by (auto simp: vec_ok_def word_less_nat_alt word_le_nat_alt)
    note w = vec_write [OF assms(1) c assms(2)]
    have "vec_items (v\<lparr>vlist := write_at (vlist v) (unat idx * unat (vitem_size v)) x\<rparr>) = (vec_items v)[unat idx := x]"
      using w(3) by (intro nth_equalityI) (auto simp: vec_items_def nth_list_update)
    moreover have "copy_out (vlist v) (as_vector_get v idx) (unat (vitem_size v)) = Some (vec_items v ! unat idx)"
      using vec_offset [OF assms(1) c] l by (simp add: copy_out_def as_vector_get_def vec_items_def item_at_def)
    ultimately show ?thesis using w(1,2) assms(1) by (simp add: as_vector_set_def vec_ok_def)
  qed
  have "vec_ok (as_vector_clear v) \<and> vec_items (as_vector_clear v) = []"
    using assms(1) by (simp add: vec_ok_def vec_items_def as_vector_clear_def)
  with app res set show ?thesis by blast
qed

text \<open>A growth that does what is documented, and an append that needs it.\<close>

definition grow_twice :: "as_vector \<Rightarrow> as_vector" where
  "grow_twice v = v\<lparr>vlist := vlist v @ replicate (length (vlist v)) 0, vcapacity := 2 * vcapacity v\<rparr>"

definition small_vector :: as_vector where
  "small_vector = \<lparr>vlist = [1, 2, 3, 4], vcapacity = 2, vsize = 2, vitem_size = 2, vflags = 0\<rparr>"

theorem vector_refines_list_witness:
  "as_vector_append grow_twice small_vector [5, 6] =
     Some (small_vector\<lparr>vlist := [1, 2, 3, 4, 5, 6, 0, 0], vcapacity := 4, vsize := 3\<rparr>) \<and>
   (\<exists>v'. as_vector_append grow_twice small_vector [5, 6] = Some v' \<and> vec_ok v' \<and>
      vec_items v' = vec_items small_vector @ [[5, 6]])"
proof
  show "as_vector_append grow_twice small_vector [5, 6] =
     Some (small_vector\<lparr>vlist := [1, 2, 3, 4, 5, 6, 0, 0], vcapacity := 4, vsize := 3\<rparr>)"
    by (simp add: as_vector_append_def small_vector_def grow_twice_def copy_in_def write_at_def Let_def)
  have "vec_ok small_vector" "length [5 :: byte, 6] = unat (vitem_size small_vector)" "0 < vcapacity small_vector"
    "doubles grow_twice small_vector"
    by (simp_all add: vec_ok_def doubles_def small_vector_def grow_twice_def)
  then show "\<exists>v'. as_vector_append grow_twice small_vector [5, 6] = Some v' \<and> vec_ok v' \<and>
      vec_items v' = vec_items small_vector @ [[5, 6]]"
    using vector_refines_list [of small_vector "[5, 6]" grow_twice] by blast
qed

section \<open>Queues are lists\<close>

text \<open>Positions grow without bound in the abstraction; the block holds them modulo its capacity.\<close>

definition queue_ok :: "as_queue \<Rightarrow> bool" where
  "queue_ok q \<longleftrightarrow> 0 < qcapacity q \<and> length (qdata q) = unat (qcapacity q) * unat (qitem_size q) \<and>
     unat (qcapacity q) * unat (qitem_size q) < 2 ^ 32 \<and> qhead q \<le> qtail q \<and>
     unat (qtail q) - unat (qhead q) \<le> unat (qcapacity q)"

definition queue_items :: "as_queue \<Rightarrow> byte list list" where
  "queue_items q = map (\<lambda>k. item_at (qdata q) (unat (qitem_size q)) (k mod unat (qcapacity q))) [unat (qhead q)..<unat (qtail q)]"

lemma queue_read:
  assumes "queue_ok q"
  shows "as_queue_get q idx \<bind> (\<lambda>off. copy_out (qdata q) off (unat (qitem_size q))) =
    Some (item_at (qdata q) (unat (qitem_size q)) (unat idx mod unat (qcapacity q)))"
proof -
  let ?i = "unat idx mod unat (qcapacity q)"
  have c: "0 < unat (qcapacity q)" using assms by (simp add: queue_ok_def word_less_nat_alt)
  then have l: "?i < unat (qcapacity q)" by simp
  have f: "?i * unat (qitem_size q) + unat (qitem_size q) \<le> length (qdata q)"
    using block_fits [OF l, of "unat (qitem_size q)"] assms by (simp add: queue_ok_def)
  have "?i * unat (qitem_size q) \<le> unat (qcapacity q) * unat (qitem_size q)" using l by (intro mult_le_mono1) simp
  also have "\<dots> < 2 ^ LENGTH(32)" using assms by (simp add: queue_ok_def)
  finally have "unat ((idx mod qcapacity q) * qitem_size q) = ?i * unat (qitem_size q)"
    by (subst unat_mult_small) (simp_all add: unat_mod_distrib)
  then show ?thesis using c f by (auto simp: as_queue_get_def copy_out_def item_at_def)
qed

lemma queue_set:
  assumes "queue_ok q" "unat h \<le> unat t" "unat (qhead q) \<le> unat h" "unat t \<le> unat (qtail q)"
  defines "q' \<equiv> q\<lparr>qhead := h, qtail := t\<rparr>"
  defines "r \<equiv> (if qhead q' = qtail q' then q'\<lparr>qhead := 0, qtail := 0\<rparr> else q')"
  shows "queue_ok r"
    "queue_items r = map (\<lambda>k. item_at (qdata q) (unat (qitem_size q)) (k mod unat (qcapacity q))) [unat h..<unat t]"
  using assms(1-4) by (auto simp: q'_def r_def queue_ok_def queue_items_def word_le_nat_alt)

lemma queue_ends:
  assumes "queue_ok q" "\<not> as_queue_empty q"
  shows "unat (qhead q) < unat (qtail q)" "unat (qhead q + 1) = Suc (unat (qhead q))" "unat (qtail q - 1) = unat (qtail q) - 1"
proof -
  have "qhead q < qtail q" using assms by (auto simp: queue_ok_def as_queue_empty_def le_less)
  then show l: "unat (qhead q) < unat (qtail q)" by (simp add: word_less_nat_alt)
  have "unat (qtail q) < 2 ^ LENGTH(32)" by (rule unsigned_less)
  with l show "unat (qhead q + 1) = Suc (unat (qhead q))" by (intro unat_inc_small) linarith
  show "unat (qtail q - 1) = unat (qtail q) - 1" using l by (intro unat_dec_pos) simp
qed

lemma queue_pops:
  assumes "queue_ok q" "\<not> as_queue_empty q"
  shows "\<exists>q'. as_queue_pop q = Some (Some (hd (queue_items q)), q') \<and> queue_ok q' \<and> queue_items q' = tl (queue_items q)"
    "\<exists>q'. as_queue_pop_tail q = Some (Some (last (queue_items q)), q') \<and> queue_ok q' \<and> queue_items q' = butlast (queue_items q)"
proof -
  note e = queue_ends [OF assms]
  let ?f = "\<lambda>k. item_at (qdata q) (unat (qitem_size q)) (k mod unat (qcapacity q))"
  have items: "queue_items q = map ?f [unat (qhead q)..<unat (qtail q)]" by (simp add: queue_items_def)
  have up: "[unat (qhead q)..<unat (qtail q)] = unat (qhead q) # [Suc (unat (qhead q))..<unat (qtail q)]"
    using e(1) by (rule upt_conv_Cons)
  have down: "[unat (qhead q)..<unat (qtail q)] = [unat (qhead q)..<unat (qtail q) - 1] @ [unat (qtail q) - 1]"
    using upt_Suc_append [of "unat (qhead q)" "unat (qtail q) - 1"] e(1) by simp
  obtain off where h: "as_queue_get q (qhead q) = Some off" "copy_out (qdata q) off (unat (qitem_size q)) = Some (?f (unat (qhead q)))"
    using queue_read [OF assms(1), of "qhead q"] by (auto simp: bind_eq_Some_conv)
  obtain off' where t: "as_queue_get q (qtail q - 1) = Some off'"
      "copy_out (qdata q) off' (unat (qitem_size q)) = Some (?f (unat (qtail q) - 1))"
    using queue_read [OF assms(1), of "qtail q - 1"] e(3) by (auto simp: bind_eq_Some_conv)
  have g: "as_queue_get (q\<lparr>qtail := x\<rparr>) y = as_queue_get q y" for x y by (simp add: as_queue_get_def)
  show "\<exists>q'. as_queue_pop q = Some (Some (hd (queue_items q)), q') \<and> queue_ok q' \<and> queue_items q' = tl (queue_items q)"
    using queue_set [of q "qhead q + 1" "qtail q", OF assms(1)] e h assms(2)
    unfolding items up as_queue_pop_def by (auto simp: Let_def)
  show "\<exists>q'. as_queue_pop_tail q = Some (Some (last (queue_items q)), q') \<and> queue_ok q' \<and> queue_items q' = butlast (queue_items q)"
    using queue_set [of q "qhead q" "qtail q - 1", OF assms(1)] e t assms(2)
    unfolding items down as_queue_pop_tail_def by (auto simp: Let_def g butlast_append)
qed

text \<open>Claim C27: a queue is the list of its items, whatever multiple of the capacity its head has reached:
  the size and the emptiness test are those of the list, popping takes the first item, popping the tail takes
  the last, and an empty queue gives nothing and stays; reserving a slot never counts beyond the
  capacity, and giving it back undoes it.\<close>

theorem queue_refines_list:
  assumes "queue_ok q"
  shows "unat (as_queue_size q) = length (queue_items q) \<and> (as_queue_empty q \<longleftrightarrow> queue_items q = []) \<and>
    (queue_items q = [] \<longrightarrow> as_queue_pop q = Some (None, q) \<and> as_queue_pop_tail q = Some (None, q)) \<and>
    (queue_items q \<noteq> [] \<longrightarrow>
      (\<exists>q'. as_queue_pop q = Some (Some (hd (queue_items q)), q') \<and> queue_ok q' \<and> queue_items q' = tl (queue_items q)) \<and>
      (\<exists>q'. as_queue_pop_tail q = Some (Some (last (queue_items q)), q') \<and> queue_ok q' \<and>
        queue_items q' = butlast (queue_items q))) \<and>
    (case as_queue_incr_total q of (ok, q') \<Rightarrow> (ok \<longleftrightarrow> qtotal q < qcapacity q) \<and> queue_items q' = queue_items q \<and>
      (qtotal q \<le> qcapacity q \<longrightarrow> qtotal q' \<le> qcapacity q) \<and> (ok \<longrightarrow> as_queue_decr_total q' = q))"
proof -
  have l: "unat (qhead q) \<le> unat (qtail q)" using assms by (simp add: queue_ok_def word_le_nat_alt)
  have size: "unat (as_queue_size q) = length (queue_items q)"
    using assms by (simp add: as_queue_size_def queue_items_def queue_ok_def unat_sub)
  have empty: "as_queue_empty q \<longleftrightarrow> queue_items q = []"
    using l unfolding as_queue_empty_def queue_items_def by (simp add: word_unat_eq_iff) linarith
  have gone: "queue_items q = [] \<longrightarrow> as_queue_pop q = Some (None, q) \<and> as_queue_pop_tail q = Some (None, q)"
    using empty by (simp add: as_queue_pop_def as_queue_pop_tail_def)
  have "qtotal q + 1 \<le> qcapacity q" if "qtotal q < qcapacity q"
    using that by (rule inc_le)
  then have "case as_queue_incr_total q of (ok, q') \<Rightarrow> (ok \<longleftrightarrow> qtotal q < qcapacity q) \<and> queue_items q' = queue_items q \<and>
      (qtotal q \<le> qcapacity q \<longrightarrow> qtotal q' \<le> qcapacity q) \<and> (ok \<longrightarrow> as_queue_decr_total q' = q)"
    by (simp add: as_queue_incr_total_def as_queue_decr_total_def queue_items_def)
  with size empty gone queue_pops [OF assms] show ?thesis by (intro conjI impI) simp_all
qed

text \<open>Two items that lie across the end of the block.\<close>

definition small_queue :: as_queue where
  "small_queue = \<lparr>qdata = [1, 2, 3], qcapacity = 3, qhead = 5, qtail = 7, qitem_size = 1, qtotal = 0, qflags = 0\<rparr>"

theorem queue_refines_list_witness:
  "queue_items small_queue = [[3], [1]] \<and>
   (\<exists>q'. as_queue_pop small_queue = Some (Some (hd (queue_items small_queue)), q') \<and> queue_ok q' \<and>
      queue_items q' = tl (queue_items small_queue))"
proof
  show i: "queue_items small_queue = [[3], [1]]"
    by (simp add: queue_items_def small_queue_def item_at_def read_at_def upt_conv_Cons)
  have "queue_ok small_queue" by (simp add: queue_ok_def small_queue_def)
  then show "\<exists>q'. as_queue_pop small_queue = Some (Some (hd (queue_items small_queue)), q') \<and> queue_ok q' \<and>
      queue_items q' = tl (queue_items small_queue)"
    using queue_refines_list [of small_queue] i by simp
qed

end
