(* ===== verification/QueueLock.thy ===== *)
theory QueueLock
  imports Interleave "HOL-Library.Sublist"
begin

text \<open>
  The specification of a fair lock: an abstract queue of threads that grows at its end when a thread
  arrives, whose first thread alone may enter, and that loses its first thread when that thread leaves.
  A lock meets it if each of its states stands for such a queue. The steps are logged: the threads in the
  order of their arrivals and in the order in which they entered.
\<close>

definition log_step ::
    "('l \<Rightarrow> bool) \<Rightarrow> ('l \<Rightarrow> bool) \<Rightarrow> (nat \<Rightarrow> 'l \<Rightarrow> 's \<Rightarrow> 'l \<Rightarrow> 's \<Rightarrow> bool) \<Rightarrow>
     nat \<Rightarrow> 'l \<Rightarrow> 's \<times> nat list \<times> nat list \<Rightarrow> 'l \<Rightarrow> 's \<times> nat list \<times> nat list \<Rightarrow> bool" where
  "log_step inq ent step t l x l' x' \<longleftrightarrow> (case (x, x') of ((s, as, es), (s', as', es')) \<Rightarrow>
     step t l s l' s' \<and>
     as' = (if inq l' \<and> \<not> inq l then as @ [t] else as) \<and> es' = (if ent l' \<and> \<not> ent l then es @ [t] else es))"

definition next_queue :: "('l \<Rightarrow> bool) \<Rightarrow> nat \<Rightarrow> 'l \<Rightarrow> 'l \<Rightarrow> nat list \<Rightarrow> nat list" where
  "next_queue inq t l l' q =
     (if inq l' \<and> \<not> inq l then q @ [t] else if inq l \<and> \<not> inq l' then tl q else q)"

definition log_inv ::
    "(nat \<Rightarrow> nat list \<Rightarrow> (nat \<Rightarrow> 'l) \<Rightarrow> 's \<Rightarrow> bool) \<Rightarrow> ('l \<Rightarrow> bool) \<Rightarrow>
     nat \<Rightarrow> (nat \<Rightarrow> 'l) \<Rightarrow> 's \<times> nat list \<times> nat list \<Rightarrow> bool" where
  "log_inv stands ent N ls x \<longleftrightarrow> (case x of (s, as, es) \<Rightarrow> \<exists>gone q. stands N q ls s \<and> as = gone @ q \<and>
     es = gone @ (if q \<noteq> [] \<and> ent (ls (hd q)) then [hd q] else []))"

locale queue_lock =
  fixes step :: "nat \<Rightarrow> 'l \<Rightarrow> 's \<Rightarrow> 'l \<Rightarrow> 's \<Rightarrow> bool" and ls0 :: "nat \<Rightarrow> 'l" and s0 :: 's and fits :: "nat \<Rightarrow> bool"
    and inq :: "'l \<Rightarrow> bool" and ent :: "'l \<Rightarrow> bool"
    and stands :: "nat \<Rightarrow> nat list \<Rightarrow> (nat \<Rightarrow> 'l) \<Rightarrow> 's \<Rightarrow> bool"
  assumes stands_start: "fits N \<Longrightarrow> stands N [] ls0 s0"
    and stands_step: "fits N \<Longrightarrow> stands N q ls s \<Longrightarrow> t < N \<Longrightarrow> step t (ls t) s l' s' \<Longrightarrow>
      stands N (next_queue inq t (ls t) l' q) (ls(t := l')) s'"
    and ent_first: "fits N \<Longrightarrow> stands N q ls s \<Longrightarrow> t < N \<Longrightarrow> ent (ls t) \<Longrightarrow> q \<noteq> [] \<and> hd q = t"
    and ent_inq: "ent l \<Longrightarrow> inq l"
    and leaves: "step t l s l' s' \<Longrightarrow> inq l \<Longrightarrow> ent l \<and> ent l' \<or> \<not> ent l \<and> inq l' \<or> ent l \<and> \<not> inq l'"
    and bounded: "stands N q ls s \<Longrightarrow> set q \<subseteq> {..<N}"

context queue_lock begin

lemma log_inv_step:
  assumes "fits N" "log_inv stands ent N ls x" "t < N" "log_step inq ent step t (ls t) x l' x'"
  shows "log_inv stands ent N (ls(t := l')) x'"
proof -
  obtain s as es s' as' es' where x: "x = (s, as, es)" "x' = (s', as', es')" by (metis surj_pair)
  obtain gone q where st: "stands N q ls s" and as: "as = gone @ q"
    and es: "es = gone @ (if q \<noteq> [] \<and> ent (ls (hd q)) then [hd q] else [])"
    using assms(2) by (auto simp: log_inv_def x)
  let ?l = "ls t" and ?q = "next_queue inq t (ls t) l' q"
  have step: "step t ?l s l' s'" and as': "as' = (if inq l' \<and> \<not> inq ?l then as @ [t] else as)"
    and es': "es' = (if ent l' \<and> \<not> ent ?l then es @ [t] else es)"
    using assms(4) by (auto simp: log_step_def x)
  have st': "stands N ?q (ls(t := l')) s'" by (rule stands_step [OF assms(1) st assms(3) step])
  have first: "\<And>u. u < N \<Longrightarrow> ent (ls u) \<Longrightarrow> q \<noteq> [] \<and> hd q = u"
    and first': "\<And>u. u < N \<Longrightarrow> ent ((ls(t := l')) u) \<Longrightarrow> ?q \<noteq> [] \<and> hd ?q = u"
    using ent_first [OF assms(1) st] ent_first [OF assms(1) st'] by blast+
  have lt: "u \<in> set q \<Longrightarrow> u < N" for u using bounded [OF st] by auto
  consider (leave) "inq ?l" "\<not> inq l'" "ent ?l" | (enter) "ent l'" "\<not> ent ?l" "\<not> (inq ?l \<and> \<not> inq l')"
    | (same) "ent l' = ent ?l" "\<not> (inq ?l \<and> \<not> inq l')"
    using leaves [OF step] ent_inq by blast
  then show ?thesis
  proof cases
    case leave
    have q: "q \<noteq> []" "hd q = t" using first [OF assms(3) leave(3)] by auto
    then have q': "q = t # tl q" by (cases q) auto
    have "\<not> ent ((ls(t := l')) (hd (tl q)))" if "tl q \<noteq> []"
    proof
      assume e: "ent ((ls(t := l')) (hd (tl q)))"
      have "hd (tl q) \<noteq> t" using e leave(2) ent_inq by auto
      moreover have "hd (tl q) < N" using that by (intro lt) (metis hd_in_set q(1) list.set_sel(2))
      ultimately show False using first [of "hd (tl q)"] e q(2) by auto
    qed
    moreover have "es' = gone @ [t]" using es' es q leave ent_inq by auto
    moreover have "as' = (gone @ [t]) @ tl q" using as' as q' leave by auto
    ultimately show ?thesis using st' leave unfolding log_inv_def x prod.case next_queue_def
      by (intro exI [of _ "gone @ [t]"] exI [of _ "tl q"]) auto
  next
    case enter
    have q: "?q \<noteq> []" "hd ?q = t" using first' [OF assms(3)] enter(1) by auto
    have "q \<noteq> [] \<Longrightarrow> hd q = t" using q enter(3) by (auto simp: next_queue_def split: if_splits)
    then have "es' = gone @ [t]" using es es' enter by auto
    moreover have "as' = gone @ ?q" using as as' enter by (auto simp: next_queue_def)
    ultimately show ?thesis using st' q enter unfolding log_inv_def x prod.case
      by (intro exI [of _ gone] exI [of _ ?q]) auto
  next
    case same
    have "as' = gone @ ?q" using as as' same by (auto simp: next_queue_def)
    moreover have "(?q \<noteq> [] \<and> ent ((ls(t := l')) (hd ?q))) = (q \<noteq> [] \<and> ent (ls (hd q)))"
    proof (cases "q = []")
      case True
      then show ?thesis using same first [OF assms(3)] by (auto simp: next_queue_def)
    qed (use same in \<open>auto simp: next_queue_def\<close>)
    moreover have "q \<noteq> [] \<Longrightarrow> hd ?q = hd q" using same by (auto simp: next_queue_def)
    moreover have "es' = es" using es' same by simp
    ultimately have "es' = gone @ (if ?q \<noteq> [] \<and> ent ((ls(t := l')) (hd ?q)) then [hd ?q] else [])"
      using es by (cases "q = []") simp_all
    with \<open>as' = gone @ ?q\<close> st' show ?thesis unfolding log_inv_def x prod.case by blast
  qed
qed

lemma log_inv_start: "fits N \<Longrightarrow> log_inv stands ent N ls0 (s0, [], [])"
  using stands_start by (auto simp: log_inv_def)

end

sublocale queue_lock \<subseteq> logged: interleaving "log_step inq ent step" ls0 "(s0, [], [])" fits "log_inv stands ent"
  by unfold_locales (auto intro: log_inv_start log_inv_step)

context queue_lock begin

text \<open>Threads enter in the order in which they arrived, and one at a time.\<close>

lemma first_come_first_served:
  assumes "reachable (log_step inq ent step) N ls0 (s0, [], []) ls (s, as, es)" "fits N"
  shows "prefix es as \<and> (\<forall>i<N. ent (ls i) \<longrightarrow> es \<noteq> [] \<and> i = last es)"
proof -
  obtain gone q where st: "stands N q ls s" "as = gone @ q"
    "es = gone @ (if q \<noteq> [] \<and> ent (ls (hd q)) then [hd q] else [])"
    using logged.reachable_inv [OF assms] by (auto simp: log_inv_def)
  moreover have "prefix (if q \<noteq> [] \<and> ent (ls (hd q)) then [hd q] else []) q" by (cases q) auto
  ultimately show ?thesis using ent_first [OF assms(2) st(1)] by (auto simp: prefix_def)
qed

end

section \<open>Queue locks\<close>

text \<open>A client of a lock is in the queue from the step of the acquisition that \<open>qa\<close> marks until its release
  is done.\<close>

fun queued :: "('a \<Rightarrow> bool) \<Rightarrow> ('p, 'a, 'b, 'r, 'c) client \<Rightarrow> bool" where
  "queued qa (Acquiring a) = qa a"
| "queued qa (Critical r) = True"
| "queued qa (Releasing c) = True"
| "queued qa _ = False"

lemma holds_queued: "holds l \<Longrightarrow> queued qa l"
  by (cases l) auto

lemma client_leaves:
  assumes "\<And>a s a' s'. qa a \<Longrightarrow> lock_fn ops a s = (Go a', s') \<Longrightarrow> qa a'"
    and "client_step ops t l s l' s'" "queued qa l"
  shows "holds l \<and> holds l' \<or> \<not> holds l \<and> queued qa l' \<or> holds l \<and> \<not> queued qa l'"
  using assms(2,3) by cases (auto intro: assms(1))

definition members :: "('l \<Rightarrow> bool) \<Rightarrow> nat \<Rightarrow> nat list \<Rightarrow> (nat \<Rightarrow> 'l) \<Rightarrow> bool" where
  "members inq N q ls \<longleftrightarrow> distinct q \<and> set q = {t. t < N \<and> inq (ls t)}"

lemma members_step:
  assumes "members inq N q ls" "t < N" "inq (ls t) \<Longrightarrow> \<not> inq l' \<Longrightarrow> q \<noteq> [] \<and> hd q = t"
  shows "members inq N (next_queue inq t (ls t) l' q) (ls(t := l'))"
proof -
  consider "inq l'" "\<not> inq (ls t)" | "inq (ls t)" "\<not> inq l'" | "inq l' = inq (ls t)" by blast
  then show ?thesis
  proof cases
    case 2
    with assms obtain q' where "q = t # q'" by (cases q) auto
    with 2 assms show ?thesis by (auto simp: members_def next_queue_def)
  qed (use assms in \<open>auto simp: members_def next_queue_def\<close>)
qed

lemma members_in: "members inq N q ls \<Longrightarrow> t < N \<Longrightarrow> t \<in> set q \<longleftrightarrow> inq (ls t)"
  and members_lt: "members inq N q ls \<Longrightarrow> t \<in> set q \<Longrightarrow> t < N"
  by (auto simp: members_def)

text \<open>The chain that list-based queue locks build: each thread of the queue remembers the node of the one
  before it, the first a value \<open>h\<close>, and the tail is the node of the last.\<close>

definition chained :: "nat list \<Rightarrow> 'n \<Rightarrow> (nat \<Rightarrow> 'n) \<Rightarrow> (nat \<Rightarrow> 'n) \<Rightarrow> 'n \<Rightarrow> bool" where
  "chained q h nd pv z \<longleftrightarrow> map pv q @ [z] = h # map nd q"

lemma chained_start: "chained [] h nd pv h"
  by (simp add: chained_def)

lemma chained_cong:
  "chained q h nd pv z \<Longrightarrow> \<forall>t\<in>set q. nd' t = nd t \<and> pv' t = pv t \<Longrightarrow> chained q h nd' pv' z"
  unfolding chained_def by (simp cong: map_cong)

lemma chained_enq: "chained q h nd pv z \<Longrightarrow> pv t = z \<Longrightarrow> chained (q @ [t]) h nd pv (nd t)"
  by (simp add: chained_def)

lemma chained_deq: "chained (t # q) h nd pv z \<Longrightarrow> pv t = h \<and> chained q (nd t) nd pv z"
  by (simp add: chained_def)

lemma chained_nth: "chained q h nd pv z \<Longrightarrow> i < length q \<Longrightarrow> pv (q ! i) = (h # map nd q) ! i"
  unfolding chained_def by (metis length_map nth_append nth_map)

lemma chained_last: "chained q h nd pv z \<Longrightarrow> z = (if q = [] then h else nd (last q))"
  unfolding chained_def by (metis last.simps last_map last_snoc list.map_disc_iff)

lemma chained_pv:
  assumes "chained q h nd pv z" "t \<in> set q" "hd q \<noteq> t"
  shows "\<exists>u\<in>set q. pv t = nd u"
proof -
  obtain i where i: "i < length q" "q ! i = t" using assms(2) by (auto simp: in_set_conv_nth)
  then obtain j where j: "i = Suc j" using assms(3) by (cases i) (auto simp: hd_conv_nth)
  then have "pv t = nd (q ! j)" using chained_nth [OF assms(1) i(1)] i by simp
  with i j show ?thesis by (intro bexI [of _ "q ! j"]) auto
qed

lemma chained_inj: "chained q h nd pv z \<Longrightarrow> distinct (h # map nd q) \<Longrightarrow> inj_on pv (set q)"
proof (rule inj_onI)
  fix x y assume c: "chained q h nd pv z" "distinct (h # map nd q)" and xy: "x \<in> set q" "y \<in> set q" "pv x = pv y"
  obtain i j where "i < length q" "q ! i = x" "j < length q" "q ! j = y" using xy by (auto simp: in_set_conv_nth)
  then show "x = y" using chained_nth [OF c(1)] xy(3) nth_eq_iff_index_eq [OF c(2), of i j] by auto
qed

lemma chained_rehead:
  "chained (u # q) h nd pv z \<Longrightarrow> pv' u = h' \<Longrightarrow> \<forall>v\<in>set q. pv' v = pv v \<Longrightarrow> chained (u # q) h' nd pv' z"
  by (simp add: chained_def cong: map_cong)

text \<open>Executable runs with the two logs.\<close>

definition log_move :: "('l \<Rightarrow> bool) \<Rightarrow> ('l \<Rightarrow> bool) \<Rightarrow> ('c \<Rightarrow> 'l \<Rightarrow> 's \<Rightarrow> 'l \<times> 's) \<Rightarrow> 'c \<Rightarrow> nat \<Rightarrow> 'l \<Rightarrow>
    's \<times> nat list \<times> nat list \<Rightarrow> 'l \<times> 's \<times> nat list \<times> nat list" where
  "log_move inq ent mv c t l x = (let (s, as, es) = x; (l', s') = mv c l s in
     (l', s', if inq l' \<and> \<not> inq l then as @ [t] else as, if ent l' \<and> \<not> ent l then es @ [t] else es))"

definition log_run :: "(('p, 'a, 'b, 'r, 'c) client \<Rightarrow> bool) \<Rightarrow> ('p, 'a, 'b, 'r, 'c, 's) lock_ops \<Rightarrow> (nat \<times> bool) list \<Rightarrow>
    (nat \<Rightarrow> ('p, 'a, 'b, 'r, 'c) client) \<Rightarrow> 's \<Rightarrow> (nat \<Rightarrow> ('p, 'a, 'b, 'r, 'c) client) \<times> 's \<times> nat list \<times> nat list"
  where "log_run inq ops sch ls0 s0 = move_run (log_move inq holds (client_move ops)) sch (ls0, s0, [], [])"

lemma log_run_reachable:
  assumes "list_all (\<lambda>(t, c). t < N) sch" "log_run inq ops sch ls0 s0 = (ls, x)"
  shows "reachable (log_step inq holds (client_step ops)) N ls0 (s0, [], []) ls x"
proof -
  let ?mv = "log_move inq holds (client_move ops)"
  have "reachable (log_step inq holds (client_step ops)) N ls0 (s0, [], [])
      (fst (move_run ?mv sch (ls0, s0, [], []))) (snd (move_run ?mv sch (ls0, s0, [], [])))"
    by (rule move_run_reachable [OF _ assms(1) reachable.start])
       (auto simp: log_move_def log_step_def split: prod.splits intro: client_move_step)
  then show ?thesis using assms(2) by (simp add: log_run_def)
qed

end
