(* ===== verification/SpinlockClh.thy ===== *)
theory SpinlockClh
  imports CkPr QueueLock
begin

text \<open>
  The list-based queue lock of \<^verbatim>\<open>ck/spinlock/clh.h\<close>. A thread appends its node to an implicit list and spins
  on the node before it; on release it leaves its own node behind and goes on with that of its
  predecessor.
\<close>

section \<open>The lock\<close>

text \<open>The nodes that exist, by address, and the pointer to the last one, \<open>*queue\<close>.\<close>

record ck_spinlock_clh =
  clh_wait :: "nat \<Rightarrow> uint"
  clh_previous :: "nat \<Rightarrow> nat option"
  clh_queue :: nat

definition ck_spinlock_clh_init :: "nat \<Rightarrow> ck_spinlock_clh \<Rightarrow> ck_spinlock_clh" where
  "ck_spinlock_clh_init unowned m =
     m\<lparr>clh_previous := (clh_previous m)(unowned := None), clh_wait := (clh_wait m)(unowned := 0), clh_queue := unowned\<rparr>"

definition ck_spinlock_clh_locked :: "ck_spinlock_clh \<Rightarrow> bool" where
  "ck_spinlock_clh_locked s \<longleftrightarrow> (let h = ck_pr_load (clh_queue s) in ck_pr_load (clh_wait s h) \<noteq> 0)"

text \<open>\<open>ClhNull\<close> is a call with the null pointer: the first store dereferences it, and nothing is known of
  what follows.\<close>

datatype clh_pc = ClhWait nat | ClhSwap nat | ClhLink nat nat | ClhSpin nat nat | ClhNull

fun ck_spinlock_clh_lock :: "clh_pc \<Rightarrow> ck_spinlock_clh \<Rightarrow> (clh_pc, nat) ctl \<times> ck_spinlock_clh" where
  "ck_spinlock_clh_lock (ClhWait n) s = (Go (ClhSwap n), s\<lparr>clh_wait := (clh_wait s)(n := 1)\<rparr>)"
| "ck_spinlock_clh_lock (ClhSwap n) s =
     (let (previous, m) = ck_pr_fas (clh_queue s) n in (Go (ClhLink n previous), s\<lparr>clh_queue := m\<rparr>))"
| "ck_spinlock_clh_lock (ClhLink n previous) s =
     (Go (ClhSpin n previous), s\<lparr>clh_previous := (clh_previous s)(n := Some previous)\<rparr>)"
| "ck_spinlock_clh_lock (ClhSpin n previous) s =
     (if ck_pr_load (clh_wait s previous) = 1 then Go (ClhSpin n previous) else Ret n, s)"
| "ck_spinlock_clh_lock ClhNull s = (Go ClhNull, s)"

text \<open>The release returns the node that the caller owns from now on.\<close>

datatype clh_unlock_pc = ClhLoad nat | ClhStore nat "nat option"

fun ck_spinlock_clh_unlock :: "clh_unlock_pc \<Rightarrow> ck_spinlock_clh \<Rightarrow> (clh_unlock_pc, nat option) ctl \<times> ck_spinlock_clh" where
  "ck_spinlock_clh_unlock (ClhLoad n) s = (Go (ClhStore n (clh_previous s n)), s)"
| "ck_spinlock_clh_unlock (ClhStore n previous) s =
     (Ret previous, s\<lparr>clh_wait := (clh_wait s)(n := ck_pr_store (clh_wait s n) 0)\<rparr>)"

section \<open>Clients\<close>

type_synonym clh_client = "(nat option, clh_pc, unit, nat, clh_unlock_pc) client"

definition clh_ops :: "(nat option, clh_pc, unit, nat, clh_unlock_pc, ck_spinlock_clh) lock_ops" where
  "clh_ops = \<lparr>lock_fn = ck_spinlock_clh_lock, lock_entry = case_option ClhNull ClhWait,
     try_fn = no_trylock, try_entry = \<lambda>_. None, try_result = \<lambda>_. 0,
     unlock_fn = ck_spinlock_clh_unlock, unlock_entry = ClhLoad\<rparr>"

fun clh_q :: "clh_pc \<Rightarrow> bool" where
  "clh_q (ClhLink n p) = True" | "clh_q (ClhSpin n p) = True" | "clh_q _ = False"

text \<open>Node 0 is the unowned one, thread \<open>t\<close> starts with node \<open>Suc t\<close>.\<close>

definition clh_clients :: "nat \<Rightarrow> clh_client" where
  "clh_clients t = Idle (Some (Suc t))"

section \<open>The queue\<close>

fun clh_node :: "clh_client \<Rightarrow> nat option" where
  "clh_node (Idle p) = p"
| "clh_node (Acquiring (ClhWait n)) = Some n" | "clh_node (Acquiring (ClhSwap n)) = Some n"
| "clh_node (Acquiring (ClhLink n p)) = Some n" | "clh_node (Acquiring (ClhSpin n p)) = Some n"
| "clh_node (Acquiring ClhNull) = None"
| "clh_node (Trying p b) = p"
| "clh_node (Critical n) = Some n"
| "clh_node (Releasing (ClhLoad n)) = Some n" | "clh_node (Releasing (ClhStore n p)) = Some n"

fun clh_pred :: "ck_spinlock_clh \<Rightarrow> clh_client \<Rightarrow> nat option" where
  "clh_pred s (Acquiring (ClhLink n p)) = Some p" | "clh_pred s (Acquiring (ClhSpin n p)) = Some p"
| "clh_pred s (Critical n) = clh_previous s n"
| "clh_pred s (Releasing (ClhLoad n)) = clh_previous s n" | "clh_pred s (Releasing (ClhStore n p)) = p"
| "clh_pred s _ = None"

fun clh_loc :: "ck_spinlock_clh \<Rightarrow> clh_client \<Rightarrow> bool" where
  "clh_loc s (Acquiring (ClhSwap n)) = (clh_wait s n = 1)"
| "clh_loc s (Acquiring (ClhSpin n p)) = (clh_previous s n = Some p)"
| "clh_loc s (Trying p b) = False"
| "clh_loc s _ = True"

definition clh_stands :: "nat \<Rightarrow> nat list \<Rightarrow> (nat \<Rightarrow> clh_client) \<Rightarrow> ck_spinlock_clh \<Rightarrow> bool" where
  "clh_stands N q ls s \<longleftrightarrow> members (queued clh_q) N q ls \<and> inj_on (\<lambda>t. clh_node (ls t)) {..<N} \<and>
     (\<forall>t<N. clh_loc s (ls t) \<and> clh_node (ls t) \<noteq> None \<and> (holds (ls t) \<longrightarrow> hd q = t)) \<and>
     (\<forall>t\<in>set q. clh_wait s (the (clh_node (ls t))) = 1) \<and>
     (\<exists>h. clh_wait s h = 0 \<and> (\<forall>t<N. clh_node (ls t) \<noteq> Some h) \<and>
        chained q (Some h) (\<lambda>t. clh_node (ls t)) (\<lambda>t. clh_pred s (ls t)) (Some (clh_queue s)))"

lemma clh_standsD:
  assumes "clh_stands N q ls s"
  shows "t < N \<Longrightarrow> clh_loc s (ls t)" "t < N \<Longrightarrow> clh_node (ls t) \<noteq> None" "t < N \<Longrightarrow> holds (ls t) \<Longrightarrow> hd q = t"
    "t \<in> set q \<Longrightarrow> clh_wait s (the (clh_node (ls t))) = 1"
  using assms by (simp_all add: clh_stands_def)

lemma clh_own:
  assumes "\<And>x. clh_node l = Some x \<Longrightarrow> clh_wait s' x = clh_wait s x \<and> clh_previous s' x = clh_previous s x"
  shows "clh_pred s' l = clh_pred s l" "clh_loc s' l = clh_loc s l"
proof -
  show "clh_pred s' l = clh_pred s l" using assms by (cases "(s, l)" rule: clh_pred.cases) simp_all
  show "clh_loc s' l = clh_loc s l" using assms by (cases "(s, l)" rule: clh_loc.cases) simp_all
qed

text \<open>A step of a thread that stays where it is in the queue and touches no node but its own.\<close>

lemma clh_stays:
  assumes st: "clh_stands N q ls s" and t: "t < N"
    and q: "queued clh_q l' = queued clh_q (ls t)" and n: "clh_node l' = clh_node (ls t)"
    and p: "queued clh_q (ls t) \<Longrightarrow> clh_pred s' l' = clh_pred s (ls t) \<and> clh_wait s' = clh_wait s"
    and m: "clh_queue s' = clh_queue s"
      "\<And>x. clh_node (ls t) \<noteq> Some x \<Longrightarrow> clh_wait s' x = clh_wait s x \<and> clh_previous s' x = clh_previous s x"
    and l: "clh_loc s' l'" "holds l' \<Longrightarrow> hd q = t"
  shows "clh_stands N (next_queue (queued clh_q) t (ls t) l' q) (ls(t := l')) s'"
proof -
  have mem: "members (queued clh_q) N q ls" and inj: "inj_on (\<lambda>t. clh_node (ls t)) {..<N}"
    using st by (auto simp: clh_stands_def)
  obtain h where h: "clh_wait s h = 0" "\<forall>t<N. clh_node (ls t) \<noteq> Some h"
    and ch: "chained q (Some h) (\<lambda>t. clh_node (ls t)) (\<lambda>t. clh_pred s (ls t)) (Some (clh_queue s))"
    using st by (auto simp: clh_stands_def)
  have nd: "clh_node ((ls(t := l')) u) = clh_node (ls u)" for u using n by simp
  have ne: "clh_node (ls u) \<noteq> clh_node (ls t)" if "u < N" "u \<noteq> t" for u
    using inj that t by (auto dest: inj_onD)
  have o: "clh_pred s' (ls u) = clh_pred s (ls u)" "clh_loc s' (ls u) = clh_loc s (ls u)" if "u < N" "u \<noteq> t" for u
    by (rule clh_own, use ne [OF that] m(2) in metis)+
  have tq: "t \<in> set q \<longleftrightarrow> queued clh_q (ls t)" by (rule members_in [OF mem t])
  have "q = next_queue (queued clh_q) t (ls t) l' q" using q by (simp add: next_queue_def)
  moreover have "members (queued clh_q) N q (ls(t := l'))"
    using members_step [OF mem t, of l'] q by (simp add: next_queue_def)
  moreover have "\<forall>u\<in>set q. clh_wait s' (the (clh_node (ls u))) = clh_wait s (the (clh_node (ls u)))"
  proof
    fix u assume u: "u \<in> set q"
    then have "u < N" by (rule members_lt [OF mem])
    then show "clh_wait s' (the (clh_node (ls u))) = clh_wait s (the (clh_node (ls u)))"
      using ne [of u] m(2) [of "the (clh_node (ls u))"] p tq u st
      by (cases "u = t") (auto simp: clh_stands_def)
  qed
  moreover have "chained q (Some h) (\<lambda>u. clh_node ((ls(t := l')) u)) (\<lambda>u. clh_pred s' ((ls(t := l')) u)) (Some (clh_queue s'))"
    unfolding m(1) using ch
    by (rule chained_cong) (use nd p tq o members_lt [OF mem] in auto)
  moreover have "clh_wait s' h = 0" using h m(2) [of h] t by auto
  ultimately show ?thesis using st h l o inj n unfolding clh_stands_def nd by auto
qed

lemma clh_arrives:
  assumes st: "clh_stands N q ls s" and t: "t < N" and l: "ls t = Acquiring (ClhSwap n)"
  shows "clh_stands N (q @ [t]) (ls(t := Acquiring (ClhLink n (clh_queue s)))) (s\<lparr>clh_queue := n\<rparr>)"
proof -
  let ?ls = "ls(t := Acquiring (ClhLink n (clh_queue s)))" and ?s = "s\<lparr>clh_queue := n\<rparr>"
  have mem: "members (queued clh_q) N q ls" using st by (simp add: clh_stands_def)
  then have tq: "t \<notin> set q" using members_in [OF mem t] l by simp
  obtain h where h: "clh_wait s h = 0" "\<forall>t<N. clh_node (ls t) \<noteq> Some h"
    and ch: "chained q (Some h) (\<lambda>t. clh_node (ls t)) (\<lambda>t. clh_pred s (ls t)) (Some (clh_queue s))"
    using st by (auto simp: clh_stands_def)
  have nd: "clh_node (?ls u) = clh_node (ls u)" for u using l by simp
  have s: "clh_pred ?s k = clh_pred s k" "clh_loc ?s k = clh_loc s k" for k by (rule clh_own; simp)+
  have "chained q (Some h) (\<lambda>u. clh_node (?ls u)) (\<lambda>u. clh_pred ?s (?ls u)) (Some (clh_queue s))"
    using ch by (rule chained_cong) (use nd s tq in auto)
  then have "chained (q @ [t]) (Some h) (\<lambda>u. clh_node (?ls u)) (\<lambda>u. clh_pred ?s (?ls u)) (clh_node (?ls t))"
    by (rule chained_enq) simp
  moreover have "members (queued clh_q) N (q @ [t]) ?ls"
    using members_step [OF mem t, of "Acquiring (ClhLink n (clh_queue s))"] l by (simp add: next_queue_def)
  moreover have "clh_wait s n = 1" using st t l by (force simp: clh_stands_def)
  moreover have "holds (ls u) \<Longrightarrow> u < N \<Longrightarrow> hd (q @ [t]) = u" for u
    using st members_in [OF mem, of u] holds_queued [of "ls u" clh_q] by (cases q) (auto simp: clh_stands_def)
  ultimately show ?thesis using st h s unfolding clh_stands_def nd by (auto simp: l)
qed

lemma clh_departs:
  assumes st: "clh_stands N q ls s" and t: "t < N" and l: "ls t = Releasing (ClhStore n p)"
  shows "clh_stands N (tl q) (ls(t := Idle p)) (s\<lparr>clh_wait := (clh_wait s)(n := 0)\<rparr>)"
proof -
  let ?ls = "ls(t := Idle p)" and ?s = "s\<lparr>clh_wait := (clh_wait s)(n := 0)\<rparr>"
  have mem: "members (queued clh_q) N q ls" and inj: "inj_on (\<lambda>t. clh_node (ls t)) {..<N}"
    using st by (auto simp: clh_stands_def)
  have "hd q = t" "t \<in> set q" using st t l members_in [OF mem t] by (auto simp: clh_stands_def)
  then have q: "q = t # tl q" and qn: "q \<noteq> []" by (cases q; auto)+
  obtain h where h: "clh_wait s h = 0" "\<forall>t<N. clh_node (ls t) \<noteq> Some h"
    and ch: "chained q (Some h) (\<lambda>t. clh_node (ls t)) (\<lambda>t. clh_pred s (ls t)) (Some (clh_queue s))"
    using st by (auto simp: clh_stands_def)
  have ch': "p = Some h" "chained (tl q) (Some n) (\<lambda>t. clh_node (ls t)) (\<lambda>t. clh_pred s (ls t)) (Some (clh_queue s))"
    using chained_deq [of t "tl q" "Some h" "\<lambda>t. clh_node (ls t)" "\<lambda>t. clh_pred s (ls t)"] ch q l by auto
  have dq: "t \<notin> set (tl q)" "set (tl q) \<subseteq> set q" using mem q by (metis distinct.simps(2) members_def, metis set_subset_Cons)
  have ne: "clh_node (ls u) \<noteq> Some n" if "u < N" "u \<noteq> t" for u
    using inj that t l by (metis (full_types) inj_onD lessThan_iff clh_node.simps(10))
  have o: "clh_pred ?s (ls u) = clh_pred s (ls u)" "clh_loc ?s (ls u) = clh_loc s (ls u)" if "u < N" "u \<noteq> t" for u
    by (rule clh_own, use ne [OF that] in force)+
  have "chained (tl q) (Some n) (\<lambda>u. clh_node (?ls u)) (\<lambda>u. clh_pred ?s (?ls u)) (Some (clh_queue ?s))"
  proof (rule chained_cong)
    show "chained (tl q) (Some n) (\<lambda>t. clh_node (ls t)) (\<lambda>t. clh_pred s (ls t)) (Some (clh_queue ?s))" using ch'(2) by simp
    show "\<forall>u\<in>set (tl q). clh_node (?ls u) = clh_node (ls u) \<and> clh_pred ?s (?ls u) = clh_pred s (ls u)"
      using o(1) dq members_lt [OF mem] by (metis fun_upd_other subsetD)
  qed
  moreover have "members (queued clh_q) N (tl q) ?ls"
    using members_step [OF mem t, of "Idle p"] l \<open>hd q = t\<close> qn by (simp add: next_queue_def)
  moreover have "inj_on (\<lambda>u. clh_node (?ls u)) {..<N}"
    using inj h ch'(1) by (auto simp: inj_on_def)
  moreover have "clh_wait ?s (the (clh_node (?ls u))) = 1" if "u \<in> set (tl q)" for u
  proof -
    have u: "u \<in> set q" "u < N" "u \<noteq> t" using that dq members_lt [OF mem] by auto
    then show ?thesis using clh_standsD(4) [OF st u(1)] ne [OF u(2,3)] clh_standsD(2) [OF st u(2)] by auto
  qed
  moreover have "\<not> holds (?ls u)" if "u < N" for u using clh_standsD(3) [OF st that] \<open>hd q = t\<close> by auto
  moreover have "\<forall>u<N. clh_loc ?s (?ls u) \<and> clh_node (?ls u) \<noteq> None" using clh_standsD(1,2) [OF st] o ch'(1) by simp
  moreover have "n \<noteq> h" using h(2) t l by force
  then have "\<forall>u<N. clh_node (?ls u) \<noteq> Some n" using ne ch'(1) by auto
  ultimately show ?thesis unfolding clh_stands_def by (intro conjI exI [of _ n]) auto
qed

text \<open>The only node of the chain with a clear flag is the first, so only the first thread goes on.\<close>

lemma clh_first:
  assumes st: "clh_stands N q ls s" and t: "t < N" and l: "ls t = Acquiring (ClhSpin n p)" and w: "clh_wait s p \<noteq> 1"
  shows "hd q = t"
proof (rule ccontr)
  assume ne: "hd q \<noteq> t"
  have mem: "members (queued clh_q) N q ls" using st by (simp add: clh_stands_def)
  have tq: "t \<in> set q" using members_in [OF mem t] l by simp
  obtain h where "chained q (Some h) (\<lambda>t. clh_node (ls t)) (\<lambda>t. clh_pred s (ls t)) (Some (clh_queue s))"
    using st by (auto simp: clh_stands_def)
  from chained_pv [OF this tq ne] obtain u where "u \<in> set q" "clh_node (ls u) = Some p" using l by auto
  then show False using st w by (force simp: clh_stands_def)
qed

lemma clh_step:
  assumes st: "clh_stands N q ls s" and t: "t < N" and c: "client_step clh_ops t (ls t) s l' s'"
  shows "clh_stands N (next_queue (queued clh_q) t (ls t) l' q) (ls(t := l')) s'"
  using c
proof (cases rule: client_step.cases)
  case (begin_lock p)
  have "clh_node (ls t) \<noteq> None" using st t by (simp add: clh_stands_def)
  then obtain n where "p = Some n" using begin_lock by auto
  then show ?thesis using begin_lock by (intro clh_stays [OF st t]) (auto simp: clh_ops_def)
next
  case (lock_go a a')
  show ?thesis
  proof (cases a)
    case (ClhSwap n)
    then show ?thesis using lock_go clh_arrives [OF st t, of n] by (auto simp: clh_ops_def next_queue_def pr_simps)
  qed (use lock_go st t in \<open>intro clh_stays [OF st t]; auto simp: clh_ops_def pr_simps clh_stands_def split: if_splits\<close>)+
next
  case (lock_ret a r)
  have "\<exists>p. a = ClhSpin r p \<and> clh_wait s p \<noteq> 1 \<and> s' = s"
    using lock_ret(3) by (cases a) (simp_all add: clh_ops_def pr_simps split: if_splits)
  then obtain p where a: "a = ClhSpin r p" "clh_wait s p \<noteq> 1" "s' = s" by blast
  have "clh_loc s (ls t)" using st t by (simp add: clh_stands_def)
  then show ?thesis using lock_ret(1,2) a clh_first [OF st t, of r p] by (intro clh_stays [OF st t]) simp_all
next
  case (begin_unlock r)
  then show ?thesis using st t by (intro clh_stays [OF st t]) (auto simp: clh_ops_def clh_stands_def)
next
  case (unlock_go d d')
  have "\<exists>n. d = ClhLoad n \<and> d' = ClhStore n (clh_previous s n) \<and> s' = s"
    using unlock_go(3) by (cases d) (auto simp: clh_ops_def)
  then show ?thesis using unlock_go(1,2) clh_standsD(3) [OF st t] by (intro clh_stays [OF st t]) auto
next
  case (unlock_ret d p)
  have "\<exists>n. d = ClhStore n p \<and> s' = s\<lparr>clh_wait := (clh_wait s)(n := 0)\<rparr>"
    using unlock_ret(3) by (cases d) (simp_all add: clh_ops_def pr_simps)
  then show ?thesis using unlock_ret(1,2) clh_departs [OF st t] by (auto simp: next_queue_def)
qed (use clh_standsD(1) [OF st t] in \<open>auto simp: clh_ops_def no_trylock_def\<close>)

lemma clh_start: "clh_stands N [] clh_clients (ck_spinlock_clh_init 0 m)"
  by (auto simp: clh_stands_def members_def clh_clients_def ck_spinlock_clh_init_def inj_on_def intro: chained_start)

interpretation clh: queue_lock "client_step clh_ops" clh_clients "ck_spinlock_clh_init 0 m" "\<lambda>_. True"
  "queued clh_q" holds clh_stands for m
proof unfold_locales
  fix N q ls s t l l' and s' :: ck_spinlock_clh
  show "clh_stands N [] clh_clients (ck_spinlock_clh_init 0 m)" by (rule clh_start)
  show "clh_stands N q ls s \<Longrightarrow> t < N \<Longrightarrow> client_step clh_ops t (ls t) s l' s' \<Longrightarrow>
    clh_stands N (next_queue (queued clh_q) t (ls t) l' q) (ls(t := l')) s'" by (rule clh_step)
  show "clh_stands N q ls s \<Longrightarrow> set q \<subseteq> {..<N}" by (auto simp: clh_stands_def members_def)
  show "q \<noteq> [] \<and> hd q = t" if "clh_stands N q ls s" "t < N" "holds (ls t)"
    using that members_in [of "queued clh_q" N q ls t] holds_queued [of "ls t" clh_q] by (auto simp: clh_stands_def)
  show "client_step clh_ops t l s l' s' \<Longrightarrow> queued clh_q l \<Longrightarrow>
    holds l \<and> holds l' \<or> \<not> holds l \<and> queued clh_q l' \<or> holds l \<and> \<not> queued clh_q l'"
  proof (rule client_leaves)
    fix a s a' s' assume "clh_q a" "lock_fn clh_ops a s = (Go a', s')"
    then show "clh_q a'" by (cases a) (auto simp: clh_ops_def split: if_splits)
  qed
qed (simp add: holds_queued)

lemma clh_no_null:
  "reachable (log_step (queued clh_q) holds (client_step clh_ops)) N clh_clients (ck_spinlock_clh_init 0 m, [], []) ls (s, as, es)
   \<Longrightarrow> i < N \<Longrightarrow> clh_node (ls i) \<noteq> None"
  using clh.logged.reachable_inv [of N m ls "(s, as, es)"] by (auto simp: log_inv_def clh_stands_def)

end
