(* ===== verification/SpinlockMcs.thy ===== *)
theory SpinlockMcs
  imports CkPr QueueLock
begin

text \<open>
  The list-based queue lock of \<^verbatim>\<open>ck/spinlock/mcs.h\<close>. A thread swaps its node into the tail, links it behind
  the one it found there and spins on its own node, which the thread before it clears on release.
\<close>

section \<open>The lock\<close>

record ck_spinlock_mcs =
  mcs_locked :: "nat \<Rightarrow> uint"
  mcs_next :: "nat \<Rightarrow> nat option"
  mcs_queue :: "nat option"

definition ck_spinlock_mcs_init :: "ck_spinlock_mcs \<Rightarrow> ck_spinlock_mcs" where
  "ck_spinlock_mcs_init m = m\<lparr>mcs_queue := None\<rparr>"

datatype mcs_try_pc = MtLocked nat | MtNull nat | MtCas nat

fun ck_spinlock_mcs_trylock :: "mcs_try_pc \<Rightarrow> ck_spinlock_mcs \<Rightarrow> (mcs_try_pc, bool) ctl \<times> ck_spinlock_mcs" where
  "ck_spinlock_mcs_trylock (MtLocked n) s = (Go (MtNull n), s\<lparr>mcs_locked := (mcs_locked s)(n := 1)\<rparr>)"
| "ck_spinlock_mcs_trylock (MtNull n) s = (Go (MtCas n), s\<lparr>mcs_next := (mcs_next s)(n := None)\<rparr>)"
| "ck_spinlock_mcs_trylock (MtCas n) s =
     (let (r, m) = ck_pr_cas (mcs_queue s) None (Some n) in (Ret r, s\<lparr>mcs_queue := m\<rparr>))"

definition ck_spinlock_mcs_locked :: "ck_spinlock_mcs \<Rightarrow> bool" where
  "ck_spinlock_mcs_locked s \<longleftrightarrow> ck_pr_load (mcs_queue s) \<noteq> None"

datatype mcs_pc = McsLocked nat | McsNull nat | McsSwap nat | McsLink nat nat | McsSpin nat nat

fun ck_spinlock_mcs_lock :: "mcs_pc \<Rightarrow> ck_spinlock_mcs \<Rightarrow> (mcs_pc, nat) ctl \<times> ck_spinlock_mcs" where
  "ck_spinlock_mcs_lock (McsLocked n) s = (Go (McsNull n), s\<lparr>mcs_locked := (mcs_locked s)(n := 1)\<rparr>)"
| "ck_spinlock_mcs_lock (McsNull n) s = (Go (McsSwap n), s\<lparr>mcs_next := (mcs_next s)(n := None)\<rparr>)"
| "ck_spinlock_mcs_lock (McsSwap n) s =
     (let (previous, m) = ck_pr_fas (mcs_queue s) (Some n)
      in (case previous of None \<Rightarrow> Ret n | Some p \<Rightarrow> Go (McsLink n p), s\<lparr>mcs_queue := m\<rparr>))"
| "ck_spinlock_mcs_lock (McsLink n previous) s =
     (Go (McsSpin n previous), s\<lparr>mcs_next := (mcs_next s)(previous := ck_pr_store (mcs_next s previous) (Some n))\<rparr>)"
| "ck_spinlock_mcs_lock (McsSpin n previous) s =
     (if ck_pr_load (mcs_locked s n) = 1 then Go (McsSpin n previous) else Ret n, s)"

datatype mcs_unlock_pc = MuNext nat | MuTail nat | MuCas nat | MuWait nat | MuGrant nat nat

fun ck_spinlock_mcs_unlock :: "mcs_unlock_pc \<Rightarrow> ck_spinlock_mcs \<Rightarrow> (mcs_unlock_pc, nat) ctl \<times> ck_spinlock_mcs" where
  "ck_spinlock_mcs_unlock (MuNext n) s =
     (case ck_pr_load (mcs_next s n) of None \<Rightarrow> Go (MuTail n) | Some y \<Rightarrow> Go (MuGrant n y), s)"
| "ck_spinlock_mcs_unlock (MuTail n) s =
     (if ck_pr_load (mcs_queue s) = Some n then Go (MuCas n) else Go (MuWait n), s)"
| "ck_spinlock_mcs_unlock (MuCas n) s =
     (let (r, m) = ck_pr_cas (mcs_queue s) (Some n) None in (if r then Ret n else Go (MuWait n), s\<lparr>mcs_queue := m\<rparr>))"
| "ck_spinlock_mcs_unlock (MuWait n) s =
     (case ck_pr_load (mcs_next s n) of None \<Rightarrow> Go (MuWait n) | Some y \<Rightarrow> Go (MuGrant n y), s)"
| "ck_spinlock_mcs_unlock (MuGrant n y) s = (Ret n, s\<lparr>mcs_locked := (mcs_locked s)(y := ck_pr_store (mcs_locked s y) 0)\<rparr>)"

section \<open>Clients\<close>

type_synonym mcs_client = "(nat, mcs_pc, mcs_try_pc, nat, mcs_unlock_pc) client"

definition mcs_ops :: "(nat, mcs_pc, mcs_try_pc, nat, mcs_unlock_pc, ck_spinlock_mcs) lock_ops" where
  "mcs_ops = \<lparr>lock_fn = ck_spinlock_mcs_lock, lock_entry = McsLocked,
     try_fn = ck_spinlock_mcs_trylock, try_entry = \<lambda>n. Some (MtLocked n), try_result = \<lambda>n. n,
     unlock_fn = ck_spinlock_mcs_unlock, unlock_entry = MuNext\<rparr>"

fun mcs_q :: "mcs_pc \<Rightarrow> bool" where
  "mcs_q (McsLink n p) = True" | "mcs_q (McsSpin n p) = True" | "mcs_q _ = False"

section \<open>The queue\<close>

fun mcs_node :: "mcs_client \<Rightarrow> nat" where
  "mcs_node (Idle n) = n"
| "mcs_node (Acquiring (McsLocked n)) = n" | "mcs_node (Acquiring (McsNull n)) = n" | "mcs_node (Acquiring (McsSwap n)) = n"
| "mcs_node (Acquiring (McsLink n p)) = n" | "mcs_node (Acquiring (McsSpin n p)) = n"
| "mcs_node (Trying n b) = n"
| "mcs_node (Critical n) = n"
| "mcs_node (Releasing (MuNext n)) = n" | "mcs_node (Releasing (MuTail n)) = n" | "mcs_node (Releasing (MuCas n)) = n"
| "mcs_node (Releasing (MuWait n)) = n" | "mcs_node (Releasing (MuGrant n y)) = n"

text \<open>The node a thread waits for: once its own node is cleared it waits for nobody. A thread has linked
  itself when it spins.\<close>

fun mcs_linked :: "ck_spinlock_mcs \<Rightarrow> mcs_client \<Rightarrow> nat option" where
  "mcs_linked s (Acquiring (McsSpin n p)) = (if mcs_locked s n = 1 then Some p else None)"
| "mcs_linked s _ = None"

fun mcs_pred :: "ck_spinlock_mcs \<Rightarrow> mcs_client \<Rightarrow> nat option" where
  "mcs_pred s (Acquiring (McsLink n p)) = Some p"
| "mcs_pred s l = mcs_linked s l"

fun mcs_loc :: "ck_spinlock_mcs \<Rightarrow> mcs_client \<Rightarrow> bool" where
  "mcs_loc s (Acquiring (McsNull n)) = (mcs_locked s n = 1)"
| "mcs_loc s (Acquiring (McsSwap n)) = (mcs_locked s n = 1 \<and> mcs_next s n = None)"
| "mcs_loc s (Acquiring (McsLink n p)) = (mcs_locked s n = 1)"
| "mcs_loc s (Trying n (MtLocked m)) = (m = n)"
| "mcs_loc s (Trying n (MtNull m)) = (m = n \<and> mcs_locked s n = 1)"
| "mcs_loc s (Trying n (MtCas m)) = (m = n \<and> mcs_locked s n = 1 \<and> mcs_next s n = None)"
| "mcs_loc s (Releasing (MuGrant n y)) = (mcs_next s n = Some y)"
| "mcs_loc s _ = True"

definition mcs_links :: "nat list \<Rightarrow> (nat \<Rightarrow> mcs_client) \<Rightarrow> ck_spinlock_mcs \<Rightarrow> bool" where
  "mcs_links q ls s \<longleftrightarrow> (\<forall>t\<in>set q. \<forall>y. mcs_next s (mcs_node (ls t)) = Some y \<longrightarrow>
     (\<exists>u\<in>set q. mcs_node (ls u) = y \<and> mcs_linked s (ls u) = Some (mcs_node (ls t))))"

definition mcs_stands :: "nat \<Rightarrow> nat list \<Rightarrow> (nat \<Rightarrow> mcs_client) \<Rightarrow> ck_spinlock_mcs \<Rightarrow> bool" where
  "mcs_stands N q ls s \<longleftrightarrow> members (queued mcs_q) N q ls \<and> inj_on (\<lambda>t. mcs_node (ls t)) {..<N} \<and>
     (\<forall>t<N. mcs_loc s (ls t) \<and> (holds (ls t) \<longrightarrow> hd q = t)) \<and> mcs_links q ls s \<and>
     chained q None (\<lambda>t. Some (mcs_node (ls t))) (\<lambda>t. mcs_pred s (ls t)) (mcs_queue s)"

lemma mcs_standsD:
  assumes "mcs_stands N q ls s"
  shows "members (queued mcs_q) N q ls" "t < N \<Longrightarrow> u < N \<Longrightarrow> mcs_node (ls t) = mcs_node (ls u) \<Longrightarrow> t = u"
    "t < N \<Longrightarrow> mcs_loc s (ls t)" "t < N \<Longrightarrow> holds (ls t) \<Longrightarrow> hd q = t" "mcs_links q ls s"
    "chained q None (\<lambda>t. Some (mcs_node (ls t))) (\<lambda>t. mcs_pred s (ls t)) (mcs_queue s)"
  using assms by (simp_all add: mcs_stands_def inj_on_def)

text \<open>What is known of a thread depends on its own node only, and for a releasing thread on the link it
  has seen.\<close>

lemma mcs_own:
  assumes "mcs_locked s' (mcs_node l) = mcs_locked s (mcs_node l)"
  shows "mcs_linked s' l = mcs_linked s l" "mcs_pred s' l = mcs_pred s l"
    "mcs_next s' (mcs_node l) = mcs_next s (mcs_node l) \<Longrightarrow> mcs_loc s l \<Longrightarrow> mcs_loc s' l"
proof -
  show "mcs_linked s' l = mcs_linked s l" using assms by (cases "(s, l)" rule: mcs_linked.cases) simp_all
  then show "mcs_pred s' l = mcs_pred s l" using assms by (cases "(s, l)" rule: mcs_pred.cases) simp_all
  show "mcs_next s' (mcs_node l) = mcs_next s (mcs_node l) \<Longrightarrow> mcs_loc s l \<Longrightarrow> mcs_loc s' l"
    using assms by (cases "(s, l)" rule: mcs_loc.cases) auto
qed

lemma mcs_linked_loc: "mcs_linked s l = Some p \<Longrightarrow> mcs_loc s' l"
  by (cases "(s, l)" rule: mcs_linked.cases) simp_all

lemma mcs_stays:
  assumes st: "mcs_stands N q ls s" and t: "t < N"
    and q: "queued mcs_q l' = queued mcs_q (ls t)" and n: "mcs_node l' = mcs_node (ls t)"
    and p: "queued mcs_q (ls t) \<Longrightarrow> mcs_pred s' l' = mcs_pred s (ls t) \<and> mcs_linked s' l' = mcs_linked s (ls t) \<and> mcs_next s' = mcs_next s"
    and m: "mcs_queue s' = mcs_queue s"
      "\<And>x. x \<noteq> mcs_node (ls t) \<Longrightarrow> mcs_locked s' x = mcs_locked s x \<and> mcs_next s' x = mcs_next s x"
    and l: "mcs_loc s' l'" "holds l' \<Longrightarrow> hd q = t"
  shows "mcs_stands N (next_queue (queued mcs_q) t (ls t) l' q) (ls(t := l')) s'"
proof -
  note D = mcs_standsD [OF st]
  have nd: "mcs_node ((ls(t := l')) u) = mcs_node (ls u)" for u using n by simp
  have ne: "mcs_node (ls u) \<noteq> mcs_node (ls t)" if "u < N" "u \<noteq> t" for u using D(2) [OF that(1) t] that(2) by blast
  have o: "mcs_linked s' (ls u) = mcs_linked s (ls u)" "mcs_pred s' (ls u) = mcs_pred s (ls u)" "mcs_loc s' (ls u)"
    if "u < N" "u \<noteq> t" for u
    using mcs_own [of s' "ls u" s] m(2) [OF ne [OF that]] D(3) [OF that(1)] by auto
  have tq: "t \<in> set q \<longleftrightarrow> queued mcs_q (ls t)" by (rule members_in [OF D(1) t])
  have lt: "u \<in> set q \<Longrightarrow> u < N" for u by (rule members_lt [OF D(1)])
  have q': "next_queue (queued mcs_q) t (ls t) l' q = q" using q by (simp add: next_queue_def)
  have same: "mcs_linked s' ((ls(t := l')) u) = mcs_linked s (ls u)" "mcs_pred s' ((ls(t := l')) u) = mcs_pred s (ls u)"
    "mcs_next s' (mcs_node (ls u)) = mcs_next s (mcs_node (ls u))" if "u \<in> set q" for u
    using that tq p o [OF lt [OF that]] m(2) [OF ne [OF lt [OF that]]] by (cases "u = t"; simp)+
  have "mcs_links q (ls(t := l')) s'" using D(5) same unfolding mcs_links_def nd by metis
  moreover have "chained q None (\<lambda>u. Some (mcs_node ((ls(t := l')) u))) (\<lambda>u. mcs_pred s' ((ls(t := l')) u)) (mcs_queue s')"
    unfolding m(1) using D(6) by (rule chained_cong) (use nd same in simp)
  moreover have "members (queued mcs_q) N q (ls(t := l'))" using members_step [OF D(1) t, of l'] q q' by simp
  moreover have "inj_on (\<lambda>u. mcs_node ((ls(t := l')) u)) {..<N}" unfolding nd using st by (simp add: mcs_stands_def)
  ultimately show ?thesis unfolding mcs_stands_def q' using l o D(4) by simp
qed

text \<open>A thread whose node is ready swaps it into the tail: it enters if there was none, or waits for it.\<close>

lemma mcs_arrives:
  assumes st: "mcs_stands N q ls s" and t: "t < N" and nq: "\<not> queued mcs_q (ls t)" and q: "queued mcs_q l'"
    and n: "mcs_node l' = mcs_node (ls t)" and nx: "mcs_next s (mcs_node (ls t)) = None"
    and p: "mcs_pred s l' = mcs_queue s" and l: "mcs_loc s l'" "holds l' \<Longrightarrow> mcs_queue s = None"
  defines "s' \<equiv> s\<lparr>mcs_queue := Some (mcs_node (ls t))\<rparr>"
  shows "mcs_stands N (next_queue (queued mcs_q) t (ls t) l' q) (ls(t := l')) s'"
proof -
  note D = mcs_standsD [OF st]
  have nd: "mcs_node ((ls(t := l')) u) = mcs_node (ls u)" for u using n by simp
  have s: "mcs_linked s' k = mcs_linked s k" "mcs_pred s' k = mcs_pred s k" "mcs_loc s k \<Longrightarrow> mcs_loc s' k"
    "mcs_next s' = mcs_next s" for k
    using mcs_own [of s' k s] by (simp_all add: s'_def)
  have tq: "t \<notin> set q" using members_in [OF D(1) t] nq by simp
  have q': "next_queue (queued mcs_q) t (ls t) l' q = q @ [t]" using q nq by (simp add: next_queue_def)
  have "chained q None (\<lambda>u. Some (mcs_node (ls u))) (\<lambda>u. mcs_pred s ((ls(t := l')) u)) (mcs_queue s)"
    using D(6) by (rule chained_cong) (use tq in auto)
  then have "chained (q @ [t]) None (\<lambda>u. Some (mcs_node (ls u))) (\<lambda>u. mcs_pred s ((ls(t := l')) u)) (Some (mcs_node (ls t)))"
    by (rule chained_enq) (use p in simp)
  moreover have "mcs_links (q @ [t]) (ls(t := l')) s'"
    unfolding mcs_links_def nd s(1,4)
  proof (intro ballI allI impI)
    fix v y assume v: "v \<in> set (q @ [t])" "mcs_next s (mcs_node (ls v)) = Some y"
    then have "v \<in> set q" using nx by auto
    then obtain u where "u \<in> set q" "mcs_node (ls u) = y" "mcs_linked s (ls u) = Some (mcs_node (ls v))"
      using D(5) v(2) unfolding mcs_links_def by blast
    then show "\<exists>u\<in>set (q @ [t]). mcs_node (ls u) = y \<and> mcs_linked s ((ls(t := l')) u) = Some (mcs_node (ls v))"
      using tq by (intro bexI [of _ u]) auto
  qed
  moreover have "members (queued mcs_q) N (q @ [t]) (ls(t := l'))" using members_step [OF D(1) t, of l'] q' nq by simp
  moreover have "inj_on (\<lambda>u. mcs_node ((ls(t := l')) u)) {..<N}" unfolding nd using st by (simp add: mcs_stands_def)
  moreover have "hd (q @ [t]) = u" if "u < N" "holds ((ls(t := l')) u)" for u
  proof (cases "u = t")
    case True
    then have "q = []" using l(2) that(2) chained_last [OF D(6)] by (cases "q = []") auto
    then show ?thesis using True by simp
  next
    case False
    then have "hd q = u" "u \<in> set q" using D(4) that members_in [OF D(1) that(1)] holds_queued [of "ls u" mcs_q] by auto
    then show ?thesis by (cases q) auto
  qed
  ultimately show ?thesis unfolding mcs_stands_def q' nd s(2) using l(1) s(3) D(3) by (simp add: s'_def)
qed

text \<open>Linking: the thread before is in the queue and not yet linked to anyone.\<close>

lemma mcs_links_up:
  assumes st: "mcs_stands N q ls s" and t: "t < N" and l: "ls t = Acquiring (McsLink n p)"
  defines "s' \<equiv> s\<lparr>mcs_next := (mcs_next s)(p := Some n)\<rparr>"
  shows "mcs_stands N q (ls(t := Acquiring (McsSpin n p))) s'"
proof -
  let ?ls = "ls(t := Acquiring (McsSpin n p))"
  note D = mcs_standsD [OF st]
  have tq: "t \<in> set q" using members_in [OF D(1) t] l by simp
  have lk: "mcs_locked s n = 1" using D(3) [OF t] l by simp
  have nd: "mcs_node (?ls u) = mcs_node (ls u)" for u using l by simp
  have s: "mcs_linked s' k = mcs_linked s k" "mcs_pred s' k = mcs_pred s k" for k
    using mcs_own [of s' k s] by (simp_all add: s'_def)
  have pr: "mcs_pred s' (?ls u) = mcs_pred s (ls u)" for u unfolding s(2) using l lk by simp
  have "hd q \<noteq> t" using D(6) tq l by (cases q) (auto simp: chained_def)
  from chained_pv [OF D(6) tq this] obtain v where v: "v \<in> set q" "mcs_node (ls v) = p" using l by auto
  have none: "mcs_next s p = None"
  proof (rule ccontr)
    assume "mcs_next s p \<noteq> None"
    then obtain u where u: "u \<in> set q" "mcs_linked s (ls u) = Some p" using D(5) v unfolding mcs_links_def by blast
    then have "mcs_pred s (ls u) = mcs_pred s (ls t)" using l by (cases "(s, ls u)" rule: mcs_pred.cases) auto
    moreover have "distinct (None # map (\<lambda>t. Some (mcs_node (ls t))) q)"
      using D(1) members_lt [OF D(1)] D(2) by (auto simp: members_def distinct_map inj_on_def)
    ultimately have "u = t" using chained_inj [OF D(6)] u(1) tq by (auto dest: inj_onD)
    then show False using u(2) l by simp
  qed
  have loc: "mcs_loc s' (ls u)" if "u < N" for u
  proof (cases "mcs_node (ls u) = p")
    case True
    have "u = v" using D(2) [OF that members_lt [OF D(1) v(1)]] True v(2) by simp
    then have "queued mcs_q (ls u)" using v(1) members_in [OF D(1) that] by simp
    then show ?thesis using D(3) [OF that] True none
      by (cases "(s, ls u)" rule: mcs_loc.cases) (auto simp: s'_def)
  next
    case False
    then show ?thesis using mcs_own(3) [of s' "ls u" s] D(3) [OF that] by (simp add: s'_def)
  qed
  have "mcs_links q ?ls s'"
    unfolding mcs_links_def nd
  proof (intro ballI allI impI)
    fix w y assume w: "w \<in> set q" "mcs_next s' (mcs_node (ls w)) = Some y"
    show "\<exists>u\<in>set q. mcs_node (ls u) = y \<and> mcs_linked s' (?ls u) = Some (mcs_node (ls w))"
    proof (cases "mcs_node (ls w) = p")
      case True
      then show ?thesis using w(2) tq l lk by (intro bexI [of _ t]) (auto simp: s'_def)
    next
      case False
      then obtain u where u: "u \<in> set q" "mcs_node (ls u) = y" "mcs_linked s (ls u) = Some (mcs_node (ls w))"
        using D(5) w unfolding mcs_links_def s'_def by auto
      then have "u \<noteq> t" using l by auto
      with u s show ?thesis by (intro bexI [of _ u]) auto
    qed
  qed
  moreover have "chained q None (\<lambda>u. Some (mcs_node (?ls u))) (\<lambda>u. mcs_pred s' (?ls u)) (mcs_queue s')"
    unfolding nd pr using D(6) by (simp add: s'_def)
  moreover have "members (queued mcs_q) N q ?ls"
    using members_step [OF D(1) t, of "Acquiring (McsSpin n p)"] l by (simp add: next_queue_def)
  moreover have "inj_on (\<lambda>u. mcs_node (?ls u)) {..<N}" unfolding nd using st by (simp add: mcs_stands_def)
  ultimately show ?thesis unfolding mcs_stands_def using loc D(4) by simp
qed

text \<open>Only the first thread waits for nobody.\<close>

lemma mcs_first:
  assumes st: "mcs_stands N q ls s" and t: "t < N" and l: "queued mcs_q (ls t)" "mcs_pred s (ls t) = None"
  shows "hd q = t"
  using chained_pv [OF mcs_standsD(6) [OF st], of t] members_in [OF mcs_standsD(1) [OF st] t] l by fastforce

text \<open>The first thread leaves: alone, by taking its node out of the tail, or by clearing the node linked
  behind its own, which belongs to the second thread.\<close>

lemma mcs_departs:
  assumes st: "mcs_stands N q ls s" and t: "t < N" and h: "holds (ls t)" and n: "mcs_node (ls t) = n"
    and ch: "chained (tl q) None (\<lambda>u. Some (mcs_node (ls u))) (\<lambda>u. mcs_pred s' (ls u)) (mcs_queue s')"
    and m: "mcs_next s' = mcs_next s"
      "\<And>u. u < N \<Longrightarrow> u \<noteq> t \<Longrightarrow> mcs_locked s' (mcs_node (ls u)) = mcs_locked s (mcs_node (ls u)) \<or>
         mcs_linked s (ls u) = Some n"
  shows "mcs_stands N (tl q) (ls(t := Idle n)) s'"
proof -
  let ?ls = "ls(t := Idle n)"
  note D = mcs_standsD [OF st]
  have q: "q = t # tl q" "q \<noteq> []" "hd q = t"
    using D(4) [OF t h] members_in [OF D(1) t] holds_queued [OF h, of mcs_q] by (cases q; auto)+
  have dq: "t \<notin> set (tl q)" "set (tl q) \<subseteq> set q"
    using D(1) q(1) by (metis distinct.simps(2) members_def, metis set_subset_Cons)
  have nd: "mcs_node (?ls u) = mcs_node (ls u)" for u using n by simp
  have loc: "mcs_loc s' (?ls u)" if "u < N" for u
    using m(2) [OF that] mcs_own(3) [of s' "ls u" s] mcs_linked_loc [of s "ls u" n s'] D(3) [OF that] m(1)
    by (cases "u = t") auto
  have "mcs_links (tl q) ?ls s'"
    unfolding mcs_links_def nd
  proof (intro ballI allI impI)
    fix w y assume w: "w \<in> set (tl q)" "mcs_next s' (mcs_node (ls w)) = Some y"
    have wt: "w < N" "w \<noteq> t" using w dq members_lt [OF D(1)] by auto
    obtain u where u: "u \<in> set q" "mcs_node (ls u) = y" "mcs_linked s (ls u) = Some (mcs_node (ls w))"
      using D(5) w dq m(1) unfolding mcs_links_def by (metis subsetD)
    have ut: "u \<noteq> t" using u(3) h by (cases "ls t") auto
    have "mcs_locked s' (mcs_node (ls u)) = mcs_locked s (mcs_node (ls u))"
      using m(2) [OF members_lt [OF D(1) u(1)] ut] u(3) n D(2) [OF wt(1) t] wt(2) by auto
    then have "mcs_linked s' (ls u) = Some (mcs_node (ls w))" using mcs_own(1) [of s' "ls u" s] u(3) by simp
    moreover have "u \<in> set (tl q)" using u(1) ut q(1) by (metis set_ConsD)
    ultimately show "\<exists>u\<in>set (tl q). mcs_node (ls u) = y \<and> mcs_linked s' (?ls u) = Some (mcs_node (ls w))"
      using u(2) ut by (intro bexI [of _ u]) auto
  qed
  moreover have "chained (tl q) None (\<lambda>u. Some (mcs_node (?ls u))) (\<lambda>u. mcs_pred s' (?ls u)) (mcs_queue s')"
    using ch by (rule chained_cong) (use nd dq in auto)
  moreover have "members (queued mcs_q) N (tl q) ?ls"
    using members_step [OF D(1) t, of "Idle n"] holds_queued [OF h, of mcs_q] q(2,3) by (simp add: next_queue_def)
  moreover have "inj_on (\<lambda>u. mcs_node (?ls u)) {..<N}" unfolding nd using st by (simp add: mcs_stands_def)
  moreover have "\<not> holds (?ls u)" if "u < N" for u using D(4) [OF that] q(3) by auto
  ultimately show ?thesis unfolding mcs_stands_def using loc by simp
qed

lemma mcs_grants:
  assumes st: "mcs_stands N q ls s" and t: "t < N" and l: "ls t = Releasing (MuGrant n y)"
  defines "s' \<equiv> s\<lparr>mcs_locked := (mcs_locked s)(y := 0)\<rparr>"
  shows "mcs_stands N (tl q) (ls(t := Idle n)) s'"
proof -
  note D = mcs_standsD [OF st]
  have tq: "hd q = t" "t \<in> set q" using D(4) [OF t] members_in [OF D(1) t] l by simp_all
  have nx: "mcs_next s (mcs_node (ls t)) = Some y" using D(3) [OF t] l by simp
  then obtain u where u: "u \<in> set q" "mcs_node (ls u) = y" "mcs_linked s (ls u) = Some n"
    using D(5) tq(2) l unfolding mcs_links_def by force
  have ut: "u \<noteq> t" using u(3) l by auto
  have un: "u < N" by (rule members_lt [OF D(1) u(1)])
  have pu: "mcs_pred s (ls u) = Some n" "mcs_pred s' (ls u) = None"
    using u(2,3) by (cases "(s, ls u)" rule: mcs_linked.cases; auto simp: s'_def split: if_splits)+
  obtain r where q: "q = t # r" using tq by (cases q) auto
  have ch: "chained r (Some n) (\<lambda>t. Some (mcs_node (ls t))) (\<lambda>t. mcs_pred s (ls t)) (mcs_queue s)"
    using chained_deq [OF D(6) [unfolded q]] l by simp
  have "hd r = u"
  proof (rule ccontr)
    assume "hd r \<noteq> u"
    moreover have "u \<in> set r" using u(1) q ut by simp
    ultimately obtain v where "v \<in> set r" "mcs_node (ls v) = n" using chained_pv [OF ch, of u] pu(1) by auto
    then have "v = t" using D(2) [OF members_lt [OF D(1)] t, of v] q l by simp
    then show False using \<open>v \<in> set r\<close> D(1) q by (simp add: members_def)
  qed
  then obtain r' where r: "r = u # r'" using u(1) q ut by (cases r) auto
  have o: "mcs_locked s' (mcs_node (ls v)) = mcs_locked s (mcs_node (ls v))" if "v < N" "v \<noteq> u" for v
    using D(2) [OF that(1) un] that(2) u(2) by (auto simp: s'_def)
  have "chained (u # r') None (\<lambda>t. Some (mcs_node (ls t))) (\<lambda>t. mcs_pred s' (ls t)) (mcs_queue s)"
  proof (rule chained_rehead [OF ch [unfolded r]], rule pu(2), intro ballI)
    fix v assume "v \<in> set r'"
    then have "v < N" "v \<noteq> u" using members_lt [OF D(1), of v] D(1) q r by (auto simp: members_def)
    then show "mcs_pred s' (ls v) = mcs_pred s (ls v)" using mcs_own(2) o by blast
  qed
  then have "chained (tl q) None (\<lambda>u. Some (mcs_node (ls u))) (\<lambda>u. mcs_pred s' (ls u)) (mcs_queue s')"
    by (simp add: q r s'_def)
  then show ?thesis
  proof (intro mcs_departs [OF st t])
    show "mcs_locked s' (mcs_node (ls v)) = mcs_locked s (mcs_node (ls v)) \<or> mcs_linked s (ls v) = Some n" if "v < N" for v
      using o [OF that] u(3) by blast
  qed (simp_all add: l s'_def)
qed

lemma mcs_empties:
  assumes st: "mcs_stands N q ls s" and t: "t < N" and l: "ls t = Releasing (MuCas n)" and e: "mcs_queue s = Some n"
  shows "mcs_stands N (tl q) (ls(t := Idle n)) (s\<lparr>mcs_queue := None\<rparr>)"
proof -
  note D = mcs_standsD [OF st]
  have tq: "hd q = t" "t \<in> set q" "q \<noteq> []" using D(4) [OF t] members_in [OF D(1) t] l by auto
  have "mcs_node (ls (last q)) = n" using chained_last [OF D(6)] e tq(3) by simp
  then have "last q = t" using D(2) [OF members_lt [OF D(1)] t, of "last q"] tq(3) l by simp
  moreover obtain r where r: "q = t # r" using tq(1,3) by (cases q) auto
  moreover have "t \<notin> set r" using D(1) r by (simp add: members_def)
  ultimately have "tl q = []" using last_in_set [of r] by (cases "r = []") auto
  then show ?thesis by (intro mcs_departs [OF st t]) (simp_all add: l chained_def)
qed

lemma mcs_step:
  assumes st: "mcs_stands N q ls s" and t: "t < N" and c: "client_step mcs_ops t (ls t) s l' s'"
  shows "mcs_stands N (next_queue (queued mcs_q) t (ls t) l' q) (ls(t := l')) s'"
proof -
  note D = mcs_standsD(3,4) [OF st t] and d = mcs_ops_def pr_simps
  show ?thesis using c
  proof (cases rule: client_step.cases)
    case (begin_lock p)
    then show ?thesis by (intro mcs_stays [OF st t]) (auto simp: d)
  next
    case (lock_go a a')
    show ?thesis
    proof (cases a)
      case (McsSwap n)
      then obtain p where "mcs_queue s = Some p" "a' = McsLink n p" "s' = s\<lparr>mcs_queue := Some n\<rparr>"
        using lock_go(3) by (auto simp: d split: option.splits)
      then show ?thesis using mcs_arrives [OF st t, of l'] lock_go McsSwap D by simp
    next
      case (McsLink n p)
      then show ?thesis using mcs_links_up [OF st t, of n p] lock_go by (auto simp: d next_queue_def)
    next
      case (McsNull n)
      then show ?thesis using lock_go D(1) by (intro mcs_stays [OF st t]) (auto simp: d)
    qed (use lock_go in \<open>intro mcs_stays [OF st t]; auto simp: d split: if_splits\<close>)+
  next
    case (lock_ret a r)
    show ?thesis
    proof (cases a)
      case (McsSwap n)
      then have "mcs_queue s = None" "r = n" "s' = s\<lparr>mcs_queue := Some n\<rparr>"
        using lock_ret(3) by (auto simp: d split: option.splits)
      then show ?thesis using mcs_arrives [OF st t, of l'] lock_ret McsSwap D by simp
    next
      case (McsSpin n p)
      then have "mcs_locked s n \<noteq> 1" "r = n" "s' = s" using lock_ret(3) by (auto simp: d split: if_splits)
      then show ?thesis using lock_ret McsSpin mcs_first [OF st t] by (intro mcs_stays [OF st t]) simp_all
    qed (use lock_ret in \<open>simp_all add: d\<close>)
  next
    case (begin_try p b)
    then show ?thesis by (intro mcs_stays [OF st t]) (auto simp: d)
  next
    case (try_go b b' p)
    then show ?thesis using D(1) by (cases b; intro mcs_stays [OF st t]) (auto simp: d split: if_splits)
  next
    case (try_ok b p)
    then obtain n where "b = MtCas n" "mcs_queue s = None" "s' = s\<lparr>mcs_queue := Some n\<rparr>"
      by (cases b) (auto simp: d split: if_splits)
    then show ?thesis using mcs_arrives [OF st t, of l'] try_ok D by (simp add: d)
  next
    case (try_fail b p)
    then have "s' = s" by (cases b) (auto simp: d split: if_splits)
    then show ?thesis using try_fail by (intro mcs_stays [OF st t]) auto
  next
    case (begin_unlock r)
    then show ?thesis using D(2) by (intro mcs_stays [OF st t]) (auto simp: d)
  next
    case (unlock_go e e')
    then show ?thesis using D(2) by (cases e; intro mcs_stays [OF st t]) (auto simp: d split: if_splits option.splits)
  next
    case (unlock_ret e p)
    show ?thesis
    proof (cases e)
      case (MuCas n)
      then have "mcs_queue s = Some n" "p = n" "s' = s\<lparr>mcs_queue := None\<rparr>"
        using unlock_ret(3) by (auto simp: d split: if_splits)
      then show ?thesis using mcs_empties [OF st t, of n] unlock_ret MuCas by (simp add: next_queue_def)
    next
      case (MuGrant n y)
      then show ?thesis using mcs_grants [OF st t, of n y] unlock_ret by (auto simp: d next_queue_def)
    qed (use unlock_ret in \<open>simp_all add: d split: if_splits option.splits\<close>)
  qed
qed

lemma mcs_start: "mcs_stands N [] Idle (ck_spinlock_mcs_init m)"
  by (auto simp: mcs_stands_def mcs_links_def members_def ck_spinlock_mcs_init_def inj_on_def intro: chained_start)

text \<open>Thread \<open>t\<close> uses node \<open>t\<close>; what the nodes hold at first does not matter.\<close>

interpretation mcs: queue_lock "client_step mcs_ops" Idle "ck_spinlock_mcs_init m" "\<lambda>_. True"
  "queued mcs_q" holds mcs_stands for m
proof unfold_locales
  fix N q ls s t l l' and s' :: ck_spinlock_mcs
  show "mcs_stands N [] Idle (ck_spinlock_mcs_init m)" by (rule mcs_start)
  show "mcs_stands N q ls s \<Longrightarrow> t < N \<Longrightarrow> client_step mcs_ops t (ls t) s l' s' \<Longrightarrow>
    mcs_stands N (next_queue (queued mcs_q) t (ls t) l' q) (ls(t := l')) s'" by (rule mcs_step)
  show "mcs_stands N q ls s \<Longrightarrow> set q \<subseteq> {..<N}" by (auto simp: mcs_stands_def members_def)
  show "q \<noteq> [] \<and> hd q = t" if "mcs_stands N q ls s" "t < N" "holds (ls t)"
    using that members_in [of "queued mcs_q" N q ls t] holds_queued [of "ls t" mcs_q] by (auto simp: mcs_stands_def)
  show "client_step mcs_ops t l s l' s' \<Longrightarrow> queued mcs_q l \<Longrightarrow>
    holds l \<and> holds l' \<or> \<not> holds l \<and> queued mcs_q l' \<or> holds l \<and> \<not> queued mcs_q l'"
  proof (rule client_leaves)
    fix a s a' s' assume "mcs_q a" "lock_fn mcs_ops a s = (Go a', s')"
    then show "mcs_q a'" by (cases a) (auto simp: mcs_ops_def split: if_splits)
  qed
qed (simp add: holds_queued)

end
