(* ===== verification/SpinlockAnderson.thy ===== *)
theory SpinlockAnderson
  imports CkPr QueueLock
begin

text \<open>
  The array-based queue lock of \<^verbatim>\<open>ck/spinlock/anderson.h\<close>. A thread draws the next slot of a circular array
  and spins on it; on release it opens the slot after its own. When the number of slots is no power of two,
  the counter jumps to a value that continues the sequence of slots where it would overflow.
\<close>

section \<open>The lock\<close>

record ck_spinlock_anderson_thread =
  an_locked :: uint
  an_position :: uint

record ck_spinlock_anderson =
  an_slots :: "ck_spinlock_anderson_thread list"
  an_count :: uint
  an_wrap :: uint
  an_mask :: uint
  an_next :: uint

text \<open>The array of the caller needs room for \<open>n_slots\<close> slots, and for the first in any case.\<close>

definition ck_spinlock_anderson_init ::
    "ck_spinlock_anderson_thread list \<Rightarrow> uint \<Rightarrow> ck_spinlock_anderson option" where
  "ck_spinlock_anderson_init slots n_slots =
     (if slots = [] \<or> length slots < unat n_slots then None else
      Some \<lparr>an_slots = fold (\<lambda>i a. a[i := \<lparr>an_locked = 1, an_position = of_nat i\<rparr>]) [1..<unat n_slots]
              (slots[0 := \<lparr>an_locked = 0, an_position = 0\<rparr>]),
        an_count = n_slots,
        an_wrap = (if n_slots AND (n_slots - 1) \<noteq> 0 then (- 1) mod n_slots + 1 else 0),
        an_mask = n_slots - 1, an_next = 0\<rparr>)"

text \<open>An access outside of the array is undefined: reading yields \<open>None\<close>.\<close>

definition slot_locked :: "ck_spinlock_anderson \<Rightarrow> uint \<Rightarrow> uint option" where
  "slot_locked s p = (if unat p < length (an_slots s) then Some (ck_pr_load (an_locked (an_slots s ! unat p))) else None)"

definition put_locked :: "uint \<Rightarrow> uint \<Rightarrow> ck_spinlock_anderson \<Rightarrow> ck_spinlock_anderson" where
  "put_locked p v s = s\<lparr>an_slots := (an_slots s)[unat p := (an_slots s ! unat p)\<lparr>an_locked := v\<rparr>]\<rparr>"

definition ck_spinlock_anderson_locked :: "ck_spinlock_anderson \<Rightarrow> bool option" where
  "ck_spinlock_anderson_locked s = map_option (\<lambda>v. v \<noteq> 0) (slot_locked s (ck_pr_load (an_next s) AND an_mask s))"

text \<open>A thread whose slot is out of range is stuck at \<open>AnSpin\<close>. The result is the slot.\<close>

datatype an_pc = AnStart | AnCas uint | AnSpin uint | AnStore uint

fun ck_spinlock_anderson_lock :: "an_pc \<Rightarrow> ck_spinlock_anderson \<Rightarrow> (an_pc, uint) ctl \<times> ck_spinlock_anderson" where
  "ck_spinlock_anderson_lock AnStart s =
     (if an_wrap s \<noteq> 0 then (Go (AnCas (ck_pr_load (an_next s))), s)
      else let (position, m) = ck_pr_faa (an_next s) 1 in (Go (AnSpin (position AND an_mask s)), s\<lparr>an_next := m\<rparr>))"
| "ck_spinlock_anderson_lock (AnCas position) s =
     (let new = (if position = - 1 then an_wrap s else position + 1);
          (ok, position', m) = ck_pr_cas_value (an_next s) position new
      in (if ok then Go (AnSpin (position mod an_count s)) else Go (AnCas position'), s\<lparr>an_next := m\<rparr>))"
| "ck_spinlock_anderson_lock (AnSpin position) s =
     (case slot_locked s position of
        None \<Rightarrow> (Go (AnSpin position), s)
      | Some v \<Rightarrow> (if v = 1 then Go (AnSpin position) else Go (AnStore position), s))"
| "ck_spinlock_anderson_lock (AnStore position) s = (Ret position, put_locked position 1 s)"

definition ck_spinlock_anderson_unlock :: "uint \<Rightarrow> ck_spinlock_anderson \<Rightarrow> (uint, unit) ctl \<times> ck_spinlock_anderson" where
  "ck_spinlock_anderson_unlock slot s =
     (let own = an_position (an_slots s ! unat slot);
          position = (if an_wrap s = 0 then (own + 1) AND an_mask s else (own + 1) mod an_count s)
      in (Ret (), put_locked position 0 s))"

section \<open>Clients\<close>

type_synonym an_client = "(unit, an_pc, unit, uint, uint) client"

definition an_ops :: "(unit, an_pc, unit, uint, uint, ck_spinlock_anderson) lock_ops" where
  "an_ops = \<lparr>lock_fn = ck_spinlock_anderson_lock, lock_entry = \<lambda>_. AnStart,
     try_fn = no_trylock, try_entry = \<lambda>_. None, try_result = \<lambda>_. 0,
     unlock_fn = ck_spinlock_anderson_unlock, unlock_entry = \<lambda>p. p\<rparr>"

fun an_q :: "an_pc \<Rightarrow> bool" where
  "an_q (AnSpin p) = True" | "an_q (AnStore p) = True" | "an_q _ = False"

section \<open>Slots as a sequence\<close>

lemma pow2_test: "0 < n \<Longrightarrow> n AND (n - 1) = 0 \<Longrightarrow> \<exists>k. n = 2 ^ k" for n :: nat
proof (induction n rule: less_induct)
  case (less n)
  show ?case
  proof (cases "even n")
    case True
    then obtain m where m: "n = 2 * m" by blast
    then have "m AND (m - 1) = 0" using less.prems and_nat_unfold [of n "n - 1"] by (cases m) auto
    moreover have "0 < m" "m < n" using less.prems m by auto
    ultimately obtain k where "m = 2 ^ k" using less.IH by blast
    then have "n = 2 ^ Suc k" by (simp add: m)
    then show ?thesis by blast
  next
    case False
    then obtain m where m: "n = Suc (2 * m)" by (metis oddE Suc_eq_plus1)
    then have "m AND m = 0" using less.prems and_nat_unfold [of n "n - 1"] by (auto split: if_splits)
    then have "n = 2 ^ 0" by (simp add: m)
    then show ?thesis by blast
  qed
qed

lemma pow2_and: "2 ^ k AND (2 ^ k - 1) = (0 :: nat)"
proof -
  have "(2 ^ k - 1 :: nat) = mask k" by (simp add: mask_eq_exp_minus_1)
  then show ?thesis by (intro bit_eqI) (auto simp: bit_and_iff bit_exp_iff bit_mask_iff)
qed

definition an_shape :: "nat \<Rightarrow> ck_spinlock_anderson \<Rightarrow> bool" where
  "an_shape n s \<longleftrightarrow> 0 < n \<and> n \<le> length (an_slots s) \<and> unat (an_count s) = n \<and> an_mask s = an_count s - 1 \<and>
     (\<forall>i<n. an_position (an_slots s ! i) = of_nat i) \<and>
     (if \<exists>k. n = 2 ^ k then an_wrap s = 0 else unat (an_wrap s) = (2 ^ 32 - 1) mod n + 1)"

lemma an_shape_put [simp]: "an_shape n (put_locked p v s) = an_shape n s" "an_shape n (s\<lparr>an_next := m\<rparr>) = an_shape n s"
proof -
  have "an_position ((an_slots s)[unat p := (an_slots s ! unat p)\<lparr>an_locked := v\<rparr>] ! i) = an_position (an_slots s ! i)" for i
    by (cases "i < length (an_slots s)"; cases "unat p = i") (simp_all add: list_update_beyond)
  then show "an_shape n (put_locked p v s) = an_shape n s" by (simp add: an_shape_def put_locked_def)
qed (simp add: an_shape_def)

lemma an_next_put [simp]: "an_next (put_locked p v s) = an_next s"
  by (simp add: put_locked_def)

lemma an_lt: "an_shape n s \<Longrightarrow> n < 2 ^ 32"
  using unsigned_less [of "an_count s", where ?'a = nat] by (auto simp: an_shape_def)

lemma an_pow2: "an_shape n s \<Longrightarrow> an_wrap s = 0 \<longleftrightarrow> (\<exists>k. n = 2 ^ k)"
  by (auto simp: an_shape_def split: if_splits)

text \<open>The two ways to reduce a number to a slot agree with the remainder.\<close>

lemma an_slot_mod:
  assumes "an_shape n s"
  shows "an_wrap s = 0 \<Longrightarrow> unat (w AND an_mask s) = unat w mod n" "unat (w mod an_count s) = unat w mod n"
proof -
  show "unat (w mod an_count s) = unat w mod n" using assms by (simp add: unat_mod_distrib an_shape_def)
  assume "an_wrap s = 0"
  then obtain k where k: "n = 2 ^ k" using an_pow2 [OF assms] by blast
  then have "k < 32" using an_lt [OF assms] by (metis one_less_numeral_iff power_less_imp_less_exp semiring_norm(76))
  have "unat (an_count s) = 2 ^ k" using assms k by (simp add: an_shape_def)
  then have "an_count s = 2 ^ k" by (metis of_nat_unat of_nat_power of_nat_numeral ucast_id)
  then have "an_mask s = mask k" using assms by (simp add: an_shape_def mask_word)
  then show "unat (w AND an_mask s) = unat w mod n" using unat_and_mask [OF \<open>k < 32\<close>, of "unat w"] k by simp
qed

lemma an_slot_inc:
  assumes "an_shape n s"
  shows "an_wrap s = 0 \<Longrightarrow> unat (w + 1) mod n = Suc (unat w) mod n"
    "an_wrap s \<noteq> 0 \<Longrightarrow> unat (if w = - 1 then an_wrap s else w + 1) mod n = Suc (unat w) mod n"
proof -
  show "unat (w + 1) mod n = Suc (unat w) mod n" if "an_wrap s = 0"
  proof -
    have "\<exists>k. n = 2 ^ k" using an_pow2 [OF assms] that by blast
    then obtain k where k: "n = 2 ^ k" ..
    then have "k \<le> 32" using an_lt [OF assms] by (metis le_less_linear not_less_iff_gr_or_eq one_less_numeral_iff power_strict_increasing semiring_norm(76))
    then have "n dvd 2 ^ 32" unfolding k by (rule le_imp_power_dvd)
    moreover have "unat (w + 1) = Suc (unat w) mod 2 ^ 32" by (simp add: unat_word_ariths)
    ultimately show ?thesis by (simp add: mod_mod_cancel)
  qed
  have m1: "unat (- 1 :: uint) = 2 ^ 32 - 1" by (simp add: unsigned_minus_1_eq_mask mask_eq_exp_minus_1)
  show "unat (if w = - 1 then an_wrap s else w + 1) mod n = Suc (unat w) mod n" if "an_wrap s \<noteq> 0"
  proof (cases "w = - 1")
    case True
    have "\<not> (\<exists>k. n = 2 ^ k)" using an_pow2 [OF assms] that by blast
    then have "unat (an_wrap s) = (2 ^ 32 - 1) mod n + 1" using assms by (auto simp: an_shape_def)
    moreover have "unat w = 2 ^ 32 - 1" using True m1 by simp
    moreover have "Suc (unat w mod n) mod n = Suc (unat w) mod n" by (rule mod_Suc_eq)
    ultimately show ?thesis unfolding if_P [OF True] by (simp only: Suc_eq_plus1)
  next
    case False
    have "unat w < 2 ^ 32 - 1"
      using False unsigned_less [of w, where ?'a = nat] by (auto simp: word_unat_eq_iff m1)
    then show ?thesis using False by (simp add: unat_inc_small)
  qed
qed

section \<open>The queue\<close>

text \<open>Slots are drawn in the order \<open>S, S + 1, \<dots>\<close> modulo the number of slots. The slot of the first thread is
  the only one that may be open, until that thread has closed it behind itself.\<close>

fun an_slot :: "an_client \<Rightarrow> uint" where
  "an_slot (Acquiring (AnSpin p)) = p" | "an_slot (Acquiring (AnStore p)) = p"
| "an_slot (Critical p) = p" | "an_slot (Releasing p) = p" | "an_slot _ = 0"

fun an_passed :: "an_client \<Rightarrow> bool" where
  "an_passed (Acquiring (AnStore p)) = True" | "an_passed l = holds l"

lemma an_passed_queued: "an_passed l \<Longrightarrow> queued an_q l"
  by (cases l rule: an_passed.cases) auto

definition an_open :: "nat \<Rightarrow> nat \<Rightarrow> nat list \<Rightarrow> (nat \<Rightarrow> an_client) \<Rightarrow> ck_spinlock_anderson \<Rightarrow> bool" where
  "an_open n S q ls s \<longleftrightarrow> (\<forall>j<n. an_locked (an_slots s ! j) =
     (if j = S mod n \<and> (q = [] \<or> \<not> holds (ls (hd q))) then 0 else 1))"

definition an_stands :: "nat \<Rightarrow> nat \<Rightarrow> nat list \<Rightarrow> (nat \<Rightarrow> an_client) \<Rightarrow> ck_spinlock_anderson \<Rightarrow> bool" where
  "an_stands n N q ls s \<longleftrightarrow> an_shape n s \<and> members (queued an_q) N q ls \<and> (\<forall>t<N. an_passed (ls t) \<longrightarrow> hd q = t) \<and>
     (\<exists>S. unat (an_next s) mod n = (S + length q) mod n \<and>
        (\<forall>i<length q. unat (an_slot (ls (q ! i))) = (S + i) mod n) \<and> an_open n S q ls s)"

lemma an_standsD:
  assumes "an_stands n N q ls s"
  shows "an_shape n s" "members (queued an_q) N q ls" "t < N \<Longrightarrow> an_passed (ls t) \<Longrightarrow> hd q = t"
  using assms by (auto simp: an_stands_def)

lemma an_arrives:
  assumes st: "an_stands n N q ls s" and t: "t < N" and l: "\<not> queued an_q (ls t)"
    and p: "unat p = unat (an_next s) mod n" "unat m mod n = Suc (unat (an_next s)) mod n"
  shows "an_stands n N (next_queue (queued an_q) t (ls t) (Acquiring (AnSpin p)) q)
    (ls(t := Acquiring (AnSpin p))) (s\<lparr>an_next := m\<rparr>)"
proof -
  let ?ls = "ls(t := Acquiring (AnSpin p))"
  note D = an_standsD [OF st]
  obtain S where S: "unat (an_next s) mod n = (S + length q) mod n"
    "\<forall>i<length q. unat (an_slot (ls (q ! i))) = (S + i) mod n" "an_open n S q ls s"
    using st by (auto simp: an_stands_def)
  have tq: "t \<notin> set q" using members_in [OF D(2) t] l by simp
  have q': "next_queue (queued an_q) t (ls t) (Acquiring (AnSpin p)) q = q @ [t]" using l by (simp add: next_queue_def)
  have "unat m mod n = (S + length (q @ [t])) mod n" using p(2) S(1) by (metis add_Suc_right length_append_singleton mod_Suc_eq)
  moreover have "unat (an_slot (?ls ((q @ [t]) ! i))) = (S + i) mod n" if "i < length (q @ [t])" for i
    using that S(1,2) p(1) tq by (cases "i < length q") (auto simp: nth_append less_Suc_eq)
  moreover have "an_open n S (q @ [t]) ?ls (s\<lparr>an_next := m\<rparr>)"
  proof (cases q)
    case Nil
    then show ?thesis using S(3) by (simp add: an_open_def)
  next
    case (Cons u r)
    then show ?thesis using S(3) tq by (simp add: an_open_def)
  qed
  moreover have "members (queued an_q) N (q @ [t]) ?ls" using members_step [OF D(2) t, of "Acquiring (AnSpin p)"] q' l by simp
  moreover have "hd (q @ [t]) = u" if "u < N" "an_passed (?ls u)" for u
  proof -
    have "u \<noteq> t" using that by auto
    then have "an_passed (ls u)" using that(2) by simp
    then have "hd q = u" "queued an_q (ls u)" using D(3) [OF that(1)] an_passed_queued by blast+
    then show ?thesis using members_in [OF D(2) that(1)] by (cases q) auto
  qed
  ultimately show ?thesis unfolding an_stands_def q' using D(1) by auto
qed

text \<open>Slots of threads in the queue are distinct, because there are no more threads than slots.\<close>

lemma an_first:
  assumes st: "an_stands n N q ls s" and N: "N \<le> n" and t: "t < N" and l: "queued an_q (ls t)"
    and o: "an_locked (an_slots s ! unat (an_slot (ls t))) \<noteq> 1"
  shows "hd q = t"
proof -
  note D = an_standsD [OF st]
  obtain S where S: "\<forall>i<length q. unat (an_slot (ls (q ! i))) = (S + i) mod n" "an_open n S q ls s"
    using st by (auto simp: an_stands_def)
  have "t \<in> set q" using members_in [OF D(2) t] l by simp
  then obtain i where i: "i < length q" "q ! i = t" by (auto simp: in_set_conv_nth)
  have "set q \<subseteq> {..<N}" using members_lt [OF D(2)] by blast
  then have "card (set q) \<le> N" using card_mono [of "{..<N}" "set q"] by simp
  then have "length q \<le> n" using D(2) N distinct_card [of q] by (simp only: members_def)
  have "0 < n" using D(1) by (simp add: an_shape_def)
  have sl: "unat (an_slot (ls t)) = (S + i) mod n" using S(1) i by blast
  have "(S + i) mod n = S mod n"
  proof (rule ccontr)
    assume "(S + i) mod n \<noteq> S mod n"
    then have "an_locked (an_slots s ! ((S + i) mod n)) = 1" using S(2) \<open>0 < n\<close> unfolding an_open_def by simp
    then show False using o sl by simp
  qed
  then have "n dvd i" using mod_eq_dvd_iff_nat [of S "S + i" n] by simp
  then have "i mod n = 0" by simp
  then have "i = 0" using i(1) \<open>length q \<le> n\<close> by simp
  then show ?thesis using i by (cases q) auto
qed

lemma an_put_nth:
  "an_shape n s \<Longrightarrow> unat p < n \<Longrightarrow> j < n \<Longrightarrow>
     an_locked (an_slots (put_locked p v s) ! j) = (if j = unat p then v else an_locked (an_slots s ! j))"
  by (auto simp: put_locked_def an_shape_def nth_list_update)

lemma an_slot_lt: "an_stands n N q ls s \<Longrightarrow> t < N \<Longrightarrow> queued an_q (ls t) \<Longrightarrow> unat (an_slot (ls t)) < n"
proof -
  assume st: "an_stands n N q ls s" and t: "t < N" "queued an_q (ls t)"
  note D = an_standsD [OF st]
  have "t \<in> set q" using members_in [OF D(2) t(1)] t(2) by simp
  then show ?thesis using st by (auto simp: an_stands_def an_shape_def in_set_conv_nth)
qed

text \<open>A thread that stays where it is in the queue and has passed only if it is the first.\<close>

lemma an_stays:
  assumes st: "an_stands n N q ls s" and t: "t < N" and q: "queued an_q l' = queued an_q (ls t)"
    and sl: "queued an_q (ls t) \<Longrightarrow> an_slot l' = an_slot (ls t)" and h: "holds l' = holds (ls t)"
    and p: "an_passed l' \<Longrightarrow> hd q = t" and s': "s' = s"
  shows "an_stands n N (next_queue (queued an_q) t (ls t) l' q) (ls(t := l')) s'"
proof -
  note D = an_standsD [OF st]
  obtain S where S: "unat (an_next s) mod n = (S + length q) mod n"
    "\<forall>i<length q. unat (an_slot (ls (q ! i))) = (S + i) mod n" "an_open n S q ls s"
    using st by (auto simp: an_stands_def)
  have q': "next_queue (queued an_q) t (ls t) l' q = q" using q by (simp add: next_queue_def)
  have "unat (an_slot ((ls(t := l')) (q ! i))) = (S + i) mod n" if "i < length q" for i
    using S(2) that sl members_in [OF D(2) t] nth_mem [OF that] by (cases "q ! i = t") auto
  moreover have "an_open n S q (ls(t := l')) s" using S(3) h by (auto simp: an_open_def)
  moreover have "members (queued an_q) N q (ls(t := l'))" using members_step [OF D(2) t, of l'] q q' by simp
  ultimately show ?thesis unfolding an_stands_def q' s' using D S(1) p by auto
qed

text \<open>The first thread closes its slot and enters.\<close>

lemma an_enters:
  assumes st: "an_stands n N q ls s" and t: "t < N" and l: "ls t = Acquiring (AnStore p)"
  shows "an_stands n N q (ls(t := Critical p)) (put_locked p 1 s)"
proof -
  let ?ls = "ls(t := Critical p)"
  note D = an_standsD [OF st]
  obtain S where S: "unat (an_next s) mod n = (S + length q) mod n"
    "\<forall>i<length q. unat (an_slot (ls (q ! i))) = (S + i) mod n" "an_open n S q ls s"
    using st by (auto simp: an_stands_def)
  have tq: "hd q = t" "t \<in> set q" using D(3) [OF t] members_in [OF D(2) t] l by simp_all
  then have z: "q ! 0 = t" "0 < length q" by (cases q; auto)+
  then have p: "unat p = S mod n" using S(2) [rule_format, of 0] l by simp
  have "unat (an_slot (?ls (q ! i))) = (S + i) mod n" if "i < length q" for i
    using S(2) that l by (cases "q ! i = t") auto
  moreover have "0 < n" using D(1) by (simp add: an_shape_def)
  then have "an_open n S q ?ls (put_locked p 1 s)"
    unfolding an_open_def using S(3) an_put_nth [OF D(1), of p _ 1] p tq(1) z(2)
    by (auto simp: an_open_def)
  moreover have "members (queued an_q) N q ?ls" using members_step [OF D(2) t, of "Critical p"] l by (simp add: next_queue_def)
  ultimately show ?thesis unfolding an_stands_def using D S(1) tq(1) by (intro conjI exI [of _ S]) auto
qed

lemma an_departs:
  assumes st: "an_stands n N q ls s" and t: "t < N" and l: "ls t = Releasing p"
    and p: "unat p' = Suc (unat p) mod n"
  shows "an_stands n N (tl q) (ls(t := Idle ())) (put_locked p' 0 s)"
proof -
  let ?ls = "ls(t := Idle ())"
  note D = an_standsD [OF st]
  obtain S where S: "unat (an_next s) mod n = (S + length q) mod n"
    "\<forall>i<length q. unat (an_slot (ls (q ! i))) = (S + i) mod n" "an_open n S q ls s"
    using st by (auto simp: an_stands_def)
  have tq: "hd q = t" "t \<in> set q" using D(3) [OF t] members_in [OF D(2) t] l by simp_all
  then obtain r where q: "q = t # r" by (cases q) auto
  have tr: "t \<notin> set r" using D(2) q by (simp add: members_def)
  have "unat p = S mod n" using S(2) [rule_format, of 0] l q by simp
  then have p': "unat p' = Suc S mod n" using p by (simp add: mod_Suc_eq)
  have n: "0 < n" using D(1) by (simp add: an_shape_def)
  have "unat (an_slot (?ls (r ! i))) = (Suc S + i) mod n" if "i < length r" for i
    using S(2) [rule_format, of "Suc i"] that q tr nth_mem [OF that] by auto
  moreover have np: "\<not> an_passed (?ls u)" if "u < N" for u using D(3) [OF that] tq(1) by auto
  have "an_open n (Suc S) r ?ls (put_locked p' 0 s)"
    unfolding an_open_def
  proof (intro allI impI)
    fix j assume j: "j < n"
    have "r = [] \<or> \<not> holds (?ls (hd r))"
      using np [of "hd r"] members_lt [OF D(2), of "hd r"] q by (cases r) (auto elim: an_passed.elims(3))
    moreover have "an_locked (an_slots s ! j) = 1" using S(3) j q l by (simp add: an_open_def)
    ultimately show "an_locked (an_slots (put_locked p' 0 s) ! j) = (if j = Suc S mod n \<and> (r = [] \<or> \<not> holds (?ls (hd r))) then 0 else 1)"
      using an_put_nth [OF D(1) _ j, of p' 0] p' n by auto
  qed
  moreover have "members (queued an_q) N r ?ls" using members_step [OF D(2) t, of "Idle ()"] l q by (simp add: next_queue_def)
  ultimately show ?thesis unfolding an_stands_def q list.sel using D(1) S(1) np q by (intro conjI exI [of _ "Suc S"]) auto
qed

lemma an_next_inc: "an_shape n s \<Longrightarrow> unat (if w = - 1 then an_wrap s else w + 1) mod n = Suc (unat w) mod n"
  using an_slot_inc [of n s w] by (cases "an_wrap s = 0"; cases "w = - 1") simp_all

lemma an_unlock_slot:
  assumes st: "an_stands n N q ls s" and t: "t < N" and l: "ls t = Releasing p"
  shows "\<exists>p'. ck_spinlock_anderson_unlock p s = (Ret (), put_locked p' 0 s) \<and> unat p' = Suc (unat p) mod n"
proof -
  note D = an_standsD [OF st]
  have lt: "unat p < n" using an_slot_lt [OF st t] l by simp
  have "an_position (an_slots s ! unat p) = p" using D(1) lt by (simp add: an_shape_def)
  moreover have "unat (p + 1) = Suc (unat p)" using lt an_lt [OF D(1)] by (intro unat_inc_small) simp
  ultimately show ?thesis using an_slot_mod [OF D(1), of "p + 1"] by (auto simp: ck_spinlock_anderson_unlock_def Let_def)
qed

lemma an_step:
  assumes st: "an_stands n N q ls s" and N: "N \<le> n" and t: "t < N" and c: "client_step an_ops t (ls t) s l' s'"
  shows "an_stands n N (next_queue (queued an_q) t (ls t) l' q) (ls(t := l')) s'"
proof -
  note D = an_standsD [OF st] and d = an_ops_def pr_simps
  show ?thesis using c
  proof (cases rule: client_step.cases)
    case (begin_lock p)
    then show ?thesis by (intro an_stays [OF st t]) (auto simp: d)
  next
    case (lock_go a a')
    show ?thesis
    proof (cases a)
      case AnStart
      show ?thesis
      proof (cases "an_wrap s = 0")
        case True
        then have "a' = AnSpin (an_next s AND an_mask s)" "s' = s\<lparr>an_next := an_next s + 1\<rparr>"
          using lock_go(3) AnStart by (auto simp: d)
        then show ?thesis
          using an_arrives [OF st t] lock_go(1,2) AnStart an_slot_mod(1) [OF D(1) True] an_slot_inc(1) [OF D(1) True] by simp
      next
        case False
        then have "s' = s" "\<exists>p. a' = AnCas p" using lock_go(3) AnStart by (auto simp: d)
        then show ?thesis using lock_go(1,2) AnStart by (intro an_stays [OF st t]) auto
      qed
    next
      case (AnCas p)
      show ?thesis
      proof (cases "an_next s = p")
        case True
        then have "a' = AnSpin (p mod an_count s)" "s' = s\<lparr>an_next := if p = - 1 then an_wrap s else p + 1\<rparr>"
          using lock_go(3) AnCas by (auto simp: d Let_def)
        then show ?thesis
          using an_arrives [OF st t] lock_go(1,2) AnCas True an_slot_mod(2) [OF D(1)] an_next_inc [OF D(1)] by simp
      next
        case False
        then have "s' = s" "\<exists>p. a' = AnCas p" using lock_go(3) AnCas by (auto simp: d Let_def)
        then show ?thesis using lock_go(1,2) AnCas by (intro an_stays [OF st t]) auto
      qed
    next
      case (AnSpin p)
      have "s' = s \<and> (a' = AnSpin p \<or> a' = AnStore p \<and> an_locked (an_slots s ! unat p) \<noteq> 1)"
        using lock_go(3) AnSpin by (auto simp: d slot_locked_def split: if_splits)
      then show ?thesis using lock_go(1,2) AnSpin an_first [OF st N t] by (intro an_stays [OF st t]) auto
    qed (use lock_go in \<open>simp add: d\<close>)
  next
    case (lock_ret a r)
    have "\<exists>p. a = AnStore p" using lock_ret(3) by (cases a) (auto simp: d Let_def split: if_splits option.splits)
    then show ?thesis using an_enters [OF st t] lock_ret by (auto simp: d next_queue_def)
  next
    case (begin_unlock r)
    then show ?thesis using D(3) [OF t] by (intro an_stays [OF st t]) (auto simp: d)
  next
    case (unlock_go e e')
    then show ?thesis by (simp add: d ck_spinlock_anderson_unlock_def Let_def)
  next
    case (unlock_ret e p)
    then show ?thesis using an_unlock_slot [OF st t, of e] an_departs [OF st t, of e] by (auto simp: d next_queue_def)
  next
    case (try_fail b p)
    then show ?thesis by (intro an_stays [OF st t]) (auto simp: d no_trylock_def)
  qed (auto simp: d no_trylock_def)
qed

section \<open>The initial state\<close>

lemma fold_slots:
  "m \<le> length a \<Longrightarrow> length (fold (\<lambda>i a. a[i := f i]) [1..<m] a) = length a \<and>
     (\<forall>j<length a. fold (\<lambda>i a. a[i := f i]) [1..<m] a ! j = (if 1 \<le> j \<and> j < m then f j else a ! j))"
  by (induction m) (auto simp: nth_list_update less_Suc_eq)

lemma an_init:
  assumes "ck_spinlock_anderson_init slots c = Some s" "0 < c"
  shows "an_stands (unat c) N [] (\<lambda>_. Idle ()) s"
proof -
  let ?f = "\<lambda>i. \<lparr>an_locked = 1, an_position = of_nat i\<rparr>"
  have len: "slots \<noteq> []" "unat c \<le> length slots" using assms(1) by (auto simp: ck_spinlock_anderson_init_def split: if_splits)
  have s: "s = \<lparr>an_slots = fold (\<lambda>i a. a[i := ?f i]) [1..<unat c] (slots[0 := \<lparr>an_locked = 0, an_position = 0\<rparr>]),
     an_count = c, an_wrap = (if c AND (c - 1) \<noteq> 0 then (- 1) mod c + 1 else 0), an_mask = c - 1, an_next = 0\<rparr>"
    using assms(1) by (auto simp: ck_spinlock_anderson_init_def split: if_splits)
  have c: "0 < unat c" using assms(2) by (simp add: word_less_nat_alt)
  have sl: "an_slots s ! j = (if j = 0 then \<lparr>an_locked = 0, an_position = 0\<rparr> else ?f j)" if "j < unat c" for j
    using fold_slots [of "unat c" "slots[0 := \<lparr>an_locked = 0, an_position = 0\<rparr>]" ?f] that len by (auto simp: s)
  have "unat (c AND (c - 1)) = unat c AND (unat c - 1)"
    using c by (simp add: unsigned_and_eq unat_dec_pos)
  then have w: "c AND (c - 1) = 0 \<longleftrightarrow> (\<exists>k. unat c = 2 ^ k)"
    using pow2_test [OF c] pow2_and by (metis unat_eq_zero unat_0)
  have m1: "unat (- 1 :: uint) = 2 ^ 32 - 1" by (simp add: unsigned_minus_1_eq_mask mask_eq_exp_minus_1)
  have "unat ((- 1) mod c + 1) = (2 ^ 32 - 1) mod unat c + 1" if "\<not> (\<exists>k. unat c = 2 ^ k)"
  proof -
    have "unat ((- 1) mod c) = (2 ^ 32 - 1) mod unat c" by (simp only: unat_mod_distrib m1)
    moreover have "(2 ^ 32 - 1) mod unat c < unat c" using c by simp
    moreover have "unat c < 2 ^ LENGTH(32)" by (rule unsigned_less)
    ultimately show ?thesis by (subst unat_inc_small) simp_all
  qed
  then have "if \<exists>k. unat c = 2 ^ k then an_wrap s = 0 else unat (an_wrap s) = (2 ^ 32 - 1) mod unat c + 1"
    using w by (simp add: s)
  moreover have "an_position (an_slots s ! j) = of_nat j" if "j < unat c" for j using sl [OF that] by simp
  moreover have "unat c \<le> length (an_slots s)" "an_count s = c" "an_mask s = c - 1"
    using fold_slots [of "unat c" "slots[0 := \<lparr>an_locked = 0, an_position = 0\<rparr>]" ?f] len by (simp_all add: s)
  ultimately have "an_shape (unat c) s" using c by (simp add: an_shape_def)
  moreover have "an_open (unat c) 0 [] (\<lambda>_. Idle ()) s" using sl by (simp add: an_open_def)
  moreover have "an_next s = 0" by (simp add: s)
  ultimately show ?thesis by (auto simp: an_stands_def members_def intro!: exI [of _ 0])
qed

text \<open>The initialised lock, where the initialisation is defined.\<close>

definition an_lock :: "ck_spinlock_anderson_thread list \<Rightarrow> uint \<Rightarrow> ck_spinlock_anderson" where
  "an_lock slots c = the (ck_spinlock_anderson_init slots c)"

lemma an_lock_init: "0 < c \<Longrightarrow> unat c \<le> length slots \<Longrightarrow> ck_spinlock_anderson_init slots c = Some (an_lock slots c)"
  by (cases slots) (auto simp: an_lock_def ck_spinlock_anderson_init_def word_less_nat_alt)

interpretation anderson: queue_lock "client_step an_ops" "\<lambda>_. Idle ()" "an_lock slots c"
  "\<lambda>N. 0 < c \<and> unat c \<le> length slots \<and> N \<le> unat c" "queued an_q" holds
  "\<lambda>N q ls s. N \<le> unat c \<and> an_stands (unat c) N q ls s" for slots c
proof unfold_locales
  fix N q ls s t l l' and s' :: ck_spinlock_anderson
  show "0 < c \<and> unat c \<le> length slots \<and> N \<le> unat c \<Longrightarrow>
    N \<le> unat c \<and> an_stands (unat c) N [] (\<lambda>_. Idle ()) (an_lock slots c)"
    using an_init [OF an_lock_init] by blast
  show "N \<le> unat c \<and> an_stands (unat c) N q ls s \<Longrightarrow> t < N \<Longrightarrow> client_step an_ops t (ls t) s l' s' \<Longrightarrow>
    N \<le> unat c \<and> an_stands (unat c) N (next_queue (queued an_q) t (ls t) l' q) (ls(t := l')) s'" using an_step by blast
  show "N \<le> unat c \<and> an_stands (unat c) N q ls s \<Longrightarrow> set q \<subseteq> {..<N}" by (auto simp: an_stands_def members_def)
  show "q \<noteq> [] \<and> hd q = t" if "N \<le> unat c \<and> an_stands (unat c) N q ls s" "t < N" "holds (ls t)"
  proof -
    note D = an_standsD [OF conjunct2 [OF that(1)]]
    have "an_passed (ls t)" using that(3) by (cases "ls t") auto
    then show ?thesis using D(3) [OF that(2)] members_in [OF D(2) that(2)] holds_queued [OF that(3), of an_q] by auto
  qed
  show "client_step an_ops t l s l' s' \<Longrightarrow> queued an_q l \<Longrightarrow>
    holds l \<and> holds l' \<or> \<not> holds l \<and> queued an_q l' \<or> holds l \<and> \<not> queued an_q l'"
  proof (rule client_leaves)
    fix a s a' s' assume "an_q a" "lock_fn an_ops a s = (Go a', s')"
    then show "an_q a'" by (cases a) (auto simp: an_ops_def split: if_splits option.splits)
  qed
qed (simp add: holds_queued)

text \<open>With a power of two of slots \<open>ck_spinlock_anderson_locked\<close> looks at the slot the next thread would draw;
  otherwise the mask picks another one: after one acquisition and release of a lock with three slots it
  reports a free lock as taken.\<close>

lemma locked_wrong:
  defines "slots \<equiv> replicate 3 \<lparr>an_locked = 0, an_position = 0\<rparr>"
  defines "s \<equiv> snd (client_run an_ops (replicate 7 (0, False)) (\<lambda>_. Idle (), an_lock slots 3))"
  shows "ck_spinlock_anderson_locked (an_lock slots 3) = Some False"
    "map (\<lambda>x. an_locked x) (an_slots s) = [1, 0, 1]" "an_next s = 1" "ck_spinlock_anderson_locked s = Some True"
  unfolding slots_def s_def by code_simp+

end
