(* ===== verification/PhaseLock.thy ===== *)
theory PhaseLock
  imports Interleave
begin

text \<open>
  The specification of a fair reader-writer lock, which \<open>ck_pflock\<close> and \<open>ck_tflock_ticket\<close> refine. Writers are
  numbered in the order of their tickets. A reader is admitted between two writers: it carries the number of
  writers that it lets go first. A writer, at the moment its place among the readers is fixed, notes how many
  readers have arrived, and enters when that many have left. The counters are natural numbers; the locks
  keep them modulo a power of two.
\<close>

section \<open>The specification\<close>

record phase =
  rq :: nat  \<comment> \<open>readers that have arrived\<close>
  rdone :: nat  \<comment> \<open>readers that have left\<close>
  wq :: nat  \<comment> \<open>tickets drawn by writers\<close>
  wfix :: nat  \<comment> \<open>writers whose place among the readers is fixed\<close>
  wdone :: nat  \<comment> \<open>writers that let the readers behind them go\<close>
  wfree :: nat  \<comment> \<open>writers that let the next writer go\<close>

datatype view = Out | Rd nat bool | Wq nat | Wturn nat | Wr nat nat bool | Wleft nat

inductive phase_step :: "view \<Rightarrow> phase \<Rightarrow> view \<Rightarrow> phase \<Rightarrow> bool" where
  idle: "phase_step x a x a"
| read_req: "b \<longrightarrow> wfix a = wdone a \<Longrightarrow> phase_step Out a (Rd (wfix a) b) (a\<lparr>rq := Suc (rq a)\<rparr>)"
| read_in: "wdone a = k \<Longrightarrow> phase_step (Rd k False) a (Rd k True) a"
| read_out: "phase_step (Rd k True) a Out (a\<lparr>rdone := Suc (rdone a)\<rparr>)"
| write_ticket: "phase_step Out a (Wq (wq a)) (a\<lparr>wq := Suc (wq a)\<rparr>)"
| write_turn: "wfree a = k \<Longrightarrow> phase_step (Wq k) a (Wturn k) a"
| write_fix: "phase_step (Wturn k) a (Wr (rq a) k False) (a\<lparr>wfix := Suc (wfix a)\<rparr>)"
| write_req: "wfix a = wq a \<Longrightarrow> wfree a = wdone a \<Longrightarrow>
    phase_step Out a (Wr (rq a) (wq a) False) (a\<lparr>wq := Suc (wq a), wfix := Suc (wfix a)\<rparr>)"
| write_in: "rdone a = r \<Longrightarrow> wdone a = k \<Longrightarrow> phase_step (Wr r k False) a (Wr r k True) a"
| write_clear: "wfix a = Suc (wdone a) \<Longrightarrow> phase_step (Wr r k True) a (Wleft k) (a\<lparr>wdone := Suc (wdone a)\<rparr>)"
| write_free: "phase_step (Wleft k) a Out (a\<lparr>wfree := Suc (wfree a)\<rparr>)"
| write_out: "wfree a = wdone a \<Longrightarrow>
    phase_step (Wr r k True) a Out (a\<lparr>wdone := Suc (wdone a), wfree := Suc (wfree a)\<rparr>)"

fun is_rd :: "view \<Rightarrow> bool" where "is_rd (Rd k b) = True" | "is_rd _ = False"
fun rd_upto :: "nat \<Rightarrow> view \<Rightarrow> bool" where "rd_upto n (Rd k b) = (k \<le> n)" | "rd_upto n _ = False"

fun wnum :: "view \<Rightarrow> nat option" where
  "wnum (Wq k) = Some k" | "wnum (Wturn k) = Some k" | "wnum (Wr r k c) = Some k" | "wnum (Wleft k) = Some k"
| "wnum _ = None"

text \<open>What a thread's view says of the counters; for a fixed writer, \<open>n\<close> is the number of readers inside or
  waiting that it has to let go first.\<close>

fun view_ok :: "phase \<Rightarrow> (nat \<Rightarrow> nat) \<Rightarrow> view \<Rightarrow> bool" where
  "view_ok a n Out = True"
| "view_ok a n (Rd k b) = (wdone a \<le> k \<and> k \<le> wfix a \<and> (b \<longrightarrow> k = wdone a))"
| "view_ok a n (Wq k) = (wfix a \<le> k \<and> k < wq a)"
| "view_ok a n (Wturn k) = (k = wfix a \<and> k = wfree a \<and> k < wq a)"
| "view_ok a n (Wr r k c) = (wdone a \<le> k \<and> k < wfix a \<and> wfree a = wdone a \<and> r = rdone a + n k \<and>
     (c \<longrightarrow> k = wdone a \<and> r = rdone a))"
| "view_ok a n (Wleft k) = (k = wfree a \<and> wdone a = Suc (wfree a))"

definition order_ok :: "phase \<Rightarrow> bool" where
  "order_ok a \<longleftrightarrow> wfree a \<le> wdone a \<and> wdone a \<le> wfix a \<and> wfix a \<le> wq a"

definition phase_inv :: "nat \<Rightarrow> (nat \<Rightarrow> view) \<Rightarrow> phase \<Rightarrow> bool" where
  "phase_inv N v a \<longleftrightarrow> order_ok a \<and> (\<forall>t<N. view_ok a (\<lambda>k. cnt N (rd_upto k) v) (v t)) \<and>
     (\<forall>i<N. \<forall>j<N. wnum (v i) \<noteq> None \<longrightarrow> wnum (v i) = wnum (v j) \<longrightarrow> i = j) \<and>
     rq a = rdone a + cnt N is_rd v \<and> wq a = wfree a + cnt N (\<lambda>x. wnum x \<noteq> None) v"

lemma phase_invD:
  assumes "phase_inv N v a"
  shows "order_ok a" "t < N \<Longrightarrow> view_ok a (\<lambda>k. cnt N (rd_upto k) v) (v t)"
    "i < N \<Longrightarrow> j < N \<Longrightarrow> wnum (v i) = Some k \<Longrightarrow> wnum (v j) = Some k \<Longrightarrow> i = j"
    "rq a = rdone a + cnt N is_rd v" "wq a = wfree a + cnt N (\<lambda>x. wnum x \<noteq> None) v"
  using assms unfolding phase_inv_def by auto

text \<open>The counts of readers after one thread has changed its view.\<close>

lemma cnt_rd_upto: "t < N \<Longrightarrow> cnt N (rd_upto k) (v(t := x)) + of_bool (rd_upto k (v t)) = cnt N (rd_upto k) v + of_bool (rd_upto k x)"
  by (rule cnt_upd)

lemma cnt_wnum: "t < N \<Longrightarrow> cnt N (\<lambda>x. wnum x \<noteq> None) (v(t := x)) + of_bool (wnum (v t) \<noteq> None) =
    cnt N (\<lambda>x. wnum x \<noteq> None) v + of_bool (wnum x \<noteq> None)"
  by (rule cnt_upd)

lemma rd_upto_all:
  assumes "phase_inv N v a"
  shows "cnt N (rd_upto (wfix a)) v = cnt N is_rd v"
proof -
  have "rd_upto (wfix a) (v t) = is_rd (v t)" if "t < N" for t
    using phase_invD(2) [OF assms that] by (cases "v t") auto
  then show ?thesis by (auto simp: cnt_def intro: sum.cong)
qed

lemma rd_upto_some:
  assumes "cnt N (rd_upto k) v = 0" "t < N"
  shows "\<not> rd_upto k (v t)"
  using assms by (simp add: cnt_0)

text \<open>The other threads keep what their views say.\<close>

lemma phase_step_others:
  assumes i: "phase_inv N v a" and t: "t < N" and j: "j < N" "j \<noteq> t" and st: "phase_step (v t) a x' a'"
  shows "view_ok a' (\<lambda>k. cnt N (rd_upto k) (v(t := x'))) (v j)"
proof -
  note o = phase_invD(1) [OF i, unfolded order_ok_def]
  note vt = phase_invD(2) [OF i t] and vj = phase_invD(2) [OF i j(1)]
  have dist: "wnum (v t) = Some k \<Longrightarrow> wnum (v j) \<noteq> Some k" for k using phase_invD(3) [OF i t j(1)] j(2) by blast
  note c = cnt_rd_upto [OF t, of _ v x']
  have z: "view_ok a (\<lambda>k. cnt N (rd_upto k) v) (Wr r k True) \<Longrightarrow> \<not> rd_upto k (v j)" for r k
    using rd_upto_some [of N k v j] j by fastforce
  show ?thesis using st
  proof (cases rule: phase_step.cases)
    case idle
    then show ?thesis using vj by simp
  next
    case (read_req b)
    then show ?thesis using vj o c by (cases "v j") auto
  next
    case (read_in k)
    then show ?thesis using vj o c by (cases "v j") auto
  next
    case (read_out k)
    then have p: "0 < cnt N (rd_upto l) v" if "k \<le> l" for l using that t by (intro cnt_pos) auto
    have "v j \<noteq> Wr r l True" for r l using vj vt p [of k] read_out(1) by (intro notI) auto
    then show ?thesis using read_out vj vt o c t p by (cases "v j") auto
  next
    case (write_clear r k)
    then show ?thesis using vj vt o c z [of r k] dist [of k] by (cases "v j") auto
  next
    case (write_out r k)
    then show ?thesis using vj vt o c z [of r k] dist [of k] by (cases "v j") auto
  next
    case (write_fix k)
    then show ?thesis using vj vt o c dist [of k] by (cases "v j") auto
  next
    case write_ticket
    then show ?thesis using vj o c by (cases "v j") auto
  next
    case (write_turn k)
    then show ?thesis using vj o c by (cases "v j") auto
  next
    case write_req
    then show ?thesis using vj o c by (cases "v j") auto
  next
    case (write_in r k)
    then show ?thesis using vj o c by (cases "v j") auto
  next
    case (write_free k)
    then show ?thesis using vj vt o c dist [of k] by (cases "v j") auto
  qed
qed

text \<open>The thread that moves, the order of the counters, and the numbers.\<close>

lemma phase_step_self:
  assumes i: "phase_inv N v a" and t: "t < N" and st: "phase_step (v t) a x' a'"
  shows "view_ok a' (\<lambda>k. cnt N (rd_upto k) (v(t := x'))) x'" "order_ok a'"
proof -
  note o = phase_invD(1) [OF i, unfolded order_ok_def]
  note vt = phase_invD(2) [OF i t]
  note c = cnt_rd_upto [OF t, of _ v x'] phase_invD(4) [OF i]
  have "rd_upto (wfix a) (v t) = is_rd (v t)" using vt by (cases "v t") auto
  then have all: "\<not> is_rd (v t) \<Longrightarrow> \<not> is_rd x' \<Longrightarrow> cnt N (rd_upto (wfix a)) (v(t := x')) = cnt N is_rd v"
    using rd_upto_all [OF i] t by (cases x') auto
  show "view_ok a' (\<lambda>k. cnt N (rd_upto k) (v(t := x'))) x'"
    using st by (cases rule: phase_step.cases) (use o vt c all in auto)
  show "order_ok a'"
    using st by (cases rule: phase_step.cases) (use o vt in \<open>auto simp: order_ok_def\<close>)
qed

lemma phase_step_counts:
  assumes i: "phase_inv N v a" and t: "t < N" and st: "phase_step (v t) a x' a'"
  shows "rq a' = rdone a' + cnt N is_rd (v(t := x'))"
    "wq a' = wfree a' + cnt N (\<lambda>x. wnum x \<noteq> None) (v(t := x'))"
proof -
  note c = phase_invD(4,5) [OF i]
  have r: "is_rd (v t) \<Longrightarrow> 0 < cnt N is_rd v" using t by (intro cnt_pos)
  have w: "wnum (v t) \<noteq> None \<Longrightarrow> 0 < cnt N (\<lambda>x. wnum x \<noteq> None) v" using t by (intro cnt_pos [where P = "\<lambda>x. wnum x \<noteq> None"])
  show "rq a' = rdone a' + cnt N is_rd (v(t := x'))"
    using st by (cases rule: phase_step.cases) (use c(1) t r in auto)
  show "wq a' = wfree a' + cnt N (\<lambda>x. wnum x \<noteq> None) (v(t := x'))"
    using st by (cases rule: phase_step.cases) (use c(2) w cnt_wnum [OF t, of v x'] in auto)
qed

lemma phase_step_wnum:
  assumes i: "phase_inv N v a" and t: "t < N" and j: "j < N" "j \<noteq> t" and st: "phase_step (v t) a x' a'"
  shows "wnum x' = Some k \<Longrightarrow> wnum (v j) \<noteq> Some k"
proof -
  assume k: "wnum x' = Some k"
  note o = phase_invD(1) [OF i, unfolded order_ok_def] and vj = phase_invD(2) [OF i j(1)]
  have "wnum (v t) = Some k \<or> k = wq a"
    using st k by (cases rule: phase_step.cases) auto
  moreover have "wnum (v j) \<noteq> Some (wq a)" using vj o by (cases "v j") auto
  ultimately show ?thesis using phase_invD(3) [OF i t j(1)] j(2) by blast
qed

lemma phase_inv_step:
  assumes i: "phase_inv N v a" and t: "t < N" and st: "phase_step (v t) a x' a'"
  shows "phase_inv N (v(t := x')) a'"
  unfolding phase_inv_def
proof (intro conjI allI impI)
  show "order_ok a'" by (rule phase_step_self [OF i t st])
  fix j assume j: "j < N"
  show "view_ok a' (\<lambda>k. cnt N (rd_upto k) (v(t := x'))) ((v(t := x')) j)"
    using phase_step_self(1) [OF i t st] phase_step_others [OF i t j _ st] by (cases "j = t") auto
next
  fix m j assume "m < N" "j < N" "wnum ((v(t := x')) m) \<noteq> None" "wnum ((v(t := x')) m) = wnum ((v(t := x')) j)"
  then show "m = j"
    using phase_step_wnum [OF i t _ _ st] phase_invD(3) [OF i] by (auto split: if_splits)
qed (fact phase_step_counts [OF i t st])+

lemma phase_inv_start: "phase_inv N (\<lambda>_. Out) \<lparr>rq = 0, rdone = 0, wq = 0, wfix = 0, wdone = 0, wfree = 0\<rparr>"
  by (simp add: phase_inv_def order_ok_def cnt_0)

lemma phase_exclusion:
  assumes i: "phase_inv N v a" and m: "m < N" "v m = Wr r k True"
  shows "j < N \<Longrightarrow> v j = Wr r' k' True \<Longrightarrow> m = j" "j < N \<Longrightarrow> v j \<noteq> Rd k' True"
proof -
  have w: "k = wdone a" "cnt N (rd_upto k) v = 0" using phase_invD(2) [OF i m(1)] m(2) by auto
  show "m = j" if "j < N" "v j = Wr r' k' True"
    using phase_invD(2) [OF i that(1)] phase_invD(3) [OF i m(1) that(1)] that m w by auto
  show "v j \<noteq> Rd k' True" if "j < N"
    using phase_invD(2) [OF i that] rd_upto_some [OF w(2) that] w(1) by auto
qed

section \<open>Implementations\<close>

text \<open>What an implementation has to show: its steps are steps of the specification, for a relation of
  its words with the counters and of a thread's program point with its view, when the counters are closer
  together than the number of threads.\<close>

definition near :: "nat \<Rightarrow> phase \<Rightarrow> bool" where
  "near N a \<longleftrightarrow> rq a \<le> rdone a + N \<and> wq a \<le> wfree a + N"

fun view_near :: "nat \<Rightarrow> phase \<Rightarrow> view \<Rightarrow> bool" where
  "view_near N a (Rd k b) = (wdone a \<le> k \<and> k \<le> wfix a \<and> (b \<longrightarrow> k = wdone a))"
| "view_near N a (Wq k) = (wfix a \<le> k \<and> k < wq a)"
| "view_near N a (Wturn k) = (k = wfix a \<and> k = wfree a)"
| "view_near N a (Wr r k c) = (wdone a \<le> k \<and> k < wfix a \<and> wfree a = wdone a \<and> rdone a \<le> r \<and> r \<le> rdone a + N \<and>
     (c \<longrightarrow> k = wdone a))"
| "view_near N a (Wleft k) = (k = wfree a \<and> wdone a = Suc (wfree a))"
| "view_near N a Out = True"

lemma phase_inv_near:
  assumes "phase_inv N v a"
  shows "near N a" "t < N \<Longrightarrow> view_near N a (v t)"
proof -
  show "near N a" using phase_invD(4,5) [OF assms] by (simp add: near_def cnt_le)
  show "view_near N a (v t)" if "t < N"
    using phase_invD(2) [OF assms that] cnt_le [of N _ v] by (cases "v t") auto
qed

locale phase_lock =
  fixes step :: "nat \<Rightarrow> 'l \<Rightarrow> 's \<Rightarrow> 'l \<Rightarrow> 's \<Rightarrow> bool" and l0 :: 'l and s0 :: 's and cap :: nat
    and glob :: "'s \<Rightarrow> phase \<Rightarrow> bool" and loc :: "'l \<Rightarrow> view \<Rightarrow> bool"
    and rd :: "'l \<Rightarrow> bool" and wr :: "'l \<Rightarrow> bool"
  assumes glob_start: "glob s0 \<lparr>rq = 0, rdone = 0, wq = 0, wfix = 0, wdone = 0, wfree = 0\<rparr>"
    and loc_start: "loc l0 Out"
    and simulates: "step t l s l' s' \<Longrightarrow> N \<le> cap \<Longrightarrow> glob s a \<Longrightarrow> loc l x \<Longrightarrow> near N a \<Longrightarrow> order_ok a \<Longrightarrow>
      view_near N a x \<Longrightarrow> \<exists>x' a'. phase_step x a x' a' \<and> glob s' a' \<and> loc l' x'"
    and rd_view: "rd l \<Longrightarrow> loc l x \<Longrightarrow> \<exists>k. x = Rd k True"
    and wr_view: "wr l \<Longrightarrow> loc l x \<Longrightarrow> \<exists>r k. x = Wr r k True"

definition refines_phase ::
    "('s \<Rightarrow> phase \<Rightarrow> bool) \<Rightarrow> ('l \<Rightarrow> view \<Rightarrow> bool) \<Rightarrow> nat \<Rightarrow> (nat \<Rightarrow> 'l) \<Rightarrow> 's \<Rightarrow> bool" where
  "refines_phase glob loc N ls s \<longleftrightarrow> (\<exists>v a. phase_inv N v a \<and> glob s a \<and> (\<forall>t<N. loc (ls t) (v t)))"

context phase_lock begin

lemma refines_start: "refines_phase glob loc N (\<lambda>_. l0) s0"
  unfolding refines_phase_def using phase_inv_start glob_start loc_start by blast

lemma refines_step:
  assumes N: "N \<le> cap" and i: "refines_phase glob loc N ls s" and t: "t < N" and st: "step t (ls t) s l' s'"
  shows "refines_phase glob loc N (ls(t := l')) s'"
proof -
  obtain v a where i: "phase_inv N v a" and g: "glob s a" and l: "\<forall>j<N. loc (ls j) (v j)"
    using i by (auto simp: refines_phase_def)
  then obtain x' a' where "phase_step (v t) a x' a'" "glob s' a'" "loc l' x'"
    using simulates [OF st N g _ phase_inv_near(1) [OF i] phase_invD(1) [OF i] phase_inv_near(2) [OF i t]] l t
    by blast
  moreover from this have "phase_inv N (v(t := x')) a'" by (intro phase_inv_step [OF i t])
  ultimately show ?thesis
    using l unfolding refines_phase_def by (intro exI [of _ "v(t := x')"] exI [of _ a']) simp
qed

end

sublocale phase_lock \<subseteq> rw_exclusion step "\<lambda>_. l0" s0 "\<lambda>N. N \<le> cap" "refines_phase glob loc" rd wr
proof unfold_locales
  fix N ls s i j
  assume r: "refines_phase glob loc N ls s" and ij: "i < N" "j < N" "wr (ls i)"
  obtain v a where p: "phase_inv N v a" and l: "\<forall>t<N. loc (ls t) (v t)"
    using r by (auto simp: refines_phase_def)
  obtain r k where v: "v i = Wr r k True" using wr_view l ij by blast
  note ex = phase_exclusion [OF p ij(1) v ij(2)]
  show "i = j" if "wr (ls j)" using wr_view [OF that] ex(1) l ij(2) by blast
  show "\<not> rd (ls j)" using rd_view ex(2) l ij(2) by blast
qed (blast intro: refines_start refines_step)+

lemma simulationI:
  "phase_step x a x' a' \<Longrightarrow> G a' \<Longrightarrow> L x' \<Longrightarrow> \<exists>x' a'. phase_step x a x' a' \<and> G a' \<and> L x'"
  by blast

text \<open>Counters kept in a word tell two numbers apart that are close together.\<close>

lemma of_nat_near:
  assumes "(of_nat m :: 'w::len word) = of_nat n" "m \<le> n" "n < m + 2 ^ LENGTH('w)"
  shows "m = n"
proof -
  have "of_nat (n - m) = (of_nat 0 :: 'w word)" using assms(1,2) by simp
  then have "n - m = 0" using assms(2,3) by (subst (asm) of_nat_small_eq) auto
  then show ?thesis using assms(2) by simp
qed

end
