(* ===== verification/Pflock.thy ===== *)
theory Pflock
  imports CkPr PhaseLock
begin

text \<open>
  The phase-fair reader-writer lock of \<^verbatim>\<open>ck/ck_pflock.h\<close>. \<open>rin\<close> and \<open>rout\<close> count readers in their upper 24
  bits; the low bits of \<open>rin\<close> show a writer and the parity of its ticket, by which a reader that came during
  one write phase knows that this phase has ended.
\<close>

section \<open>The lock\<close>

record ck_pflock =
  rin :: uint
  rout :: uint
  win :: uint
  wout :: uint

definition CK_PFLOCK_LSB :: uint where "CK_PFLOCK_LSB = 0xFFFFFFF0"
definition CK_PFLOCK_RINC :: uint where "CK_PFLOCK_RINC = 0x100"
definition CK_PFLOCK_WBITS :: uint where "CK_PFLOCK_WBITS = 0x3"
definition CK_PFLOCK_PRES :: uint where "CK_PFLOCK_PRES = 0x2"
definition CK_PFLOCK_PHID :: uint where "CK_PFLOCK_PHID = 0x1"

definition ck_pflock_init :: ck_pflock where
  "ck_pflock_init = \<lparr>rin = 0, rout = 0, win = 0, wout = 0\<rparr>"

datatype pf_wunlock_pc = PuClear | PuOut

fun ck_pflock_write_unlock :: "pf_wunlock_pc \<Rightarrow> ck_pflock \<Rightarrow> (pf_wunlock_pc, unit) ctl \<times> ck_pflock" where
  "ck_pflock_write_unlock PuClear pf = (Go PuOut, pf\<lparr>rin := ck_pr_and (rin pf) CK_PFLOCK_LSB\<rparr>)"
| "ck_pflock_write_unlock PuOut pf = (Ret (), pf\<lparr>wout := snd (ck_pr_faa (wout pf) 1)\<rparr>)"

datatype pf_wlock_pc = PwTicket | PwTurn uint | PwFlush uint | PwDrain uint

fun ck_pflock_write_lock :: "pf_wlock_pc \<Rightarrow> ck_pflock \<Rightarrow> (pf_wlock_pc, unit) ctl \<times> ck_pflock" where
  "ck_pflock_write_lock PwTicket pf =
     (let (ticket, m) = ck_pr_faa (win pf) 1 in (Go (PwTurn ticket), pf\<lparr>win := m\<rparr>))"
| "ck_pflock_write_lock (PwTurn ticket) pf =
     (if ck_pr_load (wout pf) \<noteq> ticket then Go (PwTurn ticket) else Go (PwFlush ticket), pf)"
| "ck_pflock_write_lock (PwFlush ticket) pf =
     (let (ticket', m) = ck_pr_faa (rin pf) ((ticket AND CK_PFLOCK_PHID) OR CK_PFLOCK_PRES)
      in (Go (PwDrain ticket'), pf\<lparr>rin := m\<rparr>))"
| "ck_pflock_write_lock (PwDrain ticket) pf =
     (if ck_pr_load (rout pf) \<noteq> ticket then Go (PwDrain ticket) else Ret (), pf)"

definition ck_pflock_read_unlock :: "unit \<Rightarrow> ck_pflock \<Rightarrow> (unit, unit) ctl \<times> ck_pflock" where
  "ck_pflock_read_unlock _ pf = (Ret (), pf\<lparr>rout := snd (ck_pr_faa (rout pf) CK_PFLOCK_RINC)\<rparr>)"

datatype pf_rlock_pc = PrTicket | PrWait uint

fun ck_pflock_read_lock :: "pf_rlock_pc \<Rightarrow> ck_pflock \<Rightarrow> (pf_rlock_pc, unit) ctl \<times> ck_pflock" where
  "ck_pflock_read_lock PrTicket pf =
     (let (v, m) = ck_pr_faa (rin pf) CK_PFLOCK_RINC; w = v AND CK_PFLOCK_WBITS
      in (if w = 0 then Ret () else Go (PrWait w), pf\<lparr>rin := m\<rparr>))"
| "ck_pflock_read_lock (PrWait w) pf =
     (if ck_pr_load (rin pf) AND CK_PFLOCK_WBITS = w then Go (PrWait w) else Ret (), pf)"

type_synonym pf_client = "(pf_wlock_pc, unit, pf_wunlock_pc, pf_rlock_pc, unit, unit, unit) rw_client"

definition pflock_ops :: "(pf_wlock_pc, unit, pf_wunlock_pc, pf_rlock_pc, unit, unit, unit, ck_pflock) rw_ops" where
  "pflock_ops = \<lparr>wlock_fn = ck_pflock_write_lock, wlock_entry = PwTicket,
     wtry_fn = no_trylock, wtry_entry = None,
     wunlock_fn = ck_pflock_write_unlock, wunlock_entry = PuClear,
     rlock_fn = ck_pflock_read_lock, rlock_entry = PrTicket,
     rtry_fn = no_trylock, rtry_entry = None,
     runlock_fn = ck_pflock_read_unlock, runlock_entry = (),
     downgrade_fn = no_downgrade, downgrade_entry = None\<rparr>"

section \<open>The words\<close>

text \<open>The writer bits while writer \<open>k\<close> is present, and the word of readers.\<close>

definition wbits :: "nat \<Rightarrow> uint" where "wbits k = 2 + of_nat (k mod 2)"

lemma wbits_cases: "wbits k = 2 \<and> even k \<or> wbits k = 3 \<and> odd k"
  by (cases "even k") (auto simp: wbits_def odd_iff_mod_2_eq_one)

lemma wbits_nonzero [simp]: "wbits k \<noteq> 0"
  using wbits_cases [of k] by auto

lemma wbits_eq: "wbits k = wbits l \<longleftrightarrow> even k = even l"
  using wbits_cases [of k] wbits_cases [of l] by auto

lemma ticket_wbits: "(of_nat k AND CK_PFLOCK_PHID) OR CK_PFLOCK_PRES = wbits k"
proof -
  have "unat (of_nat k AND (1 :: uint)) = k mod 2" using unat_and_mask [of 1 k] by simp
  then have "(of_nat k AND (1 :: uint)) = of_nat (k mod 2)" by (metis of_nat_unat ucast_id)
  then show ?thesis
    by (cases "even k") (simp_all add: wbits_def CK_PFLOCK_PHID_def CK_PFLOCK_PRES_def odd_iff_mod_2_eq_one)
qed

lemma reader_word:
  assumes "b = 0 \<or> b = 2 \<or> b = (3 :: uint)"
  shows "(x * 256 + b) AND CK_PFLOCK_WBITS = b" "(x * 256 + b) AND CK_PFLOCK_LSB = x * 256"
proof -
  have b: "bit b n \<Longrightarrow> n < 2" for n
    using assms by (auto simp: numeral_eq_Suc bit_Suc less_Suc_eq_0_disj split: nat.splits)
  have x: "x * 256 = push_bit 8 x" by (simp add: push_bit_eq_mult)
  have d: "push_bit 8 x + b = push_bit 8 x OR b"
    by (rule disjunctive_add_eq_or, rule bit_word_eqI) (auto simp: bit_simps dest: b)
  have m: "CK_PFLOCK_WBITS = mask 2" "CK_PFLOCK_LSB = NOT (mask 4)"
    by (simp_all add: CK_PFLOCK_WBITS_def CK_PFLOCK_LSB_def mask_eq_exp_minus_1)
  show "(x * 256 + b) AND CK_PFLOCK_WBITS = b"
    unfolding x d m by (rule bit_word_eqI) (auto simp: bit_simps dest: b)
  show "(x * 256 + b) AND CK_PFLOCK_LSB = x * 256"
    unfolding x d m by (rule bit_word_eqI) (auto simp: bit_simps dest: b)
qed

section \<open>Refinement\<close>

definition pf_glob :: "ck_pflock \<Rightarrow> phase \<Rightarrow> bool" where
  "pf_glob pf a \<longleftrightarrow> rin pf = of_nat (rq a) * 256 + (if wfix a = wdone a then 0 else wbits (wdone a)) \<and>
     rout pf = of_nat (rdone a) * 256 \<and> win pf = of_nat (wq a) \<and> wout pf = of_nat (wfree a) \<and>
     wfix a \<le> Suc (wdone a)"

fun pf_loc :: "pf_client \<Rightarrow> view \<Rightarrow> bool" where
  "pf_loc RwIdle x = (x = Out)"
| "pf_loc (WLock PwTicket) x = (x = Out)"
| "pf_loc (WLock (PwTurn ticket)) x = (\<exists>k. x = Wq k \<and> ticket = of_nat k)"
| "pf_loc (WLock (PwFlush ticket)) x = (\<exists>k. x = Wturn k \<and> ticket = of_nat k)"
| "pf_loc (WLock (PwDrain ticket)) x = (\<exists>r k. x = Wr r k False \<and> ticket = of_nat r * 256)"
| "pf_loc WCrit x = (\<exists>r k. x = Wr r k True)"
| "pf_loc (WUnlock PuClear) x = (\<exists>r k. x = Wr r k True)"
| "pf_loc (WUnlock PuOut) x = (\<exists>k. x = Wleft k)"
| "pf_loc (RLock PrTicket) x = (x = Out)"
| "pf_loc (RLock (PrWait w)) x = (\<exists>k. x = Rd (Suc k) False \<and> w = wbits k)"
| "pf_loc RCrit x = (\<exists>k. x = Rd k True)"
| "pf_loc (RUnlock _) x = (\<exists>k. x = Rd k True)"
| "pf_loc _ x = False"

lemmas pf_defs = pflock_ops_def ck_pflock_read_unlock_def no_trylock_def no_downgrade_def pr_simps CK_PFLOCK_RINC_def

lemma pf_rin_bits:
  assumes "pf_glob pf a"
  shows "rin pf AND CK_PFLOCK_WBITS = (if wfix a = wdone a then 0 else wbits (wdone a))"
    "rin pf AND CK_PFLOCK_LSB = of_nat (rq a) * 256"
  using assms wbits_cases [of "wdone a"] reader_word [of "if wfix a = wdone a then 0 else wbits (wdone a)" "of_nat (rq a)"]
  unfolding pf_glob_def by auto

text \<open>The writer's side: its turn, its place among the readers, the drain.\<close>

lemma pf_wlock_step:
  assumes st: "ck_pflock_write_lock c s = (r, s')" and N: "N \<le> 2 ^ 24 - 1" and g: "pf_glob s a"
    and l: "pf_loc (WLock c) x" and n: "near N a" "order_ok a" "view_near N a x"
  shows "\<exists>x' a'. phase_step x a x' a' \<and> pf_glob s' a' \<and> pf_loc (case r of Go c' \<Rightarrow> WLock c' | Ret _ \<Rightarrow> WCrit) x'"
proof (cases c)
  case PwTicket
  then have x: "x = Out" using l by simp
  show ?thesis unfolding x
    by (rule simulationI, rule write_ticket) (use st g PwTicket in \<open>auto simp: pf_defs pf_glob_def\<close>)
next
  case (PwTurn ticket)
  then obtain k where k: "x = Wq k" "ticket = of_nat k" using l by auto
  have "wfree a \<le> k" "k < wfree a + 2 ^ LENGTH(32)" using k n N by (auto simp: order_ok_def near_def)
  then have "wfree a = k" if "wout s = ticket"
    using that g k by (intro of_nat_near [where 'w = 32]) (simp_all add: pf_glob_def)
  then have "r = Go (PwTurn ticket) \<or> wfree a = k \<and> r = Go (PwFlush ticket)" "s' = s"
    using st PwTurn by (auto simp: pf_defs split: if_splits)
  then show ?thesis
    using g k simulationI [OF idle [of x a]] simulationI [OF write_turn [of a k]] by fastforce
next
  case (PwFlush ticket)
  then obtain k where k: "x = Wturn k" "ticket = of_nat k" using l by auto
  have w: "wfix a = wdone a" "k = wdone a" using n k by (auto simp: order_ok_def)
  show ?thesis unfolding k(1)
    by (rule simulationI, rule write_fix)
       (use st g k w PwFlush in \<open>auto simp: pf_defs pf_glob_def ticket_wbits algebra_simps\<close>)
next
  case (PwDrain ticket)
  then obtain q k where k: "x = Wr q k False" "ticket = of_nat q * 256" using l by auto
  have "rdone a * 256 \<le> q * 256" "q * 256 < rdone a * 256 + 2 ^ LENGTH(32)" using k n N by auto
  then have "rdone a * 256 = q * 256" if "rout s = ticket"
    using that g k by (intro of_nat_near [where 'w = 32]) (simp_all add: pf_glob_def)
  moreover have "k = wdone a" using g n k by (auto simp: pf_glob_def)
  ultimately have "r = Go (PwDrain ticket) \<or> rdone a = q \<and> wdone a = k \<and> r = Ret ()" "s' = s"
    using st PwDrain by (auto simp: pf_defs split: if_splits)
  then show ?thesis
    using g k simulationI [OF idle [of x a]] simulationI [OF write_in [of a q k]] by fastforce
qed

lemma pf_wunlock_step:
  assumes st: "ck_pflock_write_unlock c s = (r, s')" and g: "pf_glob s a" and l: "pf_loc (WUnlock c) x"
    and n: "order_ok a" "view_near N a x"
  shows "\<exists>x' a'. phase_step x a x' a' \<and> pf_glob s' a' \<and> pf_loc (case r of Go c' \<Rightarrow> WUnlock c' | Ret _ \<Rightarrow> RwIdle) x'"
proof (cases c)
  case PuClear
  then obtain q k where k: "x = Wr q k True" using l by auto
  have w: "wfix a = Suc (wdone a)" using g n k by (auto simp: pf_glob_def)
  show ?thesis unfolding k
    by (rule simulationI, rule write_clear [OF w])
       (use st g w PuClear pf_rin_bits [OF g] in \<open>auto simp: pf_defs pf_glob_def\<close>)
next
  case PuOut
  then obtain k where k: "x = Wleft k" using l by auto
  show ?thesis unfolding k
    by (rule simulationI, rule write_free) (use st g PuOut in \<open>auto simp: pf_defs pf_glob_def\<close>)
qed

lemma pf_rlock_step:
  assumes st: "ck_pflock_read_lock c s = (r, s')" and g: "pf_glob s a"
    and l: "pf_loc (RLock c) x" and n: "order_ok a" "view_near N a x"
  shows "\<exists>x' a'. phase_step x a x' a' \<and> pf_glob s' a' \<and> pf_loc (case r of Go c' \<Rightarrow> RLock c' | Ret _ \<Rightarrow> RCrit) x'"
proof (cases c)
  case PrTicket
  then have x: "x = Out" using l by simp
  have "wfix a = wdone a \<or> wfix a = Suc (wdone a)" using n g by (auto simp: order_ok_def pf_glob_def)
  then have c: "(wfix a = wdone a \<and> r = Ret () \<or> wfix a = Suc (wdone a) \<and> r = Go (PrWait (wbits (wdone a)))) \<and>
      s' = s\<lparr>rin := rin s + 256\<rparr>"
    using st PrTicket pf_rin_bits [OF g] by (auto simp: pf_defs)
  have p: "phase_step x a (Rd (wfix a) (wfix a = wdone a)) (a\<lparr>rq := Suc (rq a)\<rparr>)"
    unfolding x by (rule read_req) simp
  show ?thesis
    by (rule simulationI, rule p) (use c g in \<open>auto simp: pf_glob_def algebra_simps\<close>)
next
  case (PrWait w)
  then obtain k where k: "x = Rd (Suc k) False" "w = wbits k" using l by auto
  have "wdone a = Suc k \<or> wdone a = k \<and> wfix a = Suc k" using n g k by (auto simp: pf_glob_def)
  then have "wdone a = Suc k" if "rin s AND CK_PFLOCK_WBITS \<noteq> w"
    using that pf_rin_bits(1) [OF g] k by auto
  then have "r = Go (PrWait w) \<or> wdone a = Suc k \<and> r = Ret ()" "s' = s"
    using st PrWait by (auto simp: pf_defs split: if_splits)
  then show ?thesis
    using g k simulationI [OF idle [of x a]] simulationI [OF read_in [of a "Suc k"]] by fastforce
qed

lemma pf_runlock_step:
  assumes st: "ck_pflock_read_unlock c s = (r, s')" and g: "pf_glob s a" and l: "pf_loc (RUnlock c) x"
  shows "\<exists>x' a'. phase_step x a x' a' \<and> pf_glob s' a' \<and> pf_loc RwIdle x'"
proof -
  obtain k where k: "x = Rd k True" using l by auto
  show ?thesis unfolding k
    by (rule simulationI, rule read_out) (use st g in \<open>auto simp: pf_defs pf_glob_def algebra_simps\<close>)
qed

lemma pf_simulates:
  assumes st: "rw_step pflock_ops t l s l' s'" and N: "N \<le> 2 ^ 24 - 1" and g: "pf_glob s a"
    and l: "pf_loc l x" and n: "near N a" "order_ok a" "view_near N a x"
  shows "\<exists>x' a'. phase_step x a x' a' \<and> pf_glob s' a' \<and> pf_loc l' x'"
  using st
proof (cases rule: rw_step.cases)
  case (wlock_go c c')
  then show ?thesis using pf_wlock_step [OF _ N g _ n, of c] l by (fastforce simp: pflock_ops_def)
next
  case (wlock_ret c)
  then show ?thesis using pf_wlock_step [OF _ N g _ n, of c] l by (fastforce simp: pflock_ops_def)
next
  case (wunlock_go c c')
  then show ?thesis using pf_wunlock_step [OF _ g _ n(2,3), of c] l by (fastforce simp: pflock_ops_def)
next
  case (wunlock_ret c)
  then show ?thesis using pf_wunlock_step [OF _ g _ n(2,3), of c] l by (fastforce simp: pflock_ops_def)
next
  case (rlock_go c c')
  then show ?thesis using pf_rlock_step [OF _ g _ n(2,3), of c] l by (fastforce simp: pflock_ops_def)
next
  case (rlock_ret c)
  then show ?thesis using pf_rlock_step [OF _ g _ n(2,3), of c] l by (fastforce simp: pflock_ops_def)
next
  case (runlock_go c c')
  then show ?thesis by (simp add: pf_defs)
next
  case (runlock_ret c)
  then show ?thesis using pf_runlock_step [OF _ g, of c] l by (fastforce simp: pflock_ops_def)
qed (use g l in \<open>auto simp: pflock_ops_def intro: idle\<close>)

interpretation pflock: phase_lock "rw_step pflock_ops" RwIdle ck_pflock_init "2 ^ 24 - 1" pf_glob pf_loc reading writing
proof unfold_locales
  show "pf_glob ck_pflock_init \<lparr>rq = 0, rdone = 0, wq = 0, wfix = 0, wdone = 0, wfree = 0\<rparr>"
    by (simp add: pf_glob_def ck_pflock_init_def)
  fix l :: pf_client and x
  show "\<exists>k. x = Rd k True" if "reading l" "pf_loc l x" using that by (cases l) auto
  show "\<exists>r k. x = Wr r k True" if "writing l" "pf_loc l x" using that by (cases l) auto
qed (use pf_simulates in auto)

text \<open>The phase-fair lock excludes. In every interleaving of fewer than \<open>2 ^ 24\<close> threads (the reader counter has 24 bits) that
  lock and unlock it for reading and for writing, a thread that writes is the only writer and
  there is no reader, however often the counters have wrapped around.\<close>

theorem pflock_exclusion:
  assumes "reachable (rw_step pflock_ops) N (\<lambda>_. RwIdle) ck_pflock_init ls s"
    and "N < 2 ^ 24" and "i < N" and "writing (ls i)"
  shows "{j. j < N \<and> writing (ls j)} = {i} \<and> {j. j < N \<and> reading (ls j)} = {}"
  using pflock.writers_exclude [OF assms(1) _ assms(3,4)] assms(2) by simp

text \<open>Thread 0 reads; thread 1 waits for it and then writes; thread 2, a reader that came after the
  writer, still waits.\<close>

definition pflock_schedule :: "(nat \<times> nat) list" where
  "pflock_schedule = [(0,1),(0,0),(1,0),(1,0),(1,0),(1,0),(1,0),(2,1),(2,0),(0,0),(0,0),(1,0),(2,0)]"

theorem pflock_exclusion_witness:
  "let ls = fst (rw_run pflock_ops pflock_schedule (\<lambda>_. RwIdle, ck_pflock_init))
   in {j. j < 3 \<and> writing (ls j)} = {1} \<and> {j. j < 3 \<and> reading (ls j)} = {}"
  unfolding Let_def
  by (rule pflock_exclusion [OF rw_run_start]) (code_simp, simp, simp, code_simp)

end
