(* ===== verification/Tflock.thy ===== *)
theory Tflock
  imports CkPr PhaseLock
begin

text \<open>
  The task-fair reader-writer lock of \<^verbatim>\<open>ck/ck_tflock.h\<close>: each of its two words counts readers in the upper and
  writers in the lower half. A counter that has reached \<open>2 ^ 15\<close> loses that bit before the next increment, so
  that the two halves never run into each other.
\<close>

section \<open>The lock\<close>

record ck_tflock_ticket =
  request :: uint
  completion :: uint

definition CK_TFLOCK_TICKET_RC_INCR :: uint where "CK_TFLOCK_TICKET_RC_INCR = 0x10000"
definition CK_TFLOCK_TICKET_WC_INCR :: uint where "CK_TFLOCK_TICKET_WC_INCR = 0x1"
definition CK_TFLOCK_TICKET_W_MASK :: uint where "CK_TFLOCK_TICKET_W_MASK = 0xffff"
definition CK_TFLOCK_TICKET_WC_TOPMSK :: uint where "CK_TFLOCK_TICKET_WC_TOPMSK = 0x8000"
definition CK_TFLOCK_TICKET_RC_TOPMSK :: uint where "CK_TFLOCK_TICKET_RC_TOPMSK = 0x80000000"

lemmas tf_consts = CK_TFLOCK_TICKET_RC_INCR_def CK_TFLOCK_TICKET_WC_INCR_def CK_TFLOCK_TICKET_W_MASK_def
  CK_TFLOCK_TICKET_WC_TOPMSK_def CK_TFLOCK_TICKET_RC_TOPMSK_def

definition ck_tflock_ticket_fca_32 :: "uint \<Rightarrow> uint \<Rightarrow> uint cas_pc \<Rightarrow> uint \<Rightarrow> (uint cas_pc, uint) ctl \<times> uint" where
  "ck_tflock_ticket_fca_32 msk delta = cas_loop (\<lambda>snapshot. (snapshot AND NOT msk) + delta) (\<lambda>snapshot. snapshot)"

definition ck_tflock_ticket_init :: ck_tflock_ticket where
  "ck_tflock_ticket_init = \<lparr>request = 0, completion = 0\<rparr>"

datatype tf_lock_pc = TfFca "uint cas_pc" | TfWait uint

fun ck_tflock_ticket_write_lock :: "tf_lock_pc \<Rightarrow> ck_tflock_ticket \<Rightarrow> (tf_lock_pc, unit) ctl \<times> ck_tflock_ticket" where
  "ck_tflock_ticket_write_lock (TfFca c) lock =
     (case ck_tflock_ticket_fca_32 CK_TFLOCK_TICKET_WC_TOPMSK CK_TFLOCK_TICKET_WC_INCR c (request lock) of
        (Go c', m) \<Rightarrow> (Go (TfFca c'), lock\<lparr>request := m\<rparr>)
      | (Ret previous, m) \<Rightarrow> (Go (TfWait previous), lock\<lparr>request := m\<rparr>))"
| "ck_tflock_ticket_write_lock (TfWait previous) lock =
     (if ck_pr_load (completion lock) \<noteq> previous then Go (TfWait previous) else Ret (), lock)"

definition ck_tflock_ticket_write_unlock ::
    "uint cas_pc \<Rightarrow> ck_tflock_ticket \<Rightarrow> (uint cas_pc, unit) ctl \<times> ck_tflock_ticket" where
  "ck_tflock_ticket_write_unlock c lock =
     (case ck_tflock_ticket_fca_32 CK_TFLOCK_TICKET_WC_TOPMSK CK_TFLOCK_TICKET_WC_INCR c (completion lock) of
        (Go c', m) \<Rightarrow> (Go c', lock\<lparr>completion := m\<rparr>)
      | (Ret _, m) \<Rightarrow> (Ret (), lock\<lparr>completion := m\<rparr>))"

fun ck_tflock_ticket_read_lock :: "tf_lock_pc \<Rightarrow> ck_tflock_ticket \<Rightarrow> (tf_lock_pc, unit) ctl \<times> ck_tflock_ticket" where
  "ck_tflock_ticket_read_lock (TfFca c) lock =
     (case ck_tflock_ticket_fca_32 CK_TFLOCK_TICKET_RC_TOPMSK CK_TFLOCK_TICKET_RC_INCR c (request lock) of
        (Go c', m) \<Rightarrow> (Go (TfFca c'), lock\<lparr>request := m\<rparr>)
      | (Ret previous, m) \<Rightarrow> (Go (TfWait (previous AND CK_TFLOCK_TICKET_W_MASK)), lock\<lparr>request := m\<rparr>))"
| "ck_tflock_ticket_read_lock (TfWait previous) lock =
     (if ck_pr_load (completion lock) AND CK_TFLOCK_TICKET_W_MASK \<noteq> previous then Go (TfWait previous) else Ret (), lock)"

definition ck_tflock_ticket_read_unlock ::
    "uint cas_pc \<Rightarrow> ck_tflock_ticket \<Rightarrow> (uint cas_pc, unit) ctl \<times> ck_tflock_ticket" where
  "ck_tflock_ticket_read_unlock c lock =
     (case ck_tflock_ticket_fca_32 CK_TFLOCK_TICKET_RC_TOPMSK CK_TFLOCK_TICKET_RC_INCR c (completion lock) of
        (Go c', m) \<Rightarrow> (Go c', lock\<lparr>completion := m\<rparr>)
      | (Ret _, m) \<Rightarrow> (Ret (), lock\<lparr>completion := m\<rparr>))"

type_synonym tf_client = "(tf_lock_pc, unit, uint cas_pc, tf_lock_pc, unit, uint cas_pc, unit) rw_client"

definition tflock_ops ::
    "(tf_lock_pc, unit, uint cas_pc, tf_lock_pc, unit, uint cas_pc, unit, ck_tflock_ticket) rw_ops" where
  "tflock_ops = \<lparr>wlock_fn = ck_tflock_ticket_write_lock, wlock_entry = TfFca CasLoad,
     wtry_fn = no_trylock, wtry_entry = None,
     wunlock_fn = ck_tflock_ticket_write_unlock, wunlock_entry = CasLoad,
     rlock_fn = ck_tflock_ticket_read_lock, rlock_entry = TfFca CasLoad,
     rtry_fn = no_trylock, rtry_entry = None,
     runlock_fn = ck_tflock_ticket_read_unlock, runlock_entry = CasLoad,
     downgrade_fn = no_downgrade, downgrade_entry = None\<rparr>"

section \<open>The words\<close>

text \<open>The representation of a count in 16 bits, and the word with the readers' and the writers' counts.\<close>

definition tf :: "nat \<Rightarrow> nat" where "tf k = (if k = 0 then 0 else (k - 1) mod 2 ^ 15 + 1)"

definition hw :: "nat \<Rightarrow> nat \<Rightarrow> uint" where "hw r w = of_nat (tf r * 65536 + tf w)"

lemma tf_le: "tf k \<le> 32768"
proof -
  have "(k - Suc 0) mod 32768 \<le> 32767" using mod_less_divisor [of 32768 "k - Suc 0"] by linarith
  then show ?thesis by (simp add: tf_def)
qed

lemma tf_0 [simp]: "tf 0 = 0"
  by (simp add: tf_def)

lemma tf_mod: "tf k mod 32768 = k mod 32768"
  by (cases k) (simp_all add: tf_def mod_Suc_eq)

lemma tf_Suc: "tf (Suc k) = tf k - of_bool (tf k = 32768) * 32768 + 1"
proof (cases "tf k = 32768")
  case True
  then have "k mod 32768 = 0" using tf_mod [of k] by simp
  then show ?thesis using True by (simp add: tf_def)
next
  case False
  then have "tf k < 32768" using tf_le [of k] by simp
  then show ?thesis using tf_mod [of k] by (simp add: tf_def)
qed

lemma tf_near: "tf m = tf n \<Longrightarrow> m \<le> n \<Longrightarrow> n < m + 32768 \<Longrightarrow> m = n"
proof -
  assume "tf m = tf n" and le: "m \<le> n" and less: "n < m + 32768"
  then have "m mod 32768 = n mod 32768" using tf_mod by metis
  then have "(n - m) mod 32768 = 0" using mod_eq_dvd_iff_nat [OF le, of 32768] by auto
  then show "m = n" using le less by simp
qed

lemma hw_small: "tf r * 65536 + tf w < 2 ^ 32"
  using tf_le [of r] tf_le [of w] by simp

lemma unat_hw: "unat (hw r w) = tf r * 65536 + tf w"
  unfolding hw_def by (rule unat_of_nat_small) (use hw_small in simp)

lemma hw_inj: "hw r w = hw r' w' \<longleftrightarrow> tf r = tf r' \<and> tf w = tf w'"
proof -
  have "hw r w = hw r' w' \<longleftrightarrow> tf r * 65536 + tf w = tf r' * 65536 + tf w'"
    by (metis unat_hw hw_def)
  also have "\<dots> \<longleftrightarrow> tf r = tf r' \<and> tf w = tf w'"
  proof
    assume e: "tf r * 65536 + tf w = tf r' * 65536 + tf w'"
    have "(tf r * 65536 + tf w) mod 65536 = tf w" "(tf r' * 65536 + tf w') mod 65536 = tf w'"
      using tf_le [of w] tf_le [of w'] by simp_all
    then show "tf r = tf r' \<and> tf w = tf w'" using e by simp
  qed simp
  finally show ?thesis .
qed

lemma hw_writers: "hw r w AND CK_TFLOCK_TICKET_W_MASK = of_nat (tf w)"
proof -
  have "unat (hw r w AND mask 16) = tf w"
    unfolding hw_def using unat_and_mask [of 16 "tf r * 65536 + tf w"] tf_le [of w] by simp
  moreover have "CK_TFLOCK_TICKET_W_MASK = mask 16" by (simp add: CK_TFLOCK_TICKET_W_MASK_def mask_eq_exp_minus_1)
  ultimately show ?thesis by (metis of_nat_unat ucast_id)
qed

text \<open>Clearing a bit.\<close>

lemma and_not_bit: "(x :: uint) AND NOT (2 ^ n) = x - of_bool (bit x n) * 2 ^ n"
  using unset_bit_eq [of n x] by (simp add: unset_bit_eq_and_not)

lemma hw_bits:
  "bit (hw r w) 15 \<longleftrightarrow> tf w = 32768" "bit (hw r w) 31 \<longleftrightarrow> tf r = 32768"
proof -
  have b: "bit (hw r w) n \<longleftrightarrow> odd ((tf r * 65536 + tf w) div 2 ^ n)" if "n < 32" for n
    unfolding unat_hw [symmetric] bit_iff_odd [symmetric] using that by (simp add: bit_unsigned_iff)
  have w: "tf w div 32768 = of_bool (tf w = 32768)" and r: "tf r div 32768 = of_bool (tf r = 32768)" using tf_le [of w] tf_le [of r] by auto
  have "(tf r * 65536 + tf w) div 32768 = 2 * tf r + tf w div 32768" by simp
  then show "bit (hw r w) 15 \<longleftrightarrow> tf w = 32768" using w b [of 15] by simp
  have "(tf r * 65536 + tf w) div 2147483648 = (tf r * 65536 + tf w) div 65536 div 32768"
    by (simp add: div_mult2_eq [symmetric])
  also have "\<dots> = tf r div 32768" using tf_le [of w] by simp
  finally show "bit (hw r w) 31 \<longleftrightarrow> tf r = 32768" using r b [of 31] by simp
qed

lemma hw_next:
  "(hw r w AND NOT CK_TFLOCK_TICKET_WC_TOPMSK) + CK_TFLOCK_TICKET_WC_INCR = hw r (Suc w)"
  "(hw r w AND NOT CK_TFLOCK_TICKET_RC_TOPMSK) + CK_TFLOCK_TICKET_RC_INCR = hw (Suc r) w"
proof -
  show "(hw r w AND NOT CK_TFLOCK_TICKET_WC_TOPMSK) + CK_TFLOCK_TICKET_WC_INCR = hw r (Suc w)"
    using and_not_bit [of "hw r w" 15] hw_bits(1) [of r w]
    by (cases "tf w = 32768") (simp_all add: tf_consts hw_def tf_Suc [of w])
  show "(hw r w AND NOT CK_TFLOCK_TICKET_RC_TOPMSK) + CK_TFLOCK_TICKET_RC_INCR = hw (Suc r) w"
    using and_not_bit [of "hw r w" 31] hw_bits(2) [of r w]
    by (cases "tf r = 32768") (simp_all add: tf_consts hw_def tf_Suc [of r] algebra_simps)
qed

section \<open>Refinement\<close>

definition tf_glob :: "ck_tflock_ticket \<Rightarrow> phase \<Rightarrow> bool" where
  "tf_glob lock a \<longleftrightarrow> request lock = hw (rq a) (wq a) \<and> completion lock = hw (rdone a) (wdone a) \<and>
     wfix a = wq a \<and> wfree a = wdone a"

fun tf_loc :: "tf_client \<Rightarrow> view \<Rightarrow> bool" where
  "tf_loc RwIdle x = (x = Out)"
| "tf_loc (WLock (TfFca c)) x = (x = Out)"
| "tf_loc (WLock (TfWait previous)) x = (\<exists>r k. x = Wr r k False \<and> previous = hw r k)"
| "tf_loc WCrit x = (\<exists>r k. x = Wr r k True)"
| "tf_loc (WUnlock c) x = (\<exists>r k. x = Wr r k True)"
| "tf_loc (RLock (TfFca c)) x = (x = Out)"
| "tf_loc (RLock (TfWait previous)) x = (\<exists>k. x = Rd k False \<and> previous = of_nat (tf k))"
| "tf_loc RCrit x = (\<exists>k. x = Rd k True)"
| "tf_loc (RUnlock c) x = (\<exists>k. x = Rd k True)"
| "tf_loc _ x = False"

lemma fca_step:
  "ck_tflock_ticket_fca_32 m d c w =
     (case fst (ck_tflock_ticket_fca_32 m d c w) of Go c' \<Rightarrow> (Go c', w) | Ret p \<Rightarrow> (Ret w, (w AND NOT m) + d))"
  by (cases c) (auto simp: ck_tflock_ticket_fca_32_def pr_simps)

lemma fca_cases:
  obtains c' where "ck_tflock_ticket_fca_32 m d c w = (Go c', w)"
  | "ck_tflock_ticket_fca_32 m d c w = (Ret w, (w AND NOT m) + d)"
  using fca_step [of m d c w] by (auto split: ctl.splits)

lemma tf_wlock_step:
  assumes st: "ck_tflock_ticket_write_lock c s = (r, s')" and N: "N \<le> 2 ^ 15 - 1" and g: "tf_glob s a"
    and l: "tf_loc (WLock c) x" and n: "near N a" "order_ok a" "view_near N a x"
  shows "\<exists>x' a'. phase_step x a x' a' \<and> tf_glob s' a' \<and> tf_loc (case r of Go c' \<Rightarrow> WLock c' | Ret _ \<Rightarrow> WCrit) x'"
proof (cases c)
  case (TfFca f)
  then have x: "x = Out" using l by simp
  show ?thesis
  proof (rule fca_cases [of CK_TFLOCK_TICKET_WC_TOPMSK CK_TFLOCK_TICKET_WC_INCR f "request s"])
    fix f' assume "ck_tflock_ticket_fca_32 CK_TFLOCK_TICKET_WC_TOPMSK CK_TFLOCK_TICKET_WC_INCR f (request s) = (Go f', request s)"
    then show ?thesis by (intro simulationI, rule_tac idle) (use st g x TfFca in auto)
  next
    assume f: "ck_tflock_ticket_fca_32 CK_TFLOCK_TICKET_WC_TOPMSK CK_TFLOCK_TICKET_WC_INCR f (request s) =
      (Ret (request s), (request s AND NOT CK_TFLOCK_TICKET_WC_TOPMSK) + CK_TFLOCK_TICKET_WC_INCR)"
    have "phase_step x a (Wr (rq a) (wq a) False) (a\<lparr>wq := Suc (wq a), wfix := Suc (wfix a)\<rparr>)"
      unfolding x by (rule write_req) (use g in \<open>auto simp: tf_glob_def\<close>)
    then show ?thesis by (rule simulationI) (use st g f TfFca in \<open>auto simp: tf_glob_def hw_next\<close>)
  qed
next
  case (TfWait previous)
  then obtain q k where k: "x = Wr q k False" "previous = hw q k" using l by auto
  have b: "rdone a \<le> q" "q < rdone a + 32768" "wdone a \<le> k" "k < wdone a + 32768"
    using g k n N by (auto simp: tf_glob_def near_def)
  have "rdone a = q \<and> wdone a = k" if "completion s = previous"
    using that g k tf_near [OF _ b(1,2)] tf_near [OF _ b(3,4)] by (simp add: tf_glob_def hw_inj)
  then have "r = Go (TfWait previous) \<or> rdone a = q \<and> wdone a = k \<and> r = Ret ()" "s' = s"
    using st TfWait by (auto simp: pr_simps split: if_splits)
  then show ?thesis
    using g k simulationI [OF idle [of x a]] simulationI [OF write_in [of a q k]] by fastforce
qed

lemma tf_rlock_step:
  assumes st: "ck_tflock_ticket_read_lock c s = (r, s')" and N: "N \<le> 2 ^ 15 - 1" and g: "tf_glob s a"
    and l: "tf_loc (RLock c) x" and n: "near N a" "order_ok a" "view_near N a x"
  shows "\<exists>x' a'. phase_step x a x' a' \<and> tf_glob s' a' \<and> tf_loc (case r of Go c' \<Rightarrow> RLock c' | Ret _ \<Rightarrow> RCrit) x'"
proof (cases c)
  case (TfFca f)
  then have x: "x = Out" using l by simp
  show ?thesis
  proof (rule fca_cases [of CK_TFLOCK_TICKET_RC_TOPMSK CK_TFLOCK_TICKET_RC_INCR f "request s"])
    fix f' assume "ck_tflock_ticket_fca_32 CK_TFLOCK_TICKET_RC_TOPMSK CK_TFLOCK_TICKET_RC_INCR f (request s) = (Go f', request s)"
    then show ?thesis by (intro simulationI, rule_tac idle) (use st g x TfFca in auto)
  next
    assume f: "ck_tflock_ticket_fca_32 CK_TFLOCK_TICKET_RC_TOPMSK CK_TFLOCK_TICKET_RC_INCR f (request s) =
      (Ret (request s), (request s AND NOT CK_TFLOCK_TICKET_RC_TOPMSK) + CK_TFLOCK_TICKET_RC_INCR)"
    have "phase_step x a (Rd (wfix a) False) (a\<lparr>rq := Suc (rq a)\<rparr>)"
      unfolding x by (rule read_req) simp
    then show ?thesis by (rule simulationI) (use st g f TfFca in \<open>auto simp: tf_glob_def hw_next hw_writers\<close>)
  qed
next
  case (TfWait previous)
  then obtain k where k: "x = Rd k False" "previous = of_nat (tf k)" using l by auto
  have b: "wdone a \<le> k" "k < wdone a + 32768"
    using g k n N by (auto simp: tf_glob_def near_def)
  have e: "(of_nat (tf m) :: uint) = of_nat (tf k) \<Longrightarrow> tf m = tf k" for m k
    using tf_le [of m] tf_le [of k] by (subst (asm) of_nat_small_eq) simp_all
  have "wdone a = k" if "completion s AND CK_TFLOCK_TICKET_W_MASK = previous"
    using that g k tf_near [OF _ b] e by (simp add: tf_glob_def hw_writers)
  then have "r = Go (TfWait previous) \<or> wdone a = k \<and> r = Ret ()" "s' = s"
    using st TfWait by (auto simp: pr_simps split: if_splits)
  then show ?thesis
    using g k simulationI [OF idle [of x a]] simulationI [OF read_in [of a k]] by fastforce
qed

lemma tf_wunlock_step:
  assumes st: "ck_tflock_ticket_write_unlock c s = (r, s')" and g: "tf_glob s a" and l: "tf_loc (WUnlock c) x"
  shows "\<exists>x' a'. phase_step x a x' a' \<and> tf_glob s' a' \<and> tf_loc (case r of Go c' \<Rightarrow> WUnlock c' | Ret _ \<Rightarrow> RwIdle) x'"
proof (rule fca_cases [of CK_TFLOCK_TICKET_WC_TOPMSK CK_TFLOCK_TICKET_WC_INCR c "completion s"])
  fix f' assume "ck_tflock_ticket_fca_32 CK_TFLOCK_TICKET_WC_TOPMSK CK_TFLOCK_TICKET_WC_INCR c (completion s) = (Go f', completion s)"
  then show ?thesis
    by (intro simulationI, rule_tac idle) (use st g l in \<open>auto simp: ck_tflock_ticket_write_unlock_def\<close>)
next
  assume f: "ck_tflock_ticket_fca_32 CK_TFLOCK_TICKET_WC_TOPMSK CK_TFLOCK_TICKET_WC_INCR c (completion s) =
    (Ret (completion s), (completion s AND NOT CK_TFLOCK_TICKET_WC_TOPMSK) + CK_TFLOCK_TICKET_WC_INCR)"
  obtain q k where x: "x = Wr q k True" using l by auto
  have "phase_step x a Out (a\<lparr>wdone := Suc (wdone a), wfree := Suc (wfree a)\<rparr>)"
    unfolding x by (rule write_out) (use g in \<open>simp add: tf_glob_def\<close>)
  then show ?thesis
    by (rule simulationI) (use st g f in \<open>auto simp: tf_glob_def hw_next ck_tflock_ticket_write_unlock_def\<close>)
qed

lemma tf_runlock_step:
  assumes st: "ck_tflock_ticket_read_unlock c s = (r, s')" and g: "tf_glob s a" and l: "tf_loc (RUnlock c) x"
  shows "\<exists>x' a'. phase_step x a x' a' \<and> tf_glob s' a' \<and> tf_loc (case r of Go c' \<Rightarrow> RUnlock c' | Ret _ \<Rightarrow> RwIdle) x'"
proof (rule fca_cases [of CK_TFLOCK_TICKET_RC_TOPMSK CK_TFLOCK_TICKET_RC_INCR c "completion s"])
  fix f' assume "ck_tflock_ticket_fca_32 CK_TFLOCK_TICKET_RC_TOPMSK CK_TFLOCK_TICKET_RC_INCR c (completion s) = (Go f', completion s)"
  then show ?thesis
    by (intro simulationI, rule_tac idle) (use st g l in \<open>auto simp: ck_tflock_ticket_read_unlock_def\<close>)
next
  assume f: "ck_tflock_ticket_fca_32 CK_TFLOCK_TICKET_RC_TOPMSK CK_TFLOCK_TICKET_RC_INCR c (completion s) =
    (Ret (completion s), (completion s AND NOT CK_TFLOCK_TICKET_RC_TOPMSK) + CK_TFLOCK_TICKET_RC_INCR)"
  obtain k where x: "x = Rd k True" using l by auto
  have "phase_step x a Out (a\<lparr>rdone := Suc (rdone a)\<rparr>)"
    unfolding x by (rule read_out)
  then show ?thesis
    by (rule simulationI) (use st g f in \<open>auto simp: tf_glob_def hw_next ck_tflock_ticket_read_unlock_def\<close>)
qed

lemma tf_simulates:
  assumes st: "rw_step tflock_ops t l s l' s'" and N: "N \<le> 2 ^ 15 - 1" and g: "tf_glob s a"
    and l: "tf_loc l x" and n: "near N a" "order_ok a" "view_near N a x"
  shows "\<exists>x' a'. phase_step x a x' a' \<and> tf_glob s' a' \<and> tf_loc l' x'"
  using st
proof (cases rule: rw_step.cases)
  case (wlock_go c c')
  then show ?thesis using tf_wlock_step [OF _ N g _ n, of c] l by (fastforce simp: tflock_ops_def)
next
  case (wlock_ret c)
  then show ?thesis using tf_wlock_step [OF _ N g _ n, of c] l by (fastforce simp: tflock_ops_def)
next
  case (wunlock_go c c')
  then show ?thesis using tf_wunlock_step [OF _ g, of c] l by (fastforce simp: tflock_ops_def)
next
  case (wunlock_ret c)
  then show ?thesis using tf_wunlock_step [OF _ g, of c] l by (fastforce simp: tflock_ops_def)
next
  case (rlock_go c c')
  then show ?thesis using tf_rlock_step [OF _ N g _ n, of c] l by (fastforce simp: tflock_ops_def)
next
  case (rlock_ret c)
  then show ?thesis using tf_rlock_step [OF _ N g _ n, of c] l by (fastforce simp: tflock_ops_def)
next
  case (runlock_go c c')
  then show ?thesis using tf_runlock_step [OF _ g, of c] l by (fastforce simp: tflock_ops_def)
next
  case (runlock_ret c)
  then show ?thesis using tf_runlock_step [OF _ g, of c] l by (fastforce simp: tflock_ops_def)
qed (use g l in \<open>auto simp: tflock_ops_def intro: idle\<close>)

interpretation tflock: phase_lock "rw_step tflock_ops" RwIdle ck_tflock_ticket_init "2 ^ 15 - 1" tf_glob tf_loc reading writing
proof unfold_locales
  show "tf_glob ck_tflock_ticket_init \<lparr>rq = 0, rdone = 0, wq = 0, wfix = 0, wdone = 0, wfree = 0\<rparr>"
    by (simp add: tf_glob_def ck_tflock_ticket_init_def hw_def)
  fix l :: tf_client and x
  show "\<exists>k. x = Rd k True" if "reading l" "tf_loc l x" using that by (cases l) auto
  show "\<exists>r k. x = Wr r k True" if "writing l" "tf_loc l x" using that by (cases l) auto
qed (use tf_simulates in auto)

text \<open>The task-fair lock excludes. In every interleaving of fewer than \<open>2 ^ 15\<close> threads (a counter is kept modulo \<open>2 ^ 15\<close>) that
  lock and unlock it for reading and for writing, a thread that writes is the only writer and
  there is no reader, however often the counters have wrapped around.\<close>

theorem tflock_exclusion:
  assumes "reachable (rw_step tflock_ops) N (\<lambda>_. RwIdle) ck_tflock_ticket_init ls s"
    and "N < 2 ^ 15" and "i < N" and "writing (ls i)"
  shows "{j. j < N \<and> writing (ls j)} = {i} \<and> {j. j < N \<and> reading (ls j)} = {}"
  using tflock.writers_exclude [OF assms(1) _ assms(3,4)] assms(2) by simp

text \<open>Thread 0 reads; thread 1 waits for it and then writes; thread 2, a reader that came after the
  writer, still waits.\<close>

definition tflock_schedule :: "(nat \<times> nat) list" where
  "tflock_schedule = [(0,1),(0,0),(0,0),(0,0),(1,0),(1,0),(1,0),(1,0),(2,1),(2,0),(2,0),(2,0),(0,0),(0,0),(0,0),(1,0),(2,0)]"

theorem tflock_exclusion_witness:
  "let ls = fst (rw_run tflock_ops tflock_schedule (\<lambda>_. RwIdle, ck_tflock_ticket_init))
   in {j. j < 3 \<and> writing (ls j)} = {1} \<and> {j. j < 3 \<and> reading (ls j)} = {}"
  unfolding Let_def
  by (rule tflock_exclusion [OF rw_run_start]) (code_simp, simp, simp, code_simp)

end
