(* ===== verification/Fifo.thy ===== *)
theory Fifo
  imports SpinlockBasic "HOL-Library.Sublist"
begin

text \<open>
  The single-producer single-consumer queue of \<^verbatim>\<open>ck/ck_fifo.h\<close> with its two locks, which admit any number of
  producers and consumers one at a time, and with the recycling of nodes that consumers have left behind.
  Nodes are numbered; 0 is \<open>NULL\<close>.
\<close>

section \<open>The queue\<close>

record 'v ck_fifo_spsc_entry =
  fvalue :: 'v
  fnext :: nat

record 'v ck_fifo_spsc =
  m_head :: ck_spinlock_fas
  head :: nat
  m_tail :: ck_spinlock_fas
  tail :: nat
  head_snapshot :: nat
  garbage :: nat
  nodes :: "nat \<Rightarrow> 'v ck_fifo_spsc_entry"

definition ck_fifo_spsc_enqueue_trylock :: "unit \<Rightarrow> 'v ck_fifo_spsc \<Rightarrow> (unit, bool) ctl \<times> 'v ck_fifo_spsc" where
  "ck_fifo_spsc_enqueue_trylock c fifo =
     (let (r, s) = ck_spinlock_fas_trylock c (m_tail fifo) in (r, fifo\<lparr>m_tail := s\<rparr>))"

definition ck_fifo_spsc_enqueue_lock :: "fas_pc \<Rightarrow> 'v ck_fifo_spsc \<Rightarrow> (fas_pc, unit) ctl \<times> 'v ck_fifo_spsc" where
  "ck_fifo_spsc_enqueue_lock c fifo =
     (let (r, s) = ck_spinlock_fas_lock c (m_tail fifo) in (r, fifo\<lparr>m_tail := s\<rparr>))"

definition ck_fifo_spsc_enqueue_unlock :: "unit \<Rightarrow> 'v ck_fifo_spsc \<Rightarrow> (unit, unit) ctl \<times> 'v ck_fifo_spsc" where
  "ck_fifo_spsc_enqueue_unlock c fifo =
     (let (r, s) = ck_spinlock_fas_unlock c (m_tail fifo) in (r, fifo\<lparr>m_tail := s\<rparr>))"

definition ck_fifo_spsc_dequeue_trylock :: "unit \<Rightarrow> 'v ck_fifo_spsc \<Rightarrow> (unit, bool) ctl \<times> 'v ck_fifo_spsc" where
  "ck_fifo_spsc_dequeue_trylock c fifo =
     (let (r, s) = ck_spinlock_fas_trylock c (m_head fifo) in (r, fifo\<lparr>m_head := s\<rparr>))"

definition ck_fifo_spsc_dequeue_lock :: "fas_pc \<Rightarrow> 'v ck_fifo_spsc \<Rightarrow> (fas_pc, unit) ctl \<times> 'v ck_fifo_spsc" where
  "ck_fifo_spsc_dequeue_lock c fifo =
     (let (r, s) = ck_spinlock_fas_lock c (m_head fifo) in (r, fifo\<lparr>m_head := s\<rparr>))"

definition ck_fifo_spsc_dequeue_unlock :: "unit \<Rightarrow> 'v ck_fifo_spsc \<Rightarrow> (unit, unit) ctl \<times> 'v ck_fifo_spsc" where
  "ck_fifo_spsc_dequeue_unlock c fifo =
     (let (r, s) = ck_spinlock_fas_unlock c (m_head fifo) in (r, fifo\<lparr>m_head := s\<rparr>))"

definition ck_fifo_spsc_init :: "nat \<Rightarrow> 'v ck_fifo_spsc \<Rightarrow> 'v ck_fifo_spsc" where
  "ck_fifo_spsc_init stub fifo = fifo\<lparr>m_head := ck_spinlock_fas_init, m_tail := ck_spinlock_fas_init,
     nodes := (nodes fifo)(stub := (nodes fifo stub)\<lparr>fnext := 0\<rparr>),
     head := stub, tail := stub, head_snapshot := stub, garbage := stub\<rparr>"

text \<open>The garbage is the first node of the chain that the caller may release.\<close>

definition ck_fifo_spsc_deinit :: "'v ck_fifo_spsc \<Rightarrow> nat \<times> 'v ck_fifo_spsc" where
  "ck_fifo_spsc_deinit fifo = (head fifo, fifo\<lparr>head := 0, tail := 0\<rparr>)"

datatype enq_pc = EnqValue | EnqNext | EnqLink | EnqTail

fun ck_fifo_spsc_enqueue :: "nat \<Rightarrow> 'v \<Rightarrow> enq_pc \<Rightarrow> 'v ck_fifo_spsc \<Rightarrow> (enq_pc, unit) ctl \<times> 'v ck_fifo_spsc" where
  "ck_fifo_spsc_enqueue entry v EnqValue fifo =
     (Go EnqNext, fifo\<lparr>nodes := (nodes fifo)(entry := (nodes fifo entry)\<lparr>fvalue := v\<rparr>)\<rparr>)"
| "ck_fifo_spsc_enqueue entry v EnqNext fifo =
     (Go EnqLink, fifo\<lparr>nodes := (nodes fifo)(entry := (nodes fifo entry)\<lparr>fnext := 0\<rparr>)\<rparr>)"
| "ck_fifo_spsc_enqueue entry v EnqLink fifo =
     (Go EnqTail, fifo\<lparr>nodes := (nodes fifo)(tail fifo := (nodes fifo (tail fifo))\<lparr>fnext := entry\<rparr>)\<rparr>)"
| "ck_fifo_spsc_enqueue entry v EnqTail fifo = (Ret (), fifo\<lparr>tail := entry\<rparr>)"

datatype 'v deq_pc = DeqLoad | DeqValue nat | DeqHead nat 'v

fun ck_fifo_spsc_dequeue :: "'v deq_pc \<Rightarrow> 'v ck_fifo_spsc \<Rightarrow> ('v deq_pc, 'v option) ctl \<times> 'v ck_fifo_spsc" where
  "ck_fifo_spsc_dequeue DeqLoad fifo =
     (let entry = ck_pr_load (fnext (nodes fifo (head fifo)))
      in (if entry = 0 then Ret None else Go (DeqValue entry), fifo))"
| "ck_fifo_spsc_dequeue (DeqValue entry) fifo = (Go (DeqHead entry (fvalue (nodes fifo entry))), fifo)"
| "ck_fifo_spsc_dequeue (DeqHead entry v) fifo = (Ret (Some v), fifo\<lparr>head := ck_pr_store (head fifo) entry\<rparr>)"

datatype rec_pc = RecSnap | RecTake

fun ck_fifo_spsc_recycle :: "rec_pc \<Rightarrow> 'v ck_fifo_spsc \<Rightarrow> (rec_pc, nat) ctl \<times> 'v ck_fifo_spsc" where
  "ck_fifo_spsc_recycle RecSnap fifo =
     (if head_snapshot fifo = garbage fifo
      then let fifo' = fifo\<lparr>head_snapshot := ck_pr_load (head fifo)\<rparr>
           in (if head_snapshot fifo' = garbage fifo' then Ret 0 else Go RecTake, fifo')
      else (Go RecTake, fifo))"
| "ck_fifo_spsc_recycle RecTake fifo =
     (let g = garbage fifo in (Ret g, fifo\<lparr>garbage := fnext (nodes fifo g)\<rparr>))"

definition ck_fifo_spsc_isempty :: "'v ck_fifo_spsc \<Rightarrow> bool" where
  "ck_fifo_spsc_isempty fifo \<longleftrightarrow> ck_pr_load (fnext (nodes fifo (ck_pr_load (head fifo)))) = 0"

definition CK_FIFO_SPSC_ISEMPTY :: "'v ck_fifo_spsc \<Rightarrow> bool" where
  "CK_FIFO_SPSC_ISEMPTY fifo \<longleftrightarrow> fnext (nodes fifo (head fifo)) = 0"

definition CK_FIFO_SPSC_FIRST :: "'v ck_fifo_spsc \<Rightarrow> nat" where
  "CK_FIFO_SPSC_FIRST fifo = fnext (nodes fifo (head fifo))"

definition CK_FIFO_SPSC_NEXT :: "'v ck_fifo_spsc \<Rightarrow> nat \<Rightarrow> nat" where
  "CK_FIFO_SPSC_NEXT fifo m = fnext (nodes fifo m)"

definition CK_FIFO_SPSC_SPARE :: "'v ck_fifo_spsc \<Rightarrow> nat" where
  "CK_FIFO_SPSC_SPARE fifo = head fifo"

text \<open>The entries that the loop of \<open>CK_FIFO_SPSC_FOREACH\<close> visits from \<open>e\<close> on; \<open>None\<close> when it has not ended
  after \<open>n\<close> turns.\<close>

fun CK_FIFO_SPSC_FOREACH :: "nat \<Rightarrow> 'v ck_fifo_spsc \<Rightarrow> nat \<Rightarrow> nat list option" where
  "CK_FIFO_SPSC_FOREACH n fifo e =
     (if e = 0 then Some []
      else case n of 0 \<Rightarrow> None
        | Suc n' \<Rightarrow> map_option ((#) e) (CK_FIFO_SPSC_FOREACH n' fifo (CK_FIFO_SPSC_NEXT fifo e)))"

section \<open>Producers and consumers\<close>

text \<open>A producer takes the tail lock, asks for a node to recycle, brings a node of its own when there is
  none (one that was never given to the queue, of which \<open>given\<close> keeps account), enqueues and releases the
  lock. A consumer dequeues under the head lock. \<open>ins\<close> logs the values at the moment they become visible,
  \<open>outs\<close> those that consumers return with.\<close>

datatype 'v fifo_client =
  FIdle | ELock 'v fas_pc | ETry 'v | ERecycle 'v rec_pc | EOwn 'v | EEnq 'v nat enq_pc | EUnlock
  | DLock fas_pc | DTry | DDeq "'v deq_pc" | DUnlock "'v option"

datatype 'v fifo_choice = Produce 'v | TryProduce 'v | Consume | TryConsume | Bring nat

type_synonym 'v fifo_state = "'v ck_fifo_spsc \<times> nat list \<times> 'v list \<times> 'v list"

fun fifo_move :: "'v fifo_choice \<Rightarrow> nat \<Rightarrow> 'v fifo_client \<Rightarrow> 'v fifo_state \<Rightarrow> 'v fifo_client \<times> 'v fifo_state" where
  "fifo_move c t FIdle s =
     (case c of Produce v \<Rightarrow> (ELock v FasSwap, s) | TryProduce v \<Rightarrow> (ETry v, s)
      | Consume \<Rightarrow> (DLock FasSwap, s) | TryConsume \<Rightarrow> (DTry, s) | Bring _ \<Rightarrow> (FIdle, s))"
| "fifo_move c t (ELock v p) (m, s) =
     (case ck_fifo_spsc_enqueue_lock p m of
        (Go p', m') \<Rightarrow> (ELock v p', m', s) | (Ret _, m') \<Rightarrow> (ERecycle v RecSnap, m', s))"
| "fifo_move c t (ETry v) (m, s) =
     (case ck_fifo_spsc_enqueue_trylock () m of
        (Ret True, m') \<Rightarrow> (ERecycle v RecSnap, m', s) | (_, m') \<Rightarrow> (FIdle, m', s))"
| "fifo_move c t (ERecycle v p) (m, s) =
     (case ck_fifo_spsc_recycle p m of
        (Go p', m') \<Rightarrow> (ERecycle v p', m', s)
      | (Ret e, m') \<Rightarrow> (if e = 0 then EOwn v else EEnq v e EnqValue, m', s))"
| "fifo_move c t (EOwn v) (m, given, s) =
     (case c of Bring e \<Rightarrow> if e = 0 \<or> e \<in> set given then (EOwn v, m, given, s)
                           else (EEnq v e EnqValue, m, e # given, s)
      | _ \<Rightarrow> (EOwn v, m, given, s))"
| "fifo_move c t (EEnq v e p) (m, given, ins, outs) =
     (case ck_fifo_spsc_enqueue e v p m of
        (Go p', m') \<Rightarrow> (EEnq v e p', m', given, if p = EnqLink then ins @ [v] else ins, outs)
      | (Ret _, m') \<Rightarrow> (EUnlock, m', given, ins, outs))"
| "fifo_move c t EUnlock (m, s) = (FIdle, snd (ck_fifo_spsc_enqueue_unlock () m), s)"
| "fifo_move c t (DLock p) (m, s) =
     (case ck_fifo_spsc_dequeue_lock p m of
        (Go p', m') \<Rightarrow> (DLock p', m', s) | (Ret _, m') \<Rightarrow> (DDeq DeqLoad, m', s))"
| "fifo_move c t DTry (m, s) =
     (case ck_fifo_spsc_dequeue_trylock () m of
        (Ret True, m') \<Rightarrow> (DDeq DeqLoad, m', s) | (_, m') \<Rightarrow> (FIdle, m', s))"
| "fifo_move c t (DDeq p) (m, s) =
     (case ck_fifo_spsc_dequeue p m of
        (Go p', m') \<Rightarrow> (DDeq p', m', s) | (Ret r, m') \<Rightarrow> (DUnlock r, m', s))"
| "fifo_move c t (DUnlock r) (m, given, ins, outs) =
     (FIdle, snd (ck_fifo_spsc_dequeue_unlock () m), given, ins,
      case r of None \<Rightarrow> outs | Some v \<Rightarrow> outs @ [v])"

definition fifo_step :: "nat \<Rightarrow> 'v fifo_client \<Rightarrow> 'v fifo_state \<Rightarrow> 'v fifo_client \<Rightarrow> 'v fifo_state \<Rightarrow> bool" where
  "fifo_step t l s l' s' \<longleftrightarrow> (\<exists>c. fifo_move c t l s = (l', s'))"

section \<open>The chain\<close>

fun chain :: "(nat \<Rightarrow> 'v ck_fifo_spsc_entry) \<Rightarrow> nat list \<Rightarrow> bool" where
  "chain nd [] = True"
| "chain nd [x] = (fnext (nd x) = 0)"
| "chain nd (x # y # xs) = (fnext (nd x) = y \<and> chain nd (y # xs))"

lemma chain_frame: "chain nd xs \<Longrightarrow> \<forall>x\<in>set xs. fnext (nd' x) = fnext (nd x) \<Longrightarrow> chain nd' xs"
  by (induction nd xs rule: chain.induct) auto

lemma chain_Cons: "chain nd (x # xs) \<longleftrightarrow> fnext (nd x) = (case xs of [] \<Rightarrow> 0 | y # _ \<Rightarrow> y) \<and> chain nd xs"
  by (cases xs) auto

lemma chain_append: "chain nd (xs @ ys) \<Longrightarrow> chain nd ys"
  by (induction xs) (auto simp: chain_Cons)

lemma chain_link:
  "chain nd (xs @ [t]) \<Longrightarrow> distinct (xs @ [t, e]) \<Longrightarrow> fnext (nd e) = 0 \<Longrightarrow>
     chain (nd(t := (nd t)\<lparr>fnext := e\<rparr>)) (xs @ [t, e])"
proof (induction xs)
  case (Cons x xs)
  then show ?case by (cases xs) (auto simp: chain_Cons)
qed simp

lemma chain_foreach:
  "chain (nodes m) xs \<Longrightarrow> 0 \<notin> set xs \<Longrightarrow> length xs \<le> n \<Longrightarrow>
     CK_FIFO_SPSC_FOREACH n m (case xs of [] \<Rightarrow> 0 | x # _ \<Rightarrow> x) = Some xs"
proof (induction xs arbitrary: n)
  case (Cons x xs)
  then obtain n' where "n = Suc n'" by (cases n) auto
  with Cons show ?case by (auto simp: chain_Cons CK_FIFO_SPSC_NEXT_def)
qed simp

declare CK_FIFO_SPSC_FOREACH.simps [simp del]

section \<open>The invariant\<close>

text \<open>\<open>G\<close> are the nodes behind the head that producers may recycle, \<open>H\<close> the nodes from the head on.\<close>

definition shape :: "'v ck_fifo_spsc \<Rightarrow> nat list \<Rightarrow> nat list \<Rightarrow> bool" where
  "shape m G H \<longleftrightarrow> H \<noteq> [] \<and> distinct (G @ H) \<and> 0 \<notin> set (G @ H) \<and> chain (nodes m) (G @ H) \<and>
     head m = hd H \<and> garbage m = hd (G @ H) \<and> (\<exists>i\<le>length G. head_snapshot m = (G @ H) ! i)"

fun prod_in :: "'v fifo_client \<Rightarrow> bool" where
  "prod_in (ERecycle v p) = True" | "prod_in (EOwn v) = True" | "prod_in (EEnq v e p) = True"
| "prod_in EUnlock = True" | "prod_in _ = False"

fun cons_in :: "'v fifo_client \<Rightarrow> bool" where
  "cons_in (DDeq p) = True" | "cons_in (DUnlock r) = True" | "cons_in _ = False"

text \<open>A node in the hands of a producer is in no chain.\<close>

definition own :: "nat list \<Rightarrow> nat list \<Rightarrow> nat \<Rightarrow> bool" where
  "own given C e \<longleftrightarrow> e \<noteq> 0 \<and> e \<in> set given \<and> e \<notin> set C"

fun prod_ok :: "'v ck_fifo_spsc \<Rightarrow> nat list \<Rightarrow> nat list \<Rightarrow> 'v fifo_client \<Rightarrow> bool" where
  "prod_ok m given C (ERecycle v RecSnap) = (tail m = last C)"
| "prod_ok m given C (ERecycle v RecTake) = (tail m = last C \<and> head_snapshot m \<noteq> garbage m)"
| "prod_ok m given C (EOwn v) = (tail m = last C)"
| "prod_ok m given C (EEnq v e EnqValue) = (tail m = last C \<and> own given C e)"
| "prod_ok m given C (EEnq v e EnqNext) = (tail m = last C \<and> own given C e \<and> fvalue (nodes m e) = v)"
| "prod_ok m given C (EEnq v e EnqLink) = (tail m = last C \<and> own given C e \<and> fvalue (nodes m e) = v \<and> fnext (nodes m e) = 0)"
| "prod_ok m given C (EEnq v e EnqTail) = (e = last C)"
| "prod_ok m given C EUnlock = (tail m = last C)"
| "prod_ok m given C _ = True"

fun cons_ok :: "'v ck_fifo_spsc \<Rightarrow> nat list \<Rightarrow> 'v list \<Rightarrow> 'v fifo_client \<Rightarrow> bool" where
  "cons_ok m H pend (DDeq DeqLoad) = (pend = [])"
| "cons_ok m H pend (DDeq (DeqValue e)) = (pend = [] \<and> (\<exists>h H'. H = h # e # H'))"
| "cons_ok m H pend (DDeq (DeqHead e v)) = (pend = [] \<and> (\<exists>h H'. H = h # e # H') \<and> v = fvalue (nodes m e))"
| "cons_ok m H pend (DUnlock r) = (pend = (case r of None \<Rightarrow> [] | Some v \<Rightarrow> [v]))"
| "cons_ok m H pend _ = True"

definition held :: "ck_spinlock_fas \<Rightarrow> nat \<Rightarrow> bool" where
  "held s n \<longleftrightarrow> fas_value s = 0 \<and> n = 0 \<or> fas_value s = 1 \<and> n = 1"

definition fifo_ok :: "nat \<Rightarrow> (nat \<Rightarrow> 'v fifo_client) \<Rightarrow> 'v fifo_state \<Rightarrow> nat list \<Rightarrow> nat list \<Rightarrow> 'v list \<Rightarrow> bool" where
  "fifo_ok N ls s G H pend \<longleftrightarrow> (case s of (m, given, ins, outs) \<Rightarrow>
     held (m_tail m) (cnt N prod_in ls) \<and> held (m_head m) (cnt N cons_in ls) \<and>
     shape m G H \<and> set (G @ H) \<subseteq> set given \<and> ins = outs @ pend @ map (\<lambda>e. fvalue (nodes m e)) (tl H) \<and>
     (cnt N prod_in ls = 0 \<longrightarrow> tail m = last (G @ H)) \<and> (cnt N cons_in ls = 0 \<longrightarrow> pend = []) \<and>
     (\<forall>t<N. prod_ok m given (G @ H) (ls t) \<and> cons_ok m H pend (ls t)))"

definition fifo_inv :: "nat \<Rightarrow> (nat \<Rightarrow> 'v fifo_client) \<Rightarrow> 'v fifo_state \<Rightarrow> bool" where
  "fifo_inv N ls s \<longleftrightarrow> (\<exists>G H pend. fifo_ok N ls s G H pend)"

lemma held_alone:
  assumes "held s (cnt N P ls)" "t < N" "P (ls t)"
  shows "cnt N P ls = 1" "fas_value s = 1" "j < N \<Longrightarrow> j \<noteq> t \<Longrightarrow> \<not> P (ls j)"
proof -
  show "cnt N P ls = 1" using assms cnt_pos [of t N P ls] by (auto simp: held_def)
  then show "fas_value s = 1" "j < N \<Longrightarrow> j \<noteq> t \<Longrightarrow> \<not> P (ls j)"
    using assms cnt_le1 [of N P ls j t] by (auto simp: held_def)
qed

lemma not_in_ok:
  "\<not> prod_in l \<Longrightarrow> prod_ok m given C l" "\<not> cons_in l \<Longrightarrow> cons_ok m H pend l"
  by (cases l; simp)+

text \<open>Each side keeps what the other relies on.\<close>

lemma cons_frame:
  assumes "cons_ok m H pend l" "\<forall>x\<in>set H. fvalue (nodes m' x) = fvalue (nodes m x)"
  shows "cons_ok m' (H @ X) pend l"
  using assms by (cases "(m, H, pend, l)" rule: cons_ok.cases) auto

lemma prod_frame:
  assumes "prod_ok m given C l" "tail m' = tail m" "head_snapshot m' = head_snapshot m" "garbage m' = garbage m"
    "nodes m' = nodes m"
  shows "prod_ok m' given C l"
  using assms by (cases "(m, given, C, l)" rule: prod_ok.cases) auto

text \<open>A step inside one lock: the rest of the threads is told only what the frames say.\<close>

lemma fifo_prod_step:
  assumes ok: "fifo_ok N ls (m, given, ins, outs) G H pend" and t: "t < N" "prod_in (ls t)" "prod_in l'"
    and m': "m_tail m' = m_tail m" "m_head m' = m_head m" and sh: "shape m' G' (H @ X)"
    and g: "set (G' @ H @ X) \<subseteq> set given'" and ins: "ins' = ins @ map (\<lambda>e. fvalue (nodes m' e)) X"
    and l: "prod_ok m' given' (G' @ H @ X) l'"
    and v: "\<forall>x\<in>set H. fvalue (nodes m' x) = fvalue (nodes m x)"
  shows "fifo_ok N (ls(t := l')) (m', given', ins', outs) G' (H @ X) pend"
proof -
  note o = ok [unfolded fifo_ok_def prod.case]
  have H: "H \<noteq> []" using o by (simp add: shape_def)
  have h: "held (m_tail m) (cnt N prod_in ls)" using o by blast
  note a = held_alone(3) [of _ _ prod_in, OF h t(1,2)]
  have c: "\<not> cons_in l'" "\<not> cons_in (ls t)" using t(2,3) by (cases l'; cases "ls t"; simp)+
  have "map (\<lambda>e. fvalue (nodes m' e)) (tl H) = map (\<lambda>e. fvalue (nodes m e)) (tl H)"
    using v list.set_sel(2) [OF H] by auto
  moreover have "cons_ok m' (H @ X) pend ((ls(t := l')) j)" if "j < N" for j
    using o that c cons_frame [OF _ v, of pend _ X] not_in_ok(2) by auto
  moreover have "prod_ok m' given' (G' @ H @ X) ((ls(t := l')) j)" if "j < N" for j
    using l a [OF that] not_in_ok(1) [of "ls j"] by (cases "j = t") auto
  moreover have "cnt N prod_in (ls(t := l')) = cnt N prod_in ls" "cnt N cons_in (ls(t := l')) = cnt N cons_in ls"
    using t c by simp_all
  ultimately show ?thesis
    using o m' sh g ins H held_alone(1) [of _ _ prod_in, OF h t(1,2)] unfolding fifo_ok_def prod.case by auto
qed

lemma fifo_cons_step:
  assumes ok: "fifo_ok N ls (m, given, ins, outs) G H pend" and t: "t < N" "cons_in (ls t)" "cons_in l'"
    and m': "m' = m\<lparr>head := h'\<rparr>" and sh: "shape m' G' H'" and e: "G' @ H' = G @ H"
    and ins: "pend @ map (\<lambda>e. fvalue (nodes m e)) (tl H) = pend' @ map (\<lambda>e. fvalue (nodes m e)) (tl H')"
    and l: "cons_ok m' H' pend' l'"
  shows "fifo_ok N (ls(t := l')) (m', given, ins, outs) G' H' pend'"
proof -
  note o = ok [unfolded fifo_ok_def prod.case]
  have h: "held (m_head m) (cnt N cons_in ls)" using o by blast
  note a = held_alone(3) [of _ _ cons_in, OF h t(1,2)]
  have c: "\<not> prod_in l'" "\<not> prod_in (ls t)" using t(2,3) by (cases l'; cases "ls t"; simp)+
  have "prod_ok m' given (G' @ H') ((ls(t := l')) j)" if "j < N" for j
    using o that c e not_in_ok(1) prod_frame [of m given "G @ H" _ m'] m' by auto
  moreover have "cons_ok m' H' pend' ((ls(t := l')) j)" if "j < N" for j
    using l a [OF that] not_in_ok(2) [of "ls j"] by (cases "j = t") auto
  moreover have "cnt N prod_in (ls(t := l')) = cnt N prod_in ls" "cnt N cons_in (ls(t := l')) = cnt N cons_in ls"
    using t c by simp_all
  ultimately show ?thesis
    using o m' sh e ins held_alone(1) [of _ _ cons_in, OF h t(1,2)] unfolding fifo_ok_def prod.case by auto
qed

text \<open>Taking and releasing the locks.\<close>

lemma fas_held:
  assumes "held s n"
  shows "ck_spinlock_fas_lock p s = (Go p', s') \<Longrightarrow> s' = s"
    "ck_spinlock_fas_lock p s = (Ret u, s') \<Longrightarrow> n = 0 \<and> held s' 1"
    "ck_spinlock_fas_trylock () s = (Go u', s') \<Longrightarrow> False"
    "ck_spinlock_fas_trylock () s = (Ret True, s') \<Longrightarrow> n = 0 \<and> held s' 1"
    "ck_spinlock_fas_trylock () s = (Ret False, s') \<Longrightarrow> s' = s"
    "held (snd (ck_spinlock_fas_unlock () s)) 0"
proof -
  have *: "ck_spinlock_fas_lock p s = (Go p', s') \<Longrightarrow> s' = s"
    "ck_spinlock_fas_lock p s = (Ret u, s') \<Longrightarrow> n = 0 \<and> held s' 1"
    using assms by (cases p; auto simp: held_def pr_simps split: if_splits)+
  show "ck_spinlock_fas_lock p s = (Go p', s') \<Longrightarrow> s' = s"
    "ck_spinlock_fas_lock p s = (Ret u, s') \<Longrightarrow> n = 0 \<and> held s' 1" by (fact *)+
qed (use assms in \<open>auto simp: held_def pr_simps ck_spinlock_fas_trylock_def ck_spinlock_fas_unlock_def\<close>)

lemma fifo_neutral:
  assumes "fifo_ok N ls s G H pend" "t < N" "\<not> prod_in (ls t)" "\<not> cons_in (ls t)" "\<not> prod_in l'" "\<not> cons_in l'"
  shows "fifo_ok N (ls(t := l')) s G H pend"
  using assms not_in_ok by (auto simp: fifo_ok_def)

lemma fifo_tail_change:
  assumes "fifo_ok N ls (m, g) G H pend" "t < N" "\<not> cons_in (ls t)" "\<not> cons_in l'"
    and "held s' (cnt N prod_in (ls(t := l')))" "prod_ok m (fst g) (G @ H) l'" "tail m = last (G @ H)"
  shows "fifo_ok N (ls(t := l')) (m\<lparr>m_tail := s'\<rparr>, g) G H pend"
proof -
  have p: "prod_ok (m\<lparr>m_tail := s'\<rparr>) given C l = prod_ok m given C l" for given C l
    by (rule iffI) (auto elim!: prod_frame)
  have c: "cons_ok (m\<lparr>m_tail := s'\<rparr>) H pend l = cons_ok m H pend l" for l
    using cons_frame [of m H pend l "m\<lparr>m_tail := s'\<rparr>" "[]"] cons_frame [of "m\<lparr>m_tail := s'\<rparr>" H pend l m "[]"] by auto
  have "shape (m\<lparr>m_tail := s'\<rparr>) G H = shape m G H" by (simp add: shape_def)
  with assms p c not_in_ok(2) show ?thesis by (cases g) (auto simp: fifo_ok_def)
qed

lemma fifo_head_change:
  assumes "fifo_ok N ls (m, given, ins, outs) G H pend" "t < N" "\<not> prod_in (ls t)" "\<not> prod_in l'"
    and "held s' (cnt N cons_in (ls(t := l')))"
    and "outs' @ pend' = outs @ pend" "\<And>j. j < N \<Longrightarrow> cons_ok m H pend' ((ls(t := l')) j)"
    and "cnt N cons_in (ls(t := l')) = 0 \<longrightarrow> pend' = []"
  shows "fifo_ok N (ls(t := l')) (m\<lparr>m_head := s'\<rparr>, given, ins, outs') G H pend'"
proof -
  have p: "prod_ok (m\<lparr>m_head := s'\<rparr>) given C l = prod_ok m given C l" for given C l
    by (rule iffI) (auto elim!: prod_frame)
  have c: "cons_ok (m\<lparr>m_head := s'\<rparr>) H pend' l = cons_ok m H pend' l" for l
    using cons_frame [of m H pend' l "m\<lparr>m_head := s'\<rparr>" "[]"] cons_frame [of "m\<lparr>m_head := s'\<rparr>" H pend' l m "[]"] by auto
  have sh: "shape (m\<lparr>m_head := s'\<rparr>) G H = shape m G H" by (simp add: shape_def)
  have "outs' @ pend' @ xs = outs @ pend @ xs" for xs using assms(6) by (metis append.assoc)
  with assms p c sh not_in_ok(1) show ?thesis by (auto simp: fifo_ok_def)
qed

lemma fifo_okD:
  assumes "fifo_ok N ls (m, given, ins, outs) G H pend"
  shows "shape m G H" "set (G @ H) \<subseteq> set given" "t < N \<Longrightarrow> prod_ok m given (G @ H) (ls t)"
    "t < N \<Longrightarrow> cons_ok m H pend (ls t)" "held (m_tail m) (cnt N prod_in ls)" "held (m_head m) (cnt N cons_in ls)"
    "cnt N prod_in ls = 0 \<Longrightarrow> tail m = last (G @ H)" "cnt N cons_in ls = 0 \<Longrightarrow> pend = []"
    "ins = outs @ pend @ map (\<lambda>e. fvalue (nodes m e)) (tl H)"
  using assms by (auto simp: fifo_ok_def)

text \<open>The producer's steps.\<close>

lemma recycle_ok:
  assumes ok: "fifo_ok N ls (m, given, ins, outs) G H pend" and t: "t < N" "ls t = ERecycle v p"
    and r: "ck_fifo_spsc_recycle p m = (r, m')"
    and l': "l' = (case r of Go p' \<Rightarrow> ERecycle v p' | Ret e \<Rightarrow> if e = 0 then EOwn v else EEnq v e EnqValue)"
  shows "\<exists>G'. fifo_ok N (ls(t := l')) (m', given, ins, outs) G' H pend"
proof -
  note sh = fifo_okD(1) [OF ok, unfolded shape_def]
  have p: "prod_ok m given (G @ H) (ERecycle v p)" using fifo_okD(3) [OF ok t(1)] t(2) by simp
  have n: "(G @ H) ! length G = head m" using sh by (simp add: nth_append hd_conv_nth)
  show ?thesis
  proof (cases p)
    case RecSnap
    then have "m' = m \<or> m' = m\<lparr>head_snapshot := head m\<rparr>" "prod_ok m' given (G @ H) l'" "prod_in l'"
      using r p l' by (auto simp: pr_simps Let_def split: if_splits)
    moreover from this(1) have "shape m' G H" using sh n unfolding shape_def by fastforce
    ultimately show ?thesis
      using fifo_prod_step [OF ok t(1), of l' m' G "[]" given ins] t fifo_okD(2) [OF ok] by auto
  next
    case RecTake
    then have ne: "head_snapshot m \<noteq> garbage m" and tl: "tail m = last (G @ H)" using p by auto
    obtain i where i: "i \<le> length G" "head_snapshot m = (G @ H) ! i" using sh by blast
    have "i \<noteq> 0" using ne i sh by (intro notI) (simp add: hd_conv_nth)
    then obtain g G' j where g: "G = g # G'" "i = Suc j" using i by (cases G; cases i) auto
    obtain h H' where H: "H = h # H'" using sh by (cases H) auto
    have m': "m' = m\<lparr>garbage := hd (G' @ H)\<rparr>" "r = Ret g"
      using r RecTake sh g H by (cases G'; auto simp: Let_def chain_Cons)+
    then have "shape m' G' H" using sh g i by (auto simp: shape_def chain_Cons)
    moreover have "l' = EEnq v g EnqValue" using l' m' sh g by auto
    moreover have "own given (G' @ H) g" using sh g fifo_okD(2) [OF ok] by (auto simp: own_def)
    ultimately show ?thesis
      using fifo_prod_step [OF ok t(1), of l' m' G' "[]" given ins] t fifo_okD(2) [OF ok] m' g tl H by auto
  qed
qed

lemma own_node_ok:
  assumes "shape m G H" "e \<notin> set (G @ H)"
  shows "shape (m\<lparr>nodes := (nodes m)(e := x)\<rparr>) G H"
  using assms chain_frame [of "nodes m" "G @ H" "(nodes m)(e := x)"] by (auto simp: shape_def)

lemma append_front:
  "H \<noteq> [] \<Longrightarrow> hd (G @ H @ X) = hd (G @ H)" "H \<noteq> [] \<Longrightarrow> i \<le> length G \<Longrightarrow> (G @ H @ X) ! i = (G @ H) ! i"
proof -
  show "H \<noteq> [] \<Longrightarrow> hd (G @ H @ X) = hd (G @ H)" by (cases G) auto
  assume "H \<noteq> []" "i \<le> length G"
  then have "i < length (G @ H)" by (cases H) auto
  then show "(G @ H @ X) ! i = (G @ H) ! i" by (metis append.assoc nth_append_left)
qed

lemma enqueue_ok:
  assumes ok: "fifo_ok N ls (m, given, ins, outs) G H pend" and t: "t < N" "ls t = EEnq v e p"
    and r: "ck_fifo_spsc_enqueue e v p m = (r, m')"
    and l': "l' = (case r of Go p' \<Rightarrow> EEnq v e p' | Ret _ \<Rightarrow> EUnlock)"
  shows "\<exists>X. fifo_ok N (ls(t := l')) (m', given, if p = EnqLink then ins @ [v] else ins, outs) G (H @ X) pend"
proof (cases "p = EnqLink")
  case False
  note sh = fifo_okD(1) [OF ok]
  have k: "prod_ok m given (G @ H) (EEnq v e p)" using fifo_okD(3) [OF ok t(1)] t(2) by simp
  have "shape m' G H"
    using False r k sh own_node_ok [OF sh, of e] by (cases p) (auto simp: own_def shape_def)
  moreover have "prod_ok m' given (G @ H) l'" "\<forall>x\<in>set H. fvalue (nodes m' x) = fvalue (nodes m x)"
      "m_tail m' = m_tail m" "m_head m' = m_head m" "prod_in l'"
    using False r k l' by (cases p; auto simp: own_def)+
  ultimately show ?thesis
    using fifo_prod_step [OF ok t(1), of l' m' G "[]" given ins] t fifo_okD(2) [OF ok] False
    by (intro exI [of _ "[]"]) auto
next
  case True
  note sh = fifo_okD(1) [OF ok, unfolded shape_def]
  have k: "tail m = last (G @ H)" "own given (G @ H) e" "fvalue (nodes m e) = v" "fnext (nodes m e) = 0"
    using fifo_okD(3) [OF ok t(1)] t(2) True by auto
  define u where "u = last (G @ H)"
  obtain C where C: "G @ H = C @ [u]" using sh append_butlast_last_id [of "G @ H"] by (metis append_is_Nil_conv u_def)
  have m': "m' = m\<lparr>nodes := (nodes m)(u := (nodes m u)\<lparr>fnext := e\<rparr>)\<rparr>" "l' = EEnq v e EnqTail"
    using r l' True k by (auto simp: u_def)
  have eu: "e \<noteq> u" using k(2) C by (auto simp: own_def)
  have "chain (nodes m') (C @ [u, e])"
    using chain_link [of "nodes m" C u e] sh C k eu by (auto simp: m' own_def)
  moreover have "C @ [u, e] = G @ H @ [e]" using C by simp
  moreover obtain i where "i \<le> length G" "head_snapshot m = (G @ H) ! i" using sh by blast
  moreover have "hd (G @ H @ [e]) = hd (G @ H)" "(G @ H @ [e]) ! i = (G @ H) ! i"
    using conjunct1 [OF sh] \<open>i \<le> length G\<close> by (simp_all add: append_front)
  ultimately have "shape m' G (H @ [e])"
    using sh k(2) m' by (auto simp: shape_def own_def intro!: exI [of _ i])
  moreover have "fvalue (nodes m' x) = fvalue (nodes m x)" for x using m' by simp
  ultimately show ?thesis
    using fifo_prod_step [OF ok t(1), of l' m' G "[e]" given "ins @ [v]"] t fifo_okD(2) [OF ok] True k m'
    by (intro exI [of _ "[e]"]) (auto simp: own_def)
qed

text \<open>The consumer's steps.\<close>

lemma dequeue_ok:
  assumes ok: "fifo_ok N ls (m, given, ins, outs) G H pend" and t: "t < N" "ls t = DDeq p"
    and r: "ck_fifo_spsc_dequeue p m = (r, m')"
    and l': "l' = (case r of Go p' \<Rightarrow> DDeq p' | Ret r \<Rightarrow> DUnlock r)"
  shows "\<exists>G' H' pend'. fifo_ok N (ls(t := l')) (m', given, ins, outs) G' H' pend'"
proof -
  note sh = fifo_okD(1) [OF ok, unfolded shape_def]
  have k: "cons_ok m H pend (DDeq p)" using fifo_okD(4) [OF ok t(1)] t(2) by simp
  obtain h H1 where H: "H = h # H1" using sh by (cases H) auto
  show ?thesis
  proof (cases p)
    case DeqLoad
    have "fnext (nodes m h) = (case H1 of [] \<Rightarrow> 0 | y # _ \<Rightarrow> y)"
      using chain_append [of "nodes m" G H] sh H by (simp add: chain_Cons)
    then have "cons_ok m H pend l'" "m' = m" "cons_in l'"
      using r l' k DeqLoad sh H by (auto simp: pr_simps Let_def split: if_splits list.splits)
    then show ?thesis
      using fifo_cons_step [OF ok t(1), of l' m' "head m" G H pend] t fifo_okD(1) [OF ok] by auto
  next
    case (DeqValue e)
    then have "cons_ok m H pend l'" "m' = m" "cons_in l'" using r l' k by auto
    then show ?thesis
      using fifo_cons_step [OF ok t(1), of l' m' "head m" G H pend] t fifo_okD(1) [OF ok] by auto
  next
    case (DeqHead e v)
    then obtain h H' where H: "H = h # e # H'" "v = fvalue (nodes m e)" "pend = []" using k by auto
    have m': "m' = m\<lparr>head := e\<rparr>" "l' = DUnlock (Some v)" using r l' DeqHead by (auto simp: pr_simps)
    have "shape m' (G @ [h]) (e # H')"
      using sh H m' by (auto simp: shape_def intro: le_SucI)
    then show ?thesis
      using fifo_cons_step [OF ok t(1), of l' m' e "G @ [h]" "e # H'" "[v]"] t H m' by auto
  qed
qed

section \<open>First in, first out\<close>

lemma fifo_invI: "fifo_ok N ls s G H pend \<Longrightarrow> fifo_inv N ls s"
  by (auto simp: fifo_inv_def)

text \<open>Taking and releasing the locks, with what the threads inside then know.\<close>

lemma enter_tail:
  assumes ok: "fifo_ok N ls (m, g) G H pend" and t: "t < N" "\<not> prod_in (ls t)" "\<not> cons_in (ls t)"
    and q: "cnt N prod_in ls = 0 \<and> held q 1"
  shows "fifo_inv N (ls(t := ERecycle v RecSnap)) (m\<lparr>m_tail := q\<rparr>, g)"
proof -
  have "tail m = last (G @ H)" using ok q by (cases g) (auto simp: fifo_ok_def)
  then show ?thesis using q t by (intro fifo_invI [OF fifo_tail_change [OF ok t(1,3)]]) auto
qed

lemma leave_tail:
  assumes ok: "fifo_ok N ls (m, given, ins, outs) G H pend" and t: "t < N" "ls t = EUnlock" and q: "held q 0"
  shows "fifo_inv N (ls(t := FIdle)) (m\<lparr>m_tail := q\<rparr>, given, ins, outs)"
proof -
  have "cnt N prod_in ls = 1" using held_alone(1) [of _ _ prod_in, OF fifo_okD(5) [OF ok] t(1)] t(2) by simp
  then show ?thesis using q t fifo_okD(3) [OF ok t(1)]
    by (intro fifo_invI [OF fifo_tail_change [OF ok t(1)]]) auto
qed

lemma enter_head:
  assumes ok: "fifo_ok N ls (m, given, ins, outs) G H pend" and t: "t < N" "\<not> prod_in (ls t)" "\<not> cons_in (ls t)"
    and q: "cnt N cons_in ls = 0 \<and> held q 1"
  shows "fifo_inv N (ls(t := DDeq DeqLoad)) (m\<lparr>m_head := q\<rparr>, given, ins, outs)"
  using q t fifo_okD(4) [OF ok] fifo_okD(8) [OF ok]
  by (intro fifo_invI [OF fifo_head_change [OF ok t(1,2), where pend' = pend]]) auto

lemma leave_head:
  assumes ok: "fifo_ok N ls (m, given, ins, outs) G H pend" and t: "t < N" "ls t = DUnlock r" and q: "held q 0"
  shows "fifo_inv N (ls(t := FIdle)) (m\<lparr>m_head := q\<rparr>, given, ins, case r of None \<Rightarrow> outs | Some v \<Rightarrow> outs @ [v])"
proof -
  note a = held_alone [of _ _ cons_in, OF fifo_okD(6) [OF ok] t(1)]
  have "cons_ok m H [] ((ls(t := FIdle)) j)" if "j < N" for j
    using a(3) [of j] that t(2) not_in_ok(2) [of "ls j"] by (cases "j = t") auto
  moreover have "pend = (case r of None \<Rightarrow> [] | Some v \<Rightarrow> [v])" using fifo_okD(4) [OF ok t(1)] t(2) by simp
  ultimately show ?thesis using q t a(1)
    by (intro fifo_invI [OF fifo_head_change [OF ok t(1), where pend' = "[]"]]) (auto split: option.splits)
qed

lemmas fifo_lock_defs = ck_fifo_spsc_enqueue_lock_def ck_fifo_spsc_enqueue_trylock_def ck_fifo_spsc_enqueue_unlock_def
  ck_fifo_spsc_dequeue_lock_def ck_fifo_spsc_dequeue_trylock_def ck_fifo_spsc_dequeue_unlock_def

lemma fifo_inv_step:
  assumes i: "fifo_inv N ls s" and t: "t < N" and st: "fifo_step t (ls t) s l' s'"
  shows "fifo_inv N (ls(t := l')) s'"
proof -
  obtain m given ins outs where s: "s = (m, given, ins, outs)" by (cases s) auto
  obtain G H pend where ok: "fifo_ok N ls (m, given, ins, outs) G H pend" using i s by (auto simp: fifo_inv_def)
  obtain c where mv: "fifo_move c t (ls t) (m, given, ins, outs) = (l', s')" using st s by (auto simp: fifo_step_def)
  note tl = fas_held [OF fifo_okD(5) [OF ok]] and hd = fas_held [OF fifo_okD(6) [OF ok]]
  note n = fifo_invI [OF fifo_neutral [OF ok t]]
  show ?thesis
  proof (cases "ls t")
    case FIdle
    then show ?thesis using mv n by (auto split: fifo_choice.splits)
  next
    case (ELock v p)
    then show ?thesis using mv n enter_tail [OF ok t] tl(1,2) [of p]
      by (fastforce simp: fifo_lock_defs split: prod.splits ctl.splits)
  next
    case (ETry v)
    then show ?thesis using mv n enter_tail [OF ok t] tl(3-5)
      by (fastforce simp: fifo_lock_defs split: prod.splits ctl.splits bool.splits)
  next
    case (ERecycle v p)
    obtain r m' where r: "ck_fifo_spsc_recycle p m = (r, m')" by fastforce
    have "l' = (case r of Go p' \<Rightarrow> ERecycle v p' | Ret e \<Rightarrow> if e = 0 then EOwn v else EEnq v e EnqValue)"
        "s' = (m', given, ins, outs)" using mv r ERecycle by (auto split: ctl.splits)
    then show ?thesis using recycle_ok [OF ok t ERecycle r] by (auto simp: fifo_inv_def)
  next
    case (EOwn v)
    then have "l' = EOwn v \<and> s' = (m, given, ins, outs) \<or>
        (\<exists>e. e \<noteq> 0 \<and> e \<notin> set given \<and> l' = EEnq v e EnqValue \<and> s' = (m, e # given, ins, outs))"
      using mv by (auto split: fifo_choice.splits if_splits)
    then obtain e given' where "l' = EOwn v \<and> given' = given \<or>
        e \<noteq> 0 \<and> e \<notin> set given \<and> l' = EEnq v e EnqValue \<and> given' = e # given" "s' = (m, given', ins, outs)" by blast
    then show ?thesis
      using fifo_invI [OF fifo_prod_step [OF ok t, of l' m G "[]" given' ins]] EOwn fifo_okD(1-3) [OF ok] t
      by (fastforce simp: own_def)
  next
    case (EEnq v e p)
    obtain r m' where r: "ck_fifo_spsc_enqueue e v p m = (r, m')" by fastforce
    have "l' = (case r of Go p' \<Rightarrow> EEnq v e p' | Ret _ \<Rightarrow> EUnlock)"
        "s' = (m', given, if p = EnqLink then ins @ [v] else ins, outs)"
      using mv r EEnq by (auto split: ctl.splits)
    then show ?thesis using enqueue_ok [OF ok t EEnq r] fifo_invI by metis
  next
    case EUnlock
    then show ?thesis using mv leave_tail [OF ok t] tl(6) by (auto simp: fifo_lock_defs split: prod.splits)
  next
    case (DLock p)
    then show ?thesis using mv n enter_head [OF ok t] hd(1,2) [of p]
      by (fastforce simp: fifo_lock_defs split: prod.splits ctl.splits)
  next
    case DTry
    then show ?thesis using mv n enter_head [OF ok t] hd(3-5)
      by (fastforce simp: fifo_lock_defs split: prod.splits ctl.splits bool.splits)
  next
    case (DDeq p)
    obtain r m' where r: "ck_fifo_spsc_dequeue p m = (r, m')" by fastforce
    have "l' = (case r of Go p' \<Rightarrow> DDeq p' | Ret r \<Rightarrow> DUnlock r)" "s' = (m', given, ins, outs)"
      using mv r DDeq by (auto split: ctl.splits)
    then show ?thesis using dequeue_ok [OF ok t DDeq r] by (auto simp: fifo_inv_def)
  next
    case (DUnlock r)
    then show ?thesis using mv leave_head [OF ok t] hd(6) by (auto simp: fifo_lock_defs split: prod.splits)
  qed
qed

lemma fifo_inv_start: "stub \<noteq> 0 \<Longrightarrow> fifo_inv N (\<lambda>_. FIdle) (ck_fifo_spsc_init stub m, [stub], [], [])"
  by (rule fifo_invI [of _ _ _ "[]" "[stub]" "[]"])
     (simp add: fifo_ok_def shape_def ck_fifo_spsc_init_def ck_spinlock_fas_init_def held_def cnt_0)

interpretation fifo: interleaving fifo_step "\<lambda>_. FIdle" "(ck_fifo_spsc_init stub m, [stub], [], [])" "\<lambda>_. stub \<noteq> 0"
  fifo_inv for stub m
  by unfold_locales (blast intro: fifo_inv_start fifo_inv_step)+

lemma fifo_walk:
  assumes "fifo_ok N ls (m, given, ins, outs) G H pend"
  shows "CK_FIFO_SPSC_FOREACH (Suc (length ins)) m (head m) = Some H"
    "CK_FIFO_SPSC_FOREACH (length ins) m (CK_FIFO_SPSC_FIRST m) = Some (tl H)"
proof -
  note sh = fifo_okD(1) [OF assms, unfolded shape_def]
  obtain h H' where H: "H = h # H'" using sh by (cases H) auto
  have c: "chain (nodes m) (h # H')" using chain_append [of "nodes m" G H] sh H by simp
  have n: "length H' \<le> length ins" using fifo_okD(9) [OF assms] H by simp
  show "CK_FIFO_SPSC_FOREACH (Suc (length ins)) m (head m) = Some H"
    using chain_foreach [OF c, of "Suc (length ins)"] sh H n by simp
  show "CK_FIFO_SPSC_FOREACH (length ins) m (CK_FIFO_SPSC_FIRST m) = Some (tl H)"
    using chain_foreach [of m H' "length ins"] c sh H n by (simp add: chain_Cons CK_FIFO_SPSC_FIRST_def)
qed

text \<open>Claim C4: any number of producers and consumers share the queue through its two locks, in any
  interleaving, recycling the nodes that were left behind. The values that consumers returned, in the order
  of their returns, are the first of the values that producers made visible; and when no operation is
  under way, the rest are the values that \<open>CK_FIFO_SPSC_FOREACH\<close> visits, in this order.\<close>

theorem fifo_order:
  assumes "reachable fifo_step N (\<lambda>_. FIdle) (ck_fifo_spsc_init stub m0, [stub], [], []) ls (m, given, ins, outs)"
    and "stub \<noteq> 0"
  shows "prefix outs ins \<and>
    ((\<forall>t<N. ls t = FIdle) \<longrightarrow>
      (\<exists>es. CK_FIFO_SPSC_FOREACH (length ins) m (CK_FIFO_SPSC_FIRST m) = Some es \<and>
        ins = outs @ map (\<lambda>e. fvalue (nodes m e)) es))"
proof -
  obtain G H pend where ok: "fifo_ok N ls (m, given, ins, outs) G H pend"
    using fifo.reachable_inv [OF assms] by (auto simp: fifo_inv_def)
  have "pend = []" if "\<forall>t<N. ls t = FIdle" using fifo_okD(8) [OF ok] that by (auto simp: cnt_0)
  then show ?thesis using fifo_okD(9) [OF ok] fifo_walk(2) [OF ok] by auto
qed

text \<open>Two values go through three nodes: the stub, a node the producer brought, and the stub again, recycled
  for the second value.\<close>

definition fifo_mem0 :: "nat ck_fifo_spsc" where
  "fifo_mem0 = \<lparr>m_head = \<lparr>fas_value = 0\<rparr>, head = 0, m_tail = \<lparr>fas_value = 0\<rparr>, tail = 0, head_snapshot = 0,
     garbage = 0, nodes = \<lambda>_. \<lparr>fvalue = 0, fnext = 0\<rparr>\<rparr>"

definition fifo_run :: "(nat \<times> nat fifo_choice) list \<Rightarrow> (nat \<Rightarrow> nat fifo_client) \<times> nat fifo_state" where
  "fifo_run sch = move_run fifo_move sch (\<lambda>_. FIdle, ck_fifo_spsc_init 1 fifo_mem0, [1], [], [])"

lemma fifo_run_reachable:
  assumes "list_all (\<lambda>(t, c). t < N) sch" "snd (snd (fifo_run sch)) = x"
  shows "reachable fifo_step N (\<lambda>_. FIdle) (ck_fifo_spsc_init 1 fifo_mem0, [1], [], []) (fst (fifo_run sch))
    (fst (snd (fifo_run sch)), x)"
proof -
  have "reachable fifo_step N (\<lambda>_. FIdle) (ck_fifo_spsc_init 1 fifo_mem0, [1], [], []) (fst (fifo_run sch)) (snd (fifo_run sch))"
    unfolding fifo_run_def by (rule move_run_reachable [OF _ assms(1) reachable.start]) (auto simp: fifo_step_def)
  then show ?thesis using assms(2) by (metis prod.collapse)
qed

definition fifo_ex :: "(nat \<times> nat fifo_choice) list" where
  "fifo_ex = [(0, Produce 7)] @ replicate 3 (0, Bring 2) @ replicate 5 (0, Consume) @
     replicate 6 (1, Consume) @ [(0, Produce 8)] @ replicate 8 (0, Consume) @
     [(2, TryProduce 9), (2, Consume), (2, Consume), (2, Bring 3)] @ replicate 5 (2, Consume)"

lemma fifo_ex_run:
  "list_all (\<lambda>(t, c). t < 3) fifo_ex" "snd (snd (fifo_run fifo_ex)) = ([3, 2, 1], [7, 8, 9], [7])"
  "map (fst (fifo_run fifo_ex)) [0, 1, 2] = [FIdle, FIdle, FIdle]"
  by code_simp+

theorem fifo_order_witness:
  "let m = fst (snd (fifo_run fifo_ex)) in prefix [7] [7, 8, 9 :: nat] \<and>
    (\<exists>es. CK_FIFO_SPSC_FOREACH 3 m (CK_FIFO_SPSC_FIRST m) = Some es \<and>
      [7, 8, 9] = [7] @ map (\<lambda>e. fvalue (nodes m e)) es)"
proof -
  have "\<forall>t<3. fst (fifo_run fifo_ex) t = FIdle" using fifo_ex_run(3) by (auto simp: numeral_eq_Suc less_Suc_eq)
  then show ?thesis
    using fifo_order [OF fifo_run_reachable [OF fifo_ex_run(1,2)]] by (simp add: Let_def numeral_3_eq_3)
qed

text \<open>Claim C13: the recycling is safe. A node that a producer has been given and has not yet linked is none of
  the nodes that a consumer can reach from the head, so filling it disturbs no consumer.\<close>

theorem fifo_no_reuse:
  assumes "reachable fifo_step N (\<lambda>_. FIdle) (ck_fifo_spsc_init stub m0, [stub], [], []) ls (m, given, ins, outs)"
    and "stub \<noteq> 0" and "i < N" and "ls i = EEnq v e p" and "p \<noteq> EnqTail"
  shows "\<exists>es. CK_FIFO_SPSC_FOREACH (Suc (length ins)) m (head m) = Some es \<and> e \<noteq> 0 \<and> e \<notin> set es \<and>
    (\<forall>j<N. \<forall>e' v'. ls j = DDeq (DeqValue e') \<or> ls j = DDeq (DeqHead e' v') \<longrightarrow> e' \<in> set es)"
proof -
  obtain G H pend where ok: "fifo_ok N ls (m, given, ins, outs) G H pend"
    using fifo.reachable_inv [OF assms(1,2)] by (auto simp: fifo_inv_def)
  have "own given (G @ H) e" using fifo_okD(3) [OF ok assms(3)] assms(4,5) by (cases p) auto
  moreover have "e' \<in> set H" if "j < N" "ls j = DDeq (DeqValue e') \<or> ls j = DDeq (DeqHead e' v')" for j e' v'
    using fifo_okD(4) [OF ok that(1)] that(2) by auto
  ultimately show ?thesis using fifo_walk(1) [OF ok] by (auto simp: own_def)
qed

text \<open>The producer fills the stub, recycled, while a consumer is about to take the second value.\<close>

definition reuse_ex :: "(nat \<times> nat fifo_choice) list" where
  "reuse_ex = [(0, Produce 7)] @ replicate 3 (0, Bring 2) @ replicate 5 (0, Consume) @
     [(0, Produce 8)] @ replicate 3 (0, Bring 3) @ replicate 5 (0, Consume) @ replicate 6 (1, Consume) @
     [(0, Produce 9)] @ replicate 4 (0, Consume) @ replicate 3 (1, Consume)"

lemma reuse_ex_run:
  "list_all (\<lambda>(t, c). t < 2) reuse_ex" "snd (snd (fifo_run reuse_ex)) = ([3, 2, 1], [7, 8], [7])"
  "fst (fifo_run reuse_ex) 0 = EEnq 9 1 EnqNext" "fst (fifo_run reuse_ex) 1 = DDeq (DeqValue 3)"
  by code_simp+

theorem fifo_no_reuse_witness:
  "let m = fst (snd (fifo_run reuse_ex)) in
     \<exists>es. CK_FIFO_SPSC_FOREACH 3 m (head m) = Some es \<and> 1 \<notin> set es \<and> 3 \<in> set es"
proof -
  obtain es where "CK_FIFO_SPSC_FOREACH (Suc (length [7, 8 :: nat])) (fst (snd (fifo_run reuse_ex)))
        (head (fst (snd (fifo_run reuse_ex)))) = Some es" "1 \<notin> set es"
      "\<forall>j<2. \<forall>e' v'. fst (fifo_run reuse_ex) j = DDeq (DeqValue e') \<or>
        fst (fifo_run reuse_ex) j = DDeq (DeqHead e' v') \<longrightarrow> e' \<in> set es"
    using fifo_no_reuse [OF fifo_run_reachable [OF reuse_ex_run(1,2)] _ _ reuse_ex_run(3)] by auto
  moreover from this(3) have "3 \<in> set es" using reuse_ex_run(4) by (metis one_less_numeral_iff semiring_norm(76))
  ultimately show ?thesis unfolding Let_def by (auto simp: numeral_3_eq_3)
qed

end
