(* ===== verification/FifoMpmc.thy ===== *)
theory FifoMpmc
  imports CkPr Interleave
begin

text \<open>
  The second half of \<^verbatim>\<open>ck/ck_fifo.h\<close>: a queue for any number of producers and consumers that use no lock but
  double-word compare-and-swap on pairs of a pointer and a generation. Entries are numbered; 0 is \<open>NULL\<close>. As long as no
  entry is given to the queue twice it is first-in first-out. The generations are meant to protect entries that
  are used again; they do not, and a run shows it.
\<close>

section \<open>The queue\<close>

type_synonym mp_pointer = "nat \<times> uint64"

text \<open>The entries are in memory field by field: \<open>value\<close> and \<open>next\<close> of \<open>struct ck_fifo_mpmc_entry\<close>.\<close>

record 'v ck_fifo_mpmc =
  mp_head :: mp_pointer
  mp_tail :: mp_pointer
  mp_value :: "nat \<Rightarrow> 'v"
  mp_next :: "nat \<Rightarrow> mp_pointer"

definition ck_fifo_mpmc_init :: "nat \<Rightarrow> 'v ck_fifo_mpmc \<Rightarrow> 'v ck_fifo_mpmc" where
  "ck_fifo_mpmc_init stub fifo = fifo\<lparr>mp_next := (mp_next fifo)(stub := (0, 0)), mp_head := (stub, 0), mp_tail := (stub, 0)\<rparr>"

definition ck_fifo_mpmc_deinit :: "'v ck_fifo_mpmc \<Rightarrow> nat \<times> 'v ck_fifo_mpmc" where
  "ck_fifo_mpmc_deinit fifo =
     (fst (mp_head fifo), fifo\<lparr>mp_head := (0, snd (mp_head fifo)), mp_tail := (0, snd (mp_tail fifo))\<rparr>)"

section \<open>Producers\<close>

text \<open>\<open>tail\<close> and \<open>next\<close> are the local snapshots; their generations are loaded before their pointers.\<close>

datatype mp_enq_pc = EqValue | EqNextP | EqNextG | EqTailG | EqTailP uint64 | EqNxtG mp_pointer | EqNxtP mp_pointer uint64
  | EqCheck mp_pointer mp_pointer | EqHelp mp_pointer mp_pointer | EqLink mp_pointer mp_pointer | EqSwing mp_pointer

fun ck_fifo_mpmc_enqueue :: "nat \<Rightarrow> 'v \<Rightarrow> mp_enq_pc \<Rightarrow> 'v ck_fifo_mpmc \<Rightarrow> (mp_enq_pc, unit) ctl \<times> 'v ck_fifo_mpmc" where
  "ck_fifo_mpmc_enqueue entry v EqValue m = (Go EqNextP, m\<lparr>mp_value := (mp_value m)(entry := v)\<rparr>)"
| "ck_fifo_mpmc_enqueue entry v EqNextP m =
     (Go EqNextG, m\<lparr>mp_next := (mp_next m)(entry := (0, snd (mp_next m entry)))\<rparr>)"
| "ck_fifo_mpmc_enqueue entry v EqNextG m =
     (Go EqTailG, m\<lparr>mp_next := (mp_next m)(entry := (fst (mp_next m entry), 0))\<rparr>)"
| "ck_fifo_mpmc_enqueue entry v EqTailG m = (Go (EqTailP (ck_pr_load (snd (mp_tail m)))), m)"
| "ck_fifo_mpmc_enqueue entry v (EqTailP g) m = (Go (EqNxtG (ck_pr_load (fst (mp_tail m)), g)), m)"
| "ck_fifo_mpmc_enqueue entry v (EqNxtG tail) m = (Go (EqNxtP tail (ck_pr_load (snd (mp_next m (fst tail))))), m)"
| "ck_fifo_mpmc_enqueue entry v (EqNxtP tail g) m = (Go (EqCheck tail (ck_pr_load (fst (mp_next m (fst tail))), g)), m)"
| "ck_fifo_mpmc_enqueue entry v (EqCheck tail nxt) m =
     (if ck_pr_load (snd (mp_tail m)) \<noteq> snd tail then Go EqTailG
      else if fst nxt \<noteq> 0 then Go (EqHelp tail nxt) else Go (EqLink tail nxt), m)"
| "ck_fifo_mpmc_enqueue entry v (EqHelp tail nxt) m =
     (Go EqTailG, m\<lparr>mp_tail := snd (ck_pr_cas (mp_tail m) tail (fst nxt, snd tail + 1))\<rparr>)"
| "ck_fifo_mpmc_enqueue entry v (EqLink tail nxt) m =
     (let (ok, p) = ck_pr_cas (mp_next m (fst tail)) nxt (entry, snd nxt + 1)
      in (if ok then Go (EqSwing tail) else Go EqTailG, m\<lparr>mp_next := (mp_next m)(fst tail := p)\<rparr>))"
| "ck_fifo_mpmc_enqueue entry v (EqSwing tail) m =
     (Ret (), m\<lparr>mp_tail := snd (ck_pr_cas (mp_tail m) tail (entry, snd tail + 1))\<rparr>)"

text \<open>The same without the loop.\<close>

fun ck_fifo_mpmc_tryenqueue :: "nat \<Rightarrow> 'v \<Rightarrow> mp_enq_pc \<Rightarrow> 'v ck_fifo_mpmc \<Rightarrow> (mp_enq_pc, bool) ctl \<times> 'v ck_fifo_mpmc" where
  "ck_fifo_mpmc_tryenqueue entry v EqValue m = (Go EqNextP, m\<lparr>mp_value := (mp_value m)(entry := v)\<rparr>)"
| "ck_fifo_mpmc_tryenqueue entry v EqNextP m =
     (Go EqNextG, m\<lparr>mp_next := (mp_next m)(entry := (0, snd (mp_next m entry)))\<rparr>)"
| "ck_fifo_mpmc_tryenqueue entry v EqNextG m =
     (Go EqTailG, m\<lparr>mp_next := (mp_next m)(entry := (fst (mp_next m entry), 0))\<rparr>)"
| "ck_fifo_mpmc_tryenqueue entry v EqTailG m = (Go (EqTailP (ck_pr_load (snd (mp_tail m)))), m)"
| "ck_fifo_mpmc_tryenqueue entry v (EqTailP g) m = (Go (EqNxtG (ck_pr_load (fst (mp_tail m)), g)), m)"
| "ck_fifo_mpmc_tryenqueue entry v (EqNxtG tail) m = (Go (EqNxtP tail (ck_pr_load (snd (mp_next m (fst tail))))), m)"
| "ck_fifo_mpmc_tryenqueue entry v (EqNxtP tail g) m = (Go (EqCheck tail (ck_pr_load (fst (mp_next m (fst tail))), g)), m)"
| "ck_fifo_mpmc_tryenqueue entry v (EqCheck tail nxt) m =
     (if ck_pr_load (snd (mp_tail m)) \<noteq> snd tail then Ret False
      else if fst nxt \<noteq> 0 then Go (EqHelp tail nxt) else Go (EqLink tail nxt), m)"
| "ck_fifo_mpmc_tryenqueue entry v (EqHelp tail nxt) m =
     (Ret False, m\<lparr>mp_tail := snd (ck_pr_cas (mp_tail m) tail (fst nxt, snd tail + 1))\<rparr>)"
| "ck_fifo_mpmc_tryenqueue entry v (EqLink tail nxt) m =
     (let (ok, p) = ck_pr_cas (mp_next m (fst tail)) nxt (entry, snd nxt + 1)
      in (if ok then Go (EqSwing tail) else Ret False, m\<lparr>mp_next := (mp_next m)(fst tail := p)\<rparr>))"
| "ck_fifo_mpmc_tryenqueue entry v (EqSwing tail) m =
     (Ret True, m\<lparr>mp_tail := snd (ck_pr_cas (mp_tail m) tail (entry, snd tail + 1))\<rparr>)"

section \<open>Consumers\<close>

text \<open>A dequeue yields the value and the entry that may be released, \<open>*garbage\<close>.\<close>

datatype 'v mp_deq_pc = DqHeadG | DqHeadP uint64 | DqTailG mp_pointer | DqTailP mp_pointer uint64 | DqNxtG mp_pointer mp_pointer
  | DqNxtP mp_pointer mp_pointer uint64 | DqHelp mp_pointer mp_pointer | DqValue mp_pointer mp_pointer | DqSwing mp_pointer mp_pointer 'v

fun ck_fifo_mpmc_dequeue :: "'v mp_deq_pc \<Rightarrow> 'v ck_fifo_mpmc \<Rightarrow> ('v mp_deq_pc, ('v \<times> nat) option) ctl \<times> 'v ck_fifo_mpmc" where
  "ck_fifo_mpmc_dequeue DqHeadG m = (Go (DqHeadP (ck_pr_load (snd (mp_head m)))), m)"
| "ck_fifo_mpmc_dequeue (DqHeadP g) m = (Go (DqTailG (ck_pr_load (fst (mp_head m)), g)), m)"
| "ck_fifo_mpmc_dequeue (DqTailG head) m = (Go (DqTailP head (ck_pr_load (snd (mp_tail m)))), m)"
| "ck_fifo_mpmc_dequeue (DqTailP head g) m = (Go (DqNxtG head (ck_pr_load (fst (mp_tail m)), g)), m)"
| "ck_fifo_mpmc_dequeue (DqNxtG head tail) m = (Go (DqNxtP head tail (ck_pr_load (snd (mp_next m (fst head))))), m)"
| "ck_fifo_mpmc_dequeue (DqNxtP head tail g) m =
     (let p = ck_pr_load (fst (mp_next m (fst head)))
      in (if fst head = fst tail then if p = 0 then Ret None else Go (DqHelp tail (p, g))
          else if p = 0 then Go DqHeadG else Go (DqValue head (p, g)), m))"
| "ck_fifo_mpmc_dequeue (DqHelp tail nxt) m =
     (Go DqHeadG, m\<lparr>mp_tail := snd (ck_pr_cas (mp_tail m) tail (fst nxt, snd tail + 1))\<rparr>)"
| "ck_fifo_mpmc_dequeue (DqValue head nxt) m = (Go (DqSwing head nxt (ck_pr_load (mp_value m (fst nxt)))), m)"
| "ck_fifo_mpmc_dequeue (DqSwing head nxt v) m =
     (let (ok, p) = ck_pr_cas (mp_head m) head (fst nxt, snd head + 1)
      in (if ok then Ret (Some (v, fst head)) else Go DqHeadG, m\<lparr>mp_head := p\<rparr>))"

fun ck_fifo_mpmc_trydequeue :: "'v mp_deq_pc \<Rightarrow> 'v ck_fifo_mpmc \<Rightarrow> ('v mp_deq_pc, ('v \<times> nat) option) ctl \<times> 'v ck_fifo_mpmc" where
  "ck_fifo_mpmc_trydequeue DqHeadG m = (Go (DqHeadP (ck_pr_load (snd (mp_head m)))), m)"
| "ck_fifo_mpmc_trydequeue (DqHeadP g) m = (Go (DqTailG (ck_pr_load (fst (mp_head m)), g)), m)"
| "ck_fifo_mpmc_trydequeue (DqTailG head) m = (Go (DqTailP head (ck_pr_load (snd (mp_tail m)))), m)"
| "ck_fifo_mpmc_trydequeue (DqTailP head g) m = (Go (DqNxtG head (ck_pr_load (fst (mp_tail m)), g)), m)"
| "ck_fifo_mpmc_trydequeue (DqNxtG head tail) m = (Go (DqNxtP head tail (ck_pr_load (snd (mp_next m (fst head))))), m)"
| "ck_fifo_mpmc_trydequeue (DqNxtP head tail g) m =
     (let p = ck_pr_load (fst (mp_next m (fst head)))
      in (if fst head = fst tail then if p = 0 then Ret None else Go (DqHelp tail (p, g))
          else if p = 0 then Ret None else Go (DqValue head (p, g)), m))"
| "ck_fifo_mpmc_trydequeue (DqHelp tail nxt) m =
     (Ret None, m\<lparr>mp_tail := snd (ck_pr_cas (mp_tail m) tail (fst nxt, snd tail + 1))\<rparr>)"
| "ck_fifo_mpmc_trydequeue (DqValue head nxt) m = (Go (DqSwing head nxt (ck_pr_load (mp_value m (fst nxt)))), m)"
| "ck_fifo_mpmc_trydequeue (DqSwing head nxt v) m =
     (let (ok, p) = ck_pr_cas (mp_head m) head (fst nxt, snd head + 1)
      in (if ok then Ret (Some (v, fst head)) else Ret None, m\<lparr>mp_head := p\<rparr>))"

section \<open>Traversal\<close>

definition CK_FIFO_MPMC_ISEMPTY :: "'v ck_fifo_mpmc \<Rightarrow> bool" where
  "CK_FIFO_MPMC_ISEMPTY m \<longleftrightarrow> fst (mp_next m (fst (mp_head m))) = 0"

definition CK_FIFO_MPMC_FIRST :: "'v ck_fifo_mpmc \<Rightarrow> nat" where
  "CK_FIFO_MPMC_FIRST m = fst (mp_next m (fst (mp_head m)))"

definition CK_FIFO_MPMC_NEXT :: "'v ck_fifo_mpmc \<Rightarrow> nat \<Rightarrow> nat" where
  "CK_FIFO_MPMC_NEXT m e = fst (mp_next m e)"

text \<open>The entries that the loop visits from \<open>e\<close> on; \<open>None\<close> when it has not ended after \<open>n\<close> turns.\<close>

fun CK_FIFO_MPMC_FOREACH :: "nat \<Rightarrow> 'v ck_fifo_mpmc \<Rightarrow> nat \<Rightarrow> nat list option" where
  "CK_FIFO_MPMC_FOREACH n m e =
     (if e = 0 then Some []
      else case n of 0 \<Rightarrow> None
        | Suc n' \<Rightarrow> map_option ((#) e) (CK_FIFO_MPMC_FOREACH n' m (CK_FIFO_MPMC_NEXT m e)))"

section \<open>Threads\<close>

text \<open>A producer brings an entry that was never given to the queue, of which \<open>given\<close> keeps account. \<open>ins\<close> logs the values when
  they are linked, \<open>outs\<close> when they are taken. The flag of a client says whether it uses the function without the loop.\<close>

datatype 'v mp_client = MIdle | MEnq bool nat 'v mp_enq_pc | MDeq bool "'v mp_deq_pc"

datatype 'v mp_choice = MpEnqueue bool nat 'v | MpDequeue bool

type_synonym 'v mp_state = "'v ck_fifo_mpmc \<times> nat list \<times> 'v list \<times> 'v list"

fun links :: "nat \<Rightarrow> mp_enq_pc \<Rightarrow> 'v ck_fifo_mpmc \<Rightarrow> bool" where
  "links entry (EqLink tail nxt) m = (mp_next m (fst tail) = nxt)"
| "links entry _ m = False"

fun mp_move :: "'v mp_choice \<Rightarrow> nat \<Rightarrow> 'v mp_client \<Rightarrow> 'v mp_state \<Rightarrow> 'v mp_client \<times> 'v mp_state" where
  "mp_move (MpEnqueue b e v) t MIdle (m, given, log) =
     (if e = 0 \<or> e \<in> set given then (MIdle, m, given, log) else (MEnq b e v EqValue, m, e # given, log))"
| "mp_move (MpDequeue b) t MIdle s = (MDeq b DqHeadG, s)"
| "mp_move c t (MEnq b e v p) (m, given, ins, outs) =
     (let ins' = if links e p m then ins @ [v] else ins
      in if b then case ck_fifo_mpmc_tryenqueue e v p m of
           (Go p', m') \<Rightarrow> (MEnq b e v p', m', given, ins', outs) | (Ret _, m') \<Rightarrow> (MIdle, m', given, ins', outs)
         else case ck_fifo_mpmc_enqueue e v p m of
           (Go p', m') \<Rightarrow> (MEnq b e v p', m', given, ins', outs) | (Ret _, m') \<Rightarrow> (MIdle, m', given, ins', outs))"
| "mp_move c t (MDeq b p) (m, given, ins, outs) =
     (case (if b then ck_fifo_mpmc_trydequeue p m else ck_fifo_mpmc_dequeue p m) of
        (Go p', m') \<Rightarrow> (MDeq b p', m', given, ins, outs)
      | (Ret None, m') \<Rightarrow> (MIdle, m', given, ins, outs)
      | (Ret (Some (v, _)), m') \<Rightarrow> (MIdle, m', given, ins, outs @ [v]))"

definition mp_step :: "nat \<Rightarrow> 'v mp_client \<Rightarrow> 'v mp_state \<Rightarrow> 'v mp_client \<Rightarrow> 'v mp_state \<Rightarrow> bool" where
  "mp_step t l s l' s' \<longleftrightarrow> (\<exists>c. mp_move c t l s = (l', s'))"

section \<open>The chain and the snapshots\<close>

text \<open>\<open>L\<close> lists the entries in the order in which they were linked, from the stub on; \<open>head\<close> stands at place \<open>hi\<close>, \<open>tail\<close> at
  place \<open>ki\<close>. A snapshot is a place that one of them has passed, and both only move on.\<close>

definition mp_shape :: "'v ck_fifo_mpmc \<Rightarrow> nat list \<Rightarrow> nat list \<Rightarrow> nat \<Rightarrow> nat \<Rightarrow> bool" where
  "mp_shape m given L hi ki \<longleftrightarrow> distinct L \<and> 0 \<notin> set L \<and> set L \<subseteq> set given \<and> hi \<le> ki \<and> ki < length L \<and>
     fst (mp_head m) = L ! hi \<and> fst (mp_tail m) = L ! ki \<and>
     (\<forall>i<length L. fst (mp_next m (L ! i)) = (if Suc i < length L then L ! Suc i else 0))"

definition at :: "nat list \<Rightarrow> nat \<Rightarrow> nat \<Rightarrow> bool" where
  "at L b p \<longleftrightarrow> (\<exists>i\<le>b. i < length L \<and> L ! i = p)"

definition adjacent :: "nat list \<Rightarrow> nat \<Rightarrow> nat \<Rightarrow> nat \<Rightarrow> bool" where
  "adjacent L b p q \<longleftrightarrow> (\<exists>i<b. Suc i < length L \<and> L ! i = p \<and> L ! Suc i = q)"

definition ordered :: "nat list \<Rightarrow> nat \<Rightarrow> nat \<Rightarrow> nat \<Rightarrow> bool" where
  "ordered L b p q \<longleftrightarrow> (\<exists>i j. i \<le> j \<and> j \<le> b \<and> j < length L \<and> L ! i = p \<and> L ! j = q)"

lemmas place_defs = at_def adjacent_def ordered_def

lemma place_mono:
  assumes "b \<le> b'"
  shows "at L b p \<Longrightarrow> at (L @ X) b' p" "adjacent L b p q \<Longrightarrow> adjacent (L @ X) b' p q"
    "ordered L b p q \<Longrightarrow> ordered (L @ X) b' p q"
proof -
  show "at (L @ X) b' p" if "at L b p"
  proof -
    obtain i where "i \<le> b" "i < length L" "L ! i = p" using \<open>at L b p\<close> by (auto simp: at_def)
    then show ?thesis using assms unfolding at_def by (intro exI [of _ i]) (simp add: nth_append)
  qed
  show "adjacent (L @ X) b' p q" if "adjacent L b p q"
  proof -
    obtain i where "i < b" "Suc i < length L" "L ! i = p" "L ! Suc i = q" using \<open>adjacent L b p q\<close> by (auto simp: adjacent_def)
    then show ?thesis using assms unfolding adjacent_def by (intro exI [of _ i]) (simp add: nth_append)
  qed
  show "ordered (L @ X) b' p q" if "ordered L b p q"
  proof -
    obtain i j where "i \<le> j" "j \<le> b" "j < length L" "L ! i = p" "L ! j = q" using \<open>ordered L b p q\<close> by (auto simp: ordered_def)
    then show ?thesis using assms unfolding ordered_def by (intro exI [of _ i] exI [of _ j]) (simp add: nth_append)
  qed
qed

lemma place_in: "at L b p \<Longrightarrow> p \<in> set L" "adjacent L b p q \<Longrightarrow> p \<in> set L \<and> q \<in> set L"
  by (auto simp: place_defs)

lemma mp_shape_nz: "mp_shape m given L hi ki \<Longrightarrow> i < length L \<Longrightarrow> L ! i \<noteq> 0"
  by (metis mp_shape_def nth_mem)

text \<open>What the loads of an operation find.\<close>

lemma mp_shape_loads:
  assumes "mp_shape m given L hi ki"
  shows "at L ki (fst (mp_tail m))" "at L hi (fst (mp_head m))"
    "at L hi p \<Longrightarrow> ordered L ki p (fst (mp_tail m))"
    "at L b p \<Longrightarrow> fst (mp_next m p) \<noteq> 0 \<Longrightarrow> adjacent L (Suc b) p (fst (mp_next m p))"
    "ordered L b p q \<Longrightarrow> p \<noteq> q \<Longrightarrow> adjacent L b p (fst (mp_next m p))"
    "at L b p \<Longrightarrow> fst (mp_next m p) = 0 \<Longrightarrow> p = last L \<and> length L \<le> Suc b"
proof -
  have n: "fst (mp_next m (L ! i)) = (if Suc i < length L then L ! Suc i else 0)" if "i < length L" for i
    using assms that by (simp add: mp_shape_def)
  show "at L ki (fst (mp_tail m))" "at L hi (fst (mp_head m))" using assms by (auto simp: mp_shape_def at_def)
  show "at L hi p \<Longrightarrow> ordered L ki p (fst (mp_tail m))"
    using assms by (auto simp: mp_shape_def place_defs intro: le_trans)
  show "at L b p \<Longrightarrow> fst (mp_next m p) \<noteq> 0 \<Longrightarrow> adjacent L (Suc b) p (fst (mp_next m p))"
    using n by (fastforce simp: at_def adjacent_def less_Suc_eq_le split: if_splits)
  show "adjacent L b p (fst (mp_next m p))" if "ordered L b p q" "p \<noteq> q"
  proof -
    obtain i j where i: "i \<le> j" "j \<le> b" "j < length L" "L ! i = p" "L ! j = q" using \<open>ordered L b p q\<close> by (auto simp: ordered_def)
    then have "i < j" using \<open>p \<noteq> q\<close> by (auto simp: le_less)
    then show ?thesis using i n [of i] by (auto simp: adjacent_def intro!: exI [of _ i])
  qed
  show "at L b p \<Longrightarrow> fst (mp_next m p) = 0 \<Longrightarrow> p = last L \<and> length L \<le> Suc b"
  proof -
    assume "at L b p" "fst (mp_next m p) = 0"
    then obtain i where i: "i \<le> b" "i < length L" "L ! i = p" by (auto simp: at_def)
    then have "Suc i = length L" using n [of i] mp_shape_nz [OF assms, of "Suc i"] \<open>fst (mp_next m p) = 0\<close>
      by (metis Suc_lessI)
    then show ?thesis using i by (metis Suc_le_mono diff_Suc_1 last_conv_nth list.size(3) old.nat.distinct(2))
  qed
qed

text \<open>Moving the tail and the head to the next place, and linking an entry.\<close>

lemma mp_shape_tail:
  assumes "mp_shape m given L hi ki" "adjacent L (Suc ki) (fst tail) q"
  shows "\<exists>ki'\<ge>ki. mp_shape (m\<lparr>mp_tail := snd (ck_pr_cas (mp_tail m) tail (q, g))\<rparr>) given L hi ki'"
proof (cases "mp_tail m = tail")
  case True
  obtain i where i: "i \<le> ki" "Suc i < length L" "L ! i = fst tail" "L ! Suc i = q"
    using assms(2) by (auto simp: adjacent_def less_Suc_eq_le)
  have "i = ki" using assms(1) i True nth_eq_iff_index_eq [of L i ki] by (auto simp: mp_shape_def)
  then show ?thesis using assms(1) i True
    by (intro exI [of _ "Suc ki"]) (auto simp: mp_shape_def pr_simps)
next
  case False
  then have "snd (ck_pr_cas (mp_tail m) tail (q, g)) = mp_tail m" by (simp add: pr_simps)
  then show ?thesis using assms(1) by auto
qed

lemma mp_shape_head:
  assumes "mp_shape m given L hi ki" "adjacent L ki (fst (mp_head m)) q"
  shows "mp_shape (m\<lparr>mp_head := (q, g)\<rparr>) given L (Suc hi) ki" "q = L ! Suc hi" "Suc hi < length L"
proof -
  obtain i where i: "i < ki" "Suc i < length L" "L ! i = fst (mp_head m)" "L ! Suc i = q"
    using assms(2) by (auto simp: adjacent_def)
  have "i = hi" using assms(1) i nth_eq_iff_index_eq [of L i hi] by (auto simp: mp_shape_def)
  then show "mp_shape (m\<lparr>mp_head := (q, g)\<rparr>) given L (Suc hi) ki" "q = L ! Suc hi" "Suc hi < length L"
    using assms(1) i by (auto simp: mp_shape_def)
qed

lemma mp_shape_link:
  assumes s: "mp_shape m given L hi ki" and e: "e \<noteq> 0" "e \<in> set given" "e \<notin> set L" "fst (mp_next m e) = 0"
    and p: "at L ki p" "fst (mp_next m p) = 0"
  shows "mp_shape (m\<lparr>mp_next := (mp_next m)(p := (e, g))\<rparr>) given (L @ [e]) hi ki" "adjacent (L @ [e]) (Suc ki) p e"
proof -
  have l: "p = last L" "length L = Suc ki" using mp_shape_loads(6) [OF s p] s by (auto simp: mp_shape_def)
  have pk: "p = L ! ki" using l by (metis diff_Suc_1 last_conv_nth list.size(3) old.nat.distinct(2))
  have ne: "L ! i \<noteq> p" if "i < ki" for i
    using that pk l(2) s nth_eq_iff_index_eq [of L i ki] by (auto simp: mp_shape_def)
  have pe: "p \<noteq> e" using place_in(1) [OF p(1)] e(3) by auto
  have "fst (((mp_next m)(p := (e, g))) ((L @ [e]) ! i)) = (if Suc i < length (L @ [e]) then (L @ [e]) ! Suc i else 0)"
    if "i < length (L @ [e])" for i
  proof -
    have "i < ki \<or> i = ki \<or> i = Suc ki" using that l(2) by auto
    then consider "i < ki" | "i = ki" | "i = Suc ki" by blast
    then show ?thesis
    proof cases
      case 1
      then show ?thesis using s ne [OF 1] l(2) by (simp add: mp_shape_def nth_append)
    qed (use l(2) pk pe e(4) in \<open>auto simp: nth_append\<close>)
  qed
  then show "mp_shape (m\<lparr>mp_next := (mp_next m)(p := (e, g))\<rparr>) given (L @ [e]) hi ki"
    using s e l(2) by (auto simp: mp_shape_def nth_append)
  show "adjacent (L @ [e]) (Suc ki) p e" using l(2) pk by (auto simp: adjacent_def nth_append intro!: exI [of _ ki])
qed

section \<open>The invariant\<close>

text \<open>An entry is its producer's own until it is linked.\<close>

fun mine :: "'v mp_client \<Rightarrow> nat option" where
  "mine (MEnq b e v (EqSwing tail)) = None"
| "mine (MEnq b e v p) = Some e"
| "mine _ = None"

fun enq_snap :: "nat list \<Rightarrow> nat \<Rightarrow> mp_enq_pc \<Rightarrow> bool" where
  "enq_snap L ki (EqNxtG tail) = at L ki (fst tail)"
| "enq_snap L ki (EqNxtP tail g) = at L ki (fst tail)"
| "enq_snap L ki (EqCheck tail nxt) = (at L ki (fst tail) \<and> (fst nxt \<noteq> 0 \<longrightarrow> adjacent L (Suc ki) (fst tail) (fst nxt)))"
| "enq_snap L ki (EqHelp tail nxt) = adjacent L (Suc ki) (fst tail) (fst nxt)"
| "enq_snap L ki (EqLink tail nxt) = (at L ki (fst tail) \<and> fst nxt = 0)"
| "enq_snap L ki _ = True"

text \<open>What the preparation of an entry has written.\<close>

fun prepared :: "'v ck_fifo_mpmc \<Rightarrow> nat \<Rightarrow> 'v \<Rightarrow> mp_enq_pc \<Rightarrow> bool" where
  "prepared m e v EqValue = True"
| "prepared m e v EqNextP = (mp_value m e = v)"
| "prepared m e v p = (mp_value m e = v \<and> fst (mp_next m e) = 0)"

fun deq_snap :: "'v ck_fifo_mpmc \<Rightarrow> nat list \<Rightarrow> nat \<Rightarrow> nat \<Rightarrow> 'v mp_deq_pc \<Rightarrow> bool" where
  "deq_snap m L hi ki (DqTailG head) = at L hi (fst head)"
| "deq_snap m L hi ki (DqTailP head g) = at L hi (fst head)"
| "deq_snap m L hi ki (DqNxtG head tail) = (at L hi (fst head) \<and> ordered L ki (fst head) (fst tail))"
| "deq_snap m L hi ki (DqNxtP head tail g) = (at L hi (fst head) \<and> ordered L ki (fst head) (fst tail))"
| "deq_snap m L hi ki (DqHelp tail nxt) = adjacent L (Suc ki) (fst tail) (fst nxt)"
| "deq_snap m L hi ki (DqValue head nxt) = adjacent L ki (fst head) (fst nxt)"
| "deq_snap m L hi ki (DqSwing head nxt v) = (adjacent L ki (fst head) (fst nxt) \<and> v = mp_value m (fst nxt))"
| "deq_snap m L hi ki _ = True"

fun mp_local :: "'v ck_fifo_mpmc \<Rightarrow> nat list \<Rightarrow> nat list \<Rightarrow> nat \<Rightarrow> nat \<Rightarrow> 'v mp_client \<Rightarrow> bool" where
  "mp_local m given L hi ki MIdle = True"
| "mp_local m given L hi ki (MEnq b e v (EqSwing tail)) = adjacent L (Suc ki) (fst tail) e"
| "mp_local m given L hi ki (MEnq b e v p) =
     (e \<noteq> 0 \<and> e \<in> set given \<and> e \<notin> set L \<and> prepared m e v p \<and> enq_snap L ki p)"
| "mp_local m given L hi ki (MDeq b p) = deq_snap m L hi ki p"

definition mq_ok :: "nat \<Rightarrow> (nat \<Rightarrow> 'v mp_client) \<Rightarrow> 'v mp_state \<Rightarrow> nat list \<Rightarrow> nat \<Rightarrow> nat \<Rightarrow> bool" where
  "mq_ok N ls s L hi ki \<longleftrightarrow> (case s of (m, given, ins, outs) \<Rightarrow>
     mp_shape m given L hi ki \<and> ins = outs @ map (mp_value m) (drop (Suc hi) L) \<and>
     (\<forall>t<N. mp_local m given L hi ki (ls t)) \<and>
     (\<forall>i<N. \<forall>j<N. \<forall>e. mine (ls i) = Some e \<and> mine (ls j) = Some e \<longrightarrow> i = j))"

definition mq_inv :: "nat \<Rightarrow> (nat \<Rightarrow> 'v mp_client) \<Rightarrow> 'v mp_state \<Rightarrow> bool" where
  "mq_inv N ls s \<longleftrightarrow> (\<exists>L hi ki. mq_ok N ls s L hi ki)"

lemma mq_okD:
  assumes "mq_ok N ls (m, given, ins, outs) L hi ki"
  shows "mp_shape m given L hi ki" "ins = outs @ map (mp_value m) (drop (Suc hi) L)"
    "t < N \<Longrightarrow> mp_local m given L hi ki (ls t)"
    "i < N \<Longrightarrow> j < N \<Longrightarrow> mine (ls i) = Some e \<Longrightarrow> mine (ls j) = Some e \<Longrightarrow> i = j"
  using assms by (auto simp: mq_ok_def)

text \<open>What the other threads know lasts when the list grows, the two ends move on, the values in the list stay and their own
  entries are left alone.\<close>

lemma deq_snap_frame:
  assumes "deq_snap m L hi ki p" "hi \<le> hi'" "ki \<le> ki'" "\<forall>x\<in>set L. mp_value m' x = mp_value m x"
  shows "deq_snap m' (L @ X) hi' ki' p"
proof -
  have "Suc ki \<le> Suc ki'" using assms(3) by simp
  note pm = place_mono [OF assms(2)] place_mono [OF assms(3)] place_mono(2) [OF this]
  show ?thesis using assms(1,4) pm place_in(2) by (cases p) auto
qed

lemma enq_snap_frame: "enq_snap L ki p \<Longrightarrow> ki \<le> ki' \<Longrightarrow> enq_snap (L @ X) ki' p"
  by (cases p) (auto intro: place_mono)

lemma mine_prepared:
  "mine (MEnq b e v p) = Some x \<longleftrightarrow> x = e \<and> (\<forall>tail. p \<noteq> EqSwing tail)"
  "(\<forall>tail. p \<noteq> EqSwing tail) \<Longrightarrow> mp_local m given L hi ki (MEnq b e v p) \<longleftrightarrow>
     e \<noteq> 0 \<and> e \<in> set given \<and> e \<notin> set L \<and> prepared m e v p \<and> enq_snap L ki p"
  by (cases p; auto)+

lemma prepared_frame: "prepared m e v p \<Longrightarrow> mp_value m' e = mp_value m e \<Longrightarrow> mp_next m' e = mp_next m e \<Longrightarrow> prepared m' e v p"
  by (cases p) auto

lemma mp_local_frame:
  assumes l: "mp_local m given L hi ki l" and b: "hi \<le> hi'" "ki \<le> ki'" "set given \<subseteq> set given'"
    and v: "\<forall>x\<in>set L. mp_value m' x = mp_value m x"
    and o: "\<And>e. mine l = Some e \<Longrightarrow> e \<notin> set X \<and> mp_value m' e = mp_value m e \<and> mp_next m' e = mp_next m e"
  shows "mp_local m' given' (L @ X) hi' ki' l"
proof (cases l)
  case (MEnq b' e v' p)
  show ?thesis
  proof (cases "\<exists>tail. p = EqSwing tail")
    case True
    then show ?thesis using l MEnq b(2) place_mono(2) [of "Suc ki" "Suc ki'" L _ _ X] by auto
  next
    case False
    then show ?thesis using l MEnq b o [of e] prepared_frame [of m e v' p m'] enq_snap_frame [of L ki p ki' X]
      by (auto simp: mine_prepared)
  qed
qed (use l deq_snap_frame [OF _ b(1,2) v] in auto)

lemma mq_ok_step:
  assumes ok: "mq_ok N ls (m, given, ins, outs) L hi ki" and t: "t < N"
    and s: "mp_shape m' given' (L @ X) hi' ki'" and b: "hi \<le> hi'" "ki \<le> ki'" "set given \<subseteq> set given'"
    and v: "\<forall>x\<in>set L. mp_value m' x = mp_value m x"
    and o: "\<And>j e. j < N \<Longrightarrow> j \<noteq> t \<Longrightarrow> mine (ls j) = Some e \<Longrightarrow>
      mine l' \<noteq> Some e \<and> e \<notin> set X \<and> mp_value m' e = mp_value m e \<and> mp_next m' e = mp_next m e"
    and i: "ins' = outs' @ map (mp_value m') (drop (Suc hi') (L @ X))"
    and l: "mp_local m' given' (L @ X) hi' ki' l'"
  shows "mq_inv N (ls(t := l')) (m', given', ins', outs')"
proof -
  have "mp_local m' given' (L @ X) hi' ki' ((ls(t := l')) j)" if "j < N" for j
    using l mp_local_frame [OF mq_okD(3) [OF ok that] b v, of X] o [OF that] by (cases "j = t") auto
  moreover have "i = j" if "i < N" "j < N" "mine ((ls(t := l')) i) = Some e" "mine ((ls(t := l')) j) = Some e" for i j e
    using that o [of i e] o [of j e] mq_okD(4) [OF ok, of i j e] by (auto split: if_splits)
  ultimately have "mq_ok N (ls(t := l')) (m', given', ins', outs') (L @ X) hi' ki'"
    using s i unfolding mq_ok_def prod.case by blast
  then show ?thesis unfolding mq_inv_def by blast
qed

text \<open>A step that writes at most the thread's own entry.\<close>

lemma mp_private_step:
  assumes ok: "mq_ok N ls (m, given, ins, outs) L hi ki" and t: "t < N"
    and m': "mp_head m' = mp_head m" "mp_tail m' = mp_tail m"
      "\<And>x. mine (ls t) \<noteq> Some x \<Longrightarrow> mp_value m' x = mp_value m x \<and> mp_next m' x = mp_next m x"
    and l: "mine l' = None \<or> mine l' = mine (ls t)" "mp_local m' given L hi ki l'"
  shows "mq_inv N (ls(t := l')) (m', given, ins, outs)"
proof -
  have L: "mine (ls t) \<noteq> Some x" if "x \<in> set L" for x
    using mq_okD(3) [OF ok t] that by (cases "ls t" rule: mine.cases) auto
  have f: "mp_value m' x = mp_value m x \<and> mp_next m' x = mp_next m x" if "x \<in> set L" for x
    using m'(3) L [OF that] by blast
  have "mp_shape m' given (L @ []) hi ki" using mq_okD(1) [OF ok] m'(1,2) f by (simp add: mp_shape_def)
  moreover have "map (mp_value m') (drop (Suc hi) L) = map (mp_value m) (drop (Suc hi) L)"
    using f by (auto dest: in_set_dropD)
  moreover have "mine l' \<noteq> Some e \<and> e \<notin> set [] \<and> mp_value m' e = mp_value m e \<and> mp_next m' e = mp_next m e"
    if "j < N" "j \<noteq> t" "mine (ls j) = Some e" for j e
    using mq_okD(4) [OF ok that(1) t that(3)] that(2) m'(3) [of e] l(1) by auto
  ultimately show ?thesis
    using mq_okD(2) [OF ok] f l(2) by (intro mq_ok_step [OF ok t, where X = "[]"]) auto
qed

lemma mp_tail_step:
  assumes ok: "mq_ok N ls (m, given, ins, outs) L hi ki" and t: "t < N" and a: "adjacent L (Suc ki) (fst tail) q"
    and l: "mine l' = None \<or> mine l' = mine (ls t)" "\<And>ki'. ki \<le> ki' \<Longrightarrow> mp_local m given L hi ki' l'"
  shows "mq_inv N (ls(t := l')) (m\<lparr>mp_tail := snd (ck_pr_cas (mp_tail m) tail (q, g))\<rparr>, given, ins, outs)"
proof -
  let ?m = "m\<lparr>mp_tail := snd (ck_pr_cas (mp_tail m) tail (q, g))\<rparr>"
  obtain ki' where k: "ki \<le> ki'" "mp_shape ?m given L hi ki'" using mp_shape_tail [OF mq_okD(1) [OF ok] a] by blast
  have "mp_local ?m given (L @ []) hi ki' l'"
    by (rule mp_local_frame [OF l(2) [OF k(1)]]) auto
  then show ?thesis using k l(1) mq_okD(2,4) [OF ok] t
    by (intro mq_ok_step [OF ok t, where X = "[]"]) auto
qed

lemma mp_link_step:
  assumes ok: "mq_ok N ls (m, given, ins, outs) L hi ki" and t: "t < N" "ls t = MEnq b e v (EqLink tail nxt)"
    and n: "mp_next m (fst tail) = nxt"
  shows "mq_inv N (ls(t := MEnq b' e v (EqSwing tail))) (m\<lparr>mp_next := (mp_next m)(fst tail := (e, g))\<rparr>, given, ins @ [v], outs)"
proof -
  let ?m = "m\<lparr>mp_next := (mp_next m)(fst tail := (e, g))\<rparr>"
  have l: "e \<noteq> 0" "e \<in> set given" "e \<notin> set L" "fst (mp_next m e) = 0" "mp_value m e = v" "at L ki (fst tail)" "fst nxt = 0"
    using mq_okD(3) [OF ok t(1)] t(2) by auto
  have "fst (mp_next m (fst tail)) = 0" using n l(7) by simp
  note sh = mp_shape_link [OF mq_okD(1) [OF ok] l(1-4,6) this]
  have "x \<noteq> fst tail" if "j < N" "mine (ls j) = Some x" for j x
    using mq_okD(3) [OF ok that(1)] that(2) place_in(1) [OF l(6)] by (cases "ls j" rule: mine.cases) auto
  then have o: "mine (MEnq b' e v (EqSwing tail)) \<noteq> Some x \<and> x \<notin> set [e] \<and> mp_value ?m x = mp_value m x \<and> mp_next ?m x = mp_next m x"
    if "j < N" "j \<noteq> t" "mine (ls j) = Some x" for j x
    using that t mq_okD(4) [OF ok that(1) t(1) that(3)] by auto
  have "hi < length L" using mq_okD(1) [OF ok] by (auto simp: mp_shape_def)
  then have "ins @ [v] = outs @ map (mp_value ?m) (drop (Suc hi) (L @ [e]))" using mq_okD(2) [OF ok] l(5) by simp
  then show ?thesis using sh o
    by (intro mq_ok_step [OF ok t(1), where X = "[e]"]) auto
qed

lemma mp_head_step:
  assumes ok: "mq_ok N ls (m, given, ins, outs) L hi ki" and t: "t < N" "ls t = MDeq b (DqSwing (mp_head m) nxt v)"
  shows "mq_inv N (ls(t := MIdle)) (m\<lparr>mp_head := (fst nxt, g)\<rparr>, given, ins, outs @ [v])"
proof -
  have a: "adjacent L ki (fst (mp_head m)) (fst nxt)" "v = mp_value m (fst nxt)" using mq_okD(3) [OF ok t(1)] t(2) by auto
  note sh = mp_shape_head [OF mq_okD(1) [OF ok] a(1)]
  have "drop (Suc hi) L = fst nxt # drop (Suc (Suc hi)) L" using sh(2,3) by (metis Cons_nth_drop_Suc)
  then have "ins = (outs @ [v]) @ map (mp_value m) (drop (Suc (Suc hi)) L)" using mq_okD(2) [OF ok] a(2) by simp
  then show ?thesis using sh(1) by (intro mq_ok_step [OF ok t(1), where X = "[]"]) auto
qed

section \<open>Every step keeps the invariant\<close>

lemma enqueue_mpmc_ok:
  assumes ok: "mq_ok N ls (m, given, ins, outs) L hi ki" and t: "t < N" "ls t = MEnq b e v p"
    and r: "ck_fifo_mpmc_enqueue e v p m = (r, m')" and l: "l' = MIdle \<or> (\<exists>p'. r = Go p' \<and> l' = MEnq b e v p')"
    and f: "links e p m \<Longrightarrow> l' \<noteq> MIdle"
  shows "mq_inv N (ls(t := l')) (m', given, if links e p m then ins @ [v] else ins, outs)"
proof (cases p)
  case (EqHelp tail nxt)
  have "mp_local m given L hi ki' l'" if "ki \<le> ki'" for ki'
    using mq_okD(3) [OF ok t(1)] t(2) EqHelp r l by auto
  moreover have "mine l' = None \<or> mine l' = mine (ls t)" using t(2) EqHelp r l by auto
  moreover have "adjacent L (Suc ki) (fst tail) (fst nxt)" using mq_okD(3) [OF ok t(1)] t(2) EqHelp by auto
  ultimately show ?thesis using mp_tail_step [OF ok t(1), of tail "fst nxt" l' "snd tail + 1"] EqHelp r by simp
next
  case (EqSwing tail)
  then have "l' = MIdle" "adjacent L (Suc ki) (fst tail) e" using mq_okD(3) [OF ok t(1)] t(2) r l by auto
  then show ?thesis using mp_tail_step [OF ok t(1), of tail e MIdle "snd tail + 1"] EqSwing r by simp
next
  case (EqLink tail nxt)
  show ?thesis
  proof (cases "links e p m")
    case True
    then have "l' = MEnq b e v (EqSwing tail)" "m' = m\<lparr>mp_next := (mp_next m)(fst tail := (e, snd nxt + 1))\<rparr>"
      using EqLink r l f by (auto simp: pr_simps)
    then show ?thesis using mp_link_step [OF ok t(1), of b e v tail nxt] t(2) EqLink True by auto
  next
    case False
    then have m: "m' = m" "r = Go EqTailG" using EqLink r by (auto simp: pr_simps)
    then have "mp_local m' given L hi ki l'" "mine l' = None \<or> mine l' = mine (ls t)"
      using mq_okD(3) [OF ok t(1)] t(2) EqLink l by auto
    then show ?thesis using mp_private_step [OF ok t(1), of m' l'] m False by auto
  qed
next
  case (EqNxtP tail g)
  have "mp_local m' given L hi ki l'" "mine l' = None \<or> mine l' = mine (ls t)" "m' = m"
    using mq_okD(3) [OF ok t(1)] t(2) EqNxtP r l mp_shape_loads(4) [OF mq_okD(1) [OF ok], of ki "fst tail"] by (auto simp: pr_simps)
  then show ?thesis using mp_private_step [OF ok t(1), of m' l'] EqNxtP by auto
next
  case (EqTailP g)
  have "mp_local m' given L hi ki l'" "mine l' = None \<or> mine l' = mine (ls t)" "m' = m"
    using mq_okD(3) [OF ok t(1)] t(2) EqTailP r l mp_shape_loads(1) [OF mq_okD(1) [OF ok]] by (auto simp: pr_simps)
  then show ?thesis using mp_private_step [OF ok t(1), of m' l'] EqTailP by auto
qed (use mq_okD(3) [OF ok t(1)] t(2) r l mp_private_step [OF ok t(1), of m' l'] in
      \<open>auto simp: pr_simps split: if_splits\<close>)

lemma dequeue_mpmc_ok:
  assumes ok: "mq_ok N ls (m, given, ins, outs) L hi ki" and t: "t < N" "ls t = MDeq b p"
    and r: "ck_fifo_mpmc_dequeue p m = (r, m')"
  shows "r = Ret (Some (v, g)) \<Longrightarrow> mq_inv N (ls(t := MIdle)) (m', given, ins, outs @ [v])"
    "l' = MIdle \<and> (\<forall>x. r \<noteq> Ret (Some x)) \<or> (\<exists>p'. r = Go p' \<and> l' = MDeq b p') \<Longrightarrow>
       mq_inv N (ls(t := l')) (m', given, ins, outs)"
    "r = Ret None \<Longrightarrow> ins = outs"
proof -
  note sh = mq_okD(1) [OF ok] and p = mq_okD(3) [OF ok t(1), unfolded t(2), simplified]
  show "mq_inv N (ls(t := MIdle)) (m', given, ins, outs @ [v])" if "r = Ret (Some (v, g))"
  proof (cases p)
    case (DqSwing head nxt w)
    then have "mp_head m = head" "w = v" "m' = m\<lparr>mp_head := (fst nxt, snd head + 1)\<rparr>"
      using r \<open>r = _\<close> by (auto simp: pr_simps split: if_splits)
    then show ?thesis using mp_head_step [OF ok t(1)] t(2) DqSwing by auto
  qed (use r \<open>r = _\<close> in \<open>auto simp: Let_def split: if_splits\<close>)
  show "ins = outs" if "r = Ret None"
  proof (cases p)
    case (DqNxtP head tail g)
    then have "fst (mp_next m (fst head)) = 0" "at L hi (fst head)"
      using r p \<open>r = _\<close> by (auto simp: pr_simps Let_def split: if_splits)
    then have "length L \<le> Suc hi" using mp_shape_loads(6) [OF sh] by blast
    then show ?thesis using mq_okD(2) [OF ok] by simp
  qed (use r \<open>r = _\<close> in \<open>auto simp: pr_simps split: if_splits\<close>)
  assume l: "l' = MIdle \<and> (\<forall>x. r \<noteq> Ret (Some x)) \<or> (\<exists>p'. r = Go p' \<and> l' = MDeq b p')"
  then have n: "mine l' = None" by auto
  show "mq_inv N (ls(t := l')) (m', given, ins, outs)"
  proof (cases "\<exists>tail nxt. p = DqHelp tail nxt")
    case True
    then obtain tail nxt where h: "p = DqHelp tail nxt" by blast
    then have "mp_local m given L hi ki' l'" for ki' using r l by auto
    then show ?thesis using mp_tail_step [OF ok t(1), of tail "fst nxt" l' "snd tail + 1"] p h r n by simp
  next
    case False
    have "m' = m \<and> mp_local m given L hi ki l'"
    proof (cases p)
      case (DqNxtP head tail g)
      then have a: "at L hi (fst head)" "ordered L ki (fst head) (fst tail)" using p by auto
      have "adjacent L (Suc ki) (fst tail) q" if "fst head = fst tail" "fst (mp_next m (fst head)) = q" "q \<noteq> 0" for q
        using mp_shape_loads(4) [OF sh, of ki "fst head"] place_mono(1) [of hi ki L "fst head" "[]"] a sh that
        by (auto simp: mp_shape_def)
      then show ?thesis using DqNxtP r l mp_shape_loads(5) [OF sh a(2)] by (auto simp: pr_simps Let_def split: if_splits)
    qed (use False r l p mp_shape_loads(1-3) [OF sh] in \<open>auto simp: pr_simps split: if_splits\<close>)
    then show ?thesis using mp_private_step [OF ok t(1), of m l'] n by auto
  qed
qed

text \<open>The functions without the loop do what one turn of the loop does.\<close>

lemma tryenqueue_turn:
  assumes "ck_fifo_mpmc_tryenqueue e v p m = (r, m')"
  obtains r0 where "ck_fifo_mpmc_enqueue e v p m = (r0, m')" "\<And>p'. r = Go p' \<Longrightarrow> r0 = Go p'"
    "links e p m \<Longrightarrow> \<exists>p'. r = Go p'"
  using assms by (cases p) (auto simp: pr_simps split: if_splits)

lemma trydequeue_turn:
  assumes "ck_fifo_mpmc_trydequeue p m = (r, m')"
  obtains r0 where "ck_fifo_mpmc_dequeue p m = (r0, m')" "r = r0 \<or> r = Ret None \<and> (\<forall>x. r0 \<noteq> Ret (Some x))"
  using assms by (cases p) (auto simp: pr_simps Let_def split: if_splits)

lemma enqueue_links: "links e p m \<Longrightarrow> \<exists>p'. fst (ck_fifo_mpmc_enqueue e v p m) = Go p'"
  by (cases p) (auto simp: pr_simps)

lemma mp_start_enqueue:
  assumes ok: "mq_ok N ls (m, given, ins, outs) L hi ki" and t: "t < N" "ls t = MIdle" and e: "e \<noteq> 0" "e \<notin> set given"
  shows "mq_inv N (ls(t := MEnq b e v EqValue)) (m, e # given, ins, outs)"
proof -
  have "x \<in> set given" if "j < N" "mine (ls j) = Some x" for j x
    using mq_okD(3) [OF ok that(1)] that(2) by (cases "ls j" rule: mine.cases) auto
  moreover have "mp_shape m (e # given) (L @ []) hi ki" "e \<notin> set L" using mq_okD(1) [OF ok] e by (auto simp: mp_shape_def)
  ultimately show ?thesis using mq_okD(2) [OF ok] e
    by (intro mq_ok_step [OF ok t(1), where X = "[]"]) auto
qed

lemma mq_inv_step:
  assumes i: "mq_inv N ls s" and t: "t < N" and st: "mp_step t (ls t) s l' s'"
  shows "mq_inv N (ls(t := l')) s'"
proof -
  obtain m given ins outs where s: "s = (m, given, ins, outs)" by (cases s) auto
  obtain L hi ki where ok: "mq_ok N ls (m, given, ins, outs) L hi ki" using i s by (auto simp: mq_inv_def)
  obtain c where mv: "mp_move c t (ls t) (m, given, ins, outs) = (l', s')" using st s by (auto simp: mp_step_def)
  show ?thesis
  proof (cases "ls t")
    case MIdle
    then show ?thesis using mv mp_start_enqueue [OF ok t MIdle] mp_private_step [OF ok t, of m l']
      by (cases c) (auto split: if_splits)
  next
    case (MEnq b e v p)
    obtain r0 m' where r0: "ck_fifo_mpmc_enqueue e v p m = (r0, m')" by fastforce
    obtain r1 m1 where r1: "ck_fifo_mpmc_tryenqueue e v p m = (r1, m1)" by fastforce
    have "m1 = m'" "\<And>p'. r1 = Go p' \<Longrightarrow> r0 = Go p'" "links e p m \<Longrightarrow> \<exists>p'. r1 = Go p'"
      using tryenqueue_turn [OF r1] r0 by (metis prod.inject)+
    then have "(l' = MIdle \<or> (\<exists>p'. r0 = Go p' \<and> l' = MEnq b e v p')) \<and> (links e p m \<longrightarrow> l' \<noteq> MIdle) \<and>
        s' = (m', given, if links e p m then ins @ [v] else ins, outs)"
      using mv MEnq r0 r1 enqueue_links [of e p m v] by (auto simp: Let_def split: ctl.splits if_splits)
    then show ?thesis using enqueue_mpmc_ok [OF ok t MEnq r0] by blast
  next
    case (MDeq b p)
    obtain r m' where r: "(if b then ck_fifo_mpmc_trydequeue p m else ck_fifo_mpmc_dequeue p m) = (r, m')" by fastforce
    then obtain r0 where r0: "ck_fifo_mpmc_dequeue p m = (r0, m')" "r = r0 \<or> r = Ret None \<and> (\<forall>x. r0 \<noteq> Ret (Some x))"
      using trydequeue_turn [of p m r m'] by (auto split: if_splits)
    note d = dequeue_mpmc_ok(1,2) [OF ok t MDeq r0(1)]
    show ?thesis
    proof (cases "\<exists>v g. r = Ret (Some (v, g))")
      case True
      then show ?thesis using mv MDeq r r0(2) d(1) by auto
    next
      case False
      then have "s' = (m', given, ins, outs)" "l' = MIdle \<and> (\<forall>x. r0 \<noteq> Ret (Some x)) \<or> (\<exists>p'. r0 = Go p' \<and> l' = MDeq b p')"
        using mv MDeq r r0(2) by (auto split: ctl.splits option.splits)
      then show ?thesis using d(2) by blast
    qed
  qed
qed

lemma mq_inv_start:
  assumes "stub \<noteq> 0"
  shows "mq_inv N (\<lambda>_. MIdle) (ck_fifo_mpmc_init stub m, [stub], [], [])"
proof -
  have "mq_ok N (\<lambda>_. MIdle) (ck_fifo_mpmc_init stub m, [stub], [], []) [stub] 0 0"
    using assms by (simp add: mq_ok_def mp_shape_def ck_fifo_mpmc_init_def)
  then show ?thesis unfolding mq_inv_def by blast
qed

interpretation mpmc_queue: interleaving mp_step "\<lambda>_. MIdle" "(ck_fifo_mpmc_init stub m, [stub], [], [])" "\<lambda>_. stub \<noteq> 0" mq_inv
  for stub m
  by unfold_locales (blast intro: mq_inv_start mq_inv_step)+

section \<open>First in, first out\<close>

lemma mp_foreach:
  assumes "mp_shape m given L hi ki" "i \<le> length L" "length L \<le> i + n" "e = (if i < length L then L ! i else 0)"
  shows "CK_FIFO_MPMC_FOREACH n m e = Some (drop i L)"
  using assms
proof (induction n arbitrary: i e)
  case (Suc n)
  show ?case
  proof (cases "i < length L")
    case True
    then have "e = L ! i" "L ! i \<noteq> 0" using Suc.prems(4) mp_shape_nz [OF Suc.prems(1) True] by auto
    moreover have "CK_FIFO_MPMC_FOREACH n m (CK_FIFO_MPMC_NEXT m (L ! i)) = Some (drop (Suc i) L)"
      using Suc.prems(1,3) True by (intro Suc.IH [OF Suc.prems(1)]) (auto simp: CK_FIFO_MPMC_NEXT_def mp_shape_def)
    ultimately show ?thesis using Cons_nth_drop_Suc [OF True] by simp
  qed (use Suc.prems in simp)
qed simp

declare CK_FIFO_MPMC_FOREACH.simps [simp del]

lemma mp_contents:
  assumes ok: "mq_ok N ls (m, given, ins, outs) L hi ki"
  shows "CK_FIFO_MPMC_FOREACH (length ins) m (CK_FIFO_MPMC_FIRST m) = Some (drop (Suc hi) L)"
    "CK_FIFO_MPMC_ISEMPTY m \<longleftrightarrow> ins = outs"
proof -
  have h: "hi < length L" "fst (mp_head m) = L ! hi"
      "fst (mp_next m (L ! hi)) = (if Suc hi < length L then L ! Suc hi else 0)"
    using mq_okD(1) [OF ok] by (auto simp: mp_shape_def)
  have "length ins = length outs + (length L - Suc hi)" using mq_okD(2) [OF ok] by simp
  then show "CK_FIFO_MPMC_FOREACH (length ins) m (CK_FIFO_MPMC_FIRST m) = Some (drop (Suc hi) L)"
    using h by (intro mp_foreach [OF mq_okD(1) [OF ok]]) (auto simp: CK_FIFO_MPMC_FIRST_def)
  show "CK_FIFO_MPMC_ISEMPTY m \<longleftrightarrow> ins = outs" using h mq_okD(2) [OF ok] mp_shape_nz [OF mq_okD(1) [OF ok], of "Suc hi"] by (auto simp: CK_FIFO_MPMC_ISEMPTY_def)
qed

text \<open>Claim C12: any number of producers and consumers share the queue, in any interleaving, and no entry is given to it twice.
  The values that were linked, in this order, are those that consumers have taken, in the order in which they took them,
  followed by those that \<open>CK_FIFO_MPMC_FOREACH\<close> visits; the test for emptiness is exact; and a dequeue that returns empty-handed
  does so when the queue is empty.\<close>

theorem fifo_mpmc_order:
  assumes "reachable mp_step N (\<lambda>_. MIdle) (ck_fifo_mpmc_init stub m0, [stub], [], []) ls (m, given, ins, outs)"
    and "stub \<noteq> 0"
  shows "(\<exists>es. CK_FIFO_MPMC_FOREACH (length ins) m (CK_FIFO_MPMC_FIRST m) = Some es \<and> ins = outs @ map (mp_value m) es) \<and>
    (CK_FIFO_MPMC_ISEMPTY m \<longleftrightarrow> ins = outs) \<and>
    (\<forall>t<N. \<forall>p. ls t = MDeq False p \<and> fst (ck_fifo_mpmc_dequeue p m) = Ret None \<longrightarrow> ins = outs)"
proof -
  obtain L hi ki where ok: "mq_ok N ls (m, given, ins, outs) L hi ki"
    using mpmc_queue.reachable_inv [OF assms] by (auto simp: mq_inv_def)
  show ?thesis using mp_contents [OF ok] mq_okD(2) [OF ok] dequeue_mpmc_ok(3) [OF ok] by (metis prod.collapse)
qed

text \<open>Two producers link out of the order in which they began; a consumer takes the first value.\<close>

definition mp_mem0 :: "nat ck_fifo_mpmc" where
  "mp_mem0 = \<lparr>mp_head = (0, 0), mp_tail = (0, 0), mp_value = \<lambda>_. 0, mp_next = \<lambda>_. (0, 0)\<rparr>"

definition mp_run :: "(nat \<times> nat mp_choice) list \<Rightarrow> (nat \<Rightarrow> nat mp_client) \<times> nat mp_state" where
  "mp_run sch = move_run mp_move sch (\<lambda>_. MIdle, ck_fifo_mpmc_init 1 mp_mem0, [1], [], [])"

lemma mp_run_reachable:
  assumes "list_all (\<lambda>(t, c). t < N) sch" "snd (snd (mp_run sch)) = x"
  shows "reachable mp_step N (\<lambda>_. MIdle) (ck_fifo_mpmc_init 1 mp_mem0, [1], [], []) (fst (mp_run sch)) (fst (snd (mp_run sch)), x)"
proof -
  have "reachable mp_step N (\<lambda>_. MIdle) (ck_fifo_mpmc_init 1 mp_mem0, [1], [], []) (fst (mp_run sch)) (snd (mp_run sch))"
    unfolding mp_run_def by (rule move_run_reachable [OF _ assms(1) reachable.start]) (auto simp: mp_step_def)
  then show ?thesis using assms(2) by (metis prod.collapse)
qed

definition mp_ex :: "(nat \<times> nat mp_choice) list" where
  "mp_ex = [(0, MpEnqueue False 2 20)] @ replicate 8 (0, MpDequeue False) @
     [(1, MpEnqueue True 3 30)] @ replicate 10 (1, MpDequeue False) @
     replicate 8 (0, MpDequeue False) @ replicate 9 (2, MpDequeue False)"

lemma mp_ex_run: "list_all (\<lambda>(t, c). t < 3) mp_ex" "snd (snd (mp_run mp_ex)) = ([3, 2, 1], [30, 20], [30])"
  by code_simp+

theorem fifo_mpmc_order_witness:
  "let m = fst (snd (mp_run mp_ex)) in
     (\<exists>es. CK_FIFO_MPMC_FOREACH 2 m (CK_FIFO_MPMC_FIRST m) = Some es \<and> [30, 20] = [30] @ map (mp_value m) es) \<and>
     \<not> CK_FIFO_MPMC_ISEMPTY m"
  using fifo_mpmc_order [OF mp_run_reachable [OF mp_ex_run]] by (simp add: Let_def numeral_2_eq_2)

section \<open>Entries that are used again\<close>

text \<open>The caller takes back an entry that a dequeue has left it as garbage, so that it may enqueue it again.\<close>

definition mp_release :: "nat \<Rightarrow> (nat \<Rightarrow> 'v mp_client) \<times> 'v mp_state \<Rightarrow> (nat \<Rightarrow> 'v mp_client) \<times> 'v mp_state" where
  "mp_release e = (\<lambda>(ls, m, given, log). (ls, m, remove1 e given, log))"

text \<open>Thread 1 is about to link entry 3 behind entry 2, when thread 0 links entry 4 there. Threads 0 and 2 dequeue both, and the second
  dequeue leaves them entry 2.\<close>

definition stalled :: "(nat \<Rightarrow> nat mp_client) \<times> nat mp_state" where
  "stalled = mp_run ([(0, MpEnqueue False 2 20)] @ replicate 10 (0, MpDequeue False) @
     [(1, MpEnqueue False 3 30)] @ replicate 8 (1, MpDequeue False) @
     [(0, MpEnqueue False 4 40)] @ replicate 10 (0, MpDequeue False) @
     replicate 9 (0, MpDequeue False) @ replicate 8 (2, MpDequeue False))"

text \<open>Thread 2 ends its dequeue, thread 0 prepares entry 2 for another value, and thread 1 goes on to its end.\<close>

definition resumed :: "(nat \<Rightarrow> nat mp_client) \<times> nat mp_state" where
  "resumed = move_run mp_move ([(0, MpEnqueue False 2 50)] @ replicate 3 (0, MpDequeue False) @ replicate 2 (1, MpDequeue False))
     (mp_release 2 (move_run mp_move [(2, MpDequeue False)] stalled))"


end
