(* ===== verification/ScanLock.thy ===== *)
theory ScanLock
  imports Interleave
begin

text \<open>
  The contract of the reader-writer locks in which every reader has a cell of its own and the writer, after it
  has raised its flag, visits the cells one after the other: \<open>ck_bytelock\<close> and \<open>ck_brlock\<close>.
  A reader raises its cell and then looks at the flag; a writer that has found a cell clear
  under its flag need not come back to it.
\<close>

definition scan_law ::
    "('l \<Rightarrow> bool) \<Rightarrow> ('s \<Rightarrow> bool) \<Rightarrow> ('s \<Rightarrow> 'l \<Rightarrow> nat \<Rightarrow> bool) \<Rightarrow> ('l \<Rightarrow> bool) \<Rightarrow> (nat \<Rightarrow> 's \<Rightarrow> bool) \<Rightarrow>
     nat \<Rightarrow> 'l \<Rightarrow> 's \<Rightarrow> 'l \<Rightarrow> 's \<Rightarrow> bool" where
  "scan_law own flag passed adm raised t l s l' s' \<longleftrightarrow>
     (own l' = own l \<longrightarrow> flag s' = flag s) \<and>
     (own l' \<and> \<not> own l \<longrightarrow> \<not> flag s \<and> flag s') \<and>
     (own l \<and> \<not> own l' \<longrightarrow> \<not> flag s') \<and>
     (adm l' \<and> \<not> adm l \<longrightarrow> \<not> flag s') \<and>
     (\<forall>j. j \<noteq> t \<longrightarrow> passed s' l' j \<longrightarrow> passed s l j \<or> \<not> raised j s) \<and>
     (\<not> own l \<longrightarrow> (\<forall>x j. passed s' x j \<longrightarrow> passed s x j))"

definition scan_inv ::
    "('l \<Rightarrow> bool) \<Rightarrow> ('s \<Rightarrow> bool) \<Rightarrow> ('s \<Rightarrow> 'l \<Rightarrow> nat \<Rightarrow> bool) \<Rightarrow> ('l \<Rightarrow> bool) \<Rightarrow>
     nat \<Rightarrow> (nat \<Rightarrow> 'l) \<Rightarrow> 's \<Rightarrow> bool" where
  "scan_inv own flag passed adm N ls s \<longleftrightarrow> cnt N own ls = of_bool (flag s) \<and>
     (\<forall>i<N. \<forall>j<N. i \<noteq> j \<longrightarrow> passed s (ls i) j \<longrightarrow> \<not> adm (ls j))"

locale scan_lock =
  fixes step :: "nat \<Rightarrow> 'l \<Rightarrow> 's \<Rightarrow> 'l \<Rightarrow> 's \<Rightarrow> bool" and l0 :: 'l and s0 :: 's and fits :: "nat \<Rightarrow> bool"
    and own :: "'l \<Rightarrow> bool" and flag :: "'s \<Rightarrow> bool" and passed :: "'s \<Rightarrow> 'l \<Rightarrow> nat \<Rightarrow> bool"
    and adm :: "'l \<Rightarrow> bool" and raised :: "nat \<Rightarrow> 's \<Rightarrow> bool"
    and rd :: "'l \<Rightarrow> bool" and wr :: "'l \<Rightarrow> bool" and aux :: "nat \<Rightarrow> (nat \<Rightarrow> 'l) \<Rightarrow> 's \<Rightarrow> bool"
  assumes init: "\<not> flag s0" "\<not> own l0"
    and passed_own: "passed s l j \<Longrightarrow> own l"
    and wr_passed: "wr l \<Longrightarrow> own l \<and> passed s l j"
    and rd_adm: "rd l \<Longrightarrow> adm l"
    and wr_rd: "wr l \<Longrightarrow> \<not> rd l"
    and law: "fits N \<Longrightarrow> cnt N own ls = of_bool (flag s) \<Longrightarrow> aux N ls s \<Longrightarrow> t < N \<Longrightarrow> step t (ls t) s l' s' \<Longrightarrow>
      scan_law own flag passed adm raised t (ls t) s l' s'"
    and raised: "fits N \<Longrightarrow> aux N ls s \<Longrightarrow> j < N \<Longrightarrow> adm (ls j) \<Longrightarrow> raised j s"
    and aux_start: "fits N \<Longrightarrow> aux N (\<lambda>_. l0) s0"
    and aux_step: "fits N \<Longrightarrow> cnt N own ls = of_bool (flag s) \<Longrightarrow> aux N ls s \<Longrightarrow> t < N \<Longrightarrow> step t (ls t) s l' s' \<Longrightarrow>
      aux N (ls(t := l')) s'"

context scan_lock begin

lemma scan_start: "scan_inv own flag passed adm N (\<lambda>_. l0) s0"
  using init passed_own by (auto simp: scan_inv_def cnt_0)

lemma scan_owner: "scan_inv own flag passed adm N ls s \<Longrightarrow> cnt N own ls = of_bool (flag s)"
  by (simp add: scan_inv_def)

lemma scan_step:
  assumes f: "fits N" and i: "scan_inv own flag passed adm N ls s" and a: "aux N ls s" and t: "t < N"
    and st: "step t (ls t) s l' s'"
  shows "scan_inv own flag passed adm N (ls(t := l')) s'"
proof -
  have c: "cnt N own ls = of_bool (flag s)" and p: "\<And>i j. i < N \<Longrightarrow> j < N \<Longrightarrow> i \<noteq> j \<Longrightarrow> passed s (ls i) j \<Longrightarrow> \<not> adm (ls j)"
    using i by (auto simp: scan_inv_def)
  note l = law [OF f c a t st, unfolded scan_law_def]
  have la: "adm l' \<Longrightarrow> \<not> adm (ls t) \<Longrightarrow> \<not> flag s'"
    and lp: "\<And>j. j \<noteq> t \<Longrightarrow> passed s' l' j \<Longrightarrow> passed s (ls t) j \<or> \<not> raised j s"
    and lo: "\<And>x j. \<not> own (ls t) \<Longrightarrow> passed s' x j \<Longrightarrow> passed s x j" using l by blast+
  have c': "cnt N own (ls(t := l')) = of_bool (flag s')"
    by (rule cnt_flag_step [OF c t]) (use l in blast)+
  have "\<not> adm ((ls(t := l')) j)" if ij: "i < N" "j < N" "i \<noteq> j" and ps: "passed s' ((ls(t := l')) i) j" for i j
  proof -
    have o: "own ((ls(t := l')) i)" using passed_own [OF ps] .
    then have fl: "flag s'" using c' cnt_pos [OF ij(1), of own "ls(t := l')"] by (cases "flag s'") auto
    show ?thesis
    proof (cases "i = t")
      case True
      then show ?thesis using ps lp [of j] ij p [of i j] raised [OF f a ij(2)] by auto
    next
      case False
      then have "own (ls i)" using o by simp
      then have "\<not> own (ls t)" using c cnt_le1 [of N own ls i t] ij(1) t False by (cases "flag s") auto
      then have "passed s (ls i) j" using ps False lo by auto
      then show ?thesis using p [OF ij] la fl by (cases "j = t") auto
    qed
  qed
  with c' show ?thesis by (auto simp: scan_inv_def)
qed

end

sublocale scan_lock \<subseteq> rw_exclusion step "\<lambda>_. l0" s0 fits
  "\<lambda>N ls s. scan_inv own flag passed adm N ls s \<and> aux N ls s" rd wr
proof unfold_locales
  fix N ls s i j
  assume i: "scan_inv own flag passed adm N ls s \<and> aux N ls s" and ij: "i < N" "j < N" "wr (ls i)"
  show "i = j" if "wr (ls j)"
    using i ij that wr_passed cnt_le1 [of N own ls i j] by (cases "flag s") (auto simp: scan_inv_def)
  show "\<not> rd (ls j)"
    using i ij wr_passed rd_adm wr_rd unfolding scan_inv_def by (cases "i = j") blast+
qed (blast intro: scan_start scan_step aux_start aux_step dest: scan_owner)+

end
