(* ===== verification/Bytelock.thy ===== *)
theory Bytelock
  imports CkPr ScanLock
begin

text \<open>
  The reader-writer lock of \<^verbatim>\<open>ck/ck_bytelock.h\<close>: a reader with a slot raises its own byte, a reader without one
  counts in \<open>n_readers\<close>; a writer puts its slot number into \<open>owner\<close>, then waits for the bytes, eight at a time, and
  for the counter. The array has 56 bytes (a cache line of 64, as on x86-64, less the two counters). A
  function returns \<open>False\<close> where the code would store outside the array.
\<close>

section \<open>The lock\<close>

record ck_bytelock =
  owner :: uint
  n_readers :: uint
  readers :: "byte list"

abbreviation readers_size :: nat where "readers_size \<equiv> 56"

definition CK_BYTELOCK_UNSLOTTED :: uint where "CK_BYTELOCK_UNSLOTTED = -1"

definition ck_bytelock_init :: ck_bytelock where
  "ck_bytelock_init = \<lparr>owner = 0, n_readers = 0, readers = map (\<lambda>_. 0) [0..<readers_size]\<rparr>"

text \<open>A byte store, and the 64-bit load of the \<open>i\<close>-th word of the array.\<close>

definition store_reader :: "uint \<Rightarrow> byte \<Rightarrow> ck_bytelock \<Rightarrow> ck_bytelock option" where
  "store_reader k v bl = (if k < of_nat readers_size then Some (bl\<lparr>readers := (readers bl)[unat k := v]\<rparr>) else None)"

definition CK_BYTELOCK_LOAD :: "nat \<Rightarrow> ck_bytelock \<Rightarrow> uint64" where
  "CK_BYTELOCK_LOAD i bl = foldr (\<lambda>b w. ucast b + 256 * w) (take 8 (drop (8 * i) (readers bl))) 0"

datatype bwrite_pc = BwCas | BwClear | BwScan nat | BwCount

fun ck_bytelock_write_lock :: "uint \<Rightarrow> bwrite_pc \<Rightarrow> ck_bytelock \<Rightarrow> (bwrite_pc, bool) ctl \<times> ck_bytelock" where
  "ck_bytelock_write_lock slot BwCas bl =
     (let (ok, m) = ck_pr_cas (owner bl) 0 slot
      in (if \<not> ok then Go BwCas else if slot \<le> of_nat readers_size then Go BwClear else Go (BwScan 0), bl\<lparr>owner := m\<rparr>))"
| "ck_bytelock_write_lock slot BwClear bl =
     (case store_reader (slot - 1) 0 bl of None \<Rightarrow> (Ret False, bl) | Some bl' \<Rightarrow> (Go (BwScan 0), bl'))"
| "ck_bytelock_write_lock slot (BwScan i) bl =
     (if CK_BYTELOCK_LOAD i bl \<noteq> 0 then Go (BwScan i)
      else if Suc i < readers_size div 8 then Go (BwScan (Suc i)) else Go BwCount, bl)"
| "ck_bytelock_write_lock slot BwCount bl =
     (if ck_pr_load (n_readers bl) \<noteq> 0 then Go BwCount else Ret True, bl)"

definition ck_bytelock_write_unlock :: "ck_bytelock \<Rightarrow> ck_bytelock" where
  "ck_bytelock_write_unlock bl = bl\<lparr>owner := ck_pr_store (owner bl) 0\<rparr>"

datatype bread_pc = BrLoad | BrOwn | BrDrop | BrInc | BrCheckN | BrDec | BrWaitN | BrSet | BrCheckS | BrClear | BrWaitS

fun ck_bytelock_read_lock :: "uint \<Rightarrow> bread_pc \<Rightarrow> ck_bytelock \<Rightarrow> (bread_pc, bool) ctl \<times> ck_bytelock" where
  "ck_bytelock_read_lock slot BrLoad bl =
     (if ck_pr_load (owner bl) = slot then Go BrOwn
      else if slot > of_nat readers_size then Go BrInc else Go BrSet, bl)"
| "ck_bytelock_read_lock slot BrOwn bl =
     (case store_reader (slot - 1) 1 bl of None \<Rightarrow> (Ret False, bl) | Some bl' \<Rightarrow> (Go BrDrop, bl'))"
| "ck_bytelock_read_lock slot BrDrop bl = (Ret True, bl\<lparr>owner := ck_pr_store (owner bl) 0\<rparr>)"
| "ck_bytelock_read_lock slot BrInc bl = (Go BrCheckN, bl\<lparr>n_readers := ck_pr_inc (n_readers bl)\<rparr>)"
| "ck_bytelock_read_lock slot BrCheckN bl = (if ck_pr_load (owner bl) = 0 then Ret True else Go BrDec, bl)"
| "ck_bytelock_read_lock slot BrDec bl = (Go BrWaitN, bl\<lparr>n_readers := ck_pr_dec (n_readers bl)\<rparr>)"
| "ck_bytelock_read_lock slot BrWaitN bl = (if ck_pr_load (owner bl) \<noteq> 0 then Go BrWaitN else Go BrInc, bl)"
| "ck_bytelock_read_lock slot BrSet bl =
     (case store_reader (slot - 1) 1 bl of None \<Rightarrow> (Ret False, bl) | Some bl' \<Rightarrow> (Go BrCheckS, bl'))"
| "ck_bytelock_read_lock slot BrCheckS bl = (if ck_pr_load (owner bl) = 0 then Ret True else Go BrClear, bl)"
| "ck_bytelock_read_lock slot BrClear bl =
     (case store_reader (slot - 1) 0 bl of None \<Rightarrow> (Ret False, bl) | Some bl' \<Rightarrow> (Go BrWaitS, bl'))"
| "ck_bytelock_read_lock slot BrWaitS bl = (if ck_pr_load (owner bl) \<noteq> 0 then Go BrWaitS else Go BrSet, bl)"

definition ck_bytelock_read_unlock :: "uint \<Rightarrow> ck_bytelock \<Rightarrow> bool \<times> ck_bytelock" where
  "ck_bytelock_read_unlock slot bl =
     (if slot > of_nat readers_size then (True, bl\<lparr>n_readers := ck_pr_dec (n_readers bl)\<rparr>)
      else case store_reader (slot - 1) 0 bl of None \<Rightarrow> (False, bl) | Some bl' \<Rightarrow> (True, bl'))"

section \<open>Threads\<close>

text \<open>A thread with a slot may also upgrade (lock for writing while it reads; \<open>ByWrite True\<close>) and downgrade (lock for
  reading while it writes; \<open>ByRead True\<close>). A reader remembers whether it is counted (\<open>True\<close>) or has a byte.
  \<open>ByFault\<close> is a thread that stored outside the array.\<close>

datatype byte_client =
  ByIdle | ByWrite bool bwrite_pc | ByWCrit | ByWUnlock | ByRead bool bread_pc | ByRCrit bool | ByRUnlock bool | ByFault

fun byte_move :: "(nat \<Rightarrow> uint) \<Rightarrow> bool \<Rightarrow> nat \<Rightarrow> byte_client \<Rightarrow> ck_bytelock \<Rightarrow> byte_client \<times> ck_bytelock" where
  "byte_move slot c t ByIdle s = (if c then ByRead False BrLoad else ByWrite False BwCas, s)"
| "byte_move slot c t (ByWrite u p) s =
     (case ck_bytelock_write_lock (slot t) p s of
        (Go p', s') \<Rightarrow> (ByWrite u p', s') | (Ret ok, s') \<Rightarrow> (if ok then ByWCrit else ByFault, s'))"
| "byte_move slot c t ByWCrit s = (if c \<and> slot t \<le> of_nat readers_size then ByRead True BrLoad else ByWUnlock, s)"
| "byte_move slot c t ByWUnlock s = (ByIdle, ck_bytelock_write_unlock s)"
| "byte_move slot c t (ByRead d p) s =
     (case ck_bytelock_read_lock (slot t) p s of
        (Go p', s') \<Rightarrow> (ByRead d p', s')
      | (Ret ok, s') \<Rightarrow> (if ok then ByRCrit (slot t > of_nat readers_size) else ByFault, s'))"
| "byte_move slot c t (ByRCrit n) s = (if c \<and> slot t \<le> of_nat readers_size then ByWrite True BwCas else ByRUnlock n, s)"
| "byte_move slot c t (ByRUnlock n) s =
     (case ck_bytelock_read_unlock (slot t) s of (ok, s') \<Rightarrow> (if ok then ByIdle else ByFault, s'))"
| "byte_move slot c t ByFault s = (ByFault, s)"

definition byte_step :: "(nat \<Rightarrow> uint) \<Rightarrow> nat \<Rightarrow> byte_client \<Rightarrow> ck_bytelock \<Rightarrow> byte_client \<Rightarrow> ck_bytelock \<Rightarrow> bool" where
  "byte_step slot t l s l' s' \<longleftrightarrow> (\<exists>c. byte_move slot c t l s = (l', s'))"

fun byte_writing :: "byte_client \<Rightarrow> bool" where "byte_writing ByWCrit = True" | "byte_writing _ = False"
fun byte_reading :: "byte_client \<Rightarrow> bool" where "byte_reading (ByRCrit n) = True" | "byte_reading _ = False"

section \<open>Exclusion\<close>

fun by_own :: "byte_client \<Rightarrow> bool" where
  "by_own (ByWrite u p) = (p \<noteq> BwCas)" | "by_own ByWCrit = True" | "by_own ByWUnlock = True"
| "by_own (ByRead d p) = d" | "by_own _ = False"

text \<open>The slot numbers of the readers that a scanning writer has found gone.\<close>

fun by_passed :: "byte_client \<Rightarrow> uint \<Rightarrow> bool" where
  "by_passed (ByWrite u (BwScan i)) sl = (unat sl \<le> readers_size \<and> (unat sl - 1) div 8 < i)"
| "by_passed (ByWrite u BwCount) sl = (unat sl \<le> readers_size)"
| "by_passed (ByWrite u p) sl = False"
| "by_passed (ByRead d p) sl = d"
| "by_passed ByWCrit sl = True" | "by_passed ByWUnlock sl = True" | "by_passed _ sl = False"

fun by_counted :: "byte_client \<Rightarrow> bool" where
  "by_counted (ByRead d p) = (p = BrCheckN \<or> p = BrDec)" | "by_counted (ByRCrit n) = n" | "by_counted (ByRUnlock n) = n"
| "by_counted _ = False"

fun by_published :: "byte_client \<Rightarrow> bool" where
  "by_published (ByRead d p) = (p = BrDrop \<or> p = BrCheckS \<or> p = BrClear)" | "by_published (ByRCrit n) = (\<not> n)"
| "by_published (ByRUnlock n) = (\<not> n)" | "by_published _ = False"

text \<open>Which program points a thread with slot number \<open>sl\<close> can be at.\<close>

fun by_kind :: "uint \<Rightarrow> byte_client \<Rightarrow> bool" where
  "by_kind sl (ByWrite u p) = ((u \<or> p = BwClear \<longrightarrow> unat sl \<le> readers_size) \<and> (\<forall>i. p = BwScan i \<longrightarrow> i < 7))"
| "by_kind sl (ByRead d p) =
     (if d then unat sl \<le> readers_size \<and> p \<in> {BrLoad, BrOwn, BrDrop}
      else p = BrLoad \<or> (if unat sl > readers_size then p \<in> {BrInc, BrCheckN, BrDec, BrWaitN} else p \<in> {BrSet, BrCheckS, BrClear, BrWaitS}))"
| "by_kind sl (ByRCrit n) = (n = (unat sl > readers_size))"
| "by_kind sl (ByRUnlock n) = (n = (unat sl > readers_size))"
| "by_kind sl ByFault = False"
| "by_kind sl _ = True"

definition by_cell :: "uint \<Rightarrow> ck_bytelock \<Rightarrow> byte" where "by_cell sl bl = readers bl ! (unat sl - 1)"

definition by_raised :: "uint \<Rightarrow> ck_bytelock \<Rightarrow> bool" where
  "by_raised sl bl \<longleftrightarrow> (if unat sl \<le> readers_size then by_cell sl bl \<noteq> 0 else n_readers bl \<noteq> 0)"

definition by_aux :: "(nat \<Rightarrow> uint) \<Rightarrow> nat \<Rightarrow> (nat \<Rightarrow> byte_client) \<Rightarrow> ck_bytelock \<Rightarrow> bool" where
  "by_aux slot N ls s \<longleftrightarrow> length (readers s) = readers_size \<and> unat (n_readers s) = cnt N by_counted ls \<and>
     (\<forall>i<N. (by_own (ls i) \<longrightarrow> owner s = slot i) \<and> (by_published (ls i) \<longrightarrow> by_cell (slot i) s \<noteq> 0) \<and>
       by_kind (slot i) (ls i))"

text \<open>The slot numbers must not be zero and must tell the threads apart.\<close>

definition by_fits :: "(nat \<Rightarrow> uint) \<Rightarrow> nat \<Rightarrow> bool" where
  "by_fits slot N \<longleftrightarrow> N < 2 ^ 32 \<and> inj_on slot {..<N} \<and> (\<forall>i<N. slot i \<noteq> 0)"

text \<open>The effect of a step on each part of the lock.\<close>

definition by_pre :: "(nat \<Rightarrow> uint) \<Rightarrow> nat \<Rightarrow> byte_client \<Rightarrow> ck_bytelock \<Rightarrow> bool" where
  "by_pre slot t l s \<longleftrightarrow> by_kind (slot t) l \<and> slot t \<noteq> 0 \<and> (owner s = slot t \<longleftrightarrow> by_own l) \<and> length (readers s) = readers_size"

lemmas by_defs = by_pre_def ck_bytelock_write_unlock_def ck_bytelock_read_unlock_def store_reader_def pr_simps Let_def word_le_nat_alt word_less_nat_alt

lemma slot_index: "sl \<noteq> 0 \<Longrightarrow> unat (sl - 1 :: uint) = unat sl - 1" "sl \<noteq> 0 \<Longrightarrow> unat (sl :: uint) \<le> 56 \<Longrightarrow> unat sl - 1 < 56"
  "sl \<noteq> 0 \<Longrightarrow> 0 < unat (sl :: uint)"
  using unat_dec_pos [of sl] by (auto simp: unat_gt_0)

lemma byte_effect:
  assumes "by_pre slot t l s" "byte_move slot c t l s = (l', s')"
  shows "(by_kind (slot t) l' \<and> length (readers s') = readers_size) \<and>
    (by_own l' = by_own l \<and> owner s' = owner s \<or> by_own l' \<and> \<not> by_own l \<and> owner s = 0 \<and> owner s' = slot t \<or>
       by_own l \<and> \<not> by_own l' \<and> owner s' = 0) \<and>
    (by_counted l' = by_counted l \<and> n_readers s' = n_readers s \<or>
       by_counted l' \<and> \<not> by_counted l \<and> n_readers s' = n_readers s + 1 \<or>
       by_counted l \<and> \<not> by_counted l' \<and> n_readers s' = n_readers s - 1) \<and>
    (readers s' = readers s \<and> (by_published l' \<longrightarrow> by_published l) \<or>
       unat (slot t) \<le> readers_size \<and> (\<exists>v. readers s' = (readers s)[unat (slot t) - 1 := v] \<and> (by_published l' \<longrightarrow> v \<noteq> 0))) \<and>
    (byte_reading l' \<and> \<not> byte_reading l \<longrightarrow> owner s' = 0)"
proof (cases l)
  case (ByWrite u p)
  then show ?thesis using assms slot_index [of "slot t"] by (cases p) (auto simp: by_defs split: if_splits)
next
  case (ByRead d p)
  then show ?thesis using assms slot_index [of "slot t"] by (cases p) (auto simp: by_defs split: if_splits)
qed (use assms slot_index [of "slot t"] in \<open>auto simp: by_defs split: if_splits\<close>)

lemmas byte_kind = byte_effect [THEN conjunct1]
lemmas byte_owner = byte_effect [THEN conjunct2, THEN conjunct1]
lemmas byte_count = byte_effect [THEN conjunct2, THEN conjunct2, THEN conjunct1]
lemmas byte_cells = byte_effect [THEN conjunct2, THEN conjunct2, THEN conjunct2, THEN conjunct1]
lemmas byte_admit = byte_effect [THEN conjunct2, THEN conjunct2, THEN conjunct2, THEN conjunct2]

text \<open>A word that reads as zero has eight clear bytes.\<close>

lemma le_val_0: "le_val bs = 0 \<longleftrightarrow> (\<forall>b\<in>set bs. b = 0)"
  by (induction bs) (auto simp: unat_eq_0)

lemma load_le_val: "CK_BYTELOCK_LOAD i bl = of_nat (le_val (take 8 (drop (8 * i) (readers bl))))"
proof -
  have "foldr (\<lambda>b w. ucast b + 256 * w) bs 0 = (of_nat (le_val bs) :: uint64)" for bs by (induction bs) simp_all
  then show ?thesis by (simp add: CK_BYTELOCK_LOAD_def)
qed

lemma load_0: "CK_BYTELOCK_LOAD i bl = 0 \<longleftrightarrow> (\<forall>b\<in>set (take 8 (drop (8 * i) (readers bl))). b = 0)"
proof -
  let ?bs = "take 8 (drop (8 * i) (readers bl))"
  have "le_val ?bs < 256 ^ length ?bs" by (rule le_val_less)
  also have "(256 :: nat) ^ length ?bs \<le> 256 ^ 8" by (rule power_increasing) simp_all
  finally have "le_val ?bs < 2 ^ LENGTH(64)" by simp
  then have "(of_nat (le_val ?bs) :: uint64) = of_nat 0 \<longleftrightarrow> le_val ?bs = 0" by (intro of_nat_small_eq) simp_all
  then show ?thesis by (simp add: load_le_val le_val_0)
qed

lemma load_clear:
  assumes "CK_BYTELOCK_LOAD i bl = 0" "length (readers bl) = readers_size" "k div 8 = i" "k < readers_size"
  shows "readers bl ! k = 0"
proof -
  have k: "k = 8 * i + k mod 8" using assms(3) mult_div_mod_eq [of 8 k] by simp
  have "drop (8 * i) (readers bl) ! (k mod 8) = readers bl ! k" using assms k by (subst nth_drop) simp_all
  then have n: "take 8 (drop (8 * i) (readers bl)) ! (k mod 8) = readers bl ! k" by simp
  have "k mod 8 < length (take 8 (drop (8 * i) (readers bl)))" using assms(2,4) k by simp
  then have "readers bl ! k \<in> set (take 8 (drop (8 * i) (readers bl)))" unfolding n [symmetric] by (rule nth_mem)
  then show ?thesis using assms(1) unfolding load_0 by blast
qed

lemma byte_passed:
  assumes pre: "by_pre slot t l s" and mv: "byte_move slot c t l s = (l', s')" and sl: "by_passed l' sl"
  shows "by_passed l sl \<or> \<not> by_raised sl s"
proof (cases l)
  case (ByWrite u p)
  show ?thesis
  proof (cases p)
    case (BwScan i)
    have "by_cell sl s = 0" if "CK_BYTELOCK_LOAD i s = 0" "(unat sl - 1) div 8 = i" "unat sl \<le> readers_size"
      unfolding by_cell_def by (rule load_clear [OF that(1) _ that(2)]) (use pre that in \<open>auto simp: by_pre_def\<close>)
    moreover have "unat sl \<le> readers_size \<Longrightarrow> (unat sl - 1) div 8 < 7" by simp
    ultimately show ?thesis using pre mv sl ByWrite BwScan
      by (fastforce simp: by_defs by_raised_def less_Suc_eq split: if_splits)
  qed (use pre mv sl ByWrite in \<open>auto simp: by_defs by_raised_def split: if_splits\<close>)
next
  case (ByRead d p)
  then show ?thesis using pre mv sl by (cases p) (auto simp: by_defs split: if_splits)
qed (use pre mv sl in \<open>auto simp: by_defs split: if_splits\<close>)

text \<open>The invariant.\<close>

lemma by_auxD:
  assumes "by_aux slot N ls s" "i < N"
  shows "by_own (ls i) \<Longrightarrow> owner s = slot i" "by_published (ls i) \<Longrightarrow> by_cell (slot i) s \<noteq> 0" "by_kind (slot i) (ls i)"
    "length (readers s) = readers_size" "unat (n_readers s) = cnt N by_counted ls"
  using assms by (auto simp: by_aux_def)

lemma by_pre_holds:
  assumes f: "by_fits slot N" and c: "cnt N by_own ls = of_bool (owner s \<noteq> 0)" and a: "by_aux slot N ls s" and t: "t < N"
  shows "by_pre slot t (ls t) s"
proof -
  have n: "slot t \<noteq> 0" using f t by (auto simp: by_fits_def)
  have "by_own (ls t)" if o: "owner s = slot t"
  proof -
    have "cnt N by_own ls \<noteq> 0" using c o n by simp
    then obtain i where i: "i < N" "by_own (ls i)" by (auto simp: cnt_0)
    then have "slot i = slot t" using by_auxD(1) [OF a i(1)] o by simp
    then have "i = t" using f i t by (auto simp: by_fits_def inj_on_def)
    with i show ?thesis by simp
  qed
  then show ?thesis using n by_auxD [OF a t] by (auto simp: by_pre_def)
qed

lemma by_aux_step:
  assumes f: "by_fits slot N" and c: "cnt N by_own ls = of_bool (owner s \<noteq> 0)" and a: "by_aux slot N ls s"
    and t: "t < N" and st: "byte_step slot t (ls t) s l' s'"
  shows "by_aux slot N (ls(t := l')) s'"
proof -
  obtain b where mv: "byte_move slot b t (ls t) s = (l', s')" using st by (auto simp: byte_step_def)
  note pre = by_pre_holds [OF f c a t]
  note k = byte_kind [OF pre mv] and o = byte_owner [OF pre mv] and n = byte_count [OF pre mv] and r = byte_cells [OF pre mv]
  have "unat (n_readers s') = cnt N by_counted (ls(t := l'))"
    using n
  proof (elim disjE conjE)
    assume e: "by_counted l'" "\<not> by_counted (ls t)" "n_readers s' = n_readers s + 1"
    have "unat (n_readers s) < 2 ^ 32 - 1"
      using cnt_lt [of t N by_counted ls] e(2) t f by_auxD(5) [OF a t] by (auto simp: by_fits_def)
    then show ?thesis using unat_inc_small [of "n_readers s"] e t by_auxD(5) [OF a t] by simp
  next
    assume e: "by_counted (ls t)" "\<not> by_counted l'" "n_readers s' = n_readers s - 1"
    have "0 < unat (n_readers s)" using cnt_pos [of t N by_counted ls] e(1) t by_auxD(5) [OF a t] by simp
    then show ?thesis using unat_dec_pos [of "n_readers s"] e t by_auxD(5) [OF a t] by simp
  qed (use t by_auxD(5) [OF a t] in simp)
  moreover have "by_own ((ls(t := l')) i) \<longrightarrow> owner s' = slot i" if i: "i < N" for i
  proof (cases "i = t")
    case True
    then show ?thesis using o by_auxD(1) [OF a t] by auto
  next
    case False
    have "by_own (ls i) \<Longrightarrow> owner s \<noteq> 0 \<and> \<not> by_own (ls t)"
      using c cnt_pos [OF i, of by_own ls] cnt_le1 [of N by_own ls i t] i t False by (cases "owner s = 0") auto
    then show ?thesis using o by_auxD(1) [OF a i] False by auto
  qed
  moreover have "by_published ((ls(t := l')) i) \<longrightarrow> by_cell (slot i) s' \<noteq> 0" if i: "i < N" for i
  proof (cases "i = t")
    case True
    then show ?thesis
      using r by_auxD(2,4) [OF a t] slot_index(2) [of "slot t"] pre by (auto simp: by_cell_def by_pre_def)
  next
    case False
    have "unat (slot i) \<noteq> unat (slot t)" "slot i \<noteq> 0" "slot t \<noteq> 0"
      using f i t False by (auto simp: by_fits_def inj_on_def word_unat_eq_iff [symmetric])
    then have "unat (slot i) - 1 \<noteq> unat (slot t) - 1"
      using slot_index(3) [of "slot i"] slot_index(3) [of "slot t"] by auto
    then have "by_cell (slot i) s' = by_cell (slot i) s" using r by (auto simp: by_cell_def)
    then show ?thesis using by_auxD(2) [OF a i] False by simp
  qed
  moreover have "by_kind (slot i) ((ls(t := l')) i)" if "i < N" for i using k by_auxD(3) [OF a that] by simp
  ultimately show ?thesis using k by (auto simp: by_aux_def)
qed

interpretation bytelock: scan_lock "byte_step slot" ByIdle ck_bytelock_init "by_fits slot" by_own "\<lambda>s. owner s \<noteq> 0"
  "\<lambda>s l j. by_passed l (slot j)" byte_reading "\<lambda>j. by_raised (slot j)" byte_reading byte_writing "by_aux slot" for slot
proof unfold_locales
  fix N ls s t l' s'
  assume f: "by_fits slot N" and c: "cnt N by_own ls = of_bool (owner s \<noteq> 0)" and a: "by_aux slot N ls s" and t: "t < N"
    and st: "byte_step slot t (ls t) s l' s'"
  obtain b where mv: "byte_move slot b t (ls t) s = (l', s')" using st by (auto simp: byte_step_def)
  note pre = by_pre_holds [OF f c a t]
  show "by_aux slot N (ls(t := l')) s'" by (rule by_aux_step [OF f c a t st])
  show "scan_law by_own (\<lambda>s. owner s \<noteq> 0) (\<lambda>s l j. by_passed l (slot j)) byte_reading (\<lambda>j. by_raised (slot j)) t (ls t) s l' s'"
    using byte_owner [OF pre mv] byte_admit [OF pre mv] byte_passed [OF pre mv] pre
    unfolding scan_law_def by_pre_def by metis
next
  fix N ls s j
  assume f: "by_fits slot N" and a: "by_aux slot N ls s" and j: "j < N" "byte_reading (ls j)"
  then obtain n where n: "ls j = ByRCrit n" by (cases "ls j") auto
  show "by_raised (slot j) s"
  proof (cases n)
    case True
    then have "0 < unat (n_readers s)" using cnt_pos [of j N by_counted ls] j n by_auxD(5) [OF a j(1)] by simp
    then show ?thesis using by_auxD(3) [OF a j(1)] n True by (auto simp: by_raised_def)
  next
    case False
    then show ?thesis using by_auxD(2,3) [OF a j(1)] n by (auto simp: by_raised_def)
  qed
next
  fix s :: ck_bytelock and l j
  show "by_own l" if "by_passed l (slot j)" using that by (cases "(l, slot j)" rule: by_passed.cases) auto
  show "by_own l \<and> by_passed l (slot j)" if "byte_writing l" using that by (cases l) auto
  show "\<not> byte_reading l" if "byte_writing l" using that by (cases l) auto
qed (simp_all add: ck_bytelock_init_def by_aux_def cnt_0)

text \<open>Claim C10: when the slot numbers of the threads are distinct and not zero, in every interleaving of
  read locks, write locks, upgrades, downgrades and releases of a \<open>ck_bytelock\<close>, by threads with and
  without a slot, a thread that writes is the only writer and there is no reader; and no
  thread stores outside the array of slots.\<close>

theorem bytelock_exclusion:
  assumes "reachable (byte_step slot) N (\<lambda>_. ByIdle) ck_bytelock_init ls s"
    and "N < 2 ^ 32" and "inj_on slot {..<N}" and "\<forall>i<N. slot i \<noteq> 0" and "i < N"
  shows "ls i \<noteq> ByFault \<and>
    (byte_writing (ls i) \<longrightarrow> {j. j < N \<and> byte_writing (ls j)} = {i} \<and> {j. j < N \<and> byte_reading (ls j)} = {})"
proof -
  have f: "by_fits slot N" using assms(2-4) by (simp add: by_fits_def)
  have "by_aux slot N ls s" using bytelock.reachable_inv [OF assms(1) f] by blast
  then have "ls i \<noteq> ByFault" using by_auxD(3) [OF _ assms(5)] by fastforce
  then show ?thesis using bytelock.writers_exclude [OF assms(1) f assms(5)] by blast
qed

text \<open>Thread 0 has slot 3 and reads, thread 1 has none: it writes when thread 0 is gone.\<close>

definition byte_ex :: "(nat \<Rightarrow> byte_client) \<times> ck_bytelock" where
  "byte_ex = move_run (byte_move (\<lambda>t. if t = 0 then 3 else CK_BYTELOCK_UNSLOTTED))
     ([(0, True), (0, True), (0, True), (0, True), (1, False), (1, False), (1, False), (0, False), (0, False)] @
      replicate 8 (1, False)) (\<lambda>_. ByIdle, ck_bytelock_init)"

lemma byte_ex_run: "byte_writing (fst byte_ex 1)" "\<not> byte_reading (fst byte_ex 0)"
  by code_simp+

theorem bytelock_exclusion_witness:
  "fst byte_ex 1 \<noteq> ByFault \<and> {j. j < 2 \<and> byte_writing (fst byte_ex j)} = {1} \<and> {j. j < 2 \<and> byte_reading (fst byte_ex j)} = {}"
proof -
  let ?slot = "\<lambda>t :: nat. if t = 0 then 3 else CK_BYTELOCK_UNSLOTTED"
  have r: "reachable (byte_step ?slot) 2 (\<lambda>_. ByIdle) ck_bytelock_init (fst byte_ex) (snd byte_ex)"
    unfolding byte_ex_def
    by (rule move_run_reachable [OF _ _ reachable.start]) (auto simp: byte_step_def list_all_iff)
  have "inj_on ?slot {..<2}" by (auto simp: inj_on_def CK_BYTELOCK_UNSLOTTED_def less_2_cases_iff)
  then show ?thesis using bytelock_exclusion [OF r, of 1] byte_ex_run by (simp add: CK_BYTELOCK_UNSLOTTED_def)
qed

text \<open>Two threads without a slot do not have distinct numbers when both pass \<open>CK_BYTELOCK_UNSLOTTED\<close>. The reader then
  takes the writer for itself, stores outside the array and, if that store does no harm, would release
  the lock that the other thread holds.\<close>

definition unslotted_ex :: "(nat \<Rightarrow> byte_client) \<times> ck_bytelock" where
  "unslotted_ex = move_run (byte_move (\<lambda>_. CK_BYTELOCK_UNSLOTTED))
     (replicate 10 (0, False) @ [(1, True), (1, True), (1, True)]) (\<lambda>_. ByIdle, ck_bytelock_init)"

lemma unslotted_fault:
  "byte_writing (fst unslotted_ex 0) \<and> fst unslotted_ex 1 = ByFault"
  by code_simp

end
