(* ===== verification/Brlock.thy ===== *)
theory Brlock
  imports CkPr ScanLock
begin

text \<open>
  The big-reader lock, \<^verbatim>\<open>ck_brlock.h\<close>: every reading thread has a counter of its own, registered in a
  doubly-linked list; a writer raises the flag of the lock and then walks the list and waits at every
  counter. The list changes only under the lock: a thread that registers or unregisters is a
  writer for that time. A read lock may be taken again by the thread that has it.
\<close>

section \<open>Data\<close>

text \<open>The reader objects are in memory field by field (\<open>n_readers\<close>, \<open>previous\<close> and \<open>next\<close> of \<open>struct ck_brlock_reader\<close>); the address
  of an object is a number, \<open>None\<close> the null pointer. The other two fields are those of \<open>struct ck_brlock\<close>.\<close>

record ck_brlock =
  br_readers :: "nat option"
  br_writer :: uint
  n_readers :: "nat \<Rightarrow> uint"
  br_previous :: "nat \<Rightarrow> nat option"
  br_next :: "nat \<Rightarrow> nat option"

text \<open>\<open>ck_brlock_init\<close> sets the fields of the lock; what the memory of the reader objects holds does not matter.\<close>

definition ck_brlock_init :: "ck_brlock \<Rightarrow> ck_brlock" where
  "ck_brlock_init br = br\<lparr>br_readers := None, br_writer := 0\<rparr>"

section \<open>Writers\<close>

datatype br_write_pc = BwFas | BwHead | BwLoad nat | BwNext nat

fun ck_brlock_write_lock :: "br_write_pc \<Rightarrow> ck_brlock \<Rightarrow> (br_write_pc, unit) ctl \<times> ck_brlock" where
  "ck_brlock_write_lock BwFas br =
     (let (v, m) = ck_pr_fas (br_writer br) 1 in (if v = 1 then Go BwFas else Go BwHead, br\<lparr>br_writer := m\<rparr>))"
| "ck_brlock_write_lock BwHead br = (case br_readers br of None \<Rightarrow> Ret () | Some cursor \<Rightarrow> Go (BwLoad cursor), br)"
| "ck_brlock_write_lock (BwLoad cursor) br =
     (if ck_pr_load (n_readers br cursor) \<noteq> 0 then Go (BwLoad cursor) else Go (BwNext cursor), br)"
| "ck_brlock_write_lock (BwNext cursor) br = (case br_next br cursor of None \<Rightarrow> Ret () | Some cursor' \<Rightarrow> Go (BwLoad cursor'), br)"

definition ck_brlock_write_unlock :: "ck_brlock \<Rightarrow> ck_brlock" where
  "ck_brlock_write_unlock br = br\<lparr>br_writer := ck_pr_store (br_writer br) 0\<rparr>"

text \<open>The local variable \<open>steps\<close> of the trylocks travels in the program point.\<close>

datatype br_try_pc = BtFas uint | BtHead uint | BtLoad uint nat | BtNext uint nat | BtUnlock

fun ck_brlock_write_trylock :: "uint \<Rightarrow> br_try_pc \<Rightarrow> ck_brlock \<Rightarrow> (br_try_pc, bool) ctl \<times> ck_brlock" where
  "ck_brlock_write_trylock factor (BtFas steps) br =
     (let (v, m) = ck_pr_fas (br_writer br) 1
      in (if v = 1 then if steps + 1 \<ge> factor then Ret False else Go (BtFas (steps + 1)) else Go (BtHead steps), br\<lparr>br_writer := m\<rparr>))"
| "ck_brlock_write_trylock factor (BtHead steps) br =
     (case br_readers br of None \<Rightarrow> Ret True | Some cursor \<Rightarrow> Go (BtLoad steps cursor), br)"
| "ck_brlock_write_trylock factor (BtLoad steps cursor) br =
     (if ck_pr_load (n_readers br cursor) \<noteq> 0 then if steps + 1 \<ge> factor then Go BtUnlock else Go (BtLoad (steps + 1) cursor)
      else Go (BtNext steps cursor), br)"
| "ck_brlock_write_trylock factor (BtNext steps cursor) br =
     (case br_next br cursor of None \<Rightarrow> Ret True | Some cursor' \<Rightarrow> Go (BtLoad steps cursor'), br)"
| "ck_brlock_write_trylock factor BtUnlock br = (Ret False, ck_brlock_write_unlock br)"

section \<open>Registration\<close>

datatype br_register_pc = RgCount | RgPrevious | RgLock br_write_pc | RgNext | RgBack | RgHead | RgUnlock

fun ck_brlock_read_register :: "nat \<Rightarrow> br_register_pc \<Rightarrow> ck_brlock \<Rightarrow> (br_register_pc, unit) ctl \<times> ck_brlock" where
  "ck_brlock_read_register reader RgCount br = (Go RgPrevious, br\<lparr>n_readers := (n_readers br)(reader := 0)\<rparr>)"
| "ck_brlock_read_register reader RgPrevious br = (Go (RgLock BwFas), br\<lparr>br_previous := (br_previous br)(reader := None)\<rparr>)"
| "ck_brlock_read_register reader (RgLock p) br =
     (case ck_brlock_write_lock p br of (Go p', br') \<Rightarrow> (Go (RgLock p'), br') | (Ret _, br') \<Rightarrow> (Go RgNext, br'))"
| "ck_brlock_read_register reader RgNext br =
     (Go RgBack, br\<lparr>br_next := (br_next br)(reader := ck_pr_load (br_readers br))\<rparr>)"
| "ck_brlock_read_register reader RgBack br =
     (Go RgHead, case br_next br reader of None \<Rightarrow> br | Some x \<Rightarrow> br\<lparr>br_previous := (br_previous br)(x := Some reader)\<rparr>)"
| "ck_brlock_read_register reader RgHead br = (Go RgUnlock, br\<lparr>br_readers := ck_pr_store (br_readers br) (Some reader)\<rparr>)"
| "ck_brlock_read_register reader RgUnlock br = (Ret (), ck_brlock_write_unlock br)"

datatype br_unregister_pc = RuLock br_write_pc | RuBack | RuFwd | RuUnlock

fun ck_brlock_read_unregister :: "nat \<Rightarrow> br_unregister_pc \<Rightarrow> ck_brlock \<Rightarrow> (br_unregister_pc, unit) ctl \<times> ck_brlock" where
  "ck_brlock_read_unregister reader (RuLock p) br =
     (case ck_brlock_write_lock p br of (Go p', br') \<Rightarrow> (Go (RuLock p'), br') | (Ret _, br') \<Rightarrow> (Go RuBack, br'))"
| "ck_brlock_read_unregister reader RuBack br =
     (Go RuFwd, case br_next br reader of None \<Rightarrow> br
        | Some x \<Rightarrow> br\<lparr>br_previous := (br_previous br)(x := br_previous br reader)\<rparr>)"
| "ck_brlock_read_unregister reader RuFwd br =
     (Go RuUnlock, case br_previous br reader of None \<Rightarrow> br\<lparr>br_readers := br_next br reader\<rparr>
        | Some x \<Rightarrow> br\<lparr>br_next := (br_next br)(x := br_next br reader)\<rparr>)"
| "ck_brlock_read_unregister reader RuUnlock br = (Ret (), ck_brlock_write_unlock br)"

section \<open>Readers\<close>

datatype br_read_pc = RlNest | RlSpin | RlSet | RlCheck | RlClear

fun ck_brlock_read_lock :: "nat \<Rightarrow> br_read_pc \<Rightarrow> ck_brlock \<Rightarrow> (br_read_pc, unit) ctl \<times> ck_brlock" where
  "ck_brlock_read_lock reader RlNest br =
     (if n_readers br reader \<ge> 1 then (Ret (), br\<lparr>n_readers := (n_readers br)(reader := n_readers br reader + 1)\<rparr>)
      else (Go RlSpin, br))"
| "ck_brlock_read_lock reader RlSpin br = (if ck_pr_load (br_writer br) = 1 then Go RlSpin else Go RlSet, br)"
| "ck_brlock_read_lock reader RlSet br =
     (Go RlCheck, br\<lparr>n_readers := (n_readers br)(reader := snd (ck_pr_fas (n_readers br reader) 1))\<rparr>)"
| "ck_brlock_read_lock reader RlCheck br = (if ck_pr_load (br_writer br) = 0 then Ret () else Go RlClear, br)"
| "ck_brlock_read_lock reader RlClear br =
     (Go RlSpin, br\<lparr>n_readers := (n_readers br)(reader := ck_pr_store (n_readers br reader) 0)\<rparr>)"

datatype br_rtry_pc = RtNest | RtSpin uint | RtSet uint | RtCheck uint | RtClear uint

fun ck_brlock_read_trylock :: "nat \<Rightarrow> uint \<Rightarrow> br_rtry_pc \<Rightarrow> ck_brlock \<Rightarrow> (br_rtry_pc, bool) ctl \<times> ck_brlock" where
  "ck_brlock_read_trylock reader factor RtNest br =
     (if n_readers br reader \<ge> 1 then (Ret True, br\<lparr>n_readers := (n_readers br)(reader := n_readers br reader + 1)\<rparr>)
      else (Go (RtSpin 0), br))"
| "ck_brlock_read_trylock reader factor (RtSpin steps) br =
     (if ck_pr_load (br_writer br) = 1 then if steps + 1 \<ge> factor then Ret False else Go (RtSpin (steps + 1)) else Go (RtSet steps), br)"
| "ck_brlock_read_trylock reader factor (RtSet steps) br =
     (Go (RtCheck steps), br\<lparr>n_readers := (n_readers br)(reader := snd (ck_pr_fas (n_readers br reader) 1))\<rparr>)"
| "ck_brlock_read_trylock reader factor (RtCheck steps) br =
     (if ck_pr_load (br_writer br) = 0 then Ret True else Go (RtClear steps), br)"
| "ck_brlock_read_trylock reader factor (RtClear steps) br =
     (if steps + 1 \<ge> factor then Ret False else Go (RtSpin (steps + 1)),
      br\<lparr>n_readers := (n_readers br)(reader := ck_pr_store (n_readers br reader) 0)\<rparr>)"

definition ck_brlock_read_unlock :: "nat \<Rightarrow> ck_brlock \<Rightarrow> ck_brlock" where
  "ck_brlock_read_unlock reader br = br\<lparr>n_readers := (n_readers br)(reader := ck_pr_store (n_readers br reader) (n_readers br reader - 1))\<rparr>"

section \<open>Threads\<close>

text \<open>Thread \<open>t\<close> owns the reader object at address \<open>t\<close>. It may write at any time it does not read, and read when its object is
  registered (the flag of an idle or writing thread), with read locks nested as deep as the counter can count; the number of a
  reading thread is how many it has.\<close>

datatype br_client = BIdle bool | BWrite bool br_write_pc | BWTry bool uint br_try_pc | BWCrit bool | BWUnlock bool
  | BReg br_register_pc | BUnreg br_unregister_pc | BRead nat br_read_pc | BRTry nat uint br_rtry_pc | BRCrit nat | BRUnlock nat

datatype br_choice = ChWrite | ChTry uint | ChRegister | ChRead | ChTryRead uint

fun br_move :: "br_choice \<Rightarrow> nat \<Rightarrow> br_client \<Rightarrow> ck_brlock \<Rightarrow> br_client \<times> ck_brlock" where
  "br_move c t (BIdle r) s =
     (case c of ChWrite \<Rightarrow> BWrite r BwFas | ChTry factor \<Rightarrow> BWTry r factor (BtFas 0)
      | ChRegister \<Rightarrow> if r then BUnreg (RuLock BwFas) else BReg RgCount
      | ChRead \<Rightarrow> if r then BRead 0 RlNest else BIdle r
      | ChTryRead factor \<Rightarrow> if r then BRTry 0 factor RtNest else BIdle r, s)"
| "br_move c t (BWrite r p) s =
     (case ck_brlock_write_lock p s of (Go p', s') \<Rightarrow> (BWrite r p', s') | (Ret _, s') \<Rightarrow> (BWCrit r, s'))"
| "br_move c t (BWTry r factor p) s =
     (case ck_brlock_write_trylock factor p s of (Go p', s') \<Rightarrow> (BWTry r factor p', s')
      | (Ret ok, s') \<Rightarrow> (if ok then BWCrit r else BIdle r, s'))"
| "br_move c t (BWCrit r) s = (BWUnlock r, s)"
| "br_move c t (BWUnlock r) s = (BIdle r, ck_brlock_write_unlock s)"
| "br_move c t (BReg p) s =
     (case ck_brlock_read_register t p s of (Go p', s') \<Rightarrow> (BReg p', s') | (Ret _, s') \<Rightarrow> (BIdle True, s'))"
| "br_move c t (BUnreg p) s =
     (case ck_brlock_read_unregister t p s of (Go p', s') \<Rightarrow> (BUnreg p', s') | (Ret _, s') \<Rightarrow> (BIdle False, s'))"
| "br_move c t (BRead d p) s =
     (case ck_brlock_read_lock t p s of (Go p', s') \<Rightarrow> (BRead d p', s') | (Ret _, s') \<Rightarrow> (BRCrit (Suc d), s'))"
| "br_move c t (BRTry d factor p) s =
     (case ck_brlock_read_trylock t factor p s of (Go p', s') \<Rightarrow> (BRTry d factor p', s')
      | (Ret ok, s') \<Rightarrow> (if ok then BRCrit (Suc d) else BIdle True, s'))"
| "br_move c t (BRCrit d) s =
     (case c of ChRead \<Rightarrow> if n_readers s t + 1 \<noteq> 0 then BRead d RlNest else BRCrit d
      | ChTryRead factor \<Rightarrow> if n_readers s t + 1 \<noteq> 0 then BRTry d factor RtNest else BRCrit d
      | _ \<Rightarrow> BRUnlock d, s)"
| "br_move c t (BRUnlock d) s = (if d = 1 then BIdle True else BRCrit (d - 1), ck_brlock_read_unlock t s)"

definition br_step :: "nat \<Rightarrow> br_client \<Rightarrow> ck_brlock \<Rightarrow> br_client \<Rightarrow> ck_brlock \<Rightarrow> bool" where
  "br_step t l s l' s' \<longleftrightarrow> (\<exists>c. br_move c t l s = (l', s'))"

fun br_writing :: "br_client \<Rightarrow> bool" where "br_writing (BWCrit r) = True" | "br_writing _ = False"
fun br_reading :: "br_client \<Rightarrow> bool" where "br_reading (BRCrit d) = True" | "br_reading _ = False"

section \<open>What a thread holds\<close>

abbreviation scanning :: "br_write_pc \<Rightarrow> bool" where "scanning p \<equiv> p \<noteq> BwFas"

fun br_own :: "br_client \<Rightarrow> bool" where
  "br_own (BWrite r p) = scanning p"
| "br_own (BWTry r f p) = (case p of BtFas _ \<Rightarrow> False | _ \<Rightarrow> True)"
| "br_own (BWCrit r) = True"
| "br_own (BWUnlock r) = True"
| "br_own (BReg p) = (case p of RgCount \<Rightarrow> False | RgPrevious \<Rightarrow> False | RgLock q \<Rightarrow> scanning q | _ \<Rightarrow> True)"
| "br_own (BUnreg p) = (case p of RuLock q \<Rightarrow> scanning q | _ \<Rightarrow> True)"
| "br_own _ = False"

abbreviation link :: "ck_brlock \<Rightarrow> nat \<Rightarrow> nat \<Rightarrow> bool" where
  "link s a b \<equiv> br_next s a = Some b"

text \<open>A writer at a cursor has passed what it can no longer come to.\<close>

fun scan_passed :: "ck_brlock \<Rightarrow> br_write_pc \<Rightarrow> nat \<Rightarrow> bool" where
  "scan_passed s (BwLoad x) j = (\<not> (link s)\<^sup>*\<^sup>* x j)"
| "scan_passed s (BwNext x) j = (\<not> (link s)\<^sup>+\<^sup>+ x j)"
| "scan_passed s _ j = False"

fun br_passed :: "ck_brlock \<Rightarrow> br_client \<Rightarrow> nat \<Rightarrow> bool" where
  "br_passed s (BWrite r p) j = scan_passed s p j"
| "br_passed s (BWTry r f p) j =
     (case p of BtLoad _ x \<Rightarrow> scan_passed s (BwLoad x) j | BtNext _ x \<Rightarrow> scan_passed s (BwNext x) j | _ \<Rightarrow> False)"
| "br_passed s (BWCrit r) j = True"
| "br_passed s (BWUnlock r) j = True"
| "br_passed s (BReg p) j = (case p of RgCount \<Rightarrow> False | RgPrevious \<Rightarrow> False | RgLock q \<Rightarrow> scan_passed s q j | _ \<Rightarrow> True)"
| "br_passed s (BUnreg p) j = (case p of RuLock q \<Rightarrow> scan_passed s q j | _ \<Rightarrow> True)"
| "br_passed s _ j = False"

definition br_raised :: "nat \<Rightarrow> ck_brlock \<Rightarrow> bool" where
  "br_raised j s \<longleftrightarrow> (\<exists>h. br_readers s = Some h \<and> (link s)\<^sup>*\<^sup>* h j) \<and> n_readers s j \<noteq> 0"

fun br_admitted :: "br_client \<Rightarrow> bool" where
  "br_admitted (BRead d p) = (0 < d)" | "br_admitted (BRTry d f p) = (0 < d)"
| "br_admitted (BRCrit d) = True" | "br_admitted (BRUnlock d) = True" | "br_admitted _ = False"

text \<open>Whose object is in the list, and what its counter holds.\<close>

fun br_listed :: "br_client \<Rightarrow> bool" where
  "br_listed (BIdle r) = r" | "br_listed (BWrite r p) = r" | "br_listed (BWTry r f p) = r" | "br_listed (BWCrit r) = r"
| "br_listed (BWUnlock r) = r" | "br_listed (BReg p) = (p = RgUnlock)" | "br_listed (BUnreg p) = (p \<noteq> RuUnlock)" | "br_listed _ = True"

fun br_depth :: "br_client \<Rightarrow> nat" where
  "br_depth (BRead d p) = (if d = 0 \<and> (p = RlCheck \<or> p = RlClear) then 1 else d)"
| "br_depth (BRTry d f p) = (if d = 0 \<and> (case p of RtCheck _ \<Rightarrow> True | RtClear _ \<Rightarrow> True | _ \<Rightarrow> False) then 1 else d)"
| "br_depth (BRCrit d) = d"
| "br_depth (BRUnlock d) = d"
| "br_depth _ = 0"

fun br_local :: "nat \<Rightarrow> br_client \<Rightarrow> ck_brlock \<Rightarrow> bool" where
  "br_local t (BReg p) s = ((p \<noteq> RgCount \<longrightarrow> n_readers s t = 0) \<and>
     (p = RgNext \<or> p = RgBack \<or> (\<exists>q. p = RgLock q) \<longrightarrow> br_previous s t = None))"
| "br_local t l s = ((br_listed l \<longrightarrow> n_readers s t = of_nat (br_depth l)) \<and> br_depth l < 2 ^ 32 \<and>
     (case l of BRead d p \<Rightarrow> (0 < d \<longrightarrow> p = RlNest) \<and> Suc d < 2 ^ 32 | BRTry d f p \<Rightarrow> (0 < d \<longrightarrow> p = RtNest) \<and> Suc d < 2 ^ 32
      | BRCrit d \<Rightarrow> 0 < d | BRUnlock d \<Rightarrow> 0 < d | _ \<Rightarrow> True))"

section \<open>A step\<close>

lemma scan_step_passed:
  assumes "ck_brlock_write_lock p s = (x, s')" "br_writer s \<in> {0, 1}"
  shows "s' = s\<lparr>br_writer := br_writer s'\<rparr>"
    and "p \<noteq> BwFas \<Longrightarrow> br_writer s' = br_writer s"
    and "p = BwFas \<Longrightarrow> br_writer s' = 1 \<and> (x = Go BwFas \<and> br_writer s = 1 \<or> x = Go BwHead \<and> br_writer s = 0)"
    and "p \<noteq> BwFas \<Longrightarrow> x = Go q \<Longrightarrow> q \<noteq> BwFas"
    and "x = Go q \<Longrightarrow> scan_passed s' q j \<Longrightarrow> scan_passed s p j \<or> \<not> br_raised j s"
    and "x = Ret () \<Longrightarrow> scan_passed s p j \<or> \<not> br_raised j s"
  using assms by (cases p; auto simp: pr_simps br_raised_def split: option.splits if_splits
      dest: tranclpD rtranclpD)+

text \<open>The effect of a step of thread \<open>t\<close> on each part of the lock.\<close>

lemmas br_defs = pr_simps ck_brlock_write_unlock_def ck_brlock_read_unlock_def

lemma of_nat_uint_0: "n < 2 ^ 32 \<Longrightarrow> (of_nat n :: uint) = 0 \<longleftrightarrow> n = 0"
  using of_nat_small_eq [where 'w = 32, of n 0] by simp

lemma nest_room: "d < 2 ^ 32 \<Longrightarrow> of_nat d + 1 \<noteq> (0 :: uint) \<Longrightarrow> Suc d < 2 ^ 32"
proof (rule ccontr)
  assume d: "d < 2 ^ 32" and n: "of_nat d + 1 \<noteq> (0 :: uint)" and "\<not> Suc d < 2 ^ 32"
  then have "Suc d = 2 ^ 32" by simp
  then have "(of_nat (Suc d) :: uint) = 0" by (simp add: word_of_nat_eq_0_iff del: of_nat_Suc)
  then show False using n by (simp add: add.commute)
qed

lemma less_1_uint: "1 \<le> (w :: uint) \<longleftrightarrow> w \<noteq> 0"
  using word_less_1 [of w] by (auto simp: not_le [symmetric])

lemma br_effect:
  assumes "br_writer s \<in> {0, 1}" "br_move c t l s = (l', s')" "br_own l \<Longrightarrow> br_writer s = 1" "br_local t l s"
  shows "(br_own l' = br_own l \<and> br_writer s' = br_writer s \<or> br_own l' \<and> \<not> br_own l \<and> br_writer s = 0 \<and> br_writer s' = 1 \<or>
      br_own l \<and> \<not> br_own l' \<and> br_writer s' = 0) \<and>
    br_local t l' s' \<and> (\<forall>x. x \<noteq> t \<longrightarrow> n_readers s' x = n_readers s x) \<and>
    (\<not> br_own l \<longrightarrow> br_next s' = br_next s \<and> br_readers s' = br_readers s \<and> br_listed l' = br_listed l \<and>
       (\<forall>x. x \<noteq> t \<or> br_listed l \<longrightarrow> br_previous s' x = br_previous s x)) \<and>
    (br_admitted l' \<and> \<not> br_admitted l \<longrightarrow> br_writer s' = 0)"
proof (cases l)
  case (BWrite r p)
  then show ?thesis using assms by (cases p) (auto simp: br_defs split: option.splits if_splits)
next
  case (BWTry r f p)
  then show ?thesis using assms by (cases p) (auto simp: br_defs split: option.splits if_splits)
next
  case (BReg p)
  show ?thesis
  proof (cases p)
    case (RgLock q)
    then show ?thesis using BReg assms by (cases q) (auto simp: br_defs split: option.splits if_splits)
  qed (use BReg assms in \<open>auto simp: br_defs split: option.splits\<close>)
next
  case (BUnreg p)
  show ?thesis
  proof (cases p)
    case (RuLock q)
    then show ?thesis using BUnreg assms by (cases q) (auto simp: br_defs split: option.splits if_splits)
  qed (use BUnreg assms in \<open>auto simp: br_defs split: option.splits\<close>)
next
  case (BRead d p)
  then show ?thesis using assms of_nat_uint_0 [of d]
    by (cases p) (auto simp: br_defs word_greater_zero_iff less_1_uint split: if_splits)
next
  case (BRTry d f p)
  then show ?thesis using assms of_nat_uint_0 [of d] by (cases p) (auto simp: br_defs less_1_uint split: if_splits)
next
  case (BRCrit d)
  then show ?thesis using assms nest_room [of d] by (auto split: br_choice.splits if_splits)
next
  case (BRUnlock d)
  then show ?thesis using assms by (cases d) (auto simp: br_defs split: if_splits)
qed (use assms in \<open>auto simp: br_defs split: br_choice.splits if_splits\<close>)

section \<open>The list\<close>

text \<open>The list goes forward from \<open>p\<close> through \<open>next\<close>, and back through \<open>previous\<close> to \<open>p\<close>.\<close>

fun chain :: "(nat \<Rightarrow> nat option) \<Rightarrow> nat option \<Rightarrow> nat list \<Rightarrow> bool" where
  "chain nx p [] = (p = None)"
| "chain nx p (x # xs) = (p = Some x \<and> chain nx (nx x) xs)"

fun backs :: "(nat \<Rightarrow> nat option) \<Rightarrow> nat option \<Rightarrow> nat list \<Rightarrow> bool" where
  "backs pv p [] = True"
| "backs pv p (x # xs) = (pv x = p \<and> backs pv (Some x) xs)"

abbreviation last_of :: "nat list \<Rightarrow> nat option" where
  "last_of A \<equiv> (if A = [] then None else Some (last A))"

lemma br_chain_upd [simp]: "x \<notin> set R \<Longrightarrow> chain (nx(x := v)) p R = chain nx p R"
  by (induction R arbitrary: p) auto

lemma backs_cong: "(\<And>x. x \<in> set R \<Longrightarrow> pv' x = pv x) \<Longrightarrow> backs pv' p R = backs pv p R"
  by (induction R arbitrary: p) auto

lemma backs_upd [simp]: "x \<notin> set R \<Longrightarrow> backs (pv(x := v)) p R = backs pv p R"
  by (rule backs_cong) auto

lemma br_backs_append: "backs pv p (A @ B) \<longleftrightarrow> backs pv p A \<and> backs pv (if A = [] then p else Some (last A)) B"
  by (induction A arbitrary: p) auto

lemma chain_reach: "chain (br_next s) (Some h) R \<Longrightarrow> x \<in> set R \<Longrightarrow> (link s)\<^sup>*\<^sup>* h x"
proof (induction R arbitrary: h)
  case (Cons y R)
  show ?case
  proof (cases "x = h")
    case False
    then have x: "x \<in> set R" and c: "chain (br_next s) (br_next s h) R" using Cons.prems by auto
    from x obtain h' where h': "br_next s h = Some h'" using c by (cases R) auto
    then have "(link s)\<^sup>*\<^sup>* h' x" using Cons.IH [of h'] c x by simp
    then show ?thesis using h' by (meson converse_rtranclp_into_rtranclp)
  qed simp
qed simp

lemma chain_at: "chain nx p (A @ t # B) \<Longrightarrow> chain nx (nx t) B"
  by (induction A arbitrary: p) auto

lemma chain_unlink:
  "chain nx p (A @ t # B) \<Longrightarrow> A \<noteq> [] \<Longrightarrow> distinct (A @ t # B) \<Longrightarrow> chain (nx(last A := nx t)) p (A @ B)"
proof (induction A arbitrary: p)
  case (Cons a A)
  show ?case
  proof (cases "A = []")
    case True
    then have "chain nx (nx t) B" using Cons.prems by simp
    then show ?thesis using Cons.prems True by (simp del: fun_upd_apply add: fun_upd_same)
  next
    case False
    then have "last A \<noteq> a" using Cons.prems last_in_set [OF False] by auto
    then show ?thesis using Cons False by simp
  qed
qed simp

definition br_dll :: "ck_brlock \<Rightarrow> nat list \<Rightarrow> bool" where
  "br_dll s R \<longleftrightarrow> chain (br_next s) (br_readers s) R \<and> backs (br_previous s) None R"

text \<open>While the owner of the lock changes the list, its links are ahead of it or behind.\<close>

definition br_shape :: "nat \<Rightarrow> br_client \<Rightarrow> ck_brlock \<Rightarrow> nat list \<Rightarrow> bool" where
  "br_shape t l s R \<longleftrightarrow> chain (br_next s) (br_readers s) R \<and>
     (if l = BReg RgBack \<or> l = BReg RgHead then br_next s t = br_readers s else True) \<and>
     (if l = BReg RgHead then backs (br_previous s) None (t # R)
      else if l = BUnreg RuFwd then \<exists>A B. R = A @ t # B \<and> backs (br_previous s) None (A @ B) \<and> br_previous s t = last_of A
      else backs (br_previous s) None R)"

lemma shape_dll: "l \<notin> {BReg RgBack, BReg RgHead, BUnreg RuFwd} \<Longrightarrow> br_shape t l s R = br_dll s R"
  by (auto simp: br_shape_def br_dll_def)

lemma shape_next: "br_dll s R \<Longrightarrow> t \<notin> set R \<Longrightarrow> br_shape t (BReg RgBack) (s\<lparr>br_next := (br_next s)(t := br_readers s)\<rparr>) R"
  by (simp add: br_shape_def br_dll_def)

lemma shape_back:
  assumes "br_shape t (BReg RgBack) s R" "t \<notin> set R" "distinct R" "br_previous s t = None"
  shows "br_shape t (BReg RgHead) (case br_next s t of None \<Rightarrow> s | Some x \<Rightarrow> s\<lparr>br_previous := (br_previous s)(x := Some t)\<rparr>) R"
proof (cases R)
  case Nil
  then show ?thesis using assms by (auto simp: br_shape_def)
next
  case (Cons x xs)
  then show ?thesis using assms
    by (auto simp: br_shape_def)
qed

lemma shape_unback:
  assumes "br_dll s R" "t \<in> set R" "distinct R"
  shows "br_shape t (BUnreg RuFwd) (case br_next s t of None \<Rightarrow> s | Some x \<Rightarrow> s\<lparr>br_previous := (br_previous s)(x := br_previous s t)\<rparr>) R"
proof -
  obtain A B where R: "R = A @ t # B" using assms(2) by (meson split_list)
  have c: "chain (br_next s) (br_next s t) B" using assms(1) R chain_at by (auto simp: br_dll_def)
  have b: "backs (br_previous s) None A" "br_previous s t = last_of A" "backs (br_previous s) (Some t) B"
    using assms(1) R by (auto simp: br_dll_def br_backs_append)
  show ?thesis
  proof (cases B)
    case Nil
    then show ?thesis using assms(1) R c b by (auto simp: br_shape_def br_dll_def)
  next
    case (Cons x xs)
    let ?pv = "(br_previous s)(x := br_previous s t)"
    have "backs ?pv None A" "backs ?pv (Some x) xs"
      using b Cons assms(3) R by auto
    then have "backs ?pv None (A @ B)" using b Cons by (simp add: br_backs_append)
    moreover have "x \<noteq> t" using assms(3) R Cons by auto
    ultimately show ?thesis using assms(1) R c b Cons by (auto simp: br_shape_def br_dll_def)
  qed
qed

lemma shape_unlink:
  assumes "br_shape t (BUnreg RuFwd) s R" "distinct R"
  shows "br_dll (case br_previous s t of None \<Rightarrow> s\<lparr>br_readers := br_next s t\<rparr>
      | Some x \<Rightarrow> s\<lparr>br_next := (br_next s)(x := br_next s t)\<rparr>) (removeAll t R)"
proof -
  obtain A B where R: "R = A @ t # B" and b: "backs (br_previous s) None (A @ B)" "br_previous s t = last_of A"
    and c: "chain (br_next s) (br_readers s) (A @ t # B)" using assms(1) by (auto simp: br_shape_def)
  have "removeAll t R = A @ B" using R assms(2) by simp
  then show ?thesis using b c R assms(2) chain_unlink [of "br_next s" "br_readers s" A t B] by (auto simp: br_dll_def)
qed

text \<open>A step of the owner. \<open>br_list\<close> is what the list becomes.\<close>

definition br_list :: "nat \<Rightarrow> br_client \<Rightarrow> br_client \<Rightarrow> nat list \<Rightarrow> nat list" where
  "br_list t l l' R = (if br_listed l' = br_listed l then R else if br_listed l' then t # R else removeAll t R)"

abbreviation br_held :: "nat \<Rightarrow> br_client \<Rightarrow> ck_brlock \<Rightarrow> nat list \<Rightarrow> bool" where
  "br_held t l s R \<equiv> (if br_own l then br_shape t l s R else br_dll s R)"

lemma dll_writer [simp]: "br_dll (s\<lparr>br_writer := v\<rparr>) R = br_dll s R"
  by (simp add: br_dll_def)

lemma owner_list:
  assumes own: "br_own l" and sh: "br_shape t l s R" and d: "distinct R" and t: "t \<in> set R \<longleftrightarrow> br_listed l" and lo: "br_local t l s"
    and mv: "br_move c t l s = (l', s')"
  shows "br_held t l' s' (br_list t l l' R) \<and> (\<forall>x. x \<noteq> t \<and> x \<notin> set R \<longrightarrow> br_previous s' x = br_previous s x)"
proof (cases l)
  case (BWrite r p)
  then show ?thesis using assms by (cases p) (auto simp: br_list_def br_defs shape_dll split: option.splits if_splits)
next
  case (BWTry r f p)
  then show ?thesis using assms by (cases p) (auto simp: br_list_def br_defs shape_dll split: option.splits if_splits)
next
  case (BReg p)
  show ?thesis
  proof (cases p)
    case (RgLock q)
    then show ?thesis using BReg assms by (cases q) (auto simp: br_list_def br_defs shape_dll split: option.splits if_splits)
  next
    case RgNext
    then show ?thesis using BReg assms shape_next [of s R t] by (auto simp: br_list_def br_defs shape_dll)
  next
    case RgBack
    have l: "l = BReg RgBack" using BReg RgBack by simp
    then have s': "l' = BReg RgHead" "s' = (case br_next s t of None \<Rightarrow> s | Some x \<Rightarrow> s\<lparr>br_previous := (br_previous s)(x := Some t)\<rparr>)"
      using mv by simp_all
    have "br_shape t l' s' R" unfolding s' using sh d t lo l by (intro shape_back) auto
    moreover have "x \<in> set R" if "br_next s t = Some x" for x using sh l that by (cases R) (auto simp: br_shape_def)
    then have "\<forall>x. x \<noteq> t \<and> x \<notin> set R \<longrightarrow> br_previous s' x = br_previous s x" unfolding s' by (auto split: option.splits)
    ultimately show ?thesis using l s'(1) by (simp add: br_list_def)
  next
    case RgHead
    then show ?thesis using BReg assms by (auto simp: br_list_def br_defs br_shape_def)
  qed (use BReg assms in \<open>auto simp: br_list_def br_defs shape_dll\<close>)
next
  case (BUnreg p)
  show ?thesis
  proof (cases p)
    case (RuLock q)
    then show ?thesis using BUnreg assms by (cases q) (auto simp: br_list_def br_defs shape_dll split: option.splits if_splits)
  next
    case RuBack
    have l: "l = BUnreg RuBack" using BUnreg RuBack by simp
    then have s': "l' = BUnreg RuFwd"
        "s' = (case br_next s t of None \<Rightarrow> s | Some x \<Rightarrow> s\<lparr>br_previous := (br_previous s)(x := br_previous s t)\<rparr>)"
      using mv by simp_all
    have dl: "br_dll s R" using sh l by (simp add: shape_dll)
    have "br_shape t l' s' R" unfolding s' using dl d t l by (intro shape_unback) auto
    moreover have "x \<in> set R" if "br_next s t = Some x" for x
    proof -
      obtain A B where R: "R = A @ t # B" using t l by (auto dest: split_list)
      then show ?thesis using dl that chain_at [of "br_next s" _ A t B] by (cases B) (auto simp: br_dll_def)
    qed
    then have "\<forall>x. x \<noteq> t \<and> x \<notin> set R \<longrightarrow> br_previous s' x = br_previous s x" unfolding s' by (auto split: option.splits)
    ultimately show ?thesis using l s'(1) by (simp add: br_list_def)
  next
    case RuFwd
    then show ?thesis using BUnreg assms shape_unlink [of t s R] by (auto simp: br_list_def shape_dll split: option.splits)
  qed (use BUnreg assms in \<open>auto simp: br_list_def br_defs shape_dll\<close>)
qed (use assms in \<open>auto simp: br_list_def br_defs shape_dll\<close>)

section \<open>Exclusion\<close>

definition br_listing :: "nat \<Rightarrow> (nat \<Rightarrow> br_client) \<Rightarrow> ck_brlock \<Rightarrow> nat list \<Rightarrow> bool" where
  "br_listing N ls s R \<longleftrightarrow> distinct R \<and> set R = {i. i < N \<and> br_listed (ls i)} \<and>
     (\<forall>i<N. br_own (ls i) \<longrightarrow> br_shape i (ls i) s R) \<and> ((\<forall>i<N. \<not> br_own (ls i)) \<longrightarrow> br_dll s R)"

definition br_aux :: "nat \<Rightarrow> (nat \<Rightarrow> br_client) \<Rightarrow> ck_brlock \<Rightarrow> bool" where
  "br_aux N ls s \<longleftrightarrow> br_writer s \<in> {0, 1} \<and> (\<forall>i<N. br_local i (ls i) s) \<and> (\<exists>R. br_listing N ls s R)"

lemma listing_chain: "br_listing N ls s R \<Longrightarrow> chain (br_next s) (br_readers s) R"
  unfolding br_listing_def br_shape_def br_dll_def by blast

lemma local_frame:
  "br_local i l s \<Longrightarrow> n_readers s' i = n_readers s i \<Longrightarrow> br_listed l \<or> br_previous s' i = br_previous s i \<Longrightarrow> br_local i l s'"
  by (cases l) auto

lemma shape_frame:
  assumes "br_next s' = br_next s" "br_readers s' = br_readers s" "\<And>x. x \<in> insert i (set R) \<Longrightarrow> br_previous s' x = br_previous s x"
  shows "br_shape i l s' R = br_shape i l s R" "br_dll s' R = br_dll s R"
proof -
  have b: "backs (br_previous s') p A = backs (br_previous s) p A" if "set A \<subseteq> insert i (set R)" for p A
    using assms(3) that by (intro backs_cong) auto
  show "br_dll s' R = br_dll s R" using assms b [of R] by (auto simp: br_dll_def)
  have eb: "R = A @ i # B \<Longrightarrow> backs (br_previous s') None (A @ B) = backs (br_previous s) None (A @ B)" for A B by (rule b) auto
  have e: "(\<exists>A B. R = A @ i # B \<and> backs (br_previous s') None (A @ B) \<and> br_previous s' i = last_of A) =
     (\<exists>A B. R = A @ i # B \<and> backs (br_previous s) None (A @ B) \<and> br_previous s i = last_of A)"
    by (intro ex_cong1 conj_cong refl) (erule eb, simp add: assms(3))
  show "br_shape i l s' R = br_shape i l s R"
    unfolding br_shape_def e assms(1,2) by (simp add: b [of R] assms(3) subset_insertI)
qed

text \<open>A step of a thread without the lock changes no link, but may take the lock.\<close>

lemma listing_outside:
  assumes L: "br_listing N ls s R" and c: "cnt N br_own ls = of_bool (br_writer s = 1)" and t: "t < N" and o: "\<not> br_own (ls t)"
    and f: "br_next s' = br_next s" "br_readers s' = br_readers s" "br_listed l' = br_listed (ls t)"
      "\<And>x. x \<noteq> t \<or> br_listed (ls t) \<Longrightarrow> br_previous s' x = br_previous s x"
    and w: "br_own l' \<Longrightarrow> br_writer s \<noteq> 1 \<and> l' \<notin> {BReg RgBack, BReg RgHead, BUnreg RuFwd}"
  shows "br_listing N (ls(t := l')) s' R"
proof -
  have S: "set R = {i. i < N \<and> br_listed (ls i)}" and D: "distinct R"
    and sh: "\<And>i. i < N \<Longrightarrow> br_own (ls i) \<Longrightarrow> br_shape i (ls i) s R" and dl: "(\<forall>i<N. \<not> br_own (ls i)) \<Longrightarrow> br_dll s R"
    using L unfolding br_listing_def by blast+
  have pv: "br_previous s' x = br_previous s x" if "x \<in> set R" for x using f(4) [of x] that S by auto
  have sh': "br_shape i l s' R = br_shape i l s R" if "i \<noteq> t" for i l 
    by (rule shape_frame(1) [OF f(1,2)]) (use that f(4) pv in auto)
  have dl': "br_dll s' R = br_dll s R" by (simp add: br_dll_def f backs_cong [OF pv])
  have S': "set R = {i. i < N \<and> br_listed ((ls(t := l')) i)}" using S f(3) t by auto
  show ?thesis
  proof (cases "br_own l'")
    case True
    then have "cnt N br_own ls = 0" using w c by simp
    then have no: "\<forall>i<N. \<not> br_own (ls i)" by (simp add: cnt_0)
    then have "br_shape t l' s' R" using dl dl' w [OF True] by (simp add: shape_dll)
    then show ?thesis using S' D no t True unfolding br_listing_def by auto
  next
    case False
    then have "br_dll s' R" if "\<forall>i<N. \<not> br_own ((ls(t := l')) i)" using that dl dl' o by (metis fun_upd_apply)
    moreover have "br_shape i ((ls(t := l')) i) s' R" if "i < N" "br_own ((ls(t := l')) i)" for i
      using that False sh [of i] sh' [of i] by (cases "i = t") auto
    ultimately show ?thesis using S' D unfolding br_listing_def by blast
  qed
qed

lemma listing_owner:
  assumes L: "br_listing N ls s R" and c: "cnt N br_own ls = of_bool (br_writer s = 1)" and t: "t < N" and o: "br_own (ls t)"
    and lo: "br_local t (ls t) s" and mv: "br_move c t (ls t) s = (l', s')"
  shows "br_listing N (ls(t := l')) s' (br_list t (ls t) l' R)"
    and "\<And>x. x \<noteq> t \<Longrightarrow> x \<notin> set R \<Longrightarrow> br_previous s' x = br_previous s x"
proof -
  have S: "set R = {i. i < N \<and> br_listed (ls i)}" and D: "distinct R" and sh: "br_shape t (ls t) s R"
    using L o t unfolding br_listing_def by blast+
  have tR: "t \<in> set R \<longleftrightarrow> br_listed (ls t)" using S t by simp
  note h = owner_list [OF o sh D tR lo mv]
  show "\<And>x. x \<noteq> t \<Longrightarrow> x \<notin> set R \<Longrightarrow> br_previous s' x = br_previous s x" using h by blast
  have "\<not> br_own (ls i)" if "i < N" "i \<noteq> t" for i using cnt_le1 [of N br_own ls i t] c t o that by (cases "br_writer s = 1") auto
  then have "br_shape i ((ls(t := l')) i) s' (br_list t (ls t) l' R)" if "i < N" "br_own ((ls(t := l')) i)" for i
    using h that by (cases "i = t") auto
  moreover have "br_dll s' (br_list t (ls t) l' R)" if "\<forall>i<N. \<not> br_own ((ls(t := l')) i)"
    using h that t by (metis fun_upd_same)
  moreover have "distinct (br_list t (ls t) l' R)" "set (br_list t (ls t) l' R) = {i. i < N \<and> br_listed ((ls(t := l')) i)}"
    using D S t tR by (auto simp: br_list_def distinct_removeAll)
  ultimately show "br_listing N (ls(t := l')) s' (br_list t (ls t) l' R)" unfolding br_listing_def by blast
qed

lemma br_effects:
  assumes "br_aux N ls s" "cnt N br_own ls = of_bool (br_writer s = 1)" "t < N" "br_move c t (ls t) s = (l', s')"
  shows "br_own l' = br_own (ls t) \<and> br_writer s' = br_writer s \<or> br_own l' \<and> \<not> br_own (ls t) \<and> br_writer s = 0 \<and> br_writer s' = 1 \<or>
      br_own (ls t) \<and> \<not> br_own l' \<and> br_writer s' = 0"
    and "br_local t l' s'" and "\<And>x. x \<noteq> t \<Longrightarrow> n_readers s' x = n_readers s x"
    and "\<not> br_own (ls t) \<Longrightarrow> br_next s' = br_next s" "\<not> br_own (ls t) \<Longrightarrow> br_readers s' = br_readers s"
    and "\<not> br_own (ls t) \<Longrightarrow> br_listed l' = br_listed (ls t)"
    and "\<not> br_own (ls t) \<Longrightarrow> x \<noteq> t \<or> br_listed (ls t) \<Longrightarrow> br_previous s' x = br_previous s x"
    and "br_admitted l' \<Longrightarrow> \<not> br_admitted (ls t) \<Longrightarrow> br_writer s' = 0"
proof -
  have w: "br_writer s \<in> {0, 1}" and lo: "br_local t (ls t) s" using assms(1,3) by (auto simp: br_aux_def)
  have o: "br_own (ls t) \<Longrightarrow> br_writer s = 1" using cnt_pos [OF assms(3), of br_own ls] assms(2) by (cases "br_writer s = 1") auto
  note e = br_effect [OF w assms(4) o lo]
  show "br_own l' = br_own (ls t) \<and> br_writer s' = br_writer s \<or> br_own l' \<and> \<not> br_own (ls t) \<and> br_writer s = 0 \<and> br_writer s' = 1 \<or>
      br_own (ls t) \<and> \<not> br_own l' \<and> br_writer s' = 0"
    "br_local t l' s'" "\<And>x. x \<noteq> t \<Longrightarrow> n_readers s' x = n_readers s x"
    "\<not> br_own (ls t) \<Longrightarrow> br_next s' = br_next s" "\<not> br_own (ls t) \<Longrightarrow> br_readers s' = br_readers s"
    "\<not> br_own (ls t) \<Longrightarrow> br_listed l' = br_listed (ls t)"
    "\<not> br_own (ls t) \<Longrightarrow> x \<noteq> t \<or> br_listed (ls t) \<Longrightarrow> br_previous s' x = br_previous s x"
    "br_admitted l' \<Longrightarrow> \<not> br_admitted (ls t) \<Longrightarrow> br_writer s' = 0"
    using e by blast+
qed

lemma enters_whole:
  "br_move c t l s = (l', s') \<Longrightarrow> \<not> br_own l \<Longrightarrow> l' \<notin> {BReg RgBack, BReg RgHead, BUnreg RuFwd}"
  by (cases "(c, t, l, s)" rule: br_move.cases)
    (auto split: ctl.splits prod.splits br_choice.splits if_splits elim!: ck_brlock_read_register.elims ck_brlock_read_unregister.elims)

lemma br_aux_step:
  assumes a: "br_aux N ls s" and c: "cnt N br_own ls = of_bool (br_writer s = 1)" and t: "t < N" and st: "br_step t (ls t) s l' s'"
  shows "br_aux N (ls(t := l')) s'"
proof -
  obtain ch where mv: "br_move ch t (ls t) s = (l', s')" using st by (auto simp: br_step_def)
  obtain R where L: "br_listing N ls s R" using a by (auto simp: br_aux_def)
  note e = br_effects [OF a c t mv]
  have lo: "\<And>i. i < N \<Longrightarrow> br_local i (ls i) s" and w: "br_writer s \<in> {0, 1}" using a by (auto simp: br_aux_def)
  have S: "set R = {i. i < N \<and> br_listed (ls i)}" using L by (simp add: br_listing_def)
  have pv: "br_listed (ls i) \<or> br_previous s' i = br_previous s i" if "i < N" "i \<noteq> t" for i
    using e(7) [of i] listing_owner(2) [OF L c t _ lo mv, of i] t S that by (cases "br_own (ls t)") auto
  have "br_local i ((ls(t := l')) i) s'" if "i < N" for i
    using local_frame [OF lo [OF that]] e(2) e(3) [of i] pv [OF that] by (cases "i = t") auto
  moreover have "br_writer s' \<in> {0, 1}" using e(1) w by auto
  moreover have "\<exists>R. br_listing N (ls(t := l')) s' R"
  proof (cases "br_own (ls t)")
    case True
    then show ?thesis using listing_owner(1) [OF L c t _ lo mv] t by blast
  next
    case False
    have "br_listing N (ls(t := l')) s' R"
      by (rule listing_outside [OF L c t False]) (use e False enters_whole [OF mv False] in auto)
    then show ?thesis by blast
  qed
  ultimately show ?thesis by (auto simp: br_aux_def)
qed

lemma scan_passed_cong: "br_next s' = br_next s \<Longrightarrow> scan_passed s' p j = scan_passed s p j"
  by (cases p) simp_all

lemma br_passed_cong: "br_next s' = br_next s \<Longrightarrow> br_passed s' l j = br_passed s l j"
  using scan_passed_cong [of s' s]
  by (cases l) (simp_all split: br_try_pc.splits br_register_pc.splits br_unregister_pc.splits)

lemma br_scan:
  assumes mv: "br_move c t l s = (l', s')" and w: "br_writer s \<in> {0, 1}" and ps: "br_passed s' l' j"
  shows "br_passed s l j \<or> \<not> br_raised j s"
proof (cases l)
  case (BWrite r p)
  then show ?thesis using mv ps scan_step_passed(5,6) [OF _ w] by (fastforce split: prod.splits ctl.splits)
next
  case (BWTry r f p)
  then show ?thesis using mv ps
    by (cases p) (auto simp: br_defs br_raised_def split: option.splits if_splits dest: tranclpD rtranclpD)
next
  case (BReg p)
  then show ?thesis using mv ps scan_step_passed(5,6) [OF _ w]
    by (cases p) (fastforce split: prod.splits ctl.splits)+
next
  case (BUnreg p)
  then show ?thesis using mv ps scan_step_passed(5,6) [OF _ w]
    by (cases p) (fastforce split: prod.splits ctl.splits)+
next
  case (BRead d p)
  then show ?thesis using mv ps by (cases p) (auto split: if_splits)
next
  case (BRTry d f p)
  then show ?thesis using mv ps by (cases p) (auto split: if_splits)
qed (use mv ps in \<open>auto split: br_choice.splits if_splits\<close>)

interpretation brlock: scan_lock br_step "BIdle False" "ck_brlock_init br" "\<lambda>_. True" br_own "\<lambda>s. br_writer s = 1" br_passed br_admitted
  br_raised br_reading br_writing br_aux for br
proof unfold_locales
  fix N ls s t l' s'
  assume c: "cnt N br_own ls = of_bool (br_writer s = 1)" and a: "br_aux N ls s" and t: "t < N" and st: "br_step t (ls t) s l' s'"
  show "br_aux N (ls(t := l')) s'" by (rule br_aux_step [OF a c t st])
  obtain ch where mv: "br_move ch t (ls t) s = (l', s')" using st by (auto simp: br_step_def)
  note e = br_effects [OF a c t mv]
  have w: "br_writer s \<in> {0, 1}" using a by (simp add: br_aux_def)
  show "scan_law br_own (\<lambda>s. br_writer s = 1) br_passed br_admitted br_raised t (ls t) s l' s'"
    unfolding scan_law_def using e(1,8) br_scan [OF mv w] br_passed_cong [OF e(4)] by auto
next
  fix N ls s j
  assume a: "br_aux N ls s" and j: "j < N" "br_admitted (ls j)"
  obtain R where L: "br_listing N ls s R" using a by (auto simp: br_aux_def)
  have "br_listed (ls j)" using j by (cases "ls j") auto
  then have jR: "j \<in> set R" using L j by (simp add: br_listing_def)
  obtain h where "br_readers s = Some h" "(link s)\<^sup>*\<^sup>* h j"
    using listing_chain [OF L] jR chain_reach [of s _ R j] by (cases R) auto
  moreover have "n_readers s j \<noteq> 0"
    using a j of_nat_uint_0 [of "br_depth (ls j)"] by (cases "ls j") (auto simp: br_aux_def)
  ultimately show "br_raised j s" by (auto simp: br_raised_def)
next
  show "br_aux N (\<lambda>_. BIdle False) (ck_brlock_init br)" for N
    by (auto simp: br_aux_def br_listing_def br_dll_def ck_brlock_init_def intro!: exI [of _ "[]"])
next
  fix s l j
  show "br_passed s l j \<Longrightarrow> br_own l"
    by (cases l) (auto split: br_try_pc.splits br_register_pc.splits br_unregister_pc.splits elim: scan_passed.elims)
  show "br_writing l \<Longrightarrow> br_own l \<and> br_passed s l j" "br_reading l \<Longrightarrow> br_admitted l" "br_writing l \<Longrightarrow> \<not> br_reading l"
    by (cases l; simp)+
qed (simp_all add: ck_brlock_init_def)

text \<open>Claim C11: The big-reader lock, for any number of threads that register, unregister, lock (nested reads too), try and unlock in
  any interleaving, whatever the memory of the reader objects held before: a thread that writes is the only
  writer and no thread reads.\<close>

theorem brlock_exclusion:
  assumes "reachable br_step N (\<lambda>_. BIdle False) (ck_brlock_init br) ls s" "i < N" "br_writing (ls i)"
  shows "{j. j < N \<and> br_writing (ls j)} = {i} \<and> {j. j < N \<and> br_reading (ls j)} = {}"
  using brlock.writers_exclude [OF assms(1) _ assms(2,3)] by simp

text \<open>Threads 0 and 1 register; 1 reads, twice, while 2 waits for it and gives up; 0 unregisters; 2 writes.\<close>

definition br_schedule :: "(nat \<times> br_choice) list" where
  "br_schedule = replicate 9 (0, ChRegister) @ replicate 11 (1, ChRegister) @ replicate 5 (1, ChRead) @ replicate 2 (1, ChRead) @
     replicate 5 (2, ChTry 1) @ replicate 4 (1, ChWrite) @ replicate 10 (0, ChRegister) @ replicate 5 (2, ChWrite)"

definition br_ex :: "(nat \<Rightarrow> br_client) \<times> ck_brlock" where
  "br_ex = move_run br_move br_schedule
     (\<lambda>_. BIdle False, ck_brlock_init \<lparr>br_readers = Some 7, br_writer = 1, n_readers = \<lambda>_. 5, br_previous = \<lambda>_. Some 3, br_next = \<lambda>_. Some 4\<rparr>)"

lemma br_ex_reachable:
  "reachable br_step 3 (\<lambda>_. BIdle False)
     (ck_brlock_init \<lparr>br_readers = Some 7, br_writer = 1, n_readers = \<lambda>_. 5, br_previous = \<lambda>_. Some 3, br_next = \<lambda>_. Some 4\<rparr>) (fst br_ex) (snd br_ex)"
  unfolding br_ex_def
proof (rule move_run_reachable)
  show "list_all (\<lambda>(t, c). t < 3) br_schedule" by code_simp
qed (auto simp: br_step_def intro: reachable.start)

theorem brlock_exclusion_witness:
  "{j. j < 3 \<and> br_writing (fst br_ex j)} = {2} \<and> {j. j < 3 \<and> br_reading (fst br_ex j)} = {}"
  by (rule brlock_exclusion [OF br_ex_reachable]) (simp, code_simp)

end
