(* ===== verification/Cohort.thy ===== *)
theory Cohort
  imports SpinlockBasic
begin

text \<open>
  Lock cohorts, \<^verbatim>\<open>ck_cohort.h\<close>: the threads of a machine are split into cohorts, each with a local lock; all
  cohorts share one global lock. A thread takes the local lock of its cohort and then the global
  one, unless the thread before it has left the global lock with the cohort. The macros of the header are instantiated with the
  functions of the two locks, here the arguments \<open>G\<close> and \<open>L\<close> of every function. The header promises exclusion for any two
  locks; \<open>cohort_lock\<close> proves it from the contract \<open>flag_lock\<close> of each, and the number of times in a row that a cohort can
  keep the global lock to itself is bounded by its pass limit.
\<close>

section \<open>Data\<close>

datatype ck_cohort_state = CK_COHORT_STATE_GLOBAL | CK_COHORT_STATE_LOCAL

record 'l ck_cohort =
  local_lock :: 'l
  release_state :: ck_cohort_state
  waiting_threads :: uint
  acquire_count :: uint
  local_pass_limit :: uint

text \<open>The cohorts of a program, by number, around the lock that their \<open>global_lock\<close> fields all point to.\<close>

record ('g, 'l) cohorts =
  global_lock :: 'g
  cohort :: "nat \<Rightarrow> 'l ck_cohort"

definition ck_cohort_init :: "'l \<Rightarrow> uint \<Rightarrow> 'l ck_cohort" where
  "ck_cohort_init lock pass_limit = \<lparr>local_lock = lock, release_state = CK_COHORT_STATE_GLOBAL,
     waiting_threads = 0, acquire_count = 0, local_pass_limit = pass_limit\<rparr>"

definition CK_COHORT_DEFAULT_LOCAL_PASS_LIMIT :: uint where "CK_COHORT_DEFAULT_LOCAL_PASS_LIMIT = 10"

definition cohorts_init :: "'g \<Rightarrow> 'l \<Rightarrow> (nat \<Rightarrow> uint) \<Rightarrow> ('g, 'l) cohorts" where
  "cohorts_init g l limit = \<lparr>global_lock = g, cohort = \<lambda>c. ck_cohort_init l (limit c)\<rparr>"

abbreviation in_cohort :: "nat \<Rightarrow> ('l ck_cohort \<Rightarrow> 'l ck_cohort) \<Rightarrow> ('g, 'l) cohorts \<Rightarrow> ('g, 'l) cohorts" where
  "in_cohort c f s \<equiv> s\<lparr>cohort := (cohort s)(c := f (cohort s c))\<rparr>"

section \<open>Operations\<close>

text \<open>A step of the two locks is a step of the cohort lock; the other steps are one access to a field of the cohort
  each. The fields \<open>release_state\<close> and \<open>acquire_count\<close> are plain variables, which only the holder of the local lock touches.\<close>

datatype ('g, 'l) cohort_lock_pc = CoInc | CoLocal 'l | CoDec | CoState | CoGlobal 'g | CoCount

fun ck_cohort_lock :: "(unit, 'ga, 'gb, unit, 'gc, 'g) lock_ops \<Rightarrow> (unit, 'la, 'lb, unit, 'lc, 'l) lock_ops \<Rightarrow> nat \<Rightarrow>
    ('ga, 'la) cohort_lock_pc \<Rightarrow> ('g, 'l) cohorts \<Rightarrow> (('ga, 'la) cohort_lock_pc, unit) ctl \<times> ('g, 'l) cohorts" where
  "ck_cohort_lock G L c CoInc s =
     (Go (CoLocal (lock_entry L ())), in_cohort c (\<lambda>k. k\<lparr>waiting_threads := ck_pr_inc (waiting_threads k)\<rparr>) s)"
| "ck_cohort_lock G L c (CoLocal a) s = (case lock_fn L a (local_lock (cohort s c)) of
     (Go a', m) \<Rightarrow> (Go (CoLocal a'), in_cohort c (\<lambda>k. k\<lparr>local_lock := m\<rparr>) s)
   | (Ret _, m) \<Rightarrow> (Go CoDec, in_cohort c (\<lambda>k. k\<lparr>local_lock := m\<rparr>) s))"
| "ck_cohort_lock G L c CoDec s =
     (Go CoState, in_cohort c (\<lambda>k. k\<lparr>waiting_threads := ck_pr_dec (waiting_threads k)\<rparr>) s)"
| "ck_cohort_lock G L c CoState s =
     (if release_state (cohort s c) = CK_COHORT_STATE_GLOBAL then Go (CoGlobal (lock_entry G ())) else Go CoCount, s)"
| "ck_cohort_lock G L c (CoGlobal a) s = (case lock_fn G a (global_lock s) of
     (Go a', m) \<Rightarrow> (Go (CoGlobal a'), s\<lparr>global_lock := m\<rparr>)
   | (Ret _, m) \<Rightarrow> (Go CoCount, s\<lparr>global_lock := m\<rparr>))"
| "ck_cohort_lock G L c CoCount s =
     (Ret (), in_cohort c (\<lambda>k. k\<lparr>acquire_count := acquire_count k + 1\<rparr>) s)"

datatype ('g, 'l) cohort_unlock_pc = CuCheck | CuPass | CuGlobal 'g | CuState | CuReset | CuLocal 'l

fun ck_cohort_unlock :: "(unit, 'ga, 'gb, unit, 'gc, 'g) lock_ops \<Rightarrow> (unit, 'la, 'lb, unit, 'lc, 'l) lock_ops \<Rightarrow> nat \<Rightarrow>
    ('gc, 'lc) cohort_unlock_pc \<Rightarrow> ('g, 'l) cohorts \<Rightarrow> (('gc, 'lc) cohort_unlock_pc, unit) ctl \<times> ('g, 'l) cohorts" where
  "ck_cohort_unlock G L c CuCheck s =
     (if ck_pr_load (waiting_threads (cohort s c)) > 0 \<and> acquire_count (cohort s c) < local_pass_limit (cohort s c)
      then Go CuPass else Go (CuGlobal (unlock_entry G ())), s)"
| "ck_cohort_unlock G L c CuPass s =
     (Go (CuLocal (unlock_entry L ())), in_cohort c (\<lambda>k. k\<lparr>release_state := CK_COHORT_STATE_LOCAL\<rparr>) s)"
| "ck_cohort_unlock G L c (CuGlobal d) s = (case unlock_fn G d (global_lock s) of
     (Go d', m) \<Rightarrow> (Go (CuGlobal d'), s\<lparr>global_lock := m\<rparr>)
   | (Ret _, m) \<Rightarrow> (Go CuState, s\<lparr>global_lock := m\<rparr>))"
| "ck_cohort_unlock G L c CuState s =
     (Go CuReset, in_cohort c (\<lambda>k. k\<lparr>release_state := CK_COHORT_STATE_GLOBAL\<rparr>) s)"
| "ck_cohort_unlock G L c CuReset s =
     (Go (CuLocal (unlock_entry L ())), in_cohort c (\<lambda>k. k\<lparr>acquire_count := 0\<rparr>) s)"
| "ck_cohort_unlock G L c (CuLocal d) s = (case unlock_fn L d (local_lock (cohort s c)) of
     (Go d', m) \<Rightarrow> (Go (CuLocal d'), in_cohort c (\<lambda>k. k\<lparr>local_lock := m\<rparr>) s)
   | (Ret _, m) \<Rightarrow> (Ret (), in_cohort c (\<lambda>k. k\<lparr>local_lock := m\<rparr>) s))"

text \<open>The predicate reads the local lock, and the global one only when the local lock is free. It applies its parameter
  \<open>GI\<close>, the predicate of the global lock, to the local lock and \<open>LI\<close> to the global one, so it fits only two locks of one kind.\<close>

datatype cohort_locked_pc = CkLocal | CkGlobal

fun ck_cohort_locked :: "('l \<Rightarrow> bool) \<Rightarrow> ('g \<Rightarrow> bool) \<Rightarrow> nat \<Rightarrow> cohort_locked_pc \<Rightarrow> ('g, 'l) cohorts \<Rightarrow>
    (cohort_locked_pc, bool) ctl \<times> ('g, 'l) cohorts" where
  "ck_cohort_locked GI LI c CkLocal s = (if GI (local_lock (cohort s c)) then Ret True else Go CkGlobal, s)"
| "ck_cohort_locked GI LI c CkGlobal s = (Ret (LI (global_lock s)), s)"

datatype ('gb, 'lb, 'lc) cohort_try_pc =
  CtInc | CtLocal 'lb | CtDec bool | CtState | CtGlobal 'gb | CtUndo 'lc | CtCount

fun ck_cohort_trylock :: "(unit, 'ga, 'gb, unit, 'gc, 'g) lock_ops \<Rightarrow> (unit, 'la, 'lb, unit, 'lc, 'l) lock_ops \<Rightarrow> nat \<Rightarrow>
    ('gb, 'lb, 'lc) cohort_try_pc \<Rightarrow> ('g, 'l) cohorts \<Rightarrow> (('gb, 'lb, 'lc) cohort_try_pc, bool) ctl \<times> ('g, 'l) cohorts" where
  "ck_cohort_trylock G L c CtInc s =
     (Go (CtLocal (the (try_entry L ()))), in_cohort c (\<lambda>k. k\<lparr>waiting_threads := ck_pr_inc (waiting_threads k)\<rparr>) s)"
| "ck_cohort_trylock G L c (CtLocal b) s = (case try_fn L b (local_lock (cohort s c)) of
     (Go b', m) \<Rightarrow> (Go (CtLocal b'), in_cohort c (\<lambda>k. k\<lparr>local_lock := m\<rparr>) s)
   | (Ret trylock_result, m) \<Rightarrow> (Go (CtDec trylock_result), in_cohort c (\<lambda>k. k\<lparr>local_lock := m\<rparr>) s))"
| "ck_cohort_trylock G L c (CtDec trylock_result) s =
     (if trylock_result = False then Ret False else Go CtState,
      in_cohort c (\<lambda>k. k\<lparr>waiting_threads := ck_pr_dec (waiting_threads k)\<rparr>) s)"
| "ck_cohort_trylock G L c CtState s =
     (if release_state (cohort s c) = CK_COHORT_STATE_GLOBAL then Go (CtGlobal (the (try_entry G ()))) else Go CtCount, s)"
| "ck_cohort_trylock G L c (CtGlobal b) s = (case try_fn G b (global_lock s) of
     (Go b', m) \<Rightarrow> (Go (CtGlobal b'), s\<lparr>global_lock := m\<rparr>)
   | (Ret ok, m) \<Rightarrow> (if ok = False then Go (CtUndo (unlock_entry L ())) else Go CtCount, s\<lparr>global_lock := m\<rparr>))"
| "ck_cohort_trylock G L c (CtUndo d) s = (case unlock_fn L d (local_lock (cohort s c)) of
     (Go d', m) \<Rightarrow> (Go (CtUndo d'), in_cohort c (\<lambda>k. k\<lparr>local_lock := m\<rparr>) s)
   | (Ret _, m) \<Rightarrow> (Ret False, in_cohort c (\<lambda>k. k\<lparr>local_lock := m\<rparr>) s))"
| "ck_cohort_trylock G L c CtCount s =
     (Ret True, in_cohort c (\<lambda>k. k\<lparr>acquire_count := acquire_count k + 1\<rparr>) s)"

text \<open>The cohort lock as a lock, with a trylock when both locks have one; the number is the cohort of the calling thread.\<close>

definition cohort_ops :: "(unit, 'ga, 'gb, unit, 'gc, 'g) lock_ops \<Rightarrow> (unit, 'la, 'lb, unit, 'lc, 'l) lock_ops \<Rightarrow> nat \<Rightarrow>
    (unit, ('ga, 'la) cohort_lock_pc, ('gb, 'lb, 'lc) cohort_try_pc, unit, ('gc, 'lc) cohort_unlock_pc, ('g, 'l) cohorts) lock_ops" where
  "cohort_ops G L c = \<lparr>lock_fn = ck_cohort_lock G L c, lock_entry = \<lambda>_. CoInc,
     try_fn = ck_cohort_trylock G L c,
     try_entry = \<lambda>_. (case (try_entry G (), try_entry L ()) of (Some _, Some _) \<Rightarrow> Some CtInc | _ \<Rightarrow> None),
     try_result = \<lambda>_. (), unlock_fn = ck_cohort_unlock G L c, unlock_entry = \<lambda>_. CuCheck\<rparr>"

lemma cohort_ops_simps [simp]:
  "lock_fn (cohort_ops G L c) = ck_cohort_lock G L c" "lock_entry (cohort_ops G L c) u = CoInc"
  "try_fn (cohort_ops G L c) = ck_cohort_trylock G L c" "try_result (cohort_ops G L c) u = ()"
  "unlock_fn (cohort_ops G L c) = ck_cohort_unlock G L c" "unlock_entry (cohort_ops G L c) u = CuCheck"
  "try_entry (cohort_ops G L c) u = Some b \<longleftrightarrow> b = CtInc \<and> try_entry G () \<noteq> None \<and> try_entry L () \<noteq> None"
  by (auto simp: cohort_ops_def split: option.splits)

type_synonym ('ga, 'la, 'gb, 'lb, 'gc, 'lc) cohort_client =
  "(unit, ('ga, 'la) cohort_lock_pc, ('gb, 'lb, 'lc) cohort_try_pc, unit, ('gc, 'lc) cohort_unlock_pc) client"

definition cohort_step :: "(unit, 'ga, 'gb, unit, 'gc, 'g) lock_ops \<Rightarrow> (unit, 'la, 'lb, unit, 'lc, 'l) lock_ops \<Rightarrow>
    (nat \<Rightarrow> nat) \<Rightarrow> nat \<Rightarrow> ('ga, 'la, 'gb, 'lb, 'gc, 'lc) cohort_client \<Rightarrow> ('g, 'l) cohorts \<Rightarrow>
    ('ga, 'la, 'gb, 'lb, 'gc, 'lc) cohort_client \<Rightarrow> ('g, 'l) cohorts \<Rightarrow> bool" where
  "cohort_step G L node t = client_step (cohort_ops G L (node t)) t"

section \<open>What a thread holds\<close>

text \<open>A thread is inside when it has the local lock of its cohort. The cohort has the global lock when a thread of it is past its
  acquisition and has not yet released it, or when a thread has left it behind in the release state.\<close>

fun inside :: "('ga, 'la, 'gb, 'lb, 'gc, 'lc) cohort_client \<Rightarrow> bool" where
  "inside (Idle p) = False"
| "inside (Acquiring a) = (case a of CoInc \<Rightarrow> False | CoLocal _ \<Rightarrow> False | _ \<Rightarrow> True)"
| "inside (Trying p b) = (case b of CtInc \<Rightarrow> False | CtLocal _ \<Rightarrow> False | CtDec ok \<Rightarrow> ok | _ \<Rightarrow> True)"
| "inside (Critical r) = True"
| "inside (Releasing d) = True"

abbreviation left_behind :: "'l ck_cohort \<Rightarrow> bool" where
  "left_behind k \<equiv> release_state k = CK_COHORT_STATE_LOCAL"

fun has_global :: "('ga, 'la, 'gb, 'lb, 'gc, 'lc) cohort_client \<Rightarrow> 'l ck_cohort \<Rightarrow> bool" where
  "has_global (Idle p) k = left_behind k"
| "has_global (Acquiring a) k = (case a of CoCount \<Rightarrow> True | _ \<Rightarrow> left_behind k)"
| "has_global (Trying p b) k = (case b of CtCount \<Rightarrow> True | _ \<Rightarrow> left_behind k)"
| "has_global (Critical r) k = True"
| "has_global (Releasing d) k =
     (case d of CuState \<Rightarrow> False | CuReset \<Rightarrow> left_behind k | CuLocal _ \<Rightarrow> left_behind k | _ \<Rightarrow> True)"

text \<open>The number of acquisitions since the cohort took the global lock, at every program point.\<close>

abbreviation run_limit :: "'l ck_cohort \<Rightarrow> uint" where
  "run_limit k \<equiv> max 1 (local_pass_limit k)"

abbreviation between :: "'l ck_cohort \<Rightarrow> bool" where
  "between k \<equiv> (if left_behind k then acquire_count k < local_pass_limit k else acquire_count k = 0)"

fun count_ok :: "('ga, 'la, 'gb, 'lb, 'gc, 'lc) cohort_client \<Rightarrow> 'l ck_cohort \<Rightarrow> bool" where
  "count_ok (Idle p) k = between k"
| "count_ok (Acquiring a) k = (case a of CoGlobal _ \<Rightarrow> \<not> left_behind k \<and> acquire_count k = 0
     | CoCount \<Rightarrow> acquire_count k < run_limit k | _ \<Rightarrow> between k)"
| "count_ok (Trying p b) k = (case b of CtGlobal _ \<Rightarrow> \<not> left_behind k \<and> acquire_count k = 0
     | CtCount \<Rightarrow> acquire_count k < run_limit k | _ \<Rightarrow> between k)"
| "count_ok (Critical r) k = (acquire_count k \<le> run_limit k)"
| "count_ok (Releasing d) k = (case d of CuPass \<Rightarrow> acquire_count k < local_pass_limit k
     | CuReset \<Rightarrow> \<not> left_behind k \<and> acquire_count k \<le> run_limit k
     | CuLocal _ \<Rightarrow> between k | _ \<Rightarrow> acquire_count k \<le> run_limit k)"

lemma not_left_behind: "r \<noteq> CK_COHORT_STATE_LOCAL \<longleftrightarrow> r = CK_COHORT_STATE_GLOBAL"
  by (cases r) auto

lemma outside_idle:
  "\<not> inside l \<Longrightarrow> has_global l k = has_global (Idle ()) k" "\<not> inside l \<Longrightarrow> count_ok l k = count_ok (Idle ()) k"
  by (cases l; auto split: cohort_lock_pc.splits cohort_try_pc.splits cohort_unlock_pc.splits)+

lemma run_limit_less: "a < x \<Longrightarrow> a < max 1 (x :: uint)" "0 < max 1 (x :: uint)"
  by (simp_all add: less_max_iff_disj)

lemma count_ok_le: "count_ok l k \<Longrightarrow> acquire_count k \<le> run_limit k"
  by (cases l)
    (auto split: cohort_lock_pc.splits cohort_try_pc.splits cohort_unlock_pc.splits if_splits
      simp del: le_max_iff_disj max_less_iff_conj intro: less_imp_le [OF run_limit_less(1)] less_imp_le)

section \<open>The law of a step\<close>

abbreviation ledger :: "'l ck_cohort \<Rightarrow> ck_cohort_state \<times> uint \<times> uint" where
  "ledger k \<equiv> (release_state k, acquire_count k, local_pass_limit k)"

definition takes_law :: "bool \<Rightarrow> bool \<Rightarrow> bool \<Rightarrow> bool \<Rightarrow> bool" where
  "takes_law h h' free free' \<longleftrightarrow> (h' = h \<longrightarrow> free' = free) \<and> (h' \<and> \<not> h \<longrightarrow> free \<and> \<not> free') \<and> (h \<and> \<not> h' \<longrightarrow> free')"

definition cohort_law ::
    "('g \<Rightarrow> bool) \<Rightarrow> ('g \<Rightarrow> bool) \<Rightarrow> ('l \<Rightarrow> bool) \<Rightarrow> ('l \<Rightarrow> bool) \<Rightarrow> nat \<Rightarrow> ('ga, 'la, 'gb, 'lb, 'gc, 'lc) cohort_client \<Rightarrow>
     ('g, 'l) cohorts \<Rightarrow> ('ga, 'la, 'gb, 'lb, 'gc, 'lc) cohort_client \<Rightarrow> ('g, 'l) cohorts \<Rightarrow> bool" where
  "cohort_law gvalid gfree lvalid lfree c l s l' s' \<longleftrightarrow>
     gvalid (global_lock s') \<and> lvalid (local_lock (cohort s' c)) \<and>
     (\<forall>d. d \<noteq> c \<longrightarrow> cohort s' d = cohort s d) \<and>
     takes_law (inside l) (inside l') (lfree (local_lock (cohort s c))) (lfree (local_lock (cohort s' c))) \<and>
     takes_law (has_global l (cohort s c)) (has_global l' (cohort s' c)) (gfree (global_lock s)) (gfree (global_lock s')) \<and>
     (\<not> (inside l \<and> inside l') \<longrightarrow>
        ledger (cohort s' c) = ledger (cohort s c) \<and> has_global l' (cohort s' c) = has_global l (cohort s c)) \<and>
     local_pass_limit (cohort s' c) = local_pass_limit (cohort s c) \<and>
     (count_ok l (cohort s c) \<longrightarrow> count_ok l' (cohort s' c))"

text \<open>A cohort and the thread inside it, when there is one: \<open>tenant P\<close> says \<open>P\<close> of that thread, or of an idle one.\<close>

definition tenant :: "(nat \<Rightarrow> nat) \<Rightarrow> nat \<Rightarrow> nat \<Rightarrow> (nat \<Rightarrow> ('ga, 'la, 'gb, 'lb, 'gc, 'lc) cohort_client) \<Rightarrow>
    (('ga, 'la, 'gb, 'lb, 'gc, 'lc) cohort_client \<Rightarrow> bool) \<Rightarrow> bool" where
  "tenant node N c ls P \<longleftrightarrow>
     (\<forall>t<N. node t = c \<longrightarrow> inside (ls t) \<longrightarrow> P (ls t)) \<and> ((\<forall>t<N. node t = c \<longrightarrow> \<not> inside (ls t)) \<longrightarrow> P (Idle ()))"

abbreviation inside_count :: "(nat \<Rightarrow> nat) \<Rightarrow> nat \<Rightarrow> nat \<Rightarrow> (nat \<Rightarrow> ('ga, 'la, 'gb, 'lb, 'gc, 'lc) cohort_client) \<Rightarrow> nat" where
  "inside_count node N c ls \<equiv> cnt N (\<lambda>(n, l). n = c \<and> inside l) (\<lambda>t. (node t, ls t))"

lemma node_upd: "(\<lambda>i. (node i, (ls(t := l)) i)) = (\<lambda>i. (node i, ls i))(t := (node t, l))"
  by auto

lemma inside_alone:
  "inside_count node N c ls \<le> 1 \<Longrightarrow> i < N \<Longrightarrow> j < N \<Longrightarrow> node i = c \<Longrightarrow> node j = c \<Longrightarrow> inside (ls i) \<Longrightarrow> inside (ls j) \<Longrightarrow> i = j"
  by (rule cnt_le1 [of N "\<lambda>(n, l). n = c \<and> inside l" "\<lambda>t. (node t, ls t)"]) auto

lemma tenant_elsewhere: "node t \<noteq> c \<Longrightarrow> tenant node N c (ls(t := l')) P = tenant node N c ls P"
  by (auto simp: tenant_def)

lemma tenant_here:
  assumes one: "inside_count node N (node t) ls \<le> 1" and t: "t < N" and ten: "tenant node N (node t) ls P"
    and idle: "\<And>l. \<not> inside l \<Longrightarrow> P l = P (Idle ())" "\<And>l. \<not> inside l \<Longrightarrow> Q l = Q (Idle ())"
    and enter: "inside l' \<Longrightarrow> \<not> inside (ls t) \<Longrightarrow> inside_count node N (node t) ls = 0"
    and step: "P (ls t) \<Longrightarrow> Q l'" and out: "\<not> inside (ls t) \<Longrightarrow> \<not> inside l' \<Longrightarrow> Q = P"
  shows "tenant node N (node t) (ls(t := l')) Q"
proof (cases "inside (ls t) \<or> inside l'")
  case True
  have others: "\<not> inside (ls i)" if "i < N" "node i = node t" "i \<noteq> t" for i
  proof (cases "inside (ls t)")
    case True
    then show ?thesis using inside_alone [OF one] t that by blast
  next
    case False
    then show ?thesis using enter True that by (auto simp: cnt_0)
  qed
  have "P (ls t)" using ten t others idle(1) unfolding tenant_def by (cases "inside (ls t)") metis+
  then have "Q l'" by (rule step)
  then show ?thesis using others idle(2) [of l'] t by (auto simp: tenant_def)
next
  case False
  then show ?thesis using out ten t by (auto simp: tenant_def)
qed

definition cohort_view :: "'l ck_cohort \<Rightarrow> bool \<Rightarrow> ('ga, 'la, 'gb, 'lb, 'gc, 'lc) cohort_client \<Rightarrow> bool" where
  "cohort_view k owner l \<longleftrightarrow> count_ok l k \<and> has_global l k = owner"

definition cohort_inv ::
    "('g \<Rightarrow> bool) \<Rightarrow> ('g \<Rightarrow> bool) \<Rightarrow> ('l \<Rightarrow> bool) \<Rightarrow> ('l \<Rightarrow> bool) \<Rightarrow> (nat \<Rightarrow> nat) \<Rightarrow> (nat \<Rightarrow> uint) \<Rightarrow> nat \<Rightarrow>
     (nat \<Rightarrow> ('ga, 'la, 'gb, 'lb, 'gc, 'lc) cohort_client) \<Rightarrow> ('g, 'l) cohorts \<Rightarrow> bool" where
  "cohort_inv gvalid gfree lvalid lfree node limit N ls s \<longleftrightarrow>
     gvalid (global_lock s) \<and>
     (\<forall>c. lvalid (local_lock (cohort s c)) \<and> local_pass_limit (cohort s c) = limit c \<and>
          inside_count node N c ls = of_bool (\<not> lfree (local_lock (cohort s c)))) \<and>
     (\<exists>owner. gfree (global_lock s) = (owner = None) \<and>
        (\<forall>c. tenant node N c ls (cohort_view (cohort s c) (owner = Some c))))"

locale cohort_lock = glob: flag_lock G "()" g0 gvalid gfree + loc: flag_lock L "()" m0 lvalid lfree
  for G :: "(unit, 'ga, 'gb, unit, 'gc, 'g) lock_ops" and g0 gvalid gfree
    and L :: "(unit, 'la, 'lb, unit, 'lc, 'l) lock_ops" and m0 lvalid lfree +
  fixes node :: "nat \<Rightarrow> nat" and limit :: "nat \<Rightarrow> uint"

context cohort_lock begin

lemma lock_law:
  assumes v: "gvalid (global_lock s)" "lvalid (local_lock (cohort s c))" and k: "inside (Acquiring a) \<Longrightarrow> count_ok (Acquiring a) (cohort s c)"
    and f: "ck_cohort_lock G L c a s = (x, s')"
  shows "cohort_law gvalid gfree lvalid lfree c (Acquiring a) s (case x of Go a' \<Rightarrow> Acquiring a' | Ret r \<Rightarrow> Critical r) s'"
proof (cases a)
  case (CoLocal b)
  obtain y m where y: "lock_fn L b (local_lock (cohort s c)) = (y, m)" by fastforce
  show ?thesis using loc.lock_keeps [OF v(2)] loc.lock_takes [OF v(2)] y CoLocal v k f
    by (cases y) (auto simp: cohort_law_def takes_law_def)
next
  case (CoGlobal b)
  obtain y m where y: "lock_fn G b (global_lock s) = (y, m)" by fastforce
  show ?thesis using glob.lock_keeps [OF v(1)] glob.lock_takes [OF v(1)] y CoGlobal v k f
    by (cases y) (auto simp: cohort_law_def takes_law_def run_limit_less simp del: less_max_iff_disj)
qed (use v k f in \<open>auto simp: cohort_law_def takes_law_def inc_le run_limit_less not_left_behind simp del: le_max_iff_disj less_max_iff_disj split: if_splits\<close>)

lemma unlock_law:
  assumes v: "gvalid (global_lock s)" "lvalid (local_lock (cohort s c))" and k: "inside (Releasing d) \<Longrightarrow> count_ok (Releasing d) (cohort s c)"
    and f: "ck_cohort_unlock G L c d s = (x, s')"
  shows "cohort_law gvalid gfree lvalid lfree c (Releasing d) s (case x of Go d' \<Rightarrow> Releasing d' | Ret r \<Rightarrow> Idle r) s'"
proof (cases d)
  case (CuLocal b)
  obtain y m where y: "unlock_fn L b (local_lock (cohort s c)) = (y, m)" by fastforce
  show ?thesis using loc.unlock_keeps [OF v(2)] loc.unlock_frees [OF v(2)] y CuLocal v k f
    by (cases y) (auto simp: cohort_law_def takes_law_def split: if_splits)
next
  case (CuGlobal b)
  obtain y m where y: "unlock_fn G b (global_lock s) = (y, m)" by fastforce
  show ?thesis using glob.unlock_keeps [OF v(1)] glob.unlock_frees [OF v(1)] y CuGlobal v k f
    by (cases y) (auto simp: cohort_law_def takes_law_def)
qed (use v k f in \<open>auto simp: cohort_law_def takes_law_def split: if_splits\<close>)

lemma try_law:
  assumes v: "gvalid (global_lock s)" "lvalid (local_lock (cohort s c))" and k: "inside (Trying p b) \<Longrightarrow> count_ok (Trying p b) (cohort s c)"
    and f: "ck_cohort_trylock G L c b s = (x, s')"
  shows "cohort_law gvalid gfree lvalid lfree c (Trying p b) s
    (case x of Go b' \<Rightarrow> Trying p b' | Ret ok \<Rightarrow> if ok then Critical () else Idle p) s'"
proof (cases b)
  case (CtLocal d)
  obtain y m where y: "try_fn L d (local_lock (cohort s c)) = (y, m)" by fastforce
  show ?thesis using loc.try_keeps [OF v(2)] loc.try_takes [OF v(2)] loc.try_fails [OF v(2)] y CtLocal v k f
    by (cases y; cases "y = Ret True") (auto simp: cohort_law_def takes_law_def)
next
  case (CtGlobal d)
  obtain y m where y: "try_fn G d (global_lock s) = (y, m)" by fastforce
  show ?thesis using glob.try_keeps [OF v(1)] glob.try_takes [OF v(1)] glob.try_fails [OF v(1)] y CtGlobal v k f
    by (cases y; cases "y = Ret True") (auto simp: cohort_law_def takes_law_def run_limit_less simp del: less_max_iff_disj)
next
  case (CtUndo d)
  obtain y m where y: "unlock_fn L d (local_lock (cohort s c)) = (y, m)" by fastforce
  show ?thesis using loc.unlock_keeps [OF v(2)] loc.unlock_frees [OF v(2)] y CtUndo v k f
    by (cases y) (auto simp: cohort_law_def takes_law_def split: if_splits)
qed (use v k f in \<open>auto simp: cohort_law_def takes_law_def inc_le run_limit_less not_left_behind simp del: le_max_iff_disj less_max_iff_disj split: if_splits\<close>)

lemma step_law:
  assumes "gvalid (global_lock s)" "lvalid (local_lock (cohort s (node t)))" "inside l \<Longrightarrow> count_ok l (cohort s (node t))"
    "cohort_step G L node t l s l' s'"
  shows "cohort_law gvalid gfree lvalid lfree (node t) l s l' s'"
  using assms(4) unfolding cohort_step_def
proof (cases rule: client_step.cases)
  case (lock_go a a')
  then show ?thesis using lock_law [OF assms(1,2), of a] assms(3) by fastforce
next
  case (lock_ret a r)
  then show ?thesis using lock_law [OF assms(1,2), of a] assms(3) by fastforce
next
  case (try_go b b' p)
  then show ?thesis using try_law [OF assms(1,2), of p b] assms(3) by fastforce
next
  case (try_ok b p)
  then show ?thesis using try_law [OF assms(1,2), of p b] assms(3) by fastforce
next
  case (try_fail b p)
  then show ?thesis using try_law [OF assms(1,2), of p b] assms(3) by fastforce
next
  case (unlock_go d d')
  then show ?thesis using unlock_law [OF assms(1,2), of d] assms(3) by fastforce
next
  case (unlock_ret d p)
  then show ?thesis using unlock_law [OF assms(1,2), of d] assms(3) by fastforce
qed (use assms in \<open>auto simp: cohort_law_def takes_law_def\<close>)

abbreviation inv :: "nat \<Rightarrow> (nat \<Rightarrow> ('ga, 'la, 'gb, 'lb, 'gc, 'lc) cohort_client) \<Rightarrow> ('g, 'l) cohorts \<Rightarrow> bool" where
  "inv \<equiv> cohort_inv gvalid gfree lvalid lfree node limit"

lemma inv_init: "inv N (\<lambda>_. Idle ()) (cohorts_init g0 m0 limit)"
  using glob.init loc.init
  by (auto simp: cohort_inv_def cohorts_init_def ck_cohort_init_def tenant_def cohort_view_def cnt_0)

lemma view_idle: "\<not> inside l \<Longrightarrow> cohort_view k w l = cohort_view k w (Idle ())"
  using outside_idle [of l k] by (simp add: cohort_view_def)

lemma view_ledger: "ledger k = ledger k' \<Longrightarrow> cohort_view k w l = cohort_view k' w l"
  by (cases l) (auto simp: cohort_view_def split: cohort_lock_pc.splits cohort_try_pc.splits cohort_unlock_pc.splits)

lemma law_owner:
  assumes law: "cohort_law gvalid gfree lvalid lfree c l s l' s'" and w: "gfree (global_lock s) = (owner = None)"
    and v: "inside l \<Longrightarrow> inside l' \<Longrightarrow> has_global l (cohort s c) = (owner = Some c)"
  obtains owner' where "gfree (global_lock s') = (owner' = None)"
    and "\<And>d. d \<noteq> c \<Longrightarrow> (owner' = Some d) = (owner = Some d)"
    and "has_global l (cohort s c) = (owner = Some c) \<Longrightarrow> has_global l' (cohort s' c) = (owner' = Some c)"
    and "\<not> (inside l \<and> inside l') \<Longrightarrow> owner' = owner"
proof -
  have g: "takes_law (has_global l (cohort s c)) (has_global l' (cohort s' c)) (gfree (global_lock s)) (gfree (global_lock s'))"
    and o: "\<not> (inside l \<and> inside l') \<Longrightarrow> has_global l' (cohort s' c) = has_global l (cohort s c)"
    using law unfolding cohort_law_def by blast+
  consider (same) "has_global l' (cohort s' c) = has_global l (cohort s c)"
    | (gain) "has_global l' (cohort s' c)" "\<not> has_global l (cohort s c)"
    | (lose) "\<not> has_global l' (cohort s' c)" "has_global l (cohort s c)" by blast
  then show ?thesis
  proof cases
    case same
    then show ?thesis using g w by (intro that [of owner]) (auto simp: takes_law_def)
  next
    case gain
    then show ?thesis using g w o by (intro that [of "Some c"]) (auto simp: takes_law_def)
  next
    case lose
    then show ?thesis using g w o v by (intro that [of None]) (auto simp: takes_law_def)
  qed
qed

lemma inv_next:
  assumes i: "inv N ls s" and t: "t < N" and st: "cohort_step G L node t (ls t) s l' s'"
  shows "inv N (ls(t := l')) s'"
proof -
  let ?c = "node t"
  obtain owner where gv: "gvalid (global_lock s)" and w: "gfree (global_lock s) = (owner = None)"
    and lv: "\<And>c. lvalid (local_lock (cohort s c))" "\<And>c. local_pass_limit (cohort s c) = limit c"
    and n: "\<And>c. inside_count node N c ls = of_bool (\<not> lfree (local_lock (cohort s c)))"
    and ten: "\<And>c. tenant node N c ls (cohort_view (cohort s c) (owner = Some c))"
    using i unfolding cohort_inv_def by blast
  have one: "inside_count node N ?c ls \<le> 1" using n [of ?c] by simp
  have here: "cohort_view (cohort s ?c) (owner = Some ?c) (ls t)" if "inside (ls t)"
    using ten [of ?c] t that by (auto simp: tenant_def)
  have law: "cohort_law gvalid gfree lvalid lfree ?c (ls t) s l' s'"
    using here by (intro step_law [OF gv lv(1) _ st]) (auto simp: cohort_view_def)
  have gv': "gvalid (global_lock s')" and lv': "lvalid (local_lock (cohort s' ?c))"
    and fr: "\<And>d. d \<noteq> ?c \<Longrightarrow> cohort s' d = cohort s d" and lim: "local_pass_limit (cohort s' ?c) = local_pass_limit (cohort s ?c)"
    and tk: "takes_law (inside (ls t)) (inside l') (lfree (local_lock (cohort s ?c))) (lfree (local_lock (cohort s' ?c)))"
    and led: "\<not> (inside (ls t) \<and> inside l') \<Longrightarrow> ledger (cohort s' ?c) = ledger (cohort s ?c)"
    and ok: "count_ok (ls t) (cohort s ?c) \<Longrightarrow> count_ok l' (cohort s' ?c)"
    using law unfolding cohort_law_def by blast+
  obtain owner' where w': "gfree (global_lock s') = (owner' = None)"
    and el: "\<And>d. d \<noteq> ?c \<Longrightarrow> (owner' = Some d) = (owner = Some d)"
    and hg: "has_global (ls t) (cohort s ?c) = (owner = Some ?c) \<Longrightarrow> has_global l' (cohort s' ?c) = (owner' = Some ?c)"
    and out: "\<not> (inside (ls t) \<and> inside l') \<Longrightarrow> owner' = owner"
    by (rule law_owner [OF law w]) (use here in \<open>auto simp: cohort_view_def\<close>)
  have n': "inside_count node N c (ls(t := l')) = of_bool (\<not> lfree (local_lock (cohort s' c)))" for c
  proof (cases "c = ?c")
    case True
    show ?thesis unfolding node_upd by (rule cnt_flag_step [OF n t]) (use tk fr True in \<open>auto simp: takes_law_def\<close>)
  next
    case False
    then show ?thesis using n [of c] fr [of c] t unfolding node_upd by simp
  qed
  have "tenant node N c (ls(t := l')) (cohort_view (cohort s' c) (owner' = Some c))" for c
  proof (cases "c = ?c")
    case True
    have "tenant node N ?c (ls(t := l')) (cohort_view (cohort s' ?c) (owner' = Some ?c))"
    proof (rule tenant_here [OF one t ten])
      show "inside_count node N ?c ls = 0" if "inside l'" "\<not> inside (ls t)" using n [of ?c] tk that by (simp add: takes_law_def)
      show "cohort_view (cohort s ?c) (owner = Some ?c) (ls t) \<Longrightarrow> cohort_view (cohort s' ?c) (owner' = Some ?c) l'"
        using ok hg by (simp add: cohort_view_def)
      show "cohort_view (cohort s' ?c) (owner' = Some ?c) = cohort_view (cohort s ?c) (owner = Some ?c)"
        if "\<not> inside (ls t)" "\<not> inside l'"
        using led out that view_ledger [of "cohort s' ?c" "cohort s ?c"] by auto
    qed (rule view_idle, assumption)+
    with True show ?thesis by simp
  next
    case False
    then show ?thesis using ten [of c] fr [of c] el [of c] by (simp add: tenant_elsewhere)
  qed
  moreover have "lvalid (local_lock (cohort s' c)) \<and> local_pass_limit (cohort s' c) = limit c" for c
    using lv [of c] lv' lim fr [of c] by (cases "c = ?c") auto
  ultimately show ?thesis using gv' n' w' unfolding cohort_inv_def by blast
qed

lemma inv_has_global:
  assumes i: "inv N ls s" and t: "i < N" "j < N" "inside (ls i)" "inside (ls j)"
    and g: "has_global (ls i) (cohort s (node i))" "has_global (ls j) (cohort s (node j))"
  shows "i = j" "\<not> gfree (global_lock s)"
proof -
  obtain owner where w: "gfree (global_lock s) = (owner = None)"
    and n': "\<And>c. inside_count node N c ls = of_bool (\<not> lfree (local_lock (cohort s c)))"
    and ten: "\<And>c. tenant node N c ls (cohort_view (cohort s c) (owner = Some c))"
    using i unfolding cohort_inv_def by blast
  have n: "inside_count node N c ls \<le> 1" for c using n' [of c] by simp
  have own: "owner = Some (node x)" if "x < N" "inside (ls x)" "has_global (ls x) (cohort s (node x))" for x
    using ten [of "node x"] that by (simp add: tenant_def cohort_view_def)
  have oi: "owner = Some (node i)" and oj: "owner = Some (node j)" using own t g by blast+
  then have "node j = node i" by simp
  then show "i = j" by (rule inside_alone [OF n t(1,2) refl _ t(3,4)])
  show "\<not> gfree (global_lock s)" using oi w by simp
qed

lemma acquire_bound:
  assumes "inv N ls s"
  shows "acquire_count (cohort s c) \<le> max 1 (limit c)"
proof -
  obtain l :: "('ga, 'la, 'gb, 'lb, 'gc, 'lc) cohort_client" where "count_ok l (cohort s c)"
    using assms unfolding cohort_inv_def tenant_def cohort_view_def by blast
  then show ?thesis using count_ok_le [of l "cohort s c"] assms by (simp add: cohort_inv_def)
qed

end

sublocale cohort_lock \<subseteq> mutex "cohort_step G L node" "\<lambda>_. Idle ()" "cohorts_init g0 m0 limit" "\<lambda>_. True"
  "cohort_inv gvalid gfree lvalid lfree node limit" critical
proof unfold_locales
  fix N ls s i j
  assume i: "inv N ls s" and *: "i < N" "j < N" "critical (ls i)" "critical (ls j)"
  show "i = j" by (rule inv_has_global(1) [OF i *(1,2)]) (use * in \<open>cases "ls i"; cases "ls j"; simp\<close>)+
qed (blast intro: inv_init inv_next)+

context cohort_lock begin

lemma cohort_safe:
  "reachable (cohort_step G L node) N (\<lambda>_. Idle ()) (cohorts_init g0 m0 limit) ls s \<Longrightarrow>
     (i < N \<and> j < N \<and> critical (ls i) \<and> critical (ls j) \<longrightarrow> i = j) \<and> acquire_count (cohort s c) \<le> max 1 (limit c)"
  using mutual_exclusion reachable_inv acquire_bound by blast

end

section \<open>Cohorts of spinlocks\<close>

interpretation fas_cohort: cohort_lock fas_ops ck_spinlock_fas_init fas_valid "\<lambda>s. fas_value s = 0"
  fas_ops ck_spinlock_fas_init fas_valid "\<lambda>s. fas_value s = 0" node limit for node limit
  by (intro cohort_lock.intro fas_lock.flag_lock_axioms)

interpretation cas_fas_cohort: cohort_lock cas_ops ck_spinlock_cas_init cas_valid "\<lambda>s. cas_value s = 0"
  fas_eb_ops ck_spinlock_fas_init fas_valid "\<lambda>s. fas_value s = 0" node limit for node limit
  by (intro cohort_lock.intro cas_lock.flag_lock_axioms fas_eb_lock.flag_lock_axioms)


text \<open>Two threads of cohort 0 and one of cohort 1. Thread 0 takes the lock, thread 1 waits for it, thread 0 leaves the global lock
  to the cohort and thread 1 enters.\<close>

definition pair_node :: "nat \<Rightarrow> nat" where "pair_node t = t div 2"

definition fas_cohort_run :: "(nat \<times> bool) list \<Rightarrow>
    (nat \<Rightarrow> (fas_pc, fas_pc, unit, unit, unit, unit) cohort_client) \<times> (ck_spinlock_fas, ck_spinlock_fas) cohorts" where
  "fas_cohort_run sch = move_run (\<lambda>c t. client_move (cohort_ops fas_ops fas_ops (pair_node t)) c) sch
     (\<lambda>_. Idle (), cohorts_init ck_spinlock_fas_init ck_spinlock_fas_init (\<lambda>_. CK_COHORT_DEFAULT_LOCAL_PASS_LIMIT))"

lemma fas_cohort_run_reachable:
  "list_all (\<lambda>(t, c). t < N) sch \<Longrightarrow>
   reachable (cohort_step fas_ops fas_ops pair_node) N (\<lambda>_. Idle ())
     (cohorts_init ck_spinlock_fas_init ck_spinlock_fas_init (\<lambda>_. CK_COHORT_DEFAULT_LOCAL_PASS_LIMIT))
     (fst (fas_cohort_run sch)) (snd (fas_cohort_run sch))"
  unfolding fas_cohort_run_def
  by (rule move_run_reachable) (auto simp: cohort_step_def intro: client_move_step reachable.start)

definition pass_schedule :: "(nat \<times> bool) list" where
  "pass_schedule = replicate 7 (0, False) @ replicate 2 (1, False) @ replicate 4 (0, False) @ replicate 4 (1, False)"



end
