(* ===== verification/Rwcohort.thy ===== *)
theory Rwcohort
  imports Cohort DrainLock
begin

text \<open>
  The reader-writer locks on lock cohorts, \<^verbatim>\<open>ck_rwcohort.h\<close>: writers hold the cohort lock of \<^verbatim>\<open>ck_cohort.h\<close>, readers a
  counter. The three forms differ in who waits for whom: writers first (\<open>wp\<close>), readers first (\<open>rp\<close>), or all in the order
  of the cohort lock (\<open>neutral\<close>). Every form is a client of the cohort lock, and \<open>cohort_rw\<close> uses only what Cohort proves of it.
\<close>

text \<open>A reader-writer lock beside the cohorts whose lock its writers take.\<close>

record ('r, 'g, 'l) rw_cohorts =
  rw_cohort :: 'r
  cohs :: "('g, 'l) cohorts"

abbreviation in_rw :: "('r \<Rightarrow> 'r) \<Rightarrow> ('r, 'g, 'l) rw_cohorts \<Rightarrow> ('r, 'g, 'l) rw_cohorts" where
  "in_rw f s \<equiv> s\<lparr>rw_cohort := f (rw_cohort s)\<rparr>"

section \<open>Writer preference\<close>

record ck_rwcohort_wp =
  wp_read_counter :: uint
  wp_write_barrier :: uint
  wp_wait_limit :: uint

definition ck_rwcohort_wp_init :: "uint \<Rightarrow> ck_rwcohort_wp" where
  "ck_rwcohort_wp_init wait_limit = \<lparr>wp_read_counter = 0, wp_write_barrier = 0, wp_wait_limit = wait_limit\<rparr>"

datatype ('g, 'l) wp_write_pc = WwBarrier | WwLock "('g, 'l) cohort_lock_pc" | WwDrain

fun ck_rwcohort_wp_write_lock :: "(unit, 'ga, 'gb, unit, 'gc, 'g) lock_ops \<Rightarrow> (unit, 'la, 'lb, unit, 'lc, 'l) lock_ops \<Rightarrow> nat \<Rightarrow>
    ('ga, 'la) wp_write_pc \<Rightarrow> (ck_rwcohort_wp, 'g, 'l) rw_cohorts \<Rightarrow>
    (('ga, 'la) wp_write_pc, unit) ctl \<times> (ck_rwcohort_wp, 'g, 'l) rw_cohorts" where
  "ck_rwcohort_wp_write_lock G L c WwBarrier s =
     (if ck_pr_load (wp_write_barrier (rw_cohort s)) > 0 then Go WwBarrier else Go (WwLock CoInc), s)"
| "ck_rwcohort_wp_write_lock G L c (WwLock a) s = (case ck_cohort_lock G L c a (cohs s) of
     (Go a', k) \<Rightarrow> (Go (WwLock a'), s\<lparr>cohs := k\<rparr>) | (Ret _, k) \<Rightarrow> (Go WwDrain, s\<lparr>cohs := k\<rparr>))"
| "ck_rwcohort_wp_write_lock G L c WwDrain s =
     (if ck_pr_load (wp_read_counter (rw_cohort s)) > 0 then Go WwDrain else Ret (), s)"

definition ck_rwcohort_wp_write_unlock :: "(unit, 'ga, 'gb, unit, 'gc, 'g) lock_ops \<Rightarrow> (unit, 'la, 'lb, unit, 'lc, 'l) lock_ops \<Rightarrow> nat \<Rightarrow>
    ('gc, 'lc) cohort_unlock_pc \<Rightarrow> (ck_rwcohort_wp, 'g, 'l) rw_cohorts \<Rightarrow>
    (('gc, 'lc) cohort_unlock_pc, unit) ctl \<times> (ck_rwcohort_wp, 'g, 'l) rw_cohorts" where
  "ck_rwcohort_wp_write_unlock G L c d s = (case ck_cohort_unlock G L c d (cohs s) of (x, k) \<Rightarrow> (x, s\<lparr>cohs := k\<rparr>))"

text \<open>The reader's local variables \<open>wait_count\<close> and \<open>raised\<close> travel in the program point.\<close>

datatype wp_read_pc = WrInc uint bool | WrLocked uint bool cohort_locked_pc | WrDec uint bool
  | WrWait uint bool cohort_locked_pc | WrRaise uint | WrLower

fun ck_rwcohort_wp_read_lock :: "('l \<Rightarrow> bool) \<Rightarrow> ('g \<Rightarrow> bool) \<Rightarrow> nat \<Rightarrow>
    wp_read_pc \<Rightarrow> (ck_rwcohort_wp, 'g, 'l) rw_cohorts \<Rightarrow> (wp_read_pc, unit) ctl \<times> (ck_rwcohort_wp, 'g, 'l) rw_cohorts" where
  "ck_rwcohort_wp_read_lock GI LI c (WrInc wait_count raised) s =
     (Go (WrLocked wait_count raised CkLocal), in_rw (\<lambda>r. r\<lparr>wp_read_counter := ck_pr_inc (wp_read_counter r)\<rparr>) s)"
| "ck_rwcohort_wp_read_lock GI LI c (WrLocked wait_count raised q) s = (case fst (ck_cohort_locked GI LI c q (cohs s)) of
     Go q' \<Rightarrow> (Go (WrLocked wait_count raised q'), s)
   | Ret locked \<Rightarrow> (if locked = False then if raised then Go WrLower else Ret () else Go (WrDec wait_count raised), s))"
| "ck_rwcohort_wp_read_lock GI LI c (WrDec wait_count raised) s =
     (Go (WrWait wait_count raised CkLocal), in_rw (\<lambda>r. r\<lparr>wp_read_counter := ck_pr_dec (wp_read_counter r)\<rparr>) s)"
| "ck_rwcohort_wp_read_lock GI LI c (WrWait wait_count raised q) s = (case fst (ck_cohort_locked GI LI c q (cohs s)) of
     Go q' \<Rightarrow> (Go (WrWait wait_count raised q'), s)
   | Ret locked \<Rightarrow>
       (if locked = True then
          if wait_count + 1 > wp_wait_limit (rw_cohort s) \<and> raised = False then Go (WrRaise (wait_count + 1))
          else Go (WrWait (wait_count + 1) raised CkLocal)
        else Go (WrInc wait_count raised), s))"
| "ck_rwcohort_wp_read_lock GI LI c (WrRaise wait_count) s =
     (Go (WrWait wait_count True CkLocal), in_rw (\<lambda>r. r\<lparr>wp_write_barrier := ck_pr_inc (wp_write_barrier r)\<rparr>) s)"
| "ck_rwcohort_wp_read_lock GI LI c WrLower s =
     (Ret (), in_rw (\<lambda>r. r\<lparr>wp_write_barrier := ck_pr_dec (wp_write_barrier r)\<rparr>) s)"

definition ck_rwcohort_wp_read_unlock :: "unit \<Rightarrow> (ck_rwcohort_wp, 'g, 'l) rw_cohorts \<Rightarrow>
    (unit, unit) ctl \<times> (ck_rwcohort_wp, 'g, 'l) rw_cohorts" where
  "ck_rwcohort_wp_read_unlock _ s = (Ret (), in_rw (\<lambda>r. r\<lparr>wp_read_counter := ck_pr_dec (wp_read_counter r)\<rparr>) s)"

section \<open>Reader preference\<close>

record ck_rwcohort_rp =
  rp_read_counter :: uint
  rp_read_barrier :: uint
  rp_wait_limit :: uint

definition ck_rwcohort_rp_init :: "uint \<Rightarrow> ck_rwcohort_rp" where
  "ck_rwcohort_rp_init wait_limit = \<lparr>rp_read_counter = 0, rp_read_barrier = 0, rp_wait_limit = wait_limit\<rparr>"

datatype ('ga, 'la, 'gc, 'lc) rp_write_pc = PwLock uint bool "('ga, 'la) cohort_lock_pc" | PwCheck uint bool
  | PwUnlock uint bool "('gc, 'lc) cohort_unlock_pc" | PwWait uint bool | PwRaise uint | PwLower

fun ck_rwcohort_rp_write_lock :: "(unit, 'ga, 'gb, unit, 'gc, 'g) lock_ops \<Rightarrow> (unit, 'la, 'lb, unit, 'lc, 'l) lock_ops \<Rightarrow> nat \<Rightarrow>
    ('ga, 'la, 'gc, 'lc) rp_write_pc \<Rightarrow> (ck_rwcohort_rp, 'g, 'l) rw_cohorts \<Rightarrow>
    (('ga, 'la, 'gc, 'lc) rp_write_pc, unit) ctl \<times> (ck_rwcohort_rp, 'g, 'l) rw_cohorts" where
  "ck_rwcohort_rp_write_lock G L c (PwLock wait_count raised a) s = (case ck_cohort_lock G L c a (cohs s) of
     (Go a', k) \<Rightarrow> (Go (PwLock wait_count raised a'), s\<lparr>cohs := k\<rparr>)
   | (Ret _, k) \<Rightarrow> (Go (PwCheck wait_count raised), s\<lparr>cohs := k\<rparr>))"
| "ck_rwcohort_rp_write_lock G L c (PwCheck wait_count raised) s =
     (if ck_pr_load (rp_read_counter (rw_cohort s)) = 0 then if raised then Go PwLower else Ret ()
      else Go (PwUnlock wait_count raised CuCheck), s)"
| "ck_rwcohort_rp_write_lock G L c (PwUnlock wait_count raised d) s = (case ck_cohort_unlock G L c d (cohs s) of
     (Go d', k) \<Rightarrow> (Go (PwUnlock wait_count raised d'), s\<lparr>cohs := k\<rparr>)
   | (Ret _, k) \<Rightarrow> (Go (PwWait wait_count raised), s\<lparr>cohs := k\<rparr>))"
| "ck_rwcohort_rp_write_lock G L c (PwWait wait_count raised) s =
     (if ck_pr_load (rp_read_counter (rw_cohort s)) > 0 then
        if wait_count + 1 > rp_wait_limit (rw_cohort s) \<and> raised = False then Go (PwRaise (wait_count + 1))
        else Go (PwWait (wait_count + 1) raised)
      else Go (PwLock wait_count raised CoInc), s)"
| "ck_rwcohort_rp_write_lock G L c (PwRaise wait_count) s =
     (Go (PwWait wait_count True), in_rw (\<lambda>r. r\<lparr>rp_read_barrier := ck_pr_inc (rp_read_barrier r)\<rparr>) s)"
| "ck_rwcohort_rp_write_lock G L c PwLower s =
     (Ret (), in_rw (\<lambda>r. r\<lparr>rp_read_barrier := ck_pr_dec (rp_read_barrier r)\<rparr>) s)"

definition ck_rwcohort_rp_write_unlock :: "(unit, 'ga, 'gb, unit, 'gc, 'g) lock_ops \<Rightarrow> (unit, 'la, 'lb, unit, 'lc, 'l) lock_ops \<Rightarrow> nat \<Rightarrow>
    ('gc, 'lc) cohort_unlock_pc \<Rightarrow> (ck_rwcohort_rp, 'g, 'l) rw_cohorts \<Rightarrow>
    (('gc, 'lc) cohort_unlock_pc, unit) ctl \<times> (ck_rwcohort_rp, 'g, 'l) rw_cohorts" where
  "ck_rwcohort_rp_write_unlock G L c d s = (case ck_cohort_unlock G L c d (cohs s) of (x, k) \<Rightarrow> (x, s\<lparr>cohs := k\<rparr>))"

datatype rp_read_pc = PrBarrier | PrInc | PrLocked cohort_locked_pc

fun ck_rwcohort_rp_read_lock :: "('l \<Rightarrow> bool) \<Rightarrow> ('g \<Rightarrow> bool) \<Rightarrow> nat \<Rightarrow>
    rp_read_pc \<Rightarrow> (ck_rwcohort_rp, 'g, 'l) rw_cohorts \<Rightarrow> (rp_read_pc, unit) ctl \<times> (ck_rwcohort_rp, 'g, 'l) rw_cohorts" where
  "ck_rwcohort_rp_read_lock GI LI c PrBarrier s =
     (if ck_pr_load (rp_read_barrier (rw_cohort s)) > 0 then Go PrBarrier else Go PrInc, s)"
| "ck_rwcohort_rp_read_lock GI LI c PrInc s =
     (Go (PrLocked CkLocal), in_rw (\<lambda>r. r\<lparr>rp_read_counter := ck_pr_inc (rp_read_counter r)\<rparr>) s)"
| "ck_rwcohort_rp_read_lock GI LI c (PrLocked q) s = (case fst (ck_cohort_locked GI LI c q (cohs s)) of
     Go q' \<Rightarrow> (Go (PrLocked q'), s)
   | Ret locked \<Rightarrow> (if locked = True then Go (PrLocked CkLocal) else Ret (), s))"

definition ck_rwcohort_rp_read_unlock :: "unit \<Rightarrow> (ck_rwcohort_rp, 'g, 'l) rw_cohorts \<Rightarrow>
    (unit, unit) ctl \<times> (ck_rwcohort_rp, 'g, 'l) rw_cohorts" where
  "ck_rwcohort_rp_read_unlock _ s = (Ret (), in_rw (\<lambda>r. r\<lparr>rp_read_counter := ck_pr_dec (rp_read_counter r)\<rparr>) s)"

section \<open>Neutral\<close>

record ck_rwcohort_neutral = nt_read_counter :: uint

definition ck_rwcohort_neutral_init :: ck_rwcohort_neutral where
  "ck_rwcohort_neutral_init = \<lparr>nt_read_counter = 0\<rparr>"

datatype ('ga, 'la) nt_write_pc = NwLock "('ga, 'la) cohort_lock_pc" | NwDrain

fun ck_rwcohort_neutral_write_lock :: "(unit, 'ga, 'gb, unit, 'gc, 'g) lock_ops \<Rightarrow> (unit, 'la, 'lb, unit, 'lc, 'l) lock_ops \<Rightarrow> nat \<Rightarrow>
    ('ga, 'la) nt_write_pc \<Rightarrow> (ck_rwcohort_neutral, 'g, 'l) rw_cohorts \<Rightarrow>
    (('ga, 'la) nt_write_pc, unit) ctl \<times> (ck_rwcohort_neutral, 'g, 'l) rw_cohorts" where
  "ck_rwcohort_neutral_write_lock G L c (NwLock a) s = (case ck_cohort_lock G L c a (cohs s) of
     (Go a', k) \<Rightarrow> (Go (NwLock a'), s\<lparr>cohs := k\<rparr>) | (Ret _, k) \<Rightarrow> (Go NwDrain, s\<lparr>cohs := k\<rparr>))"
| "ck_rwcohort_neutral_write_lock G L c NwDrain s =
     (if ck_pr_load (nt_read_counter (rw_cohort s)) > 0 then Go NwDrain else Ret (), s)"

definition ck_rwcohort_neutral_write_unlock :: "(unit, 'ga, 'gb, unit, 'gc, 'g) lock_ops \<Rightarrow> (unit, 'la, 'lb, unit, 'lc, 'l) lock_ops \<Rightarrow> nat \<Rightarrow>
    ('gc, 'lc) cohort_unlock_pc \<Rightarrow> (ck_rwcohort_neutral, 'g, 'l) rw_cohorts \<Rightarrow>
    (('gc, 'lc) cohort_unlock_pc, unit) ctl \<times> (ck_rwcohort_neutral, 'g, 'l) rw_cohorts" where
  "ck_rwcohort_neutral_write_unlock G L c d s = (case ck_cohort_unlock G L c d (cohs s) of (x, k) \<Rightarrow> (x, s\<lparr>cohs := k\<rparr>))"

datatype ('ga, 'la, 'gc, 'lc) nt_read_pc = NrLock "('ga, 'la) cohort_lock_pc" | NrInc | NrUnlock "('gc, 'lc) cohort_unlock_pc"

fun ck_rwcohort_neutral_read_lock :: "(unit, 'ga, 'gb, unit, 'gc, 'g) lock_ops \<Rightarrow> (unit, 'la, 'lb, unit, 'lc, 'l) lock_ops \<Rightarrow> nat \<Rightarrow>
    ('ga, 'la, 'gc, 'lc) nt_read_pc \<Rightarrow> (ck_rwcohort_neutral, 'g, 'l) rw_cohorts \<Rightarrow>
    (('ga, 'la, 'gc, 'lc) nt_read_pc, unit) ctl \<times> (ck_rwcohort_neutral, 'g, 'l) rw_cohorts" where
  "ck_rwcohort_neutral_read_lock G L c (NrLock a) s = (case ck_cohort_lock G L c a (cohs s) of
     (Go a', k) \<Rightarrow> (Go (NrLock a'), s\<lparr>cohs := k\<rparr>) | (Ret _, k) \<Rightarrow> (Go NrInc, s\<lparr>cohs := k\<rparr>))"
| "ck_rwcohort_neutral_read_lock G L c NrInc s =
     (Go (NrUnlock CuCheck), in_rw (\<lambda>r. r\<lparr>nt_read_counter := ck_pr_inc (nt_read_counter r)\<rparr>) s)"
| "ck_rwcohort_neutral_read_lock G L c (NrUnlock d) s = (case ck_cohort_unlock G L c d (cohs s) of
     (Go d', k) \<Rightarrow> (Go (NrUnlock d'), s\<lparr>cohs := k\<rparr>) | (Ret _, k) \<Rightarrow> (Ret (), s\<lparr>cohs := k\<rparr>))"

definition ck_rwcohort_neutral_read_unlock :: "unit \<Rightarrow> (ck_rwcohort_neutral, 'g, 'l) rw_cohorts \<Rightarrow>
    (unit, unit) ctl \<times> (ck_rwcohort_neutral, 'g, 'l) rw_cohorts" where
  "ck_rwcohort_neutral_read_unlock _ s = (Ret (), in_rw (\<lambda>r. r\<lparr>nt_read_counter := ck_pr_dec (nt_read_counter r)\<rparr>) s)"

section \<open>The functions of each form\<close>

definition wp_ops :: "(unit, 'ga, 'gb, unit, 'gc, 'g) lock_ops \<Rightarrow> (unit, 'la, 'lb, unit, 'lc, 'l) lock_ops \<Rightarrow>
    ('l \<Rightarrow> bool) \<Rightarrow> ('g \<Rightarrow> bool) \<Rightarrow> nat \<Rightarrow> (('ga, 'la) wp_write_pc, unit, ('gc, 'lc) cohort_unlock_pc, wp_read_pc, unit, unit, unit,
      (ck_rwcohort_wp, 'g, 'l) rw_cohorts) rw_ops" where
  "wp_ops G L GI LI c = \<lparr>wlock_fn = ck_rwcohort_wp_write_lock G L c, wlock_entry = WwBarrier, wtry_fn = no_trylock, wtry_entry = None,
     wunlock_fn = ck_rwcohort_wp_write_unlock G L c, wunlock_entry = CuCheck,
     rlock_fn = ck_rwcohort_wp_read_lock GI LI c, rlock_entry = WrInc 0 False, rtry_fn = no_trylock, rtry_entry = None,
     runlock_fn = ck_rwcohort_wp_read_unlock, runlock_entry = (), downgrade_fn = no_downgrade, downgrade_entry = None\<rparr>"

definition rp_ops :: "(unit, 'ga, 'gb, unit, 'gc, 'g) lock_ops \<Rightarrow> (unit, 'la, 'lb, unit, 'lc, 'l) lock_ops \<Rightarrow>
    ('l \<Rightarrow> bool) \<Rightarrow> ('g \<Rightarrow> bool) \<Rightarrow> nat \<Rightarrow> (('ga, 'la, 'gc, 'lc) rp_write_pc, unit, ('gc, 'lc) cohort_unlock_pc, rp_read_pc, unit, unit, unit,
      (ck_rwcohort_rp, 'g, 'l) rw_cohorts) rw_ops" where
  "rp_ops G L GI LI c = \<lparr>wlock_fn = ck_rwcohort_rp_write_lock G L c, wlock_entry = PwLock 0 False CoInc, wtry_fn = no_trylock,
     wtry_entry = None, wunlock_fn = ck_rwcohort_rp_write_unlock G L c, wunlock_entry = CuCheck,
     rlock_fn = ck_rwcohort_rp_read_lock GI LI c, rlock_entry = PrBarrier, rtry_fn = no_trylock, rtry_entry = None,
     runlock_fn = ck_rwcohort_rp_read_unlock, runlock_entry = (), downgrade_fn = no_downgrade, downgrade_entry = None\<rparr>"

definition neutral_ops :: "(unit, 'ga, 'gb, unit, 'gc, 'g) lock_ops \<Rightarrow> (unit, 'la, 'lb, unit, 'lc, 'l) lock_ops \<Rightarrow> nat \<Rightarrow>
    (('ga, 'la) nt_write_pc, unit, ('gc, 'lc) cohort_unlock_pc, ('ga, 'la, 'gc, 'lc) nt_read_pc, unit, unit, unit,
      (ck_rwcohort_neutral, 'g, 'l) rw_cohorts) rw_ops" where
  "neutral_ops G L c = \<lparr>wlock_fn = ck_rwcohort_neutral_write_lock G L c, wlock_entry = NwLock CoInc, wtry_fn = no_trylock,
     wtry_entry = None, wunlock_fn = ck_rwcohort_neutral_write_unlock G L c, wunlock_entry = CuCheck,
     rlock_fn = ck_rwcohort_neutral_read_lock G L c, rlock_entry = NrLock CoInc, rtry_fn = no_trylock, rtry_entry = None,
     runlock_fn = ck_rwcohort_neutral_read_unlock, runlock_entry = (), downgrade_fn = no_downgrade, downgrade_entry = None\<rparr>"

text \<open>A thread calls the functions with the cohort of its node.\<close>

definition node_step :: "(nat \<Rightarrow> ('wa, 'wb, 'wc, 'ra, 'rb, 'rc, 'd, 's) rw_ops) \<Rightarrow> (nat \<Rightarrow> nat) \<Rightarrow> nat \<Rightarrow>
     ('wa, 'wb, 'wc, 'ra, 'rb, 'rc, 'd) rw_client \<Rightarrow> 's \<Rightarrow> ('wa, 'wb, 'wc, 'ra, 'rb, 'rc, 'd) rw_client \<Rightarrow> 's \<Rightarrow> bool" where
  "node_step ops node t = rw_step (ops (node t)) t"

section \<open>Clients of the cohort lock\<close>

text \<open>\<open>coh l\<close> is what the thread is doing with the cohort lock. A step is a step of the cohort lock or leaves it alone;
  a writer that has drained the readers is in the critical section of the cohort lock; a reader is admitted when it has seen
  the global lock free, or in the critical section of the cohort lock.\<close>

locale cohort_rw = cohort_lock G g0 gvalid gfree L m0 lvalid lfree node limit
  for G :: "(unit, 'ga, 'gb, unit, 'gc, 'g) lock_ops" and g0 gvalid gfree
    and L :: "(unit, 'la, 'lb, unit, 'lc, 'l) lock_ops" and m0 lvalid lfree and node limit +
  fixes step :: "nat \<Rightarrow> 'x \<Rightarrow> ('r, 'g, 'l) rw_cohorts \<Rightarrow> 'x \<Rightarrow> ('r, 'g, 'l) rw_cohorts \<Rightarrow> bool" and l0 :: 'x and r0 :: 'r
    and coh :: "'x \<Rightarrow> ('ga, 'la, 'gb, 'lb, 'gc, 'lc) cohort_client"
    and ctd :: "'x \<Rightarrow> bool" and drn :: "'x \<Rightarrow> bool" and adm :: "'x \<Rightarrow> bool" and readers :: "'r \<Rightarrow> uint"
    and rd :: "'x \<Rightarrow> bool" and wr :: "'x \<Rightarrow> bool"
  assumes init: "coh l0 = Idle ()" "readers r0 = 0" "\<not> ctd l0"
    and drained: "drn l \<Longrightarrow> coh l = Critical ()"
    and sides: "adm l \<Longrightarrow> ctd l" "drn l \<Longrightarrow> \<not> adm l" "wr l \<Longrightarrow> drn l" "rd l \<Longrightarrow> adm l"
    and uses: "step t l s l' s' \<Longrightarrow>
      cohort_step G L node t (coh l) (cohs s) (coh l') (cohs s') \<or> coh l' = coh l \<and> cohs s' = cohs s"
    and guard: "step t l s l' s' \<Longrightarrow> guard_law (\<lambda>l. coh l = Critical ()) ctd drn adm (\<lambda>s. \<not> gfree (global_lock (cohs s)))
      (\<lambda>s. unat (readers (rw_cohort s))) (2 ^ 32 - 1) l s l' s'"

context cohort_rw begin

abbreviation held :: "nat \<Rightarrow> (nat \<Rightarrow> 'x) \<Rightarrow> ('r, 'g, 'l) rw_cohorts \<Rightarrow> bool" where
  "held N ls s \<equiv> cohort_inv gvalid gfree lvalid lfree node limit N (\<lambda>t. coh (ls t)) (cohs s)"

lemma coh_upd: "(\<lambda>i. coh ((ls(t := l)) i)) = (\<lambda>i. coh (ls i))(t := coh l)"
  by auto

lemma held_step:
  assumes "held N ls s" "t < N" "step t (ls t) s l' s'"
  shows "held N (ls(t := l')) s'"
  using uses [OF assms(3)]
proof
  assume "cohort_step G L node t (coh (ls t)) (cohs s) (coh l') (cohs s')"
  then show ?thesis unfolding coh_upd by (intro inv_next [OF assms(1,2)])
next
  assume "coh l' = coh (ls t) \<and> cohs s' = cohs s"
  then show ?thesis using assms(1) unfolding coh_upd by (simp add: fun_upd_idem [of "\<lambda>i. coh (ls i)"])
qed

lemma held_critical:
  assumes "held N ls s" "i < N" "j < N" "coh (ls i) = Critical ()" "coh (ls j) = Critical ()"
  shows "i = j" "\<not> gfree (global_lock (cohs s))"
  using inv_has_global [OF assms(1-3)] assms(4,5) by simp_all

end

sublocale cohort_rw \<subseteq> rw: guarded_rw step l0 "\<lparr>rw_cohort = r0, cohs = cohorts_init g0 m0 limit\<rparr>" "2 ^ 32 - 1" "\<lambda>l. coh l = Critical ()" ctd drn adm
  "\<lambda>s. \<not> gfree (global_lock (cohs s))" "\<lambda>s. unat (readers (rw_cohort s))" rd wr
  "\<lambda>N ls s. cohort_inv gvalid gfree lvalid lfree node limit N (\<lambda>t. coh (ls t)) (cohs s)"
proof unfold_locales
  fix N ls s i j
  assume h: "held N ls s" and i: "i < N" "coh (ls i) = Critical ()"
  show "\<not> gfree (global_lock (cohs s))" by (rule held_critical(2) [OF h i(1,1) i(2,2)])
  show "i = j" if "j < N" "coh (ls j) = Critical ()" by (rule held_critical(1) [OF h i(1) that(1) i(2) that(2)])
next
  show "\<not> drn l0" using init drained by fastforce
next
  fix N ls s t l' s'
  assume h: "held N ls s" "t < N" "step t (ls t) s l' s'"
  show "held N (ls(t := l')) s'" by (rule held_step [OF h])
qed (use init drained sides inv_init guard in auto)

section \<open>The three forms\<close>

text \<open>Readers of the first two forms rely on the predicate of the global lock: what it calls unlocked is free.\<close>

locale cohort_pred = cohort_lock G g0 gvalid gfree L m0 lvalid lfree node limit
  for G :: "(unit, 'ga, 'gb, unit, 'gc, 'g) lock_ops" and g0 gvalid gfree
    and L :: "(unit, 'la, 'lb, unit, 'lc, 'l) lock_ops" and m0 lvalid lfree and node limit +
  fixes GI :: "'l \<Rightarrow> bool" and LI :: "'g \<Rightarrow> bool" and wait_limit :: uint
  assumes unlocked: "\<not> LI g \<Longrightarrow> gfree g"

lemma cohort_uses:
  "cohort_step G L node t (Idle ()) k (Acquiring CoInc) k"
  "ck_cohort_lock G L (node t) a k = (Go a', k') \<Longrightarrow> cohort_step G L node t (Acquiring a) k (Acquiring a') k'"
  "ck_cohort_lock G L (node t) a k = (Ret (), k') \<Longrightarrow> cohort_step G L node t (Acquiring a) k (Critical ()) k'"
  "cohort_step G L node t (Critical ()) k (Releasing CuCheck) k"
  "ck_cohort_unlock G L (node t) d k = (Go d', k') \<Longrightarrow> cohort_step G L node t (Releasing d) k (Releasing d') k'"
  "ck_cohort_unlock G L (node t) d k = (Ret (), k') \<Longrightarrow> cohort_step G L node t (Releasing d) k (Idle ()) k'"
  unfolding cohort_step_def
  using begin_lock [of "cohort_ops G L (node t)"] begin_unlock [of "cohort_ops G L (node t)"]
    lock_go [of "cohort_ops G L (node t)"] lock_ret [of "cohort_ops G L (node t)"]
    unlock_go [of "cohort_ops G L (node t)"] unlock_ret [of "cohort_ops G L (node t)"]
  by simp_all

lemma locked_ret_iff:
  "fst (ck_cohort_locked GI LI c q k) = Ret False \<longleftrightarrow> q = CkGlobal \<and> \<not> LI (global_lock k)"
  by (cases q) auto

fun wp_coh :: "(('ga, 'la) wp_write_pc, unit, ('gc, 'lc) cohort_unlock_pc, wp_read_pc, unit, unit, unit) rw_client \<Rightarrow>
    ('ga, 'la, 'gb, 'lb, 'gc, 'lc) cohort_client" where
  "wp_coh (WLock a) = (case a of WwBarrier \<Rightarrow> Idle () | WwLock b \<Rightarrow> Acquiring b | WwDrain \<Rightarrow> Critical ())"
| "wp_coh WCrit = Critical ()"
| "wp_coh (WUnlock d) = Releasing d"
| "wp_coh _ = Idle ()"

fun wp_adm :: "(('ga, 'la) wp_write_pc, unit, ('gc, 'lc) cohort_unlock_pc, wp_read_pc, unit, unit, unit) rw_client \<Rightarrow> bool" where
  "wp_adm (RLock WrLower) = True" | "wp_adm RCrit = True" | "wp_adm (RUnlock d) = True" | "wp_adm (Downgrade e) = True" | "wp_adm _ = False"

fun wp_ctd :: "(('ga, 'la) wp_write_pc, unit, ('gc, 'lc) cohort_unlock_pc, wp_read_pc, unit, unit, unit) rw_client \<Rightarrow> bool" where
  "wp_ctd (RLock a) = (case a of WrLocked _ _ _ \<Rightarrow> True | WrDec _ _ \<Rightarrow> True | WrLower \<Rightarrow> True | _ \<Rightarrow> False)"
| "wp_ctd RCrit = True" | "wp_ctd (RUnlock d) = True" | "wp_ctd (Downgrade e) = True" | "wp_ctd _ = False"

lemmas wp_defs = wp_ops_def ck_rwcohort_wp_write_unlock_def ck_rwcohort_wp_read_unlock_def node_step_def no_trylock_def no_downgrade_def

lemma wp_uses:
  assumes "node_step (wp_ops G L GI LI) node t l s l' s'"
  shows "cohort_step G L node t (wp_coh l) (cohs s) (wp_coh l') (cohs s') \<or> wp_coh l' = wp_coh l \<and> cohs s' = cohs s"
  using assms unfolding wp_defs
proof (cases rule: rw_step.cases)
  case (wlock_go a a')
  then show ?thesis by (cases a) (auto simp: cohort_uses split: prod.splits ctl.splits if_splits)
next
  case (wlock_ret a)
  then show ?thesis by (cases a) (auto split: prod.splits ctl.splits if_splits)
next
  case (rlock_go a a')
  then show ?thesis by (cases a) (auto split: ctl.splits if_splits)
next
  case (rlock_ret a)
  then show ?thesis by (cases a) (auto split: ctl.splits if_splits)
qed (auto simp: cohort_uses split: prod.splits)

lemma wp_guard:
  assumes st: "node_step (wp_ops G L GI LI) node t l s l' s'" and f: "\<And>g. \<not> LI g \<Longrightarrow> gfree g"
  shows "guard_law (\<lambda>l. wp_coh l = Critical ()) wp_ctd writing wp_adm (\<lambda>s. \<not> gfree (global_lock (cohs s)))
      (\<lambda>s. unat (wp_read_counter (rw_cohort s))) (2 ^ 32 - 1) l s l' s'"
  using st unfolding wp_defs
proof (cases rule: rw_step.cases)
  case (wlock_go a a')
  then show ?thesis by (cases a) (auto simp: guard_law_def split: prod.splits ctl.splits if_splits)
next
  case (wlock_ret a)
  then show ?thesis by (cases a) (auto simp: guard_law_def pr_simps word_greater_zero_iff split: prod.splits ctl.splits if_splits)
next
  case (rlock_go a a')
  then show ?thesis using f by (cases a) (auto simp: guard_law_def locked_ret_iff pr_simps unat_inc_small unat_dec_pos split: ctl.splits if_splits)
next
  case (rlock_ret a)
  then show ?thesis using f by (cases a) (auto simp: guard_law_def locked_ret_iff pr_simps split: ctl.splits if_splits)
qed (auto simp: guard_law_def pr_simps unat_dec_pos split: prod.splits)

lemma wp_sides:
  "writing l \<Longrightarrow> wp_coh l = Critical ()" "wp_adm l \<Longrightarrow> wp_ctd l" "writing l \<Longrightarrow> \<not> wp_adm l" "reading l \<Longrightarrow> wp_adm l"
  by (cases l rule: wp_adm.cases; simp)+

sublocale cohort_pred \<subseteq> wp: cohort_rw G g0 gvalid gfree L m0 lvalid lfree node limit
  "node_step (wp_ops G L GI LI) node" RwIdle "ck_rwcohort_wp_init wait_limit" wp_coh wp_ctd writing wp_adm wp_read_counter reading writing
  by unfold_locales
    ((rule wp_uses, assumption) | (rule wp_guard, assumption, erule unlocked) | simp add: ck_rwcohort_wp_init_def wp_sides)+

type_synonym ('ga, 'la, 'gc, 'lc) rp_client =
  "(('ga, 'la, 'gc, 'lc) rp_write_pc, unit, ('gc, 'lc) cohort_unlock_pc, rp_read_pc, unit, unit, unit) rw_client"

fun rp_coh :: "('ga, 'la, 'gc, 'lc) rp_client \<Rightarrow> ('ga, 'la, 'gb, 'lb, 'gc, 'lc) cohort_client" where
  "rp_coh (WLock a) = (case a of PwLock _ _ b \<Rightarrow> Acquiring b | PwCheck _ _ \<Rightarrow> Critical () | PwUnlock _ _ d \<Rightarrow> Releasing d
     | PwLower \<Rightarrow> Critical () | _ \<Rightarrow> Idle ())"
| "rp_coh WCrit = Critical ()"
| "rp_coh (WUnlock d) = Releasing d"
| "rp_coh _ = Idle ()"

fun rp_drn :: "('ga, 'la, 'gc, 'lc) rp_client \<Rightarrow> bool" where
  "rp_drn (WLock PwLower) = True" | "rp_drn WCrit = True" | "rp_drn _ = False"

fun rp_adm :: "('ga, 'la, 'gc, 'lc) rp_client \<Rightarrow> bool" where
  "rp_adm RCrit = True" | "rp_adm (RUnlock d) = True" | "rp_adm (Downgrade e) = True" | "rp_adm _ = False"

fun rp_ctd :: "('ga, 'la, 'gc, 'lc) rp_client \<Rightarrow> bool" where
  "rp_ctd (RLock (PrLocked q)) = True" | "rp_ctd l = rp_adm l"

lemmas rp_defs = rp_ops_def ck_rwcohort_rp_write_unlock_def ck_rwcohort_rp_read_unlock_def node_step_def no_trylock_def no_downgrade_def

lemma rp_uses:
  assumes "node_step (rp_ops G L GI LI) node t l s l' s'"
  shows "cohort_step G L node t (rp_coh l) (cohs s) (rp_coh l') (cohs s') \<or> rp_coh l' = rp_coh l \<and> cohs s' = cohs s"
  using assms unfolding rp_defs
proof (cases rule: rw_step.cases)
  case (wlock_go a a')
  then show ?thesis by (cases a) (auto simp: cohort_uses split: prod.splits ctl.splits if_splits)
next
  case (wlock_ret a)
  then show ?thesis by (cases a) (auto split: prod.splits ctl.splits if_splits)
next
  case (rlock_go a a')
  then show ?thesis by (cases a) (auto split: ctl.splits if_splits)
next
  case (rlock_ret a)
  then show ?thesis by (cases a) (auto split: ctl.splits if_splits)
qed (auto simp: cohort_uses split: prod.splits)

lemma rp_guard:
  assumes st: "node_step (rp_ops G L GI LI) node t l s l' s'" and f: "\<And>g. \<not> LI g \<Longrightarrow> gfree g"
  shows "guard_law (\<lambda>l. rp_coh l = Critical ()) rp_ctd rp_drn rp_adm (\<lambda>s. \<not> gfree (global_lock (cohs s)))
      (\<lambda>s. unat (rp_read_counter (rw_cohort s))) (2 ^ 32 - 1) l s l' s'"
  using st unfolding rp_defs
proof (cases rule: rw_step.cases)
  case (wlock_go a a')
  then show ?thesis by (cases a) (auto simp: guard_law_def pr_simps split: prod.splits ctl.splits if_splits)
next
  case (wlock_ret a)
  then show ?thesis by (cases a) (auto simp: guard_law_def pr_simps split: prod.splits ctl.splits if_splits)
next
  case (rlock_go a a')
  then show ?thesis using f by (cases a) (auto simp: guard_law_def pr_simps unat_inc_small split: ctl.splits if_splits)
next
  case (rlock_ret a)
  then show ?thesis using f by (cases a) (auto simp: guard_law_def locked_ret_iff pr_simps split: ctl.splits if_splits)
qed (auto simp: guard_law_def pr_simps unat_dec_pos split: prod.splits)

lemma rp_sides:
  "rp_drn l \<Longrightarrow> rp_coh l = Critical ()" "rp_drn l \<Longrightarrow> \<not> rp_adm l" "rp_adm l \<Longrightarrow> rp_ctd l" "reading l \<Longrightarrow> rp_adm l" "writing l \<Longrightarrow> rp_drn l"
  by (cases l rule: rp_drn.cases; simp)+

sublocale cohort_pred \<subseteq> rp: cohort_rw G g0 gvalid gfree L m0 lvalid lfree node limit
  "node_step (rp_ops G L GI LI) node" RwIdle "ck_rwcohort_rp_init wait_limit" rp_coh rp_ctd rp_drn rp_adm rp_read_counter reading writing
  by unfold_locales
    ((rule rp_uses, assumption) | (rule rp_guard, assumption, erule unlocked) | simp add: ck_rwcohort_rp_init_def rp_sides)+

type_synonym ('ga, 'la, 'gc, 'lc) nt_client =
  "(('ga, 'la) nt_write_pc, unit, ('gc, 'lc) cohort_unlock_pc, ('ga, 'la, 'gc, 'lc) nt_read_pc, unit, unit, unit) rw_client"

fun nt_coh :: "('ga, 'la, 'gc, 'lc) nt_client \<Rightarrow> ('ga, 'la, 'gb, 'lb, 'gc, 'lc) cohort_client" where
  "nt_coh (WLock a) = (case a of NwLock b \<Rightarrow> Acquiring b | NwDrain \<Rightarrow> Critical ())"
| "nt_coh WCrit = Critical ()"
| "nt_coh (WUnlock d) = Releasing d"
| "nt_coh (RLock a) = (case a of NrLock b \<Rightarrow> Acquiring b | NrInc \<Rightarrow> Critical () | NrUnlock d \<Rightarrow> Releasing d)"
| "nt_coh _ = Idle ()"

fun nt_adm :: "('ga, 'la, 'gc, 'lc) nt_client \<Rightarrow> bool" where
  "nt_adm (RLock (NrUnlock d)) = True" | "nt_adm RCrit = True" | "nt_adm (RUnlock d) = True" | "nt_adm (Downgrade e) = True"
| "nt_adm _ = False"

lemmas nt_defs = neutral_ops_def ck_rwcohort_neutral_write_unlock_def ck_rwcohort_neutral_read_unlock_def node_step_def no_trylock_def no_downgrade_def

lemma nt_uses:
  assumes "node_step (neutral_ops G L) node t l s l' s'"
  shows "cohort_step G L node t (nt_coh l) (cohs s) (nt_coh l') (cohs s') \<or> nt_coh l' = nt_coh l \<and> cohs s' = cohs s"
  using assms unfolding nt_defs
proof (cases rule: rw_step.cases)
  case (wlock_go a a')
  then show ?thesis by (cases a) (auto simp: cohort_uses split: prod.splits ctl.splits if_splits)
next
  case (wlock_ret a)
  then show ?thesis by (cases a) (auto split: prod.splits ctl.splits if_splits)
next
  case (rlock_go a a')
  then show ?thesis by (cases a) (auto simp: cohort_uses split: prod.splits ctl.splits if_splits)
next
  case (rlock_ret a)
  then show ?thesis by (cases a) (auto simp: cohort_uses split: prod.splits ctl.splits if_splits)
qed (auto simp: cohort_uses split: prod.splits)

lemma nt_guard:
  assumes "node_step (neutral_ops G L) node t l s l' s'"
  shows "guard_law (\<lambda>l. nt_coh l = Critical ()) nt_adm writing nt_adm (\<lambda>s. \<not> gfree (global_lock (cohs s)))
      (\<lambda>s. unat (nt_read_counter (rw_cohort s))) (2 ^ 32 - 1) l s l' s'"
  using assms unfolding nt_defs
proof (cases rule: rw_step.cases)
  case (wlock_go a a')
  then show ?thesis by (cases a) (auto simp: guard_law_def pr_simps split: prod.splits ctl.splits if_splits)
next
  case (wlock_ret a)
  then show ?thesis by (cases a) (auto simp: guard_law_def pr_simps word_greater_zero_iff split: prod.splits ctl.splits if_splits)
next
  case (rlock_go a a')
  then show ?thesis by (cases a) (auto simp: guard_law_def pr_simps unat_inc_small split: prod.splits ctl.splits if_splits)
next
  case (rlock_ret a)
  then show ?thesis by (cases a) (auto simp: guard_law_def pr_simps split: prod.splits ctl.splits if_splits)
qed (auto simp: guard_law_def pr_simps unat_dec_pos split: prod.splits)

lemma nt_sides: "writing l \<Longrightarrow> nt_coh l = Critical ()" "writing l \<Longrightarrow> \<not> nt_adm l" "reading l \<Longrightarrow> nt_adm l"
  by (cases l; simp)+

sublocale cohort_lock \<subseteq> nt: cohort_rw G g0 gvalid gfree L m0 lvalid lfree node limit
  "node_step (neutral_ops G L) node" RwIdle ck_rwcohort_neutral_init nt_coh nt_adm writing nt_adm nt_read_counter reading writing
  by unfold_locales ((rule nt_uses, assumption) | (rule nt_guard, assumption) | simp add: ck_rwcohort_neutral_init_def nt_sides)+

section \<open>Exclusion\<close>

context cohort_pred begin

lemma forms_exclude:
  "rw_excludes (2 ^ 32 - 1) (node_step (wp_ops G L GI LI) node) \<lparr>rw_cohort = ck_rwcohort_wp_init wait_limit, cohs = cohorts_init g0 m0 limit\<rparr>"
  "rw_excludes (2 ^ 32 - 1) (node_step (rp_ops G L GI LI) node) \<lparr>rw_cohort = ck_rwcohort_rp_init wait_limit, cohs = cohorts_init g0 m0 limit\<rparr>"
  "rw_excludes (2 ^ 32 - 1) (node_step (neutral_ops G L) node) \<lparr>rw_cohort = ck_rwcohort_neutral_init, cohs = cohorts_init g0 m0 limit\<rparr>"
  by (rule rw_excludesI, rule wp.rw.writers_exclude; assumption)
    (rule rw_excludesI, rule rp.rw.writers_exclude nt.rw.writers_exclude; assumption)+

end

interpretation fas_rwcohort: cohort_pred fas_ops ck_spinlock_fas_init fas_valid "\<lambda>s. fas_value s = 0"
  fas_ops ck_spinlock_fas_init fas_valid "\<lambda>s. fas_value s = 0" node limit ck_spinlock_fas_locked ck_spinlock_fas_locked wait_limit
  for node limit wait_limit
  by (intro cohort_pred.intro cohort_pred_axioms.intro fas_cohort.cohort_lock_axioms)
    (simp add: ck_spinlock_fas_locked_def ck_pr_load_def)

text \<open>Claim C9: The three reader-writer locks of \<^verbatim>\<open>ck_rwcohort.h\<close>, over cohorts of any two flag locks whose predicate tells when
  the global lock is free, and for fewer than \<open>2 ^ 32\<close> threads spread over the cohorts in any way: while a thread writes it
  is the only writer and there is no reader.\<close>

theorem rwcohort_exclusion:
  assumes "flag_lock G g0 gvalid gfree" "flag_lock L m0 lvalid lfree" "\<And>g. \<not> LI g \<Longrightarrow> gfree g"
  shows "rw_excludes (2 ^ 32 - 1) (node_step (wp_ops G L GI LI) node)
      \<lparr>rw_cohort = ck_rwcohort_wp_init wait_limit, cohs = cohorts_init g0 m0 limit\<rparr> \<and>
    rw_excludes (2 ^ 32 - 1) (node_step (rp_ops G L GI LI) node)
      \<lparr>rw_cohort = ck_rwcohort_rp_init wait_limit, cohs = cohorts_init g0 m0 limit\<rparr> \<and>
    rw_excludes (2 ^ 32 - 1) (node_step (neutral_ops G L) node)
      \<lparr>rw_cohort = ck_rwcohort_neutral_init, cohs = cohorts_init g0 m0 limit\<rparr>"
proof -
  have "cohort_pred G g0 gvalid gfree L m0 lvalid lfree LI"
    by (intro cohort_pred.intro cohort_pred_axioms.intro cohort_lock.intro assms)
  then show ?thesis by (intro conjI cohort_pred.forms_exclude)
qed

text \<open>Thread 0 of cohort 0 holds the \<open>rp\<close> lock for writing; thread 2 of cohort 1, a reader, is counted and waits.\<close>

definition rp_run :: "(nat \<times> nat) list \<Rightarrow> (nat \<Rightarrow> (fas_pc, fas_pc, unit, unit) rp_client) \<times> (ck_rwcohort_rp, ck_spinlock_fas, ck_spinlock_fas) rw_cohorts" where
  "rp_run sch = move_run (\<lambda>c t. rw_move (rp_ops fas_ops fas_ops ck_spinlock_fas_locked ck_spinlock_fas_locked (pair_node t)) c) sch
     (\<lambda>_. RwIdle, \<lparr>rw_cohort = ck_rwcohort_rp_init 1000, cohs = cohorts_init ck_spinlock_fas_init ck_spinlock_fas_init (\<lambda>_. 10)\<rparr>)"

lemma rp_run_reachable:
  "list_all (\<lambda>(t, c). t < N) sch \<Longrightarrow>
   reachable (node_step (rp_ops fas_ops fas_ops ck_spinlock_fas_locked ck_spinlock_fas_locked) pair_node) N (\<lambda>_. RwIdle)
     \<lparr>rw_cohort = ck_rwcohort_rp_init 1000, cohs = cohorts_init ck_spinlock_fas_init ck_spinlock_fas_init (\<lambda>_. 10)\<rparr>
     (fst (rp_run sch)) (snd (rp_run sch))"
  unfolding rp_run_def
  by (rule move_run_reachable) (auto simp: node_step_def intro: rw_move_step reachable.start)

theorem rwcohort_exclusion_witness:
  "let ls = fst (rp_run (replicate 8 (0, 0) @ replicate 4 (2, 1)))
   in {j. j < 3 \<and> writing (ls j)} = {0} \<and> {j. j < 3 \<and> reading (ls j)} = {}"
proof -
  let ?sch = "replicate 8 (0, 0) @ replicate 4 (2, 1) :: (nat \<times> nat) list"
  have "list_all (\<lambda>(t, c). t < 3) ?sch" by code_simp
  note r = rp_run_reachable [OF this]
  have w: "writing (fst (rp_run ?sch) 0)" by code_simp
  have "\<not> ck_spinlock_fas_locked g \<Longrightarrow> fas_value g = 0" for g by (simp add: ck_spinlock_fas_locked_def ck_pr_load_def)
  from rwcohort_exclusion [OF fas_lock.flag_lock_axioms fas_lock.flag_lock_axioms this, of ck_spinlock_fas_locked]
  have "rw_excludes (2 ^ 32 - 1) (node_step (rp_ops fas_ops fas_ops ck_spinlock_fas_locked ck_spinlock_fas_locked) pair_node)
     \<lparr>rw_cohort = ck_rwcohort_rp_init 1000, cohs = cohorts_init ck_spinlock_fas_init ck_spinlock_fas_init (\<lambda>_. 10)\<rparr>" by blast
  then show ?thesis unfolding Let_def by (rule rw_excludesD [OF _ _ r _ w]) simp_all
qed

end
