(* ===== verification/AsCommand.thy ===== *)
theory AsCommand
  imports Prelude "HOL-Library.Monad_Syntax"
begin

unbundle bit_operations_syntax

text \<open>
  The wire format of the Aerospike client: the inline writers of \<^verbatim>\<open>aerospike/as_command.h\<close>, the inline parsers of
  \<^verbatim>\<open>aerospike/as_proto.h\<close> and the byte order macros of \<^verbatim>\<open>citrusleaf/cf_byte_order.h\<close> they use. A command buffer is a
  block of bytes and a pointer into it an offset; a store that leaves the block, or a string without a null byte, is undefined and
  yields \<open>None\<close>. The reader of fields that the round trip is stated with (\<open>parse_field\<close>) is the format itself: the
  client's own parsers are compiled code.
\<close>

section \<open>Byte order\<close>

type_synonym uint16 = "16 word"

text \<open>On a little-endian host a conversion to or from big-endian order reverses the bytes.\<close>

definition byteswap :: "nat \<Rightarrow> nat \<Rightarrow> nat" where
  "byteswap n v = le_val (rev (le_bytes n v))"

definition cf_swap_to_be16 :: "uint16 \<Rightarrow> uint16" where "cf_swap_to_be16 w = of_nat (byteswap 2 (unat w))"
definition cf_swap_from_be16 :: "uint16 \<Rightarrow> uint16" where "cf_swap_from_be16 w = of_nat (byteswap 2 (unat w))"
definition cf_swap_to_be32 :: "uint \<Rightarrow> uint" where "cf_swap_to_be32 w = of_nat (byteswap 4 (unat w))"
definition cf_swap_from_be32 :: "uint \<Rightarrow> uint" where "cf_swap_from_be32 w = of_nat (byteswap 4 (unat w))"
definition cf_swap_to_be64 :: "uint64 \<Rightarrow> uint64" where "cf_swap_to_be64 w = of_nat (byteswap 8 (unat w))"
definition cf_swap_from_be64 :: "uint64 \<Rightarrow> uint64" where "cf_swap_from_be64 w = of_nat (byteswap 8 (unat w))"

text \<open>The conversions of a \<open>double\<close> act on its 64 bits, which is what a \<open>double\<close> is here.\<close>

definition cf_swap_to_big_float64 :: "uint64 \<Rightarrow> uint64" where "cf_swap_to_big_float64 d = cf_swap_to_be64 d"
definition cf_swap_from_big_float64 :: "uint64 \<Rightarrow> uint64" where "cf_swap_from_big_float64 d = cf_swap_from_be64 d"
definition cf_swap_to_little_float64 :: "uint64 \<Rightarrow> uint64" where "cf_swap_to_little_float64 d = d"
definition cf_swap_from_little_float64 :: "uint64 \<Rightarrow> uint64" where "cf_swap_from_little_float64 d = d"

section \<open>Stores\<close>

definition store_bytes :: "byte list \<Rightarrow> nat \<Rightarrow> byte list \<Rightarrow> byte list option" where
  "store_bytes m p bs = (if p + length bs \<le> length m then Some (write_at m p bs) else None)"

definition store32 :: "byte list \<Rightarrow> nat \<Rightarrow> uint \<Rightarrow> byte list option" where
  "store32 m p w = store_bytes m p (le_bytes 4 (unat w))"

definition store64 :: "byte list \<Rightarrow> nat \<Rightarrow> uint64 \<Rightarrow> byte list option" where
  "store64 m p w = store_bytes m p (le_bytes 8 (unat w))"

definition load64 :: "byte list \<Rightarrow> nat \<Rightarrow> uint64 option" where
  "load64 m p = (if p + 8 \<le> length m then Some (of_nat (le_val (read_at m p 8))) else None)"

section \<open>Sizes\<close>

definition AS_FIELD_HEADER_SIZE :: nat where [simp]: "AS_FIELD_HEADER_SIZE = 5"
definition AS_OPERATION_HEADER_SIZE :: nat where [simp]: "AS_OPERATION_HEADER_SIZE = 8"
definition AS_BIN_NAME_MAX_LEN :: nat where [simp]: "AS_BIN_NAME_MAX_LEN = 16 - 1"

text \<open>A C string is the memory from its first character on; its length is that up to the null byte.\<close>

fun strlen :: "byte list \<Rightarrow> nat option" where
  "strlen [] = None"
| "strlen (c # val) = (if c = 0 then Some 0 else map_option Suc (strlen val))"

definition as_command_string_field_size :: "byte list \<Rightarrow> nat option" where
  "as_command_string_field_size val = do { n \<leftarrow> strlen val; Some (n + AS_FIELD_HEADER_SIZE) }"

definition as_command_field_size :: "nat \<Rightarrow> nat" where
  "as_command_field_size sz = sz + AS_FIELD_HEADER_SIZE"

definition as_command_string_operation_size :: "byte list \<Rightarrow> nat option" where
  "as_command_string_operation_size val = do { n \<leftarrow> strlen val; Some (n + AS_OPERATION_HEADER_SIZE) }"

text \<open>A bin of a name and a value; the size of the value is computed by the client library and is an argument.\<close>

definition as_command_bin_size :: "byte list \<Rightarrow> nat \<Rightarrow> nat option" where
  "as_command_bin_size name value_size = do { n \<leftarrow> strlen name; Some (n + value_size + 8) }"

datatype as_status = AEROSPIKE_OK | AEROSPIKE_ERR_PARAM | AEROSPIKE_ERR_CLIENT

definition as_command_bin_name_size :: "byte list \<Rightarrow> nat \<Rightarrow> (as_status \<times> nat) option" where
  "as_command_bin_name_size name sz = do {
     s \<leftarrow> strlen name;
     Some (if s > AS_BIN_NAME_MAX_LEN then (AEROSPIKE_ERR_PARAM, sz) else (AEROSPIKE_OK, sz + (s + AS_OPERATION_HEADER_SIZE))) }"

section \<open>Attributes of a read\<close>

datatype as_policy_read_mode_ap = AS_POLICY_READ_MODE_AP_ONE | AS_POLICY_READ_MODE_AP_ALL

datatype as_policy_read_mode_sc = AS_POLICY_READ_MODE_SC_SESSION | AS_POLICY_READ_MODE_SC_LINEARIZE
  | AS_POLICY_READ_MODE_SC_ALLOW_REPLICA | AS_POLICY_READ_MODE_SC_ALLOW_UNAVAILABLE

definition AS_MSG_INFO1_READ_MODE_AP_ALL :: byte where "AS_MSG_INFO1_READ_MODE_AP_ALL = push_bit 6 1"
definition AS_MSG_INFO1_COMPRESS_RESPONSE :: byte where "AS_MSG_INFO1_COMPRESS_RESPONSE = push_bit 7 1"
definition AS_MSG_INFO3_SC_READ_TYPE :: byte where "AS_MSG_INFO3_SC_READ_TYPE = push_bit 6 1"
definition AS_MSG_INFO3_SC_READ_RELAX :: byte where "AS_MSG_INFO3_SC_READ_RELAX = push_bit 7 1"

definition as_command_set_attr_read_header ::
    "as_policy_read_mode_ap \<Rightarrow> as_policy_read_mode_sc \<Rightarrow> byte \<times> byte \<Rightarrow> byte \<times> byte" where
  "as_command_set_attr_read_header ap sc = (\<lambda>(read_attr, info_attr).
     (if ap = AS_POLICY_READ_MODE_AP_ALL then read_attr OR AS_MSG_INFO1_READ_MODE_AP_ALL else read_attr,
      case sc of AS_POLICY_READ_MODE_SC_SESSION \<Rightarrow> info_attr
        | AS_POLICY_READ_MODE_SC_LINEARIZE \<Rightarrow> info_attr OR AS_MSG_INFO3_SC_READ_TYPE
        | AS_POLICY_READ_MODE_SC_ALLOW_REPLICA \<Rightarrow> info_attr OR AS_MSG_INFO3_SC_READ_RELAX
        | AS_POLICY_READ_MODE_SC_ALLOW_UNAVAILABLE \<Rightarrow> info_attr OR (AS_MSG_INFO3_SC_READ_TYPE OR AS_MSG_INFO3_SC_READ_RELAX)))"

definition as_command_set_attr_compress :: "bool \<Rightarrow> byte \<Rightarrow> byte" where
  "as_command_set_attr_compress compress read_attr = (if compress then read_attr OR AS_MSG_INFO1_COMPRESS_RESPONSE else read_attr)"

definition as_command_set_attr_read ::
    "as_policy_read_mode_ap \<Rightarrow> as_policy_read_mode_sc \<Rightarrow> bool \<Rightarrow> byte \<times> byte \<Rightarrow> byte \<times> byte" where
  "as_command_set_attr_read ap sc compress attrs =
     (let (read_attr, info_attr) = as_command_set_attr_read_header ap sc attrs
      in (as_command_set_attr_compress compress read_attr, info_attr))"

section \<open>Writers\<close>

definition as_command_write_field_header :: "nat \<Rightarrow> byte \<Rightarrow> uint \<Rightarrow> byte list \<Rightarrow> (nat \<times> byte list) option" where
  "as_command_write_field_header p fid sz m = do {
     m \<leftarrow> store32 m p (cf_swap_to_be32 (sz + 1));
     m \<leftarrow> store_bytes m (p + 4) [fid];
     Some (p + 5, m) }"

text \<open>The loop \<open>while (*val) *p++ = *val++\<close>.\<close>

fun copy_string :: "byte list \<Rightarrow> nat \<Rightarrow> byte list \<Rightarrow> (nat \<times> byte list) option" where
  "copy_string [] p m = None"
| "copy_string (c # val) p m = (if c = 0 then Some (p, m) else do { m \<leftarrow> store_bytes m p [c]; copy_string val (p + 1) m })"

definition as_command_write_field_string :: "nat \<Rightarrow> byte \<Rightarrow> byte list \<Rightarrow> byte list \<Rightarrow> (nat \<times> byte list) option" where
  "as_command_write_field_string begin fid val m = do {
     (p, m) \<leftarrow> copy_string val (begin + AS_FIELD_HEADER_SIZE) m;
     (_, m) \<leftarrow> as_command_write_field_header begin fid (of_nat (p - begin - AS_FIELD_HEADER_SIZE)) m;
     Some (p, m) }"

definition as_command_write_field_uint32 :: "nat \<Rightarrow> byte \<Rightarrow> uint \<Rightarrow> byte list \<Rightarrow> (nat \<times> byte list) option" where
  "as_command_write_field_uint32 p fid val m = do {
     (p, m) \<leftarrow> as_command_write_field_header p fid 4 m;
     m \<leftarrow> store32 m p (cf_swap_to_be32 val);
     Some (p + 4, m) }"

definition as_command_write_field_uint64 :: "nat \<Rightarrow> byte \<Rightarrow> uint64 \<Rightarrow> byte list \<Rightarrow> (nat \<times> byte list) option" where
  "as_command_write_field_uint64 p fid val m = do {
     (p, m) \<leftarrow> as_command_write_field_header p fid 8 m;
     m \<leftarrow> store64 m p (cf_swap_to_be64 val);
     Some (p + 8, m) }"

text \<open>\<open>memcpy\<close> from a buffer of the caller.\<close>

definition copy_from :: "byte list \<Rightarrow> nat \<Rightarrow> byte list \<Rightarrow> nat \<Rightarrow> byte list option" where
  "copy_from m p src n = (if n \<le> length src then store_bytes m p (take n src) else None)"

text \<open>The structure \<open>as_buffer\<close> is not among the headers; its fields \<open>data\<close> and \<open>size\<close> are arguments. The header takes the size as a
  \<open>uint32_t\<close>.\<close>

definition as_command_write_field_buffer :: "nat \<Rightarrow> byte \<Rightarrow> byte list \<Rightarrow> nat \<Rightarrow> byte list \<Rightarrow> (nat \<times> byte list) option" where
  "as_command_write_field_buffer p fid data size' m = do {
     (p, m) \<leftarrow> as_command_write_field_header p fid (of_nat size') m;
     m \<leftarrow> copy_from m p data size';
     Some (p + size', m) }"

definition AS_FIELD_DIGEST :: byte where "AS_FIELD_DIGEST = 4"
definition AS_DIGEST_VALUE_SIZE :: nat where [simp]: "AS_DIGEST_VALUE_SIZE = 20"

definition as_command_write_field_digest :: "nat \<Rightarrow> byte list \<Rightarrow> byte list \<Rightarrow> (nat \<times> byte list) option" where
  "as_command_write_field_digest p val m = do {
     (p, m) \<leftarrow> as_command_write_field_header p AS_FIELD_DIGEST (of_nat AS_DIGEST_VALUE_SIZE) m;
     m \<leftarrow> copy_from m p val AS_DIGEST_VALUE_SIZE;
     Some (p + AS_DIGEST_VALUE_SIZE, m) }"

definition AS_OPERATOR_READ :: byte where "AS_OPERATOR_READ = 1"

definition as_command_write_bin_name :: "nat \<Rightarrow> byte list \<Rightarrow> byte list \<Rightarrow> (nat \<times> byte list) option" where
  "as_command_write_bin_name cmd name m = do {
     (p, m) \<leftarrow> copy_string name (cmd + AS_OPERATION_HEADER_SIZE) m;
     let name_len = (of_nat (p - cmd - AS_OPERATION_HEADER_SIZE) :: byte);
     m \<leftarrow> store32 m cmd (cf_swap_to_be32 (ucast name_len + 4));
     m \<leftarrow> store_bytes m (cmd + 4) [AS_OPERATOR_READ];
     m \<leftarrow> store_bytes m (cmd + 5) [0];
     m \<leftarrow> store_bytes m (cmd + 6) [0];
     m \<leftarrow> store_bytes m (cmd + 7) [name_len];
     Some (p, m) }"

definition AS_PROTO_VERSION :: uint64 where "AS_PROTO_VERSION = 2"
definition AS_MESSAGE_TYPE :: uint64 where "AS_MESSAGE_TYPE = 3"
definition AS_COMPRESSED_MESSAGE_TYPE :: uint64 where "AS_COMPRESSED_MESSAGE_TYPE = 4"

definition as_command_write_end :: "nat \<Rightarrow> nat \<Rightarrow> byte list \<Rightarrow> (uint64 \<times> byte list) option" where
  "as_command_write_end begin end' m = (
     let len = of_nat (end' - begin);
         proto = ((len - 8) OR push_bit 56 AS_PROTO_VERSION) OR push_bit 48 AS_MESSAGE_TYPE
     in do { m \<leftarrow> store64 m begin (cf_swap_to_be64 proto); Some (len, m) })"

definition as_command_compress_write_end :: "nat \<Rightarrow> nat \<Rightarrow> uint64 \<Rightarrow> byte list \<Rightarrow> (uint64 \<times> byte list) option" where
  "as_command_compress_write_end begin end' uncompressed_sz m = (
     let len = of_nat (end' - begin);
         proto = ((len - 8) OR push_bit 56 AS_PROTO_VERSION) OR push_bit 48 AS_COMPRESSED_MESSAGE_TYPE
     in do {
       m \<leftarrow> store64 m begin (cf_swap_to_be64 proto);
       m \<leftarrow> store64 m (begin + 8) (cf_swap_to_be64 uncompressed_sz);
       Some (len, m) })"

section \<open>Parsers\<close>

definition PROTO_SIZE_MAX :: uint64 where "PROTO_SIZE_MAX = 128 * 1024 * 1024"

text \<open>The status of \<open>as_compressed_size_error\<close>, which the client library implements, is an argument.\<close>

definition as_compressed_size_parse :: "as_status \<Rightarrow> byte list \<Rightarrow> nat \<Rightarrow> (as_status \<times> uint64) option" where
  "as_compressed_size_parse size_error m buf = do {
     w \<leftarrow> load64 m buf;
     let size' = cf_swap_from_be64 w;
     Some (if size' > PROTO_SIZE_MAX then size_error else AEROSPIKE_OK, size') }"

section \<open>The timer of a command\<close>

record as_policy_base =
  pol_socket_timeout :: uint
  pol_total_timeout :: uint

record as_command =
  deadline_ms :: uint64
  socket_timeout :: uint
  total_timeout :: uint
  iteration :: uint
  master :: bool

text \<open>\<open>now\<close> is what \<open>cf_getms\<close> returns.\<close>

definition as_command_start_timer :: "as_policy_base \<Rightarrow> uint64 \<Rightarrow> as_command \<Rightarrow> as_command" where
  "as_command_start_timer policy now cmd =
     (let cmd = cmd\<lparr>iteration := 0, master := True\<rparr>
      in if pol_total_timeout policy > 0
         then cmd\<lparr>socket_timeout := (if pol_socket_timeout policy = 0 \<or> pol_socket_timeout policy > pol_total_timeout policy
                                     then pol_total_timeout policy else pol_socket_timeout policy),
                  total_timeout := pol_total_timeout policy, deadline_ms := now + ucast (pol_total_timeout policy)\<rparr>
         else cmd\<lparr>socket_timeout := pol_socket_timeout policy, total_timeout := pol_total_timeout policy, deadline_ms := 0\<rparr>)"

section \<open>What the writers store\<close>

lemma byteswap_less: "byteswap n v < 256 ^ n"
  using le_val_less [of "rev (le_bytes n v)"] by (simp add: byteswap_def)

lemma le_bytes_byteswap: "le_bytes n (byteswap n v) = rev (le_bytes n v)"
  using le_bytes_le_val [of "rev (le_bytes n v)"] by (simp add: byteswap_def)

lemma byteswap_byteswap: "byteswap n (byteswap n v) = v mod 256 ^ n"
  unfolding byteswap_def [of n "byteswap n v"] by (simp add: le_bytes_byteswap le_val_le_bytes)

lemma be32_bytes: "le_bytes 4 (unat (cf_swap_to_be32 w)) = rev (le_bytes 4 (unat w))"
  using byteswap_less [of 4 "unat w"] by (simp add: cf_swap_to_be32_def unat_of_nat_small le_bytes_byteswap)

lemma be64_bytes: "le_bytes 8 (unat (cf_swap_to_be64 w)) = rev (le_bytes 8 (unat w))"
  using byteswap_less [of 8 "unat w"] by (simp add: cf_swap_to_be64_def unat_of_nat_small le_bytes_byteswap)

lemma word_mod_self: "(of_nat (unat w mod 2 ^ LENGTH('w)) :: 'w::len word) = w"
  using unsigned_less [of w, where 'a = nat] by simp

lemma swap_inverse:
  "cf_swap_from_be16 (cf_swap_to_be16 a) = a" "cf_swap_from_be32 (cf_swap_to_be32 b) = b" "cf_swap_from_be64 (cf_swap_to_be64 c) = c"
  using byteswap_less [of 2 "unat a"] byteswap_less [of 4 "unat b"] byteswap_less [of 8 "unat c"]
    word_mod_self [of a] word_mod_self [of b] word_mod_self [of c]
  by (simp_all add: cf_swap_from_be16_def cf_swap_to_be16_def cf_swap_from_be32_def cf_swap_to_be32_def cf_swap_from_be64_def
      cf_swap_to_be64_def unat_of_nat_small byteswap_byteswap)

lemma store_fits: "p + length bs \<le> length m \<Longrightarrow> store_bytes m p bs = Some (write_at m p bs)"
  by (simp add: store_bytes_def)

lemma split_at: "p \<le> length m \<Longrightarrow> \<exists>A B. m = A @ B \<and> length A = p"
  by (metis append_take_drop_id length_take min.absorb2)

lemma write_append:
  assumes "p + length a + length b \<le> length m" "q = p + length a"
  shows "write_at (write_at m p a) q b = write_at m p (a @ b)"
proof -
  obtain A m1 where 1: "m = A @ m1" "length A = p" using split_at [of p m] assms by auto
  obtain X m2 where 2: "m1 = X @ m2" "length X = length a" using split_at [of "length a" m1] 1 assms by auto
  show ?thesis using 1 2 assms by (auto simp: write_at_def)
qed

lemma write_comm:
  assumes "p + length a \<le> q" "q + length b \<le> length m"
  shows "write_at (write_at m q b) p a = write_at (write_at m p a) q b"
proof -
  obtain A m1 where 1: "m = A @ m1" "length A = p" using split_at [of p m] assms by auto
  obtain X m2 where 2: "m1 = X @ m2" "length X = length a" using split_at [of "length a" m1] 1 assms by auto
  have "q - p - length a \<le> length m2" using 1 2 assms by simp
  then obtain M m3 where 3: "m2 = M @ m3" "length M = q - p - length a" using split_at by blast
  have "length b \<le> length m3" using 1 2 3 assms by simp
  then obtain Y D where 4: "m3 = Y @ D" "length Y = length b" using split_at by blast
  show ?thesis using 1(2) 2(2) 3(2) 4(2) assms(1) unfolding 1(1) 2(1) 3(1) 4(1) by (auto simp: write_at_def)
qed

lemma strlen_length: "strlen val = Some n \<Longrightarrow> n < length val"
  by (induction val arbitrary: n) (auto split: if_splits)

lemma copy_string_stores:
  "strlen val = Some n \<Longrightarrow> p + n \<le> length m \<Longrightarrow> copy_string val p m = Some (p + n, write_at m p (take n val))"
proof (induction val arbitrary: n p m)
  case (Cons c val)
  show ?case
  proof (cases "c = 0")
    case True
    then show ?thesis using Cons.prems by (simp add: write_at_def)
  next
    case False
    then obtain k where k: "strlen val = Some k" "n = Suc k" using Cons.prems by auto
    have "k < length val" using k(1) by (rule strlen_length)
    then have "write_at (write_at m p [c]) (p + 1) (take k val) = write_at m p (c # take k val)"
      using write_append [of p "[c]" "take k val" m "p + 1"] Cons.prems(2) k(2) by (simp add: min_def)
    then show ?thesis using Cons.IH [OF k(1), of "p + 1" "write_at m p [c]"] Cons.prems(2) False k
      by (simp add: store_fits length_write_at)
  qed
qed simp

section \<open>Fields\<close>

text \<open>A field on the wire: the big-endian length of what follows, the identifier, the value.\<close>

definition field_bytes :: "byte \<Rightarrow> byte list \<Rightarrow> byte list" where
  "field_bytes fid payload = rev (le_bytes 4 (length payload + 1)) @ fid # payload"

lemma length_field_bytes [simp]: "length (field_bytes fid payload) = as_command_field_size (length payload)"
  by (simp add: field_bytes_def as_command_field_size_def)

lemma write_field_header:
  assumes "p + 5 \<le> length m" "n + 1 < 2 ^ 32"
  shows "as_command_write_field_header p fid (of_nat n) m = Some (p + 5, write_at m p (rev (le_bytes 4 (n + 1)) @ [fid]))"
proof -
  have "unat (of_nat (n + 1) :: uint) = n + 1" by (rule unat_of_nat_small) (use assms(2) in simp)
  then have u: "unat (of_nat n + 1 :: uint) = n + 1" by (simp add: add.commute)
  define H where "H = rev (le_bytes 4 (n + 1))"
  have l: "length H = 4" by (simp add: H_def)
  have "write_at (write_at m p H) (p + 4) [fid] = write_at m p (H @ [fid])"
    by (rule write_append) (use assms(1) l in simp_all)
  then show ?thesis using assms(1) l unfolding as_command_write_field_header_def store32_def be32_bytes u H_def [symmetric]
    by (simp add: store_fits length_write_at)
qed

lemma write_field_after:
  assumes "p + 5 + length payload \<le> length m"
  shows "write_at (write_at m p (rev (le_bytes 4 (length payload + 1)) @ [fid])) (p + 5) payload = write_at m p (field_bytes fid payload)"
proof -
  define H where "H = rev (le_bytes 4 (length payload + 1))"
  have l: "length H = 4" by (simp add: H_def)
  have "write_at (write_at m p (H @ [fid])) (p + 5) payload = write_at m p ((H @ [fid]) @ payload)"
    by (rule write_append) (use assms l in simp_all)
  then show ?thesis by (simp add: field_bytes_def H_def)
qed

text \<open>The fields a command is made of, by the function that writes them; a string is given with its null byte.\<close>

datatype field = FString byte "byte list" | FUint32 byte uint | FUint64 byte uint64 | FBuffer byte "byte list" | FDigest "byte list"

fun write_field :: "nat \<Rightarrow> field \<Rightarrow> byte list \<Rightarrow> (nat \<times> byte list) option" where
  "write_field p (FString fid val) m = as_command_write_field_string p fid (val @ [0]) m"
| "write_field p (FUint32 fid val) m = as_command_write_field_uint32 p fid val m"
| "write_field p (FUint64 fid val) m = as_command_write_field_uint64 p fid val m"
| "write_field p (FBuffer fid data) m = as_command_write_field_buffer p fid data (length data) m"
| "write_field p (FDigest val) m = as_command_write_field_digest p val m"

fun field_id :: "field \<Rightarrow> byte" where
  "field_id (FString fid val) = fid" | "field_id (FUint32 fid val) = fid" | "field_id (FUint64 fid val) = fid"
| "field_id (FBuffer fid data) = fid" | "field_id (FDigest val) = AS_FIELD_DIGEST"

fun payload :: "field \<Rightarrow> byte list" where
  "payload (FString fid val) = val" | "payload (FUint32 fid val) = rev (le_bytes 4 (unat val))"
| "payload (FUint64 fid val) = rev (le_bytes 8 (unat val))" | "payload (FBuffer fid data) = data" | "payload (FDigest val) = val"

text \<open>What the client reckons a field takes.\<close>

fun field_size :: "field \<Rightarrow> nat option" where
  "field_size (FString fid val) = as_command_string_field_size (val @ [0])"
| "field_size (FUint32 fid val) = Some (as_command_field_size 4)"
| "field_size (FUint64 fid val) = Some (as_command_field_size 8)"
| "field_size (FBuffer fid data) = Some (as_command_field_size (length data))"
| "field_size (FDigest val) = Some (as_command_field_size AS_DIGEST_VALUE_SIZE)"

fun field_ok :: "field \<Rightarrow> bool" where
  "field_ok (FString fid val) = (0 \<notin> set val \<and> length val + 1 < 2 ^ 32)"
| "field_ok (FBuffer fid data) = (length data + 1 < 2 ^ 32)"
| "field_ok (FDigest val) = (length val = AS_DIGEST_VALUE_SIZE)"
| "field_ok _ = True"

lemma strlen_null: "0 \<notin> set val \<Longrightarrow> strlen (val @ 0 # rest) = Some (length val)"
  by (induction val) auto

lemma field_size_payload: "field_ok f \<Longrightarrow> field_size f = Some (as_command_field_size (length (payload f)))"
  by (cases f) (simp_all add: as_command_string_field_size_def strlen_null as_command_field_size_def)

lemma write_field_bytes:
  assumes "field_ok f" "p + as_command_field_size (length (payload f)) \<le> length m"
  shows "write_field p f m = Some (p + as_command_field_size (length (payload f)), write_at m p (field_bytes (field_id f) (payload f)))"
proof (cases f)
  case (FString fid val)
  let ?H = "rev (le_bytes 4 (length val + 1)) @ [fid]"
  have fit: "p + 5 + length val \<le> length m" using assms FString by (simp add: as_command_field_size_def)
  have c: "copy_string (val @ [0]) (p + 5) m = Some (p + 5 + length val, write_at m (p + 5) val)"
    using copy_string_stores [OF strlen_null, of val "p + 5" m "[]"] assms FString fit by simp
  have h: "as_command_write_field_header p fid (of_nat (length val)) (write_at m (p + 5) val) = Some (p + 5, write_at (write_at m (p + 5) val) p ?H)"
    by (rule write_field_header) (use assms FString fit in \<open>simp_all add: length_write_at\<close>)
  have "write_at (write_at m (p + 5) val) p ?H = write_at (write_at m p ?H) (p + 5) val"
    by (rule write_comm) (use fit in simp_all)
  also have "\<dots> = write_at m p (field_bytes fid val)" by (rule write_field_after [OF fit])
  finally show ?thesis using c h FString by (simp add: as_command_write_field_string_def as_command_field_size_def)
next
  case (FUint32 fid val)
  have fit: "p + 5 + length (payload f) \<le> length m" using assms by (simp add: as_command_field_size_def)
  then show ?thesis using FUint32 write_field_header [of p m 4 fid] write_field_after [OF fit, of fid]
    by (simp add: as_command_write_field_uint32_def store32_def be32_bytes store_fits length_write_at as_command_field_size_def)
next
  case (FUint64 fid val)
  have fit: "p + 5 + length (payload f) \<le> length m" using assms by (simp add: as_command_field_size_def)
  then show ?thesis using FUint64 write_field_header [of p m 8 fid] write_field_after [OF fit, of fid]
    by (simp add: as_command_write_field_uint64_def store64_def be64_bytes store_fits length_write_at as_command_field_size_def)
next
  case (FBuffer fid data)
  have fit: "p + 5 + length (payload f) \<le> length m" using assms by (simp add: as_command_field_size_def)
  then show ?thesis using FBuffer assms(1) write_field_header [of p m "length data" fid] write_field_after [OF fit, of fid]
    by (simp add: as_command_write_field_buffer_def copy_from_def store_fits length_write_at as_command_field_size_def)
next
  case (FDigest val)
  have fit: "p + 5 + length (payload f) \<le> length m" using assms by (simp add: as_command_field_size_def)
  then show ?thesis using FDigest assms(1) write_field_header [of p m 20 AS_FIELD_DIGEST] write_field_after [OF fit, of AS_FIELD_DIGEST]
    by (simp add: as_command_write_field_digest_def copy_from_def store_fits length_write_at as_command_field_size_def)
qed

section \<open>Reading the fields back\<close>

definition parse_field :: "byte list \<Rightarrow> ((byte \<times> byte list) \<times> byte list) option" where
  "parse_field bs = (let n = le_val (rev (take 4 bs)) in
     if 5 \<le> length bs \<and> 0 < n \<and> 4 + n \<le> length bs
     then Some ((bs ! 4, take (n - 1) (drop 5 bs)), drop (4 + n) bs) else None)"

fun parse_fields :: "nat \<Rightarrow> byte list \<Rightarrow> ((byte \<times> byte list) list \<times> byte list) option" where
  "parse_fields 0 bs = Some ([], bs)"
| "parse_fields (Suc k) bs = do { (f, bs) \<leftarrow> parse_field bs; (fs, bs) \<leftarrow> parse_fields k bs; Some (f # fs, bs) }"

fun write_fields :: "nat \<Rightarrow> field list \<Rightarrow> byte list \<Rightarrow> (nat \<times> byte list) option" where
  "write_fields p [] m = Some (p, m)"
| "write_fields p (f # fs) m = do { (p, m) \<leftarrow> write_field p f m; write_fields p fs m }"

lemma parse_field_bytes:
  assumes "length bs + 1 < 2 ^ 32"
  shows "parse_field (field_bytes fid bs @ rest) = Some ((fid, bs), rest)"
proof -
  define H where "H = rev (le_bytes 4 (length bs + 1))"
  have l: "length H = 4" by (simp add: H_def)
  have "le_val (rev H) = length bs + 1" using assms by (simp add: H_def le_val_le_bytes)
  then show ?thesis using l unfolding parse_field_def field_bytes_def H_def [symmetric] by (simp add: nth_append)
qed

abbreviation wire :: "field list \<Rightarrow> byte list" where
  "wire fs \<equiv> concat (map (\<lambda>f. field_bytes (field_id f) (payload f)) fs)"

lemma write_fields_wire:
  "list_all field_ok fs \<Longrightarrow> p + length (wire fs) \<le> length m \<Longrightarrow> write_fields p fs m = Some (p + length (wire fs), write_at m p (wire fs))"
proof (induction fs arbitrary: p m)
  case (Cons f fs)
  let ?b = "field_bytes (field_id f) (payload f)"
  have "write_field p f m = Some (p + length ?b, write_at m p ?b)" using Cons.prems by (simp add: write_field_bytes)
  moreover have "write_fields (p + length ?b) fs (write_at m p ?b) = Some (p + length ?b + length (wire fs), write_at (write_at m p ?b) (p + length ?b) (wire fs))"
    using Cons.prems by (intro Cons.IH) (simp_all add: length_write_at)
  moreover have "write_at (write_at m p ?b) (p + length ?b) (wire fs) = write_at m p (?b @ wire fs)"
    using Cons.prems by (intro write_append) simp_all
  ultimately show ?case by simp
qed (simp add: write_at_def)

lemma field_ok_length: "field_ok f \<Longrightarrow> length (payload f) + 1 < 2 ^ 32"
  by (cases f) simp_all

lemma parse_wire: "list_all field_ok fs \<Longrightarrow> parse_fields (length fs) (wire fs @ rest) = Some (map (\<lambda>f. (field_id f, payload f)) fs, rest)"
  by (induction fs) (simp_all add: parse_field_bytes [OF field_ok_length])

lemma wire_size: "list_all field_ok fs \<Longrightarrow> those (map field_size fs) = Some szs \<Longrightarrow> length (wire fs) = sum_list szs"
  by (induction fs arbitrary: szs) (auto simp: field_size_payload split: option.splits)

text \<open>Claim C22: Fields that are written one after the other into a command buffer take exactly the room that the size functions reckon,
  stay inside the buffer, leave the rest of it alone, and can be read back: a reader of the wire format finds the same identifiers
  and values in the same order.\<close>

theorem command_fields_roundtrip:
  assumes "list_all field_ok fs" "those (map field_size fs) = Some szs" "p + sum_list szs \<le> length m"
  shows "\<exists>m'. write_fields p fs m = Some (p + sum_list szs, m') \<and>
    parse_fields (length fs) (drop p m') = Some (map (\<lambda>f. (field_id f, payload f)) fs, drop (p + sum_list szs) m) \<and>
    take p m' = take p m \<and> length m' = length m"
proof -
  have w: "length (wire fs) = sum_list szs" by (rule wire_size [OF assms(1,2)])
  have "drop p (write_at m p (wire fs)) = wire fs @ drop (p + sum_list szs) m" "take p (write_at m p (wire fs)) = take p m"
    "length (write_at m p (wire fs)) = length m"
    using assms(3) w length_write_at [of p "wire fs" m] by (auto simp: write_at_def min_def)
  then show ?thesis using write_fields_wire [OF assms(1), of p m] parse_wire [OF assms(1)] assms(3) w by simp
qed

definition command_fields :: "field list" where
  "command_fields = [FString 0 [116, 101, 115, 116], FDigest (replicate 20 7), FUint64 7 1025, FBuffer 43 [1, 2, 3], FUint32 9 10000]"

theorem command_fields_roundtrip_witness:
  "\<exists>m'. write_fields 30 command_fields (replicate 120 0) = Some (30 + 64, m') \<and>
    parse_fields 5 (drop 30 m') = Some (map (\<lambda>f. (field_id f, payload f)) command_fields, replicate 26 0) \<and>
    take 30 m' = replicate 30 0 \<and> length m' = 120"
proof -
  have "list_all field_ok command_fields" "those (map field_size command_fields) = Some [9, 25, 13, 8, 9]" "length command_fields = 5"
    by (simp_all add: command_fields_def as_command_string_field_size_def as_command_field_size_def)
  then show ?thesis using command_fields_roundtrip [of command_fields "[9, 25, 13, 8, 9]" 30 "replicate 120 0"] by simp
qed

section \<open>Headers\<close>

text \<open>The operation that asks for a bin: its length, the operator, two zero bytes, the length of the name, the name.\<close>

lemma write_bin_name:
  assumes n: "strlen name = Some n" "n < 256" and fit: "cmd + 8 + n \<le> length m"
  shows "as_command_write_bin_name cmd name m =
    Some (cmd + 8 + n, write_at m cmd (rev (le_bytes 4 (n + 4)) @ [AS_OPERATOR_READ, 0, 0, of_nat n] @ take n name))"
proof -
  define H where "H = rev (le_bytes 4 (n + 4))"
  have l: "length H = 4" by (simp add: H_def)
  have lt: "length (take n name) = n" using strlen_length [OF n(1)] by simp
  have u: "unat (ucast (of_nat n :: byte) + 4 :: uint) = n + 4"
  proof -
    have "(ucast (of_nat n :: byte) :: uint) = of_nat (unat (of_nat n :: byte))" by simp
    also have "unat (of_nat n :: byte) = n" by (rule unat_of_nat_small) (use n(2) in simp)
    finally have "ucast (of_nat n :: byte) + 4 = (of_nat (n + 4) :: uint)" by simp
    moreover have "unat (of_nat (n + 4) :: uint) = n + 4" by (rule unat_of_nat_small) (use n(2) in simp)
    ultimately show ?thesis by simp
  qed
  define m1 where "m1 = write_at m (cmd + 8) (take n name)"
  have l1: "length m1 = length m" using fit lt by (simp add: m1_def length_write_at)
  have w: "write_at (write_at m1 cmd a) (cmd + length a) [x] = write_at m1 cmd (a @ [x])" if "length a < 8" for a x
    by (rule write_append) (use that fit l1 in simp_all)
  have st: "do { m \<leftarrow> store_bytes m1 cmd H; m \<leftarrow> store_bytes m (cmd + 4) [a]; m \<leftarrow> store_bytes m (cmd + 5) [b];
      m \<leftarrow> store_bytes m (cmd + 6) [c]; m \<leftarrow> store_bytes m (cmd + 7) [d]; Some (p, m) } = Some (p, write_at m1 cmd (H @ [a, b, c, d]))" for a b c d p
    using w [of H a] w [of "H @ [a]" b] w [of "H @ [a, b]" c] w [of "H @ [a, b, c]" d] l l1 fit
    by (simp add: store_fits length_write_at)
  have "write_at m1 cmd (H @ [a, b, c, d]) = write_at (write_at m cmd (H @ [a, b, c, d])) (cmd + 8) (take n name)" for a b c d
    unfolding m1_def by (rule write_comm) (use l lt fit in simp_all)
  also have "write_at (write_at m cmd (H @ [a, b, c, d])) (cmd + 8) (take n name) = write_at m cmd ((H @ [a, b, c, d]) @ take n name)" for a b c d
    by (rule write_append) (use l lt fit in simp_all)
  finally have fin: "write_at m1 cmd (H @ [a, b, c, d]) = write_at m cmd (H @ [a, b, c, d] @ take n name)" for a b c d by simp
  have "copy_string name (cmd + 8) m = Some (cmd + 8 + n, m1)" unfolding m1_def by (rule copy_string_stores [OF n(1) fit])
  then show ?thesis using st fin
    unfolding as_command_write_bin_name_def store32_def be32_bytes AS_OPERATION_HEADER_SIZE_def
    by (simp add: u Let_def flip: H_def)
qed

text \<open>A name that passes \<open>as_command_bin_name_size\<close> is short enough for its length byte, and takes the room that was reckoned.\<close>

lemma bin_name_fits:
  assumes "as_command_bin_name_size name sz = Some (AEROSPIKE_OK, sz')" "cmd + (sz' - sz) \<le> length m"
  shows "\<exists>n m'. strlen name = Some n \<and> as_command_write_bin_name cmd name m = Some (cmd + (sz' - sz), m') \<and>
    take (sz' - sz) (drop cmd m') = rev (le_bytes 4 (n + 4)) @ [AS_OPERATOR_READ, 0, 0, of_nat n] @ take n name"
proof -
  obtain n where n: "strlen name = Some n" "n \<le> 15" "sz' = sz + (n + 8)"
    using assms(1) by (auto simp: as_command_bin_name_size_def bind_eq_Some_conv split: if_splits)
  define H where "H = rev (le_bytes 4 (n + 4)) @ [AS_OPERATOR_READ, 0, 0, of_nat n]"
  have l: "length (H @ take n name) = 8 + n" using strlen_length [OF n(1)] by (simp add: H_def)
  have "take (8 + n) (drop cmd (write_at m cmd (H @ take n name))) = H @ take n name"
    using read_write_same [of cmd "H @ take n name" m] assms(2) n(3) l by (simp add: read_at_def)
  moreover have "as_command_write_bin_name cmd name m = Some (cmd + 8 + n, write_at m cmd (H @ take n name))"
    using write_bin_name [OF n(1), of cmd m] n assms(2) by (simp add: H_def)
  ultimately show ?thesis using n by (simp add: H_def add.commute add.left_commute)
qed

lemma le_bytes_mod: "le_bytes n (v mod 256 ^ n) = le_bytes n v"
  using le_bytes_le_val [of "le_bytes n v"] by (simp add: le_val_le_bytes)

lemma le_bytes_append: "le_bytes (a + b) v = le_bytes a v @ le_bytes b (v div 256 ^ a)"
  by (induction a arbitrary: v) (simp_all add: div_mult2_eq)

lemma proto_word:
  assumes "n < 2 ^ 48" "c < 2 ^ 16"
  shows "unat (of_nat n OR push_bit 48 (of_nat c) :: uint64) = n + c * 2 ^ 48"
proof -
  have "(of_nat n :: uint64) AND push_bit 48 (of_nat c) = 0"
  proof (rule bit_eqI)
    fix k
    have "\<not> bit n k" if "48 \<le> k"
      using that assms(1) by (metis bit_take_bit_iff linorder_not_less take_bit_nat_eq_self)
    then show "bit ((of_nat n :: uint64) AND push_bit 48 (of_nat c)) k = bit (0 :: uint64) k"
      by (auto simp: bit_and_iff bit_push_bit_iff bit_of_nat_iff)
  qed
  then have "(of_nat n OR push_bit 48 (of_nat c) :: uint64) = of_nat n + push_bit 48 (of_nat c)"
    by (simp add: disjunctive_add_eq_or)
  also have "\<dots> = of_nat (n + c * 2 ^ 48)" by (simp add: push_bit_eq_mult)
  finally have e: "(of_nat n OR push_bit 48 (of_nat c) :: uint64) = of_nat (n + c * 2 ^ 48)" .
  show ?thesis unfolding e by (rule unat_of_nat_small) (use assms in simp)
qed

lemma proto_bytes:
  assumes "n < 2 ^ 48" "c < 2 ^ 16"
  shows "rev (le_bytes 8 (n + c * 2 ^ 48)) = rev (le_bytes 2 c) @ rev (le_bytes 6 n)"
proof -
  have "le_bytes 8 (n + c * 2 ^ 48) = le_bytes 6 (n + c * 2 ^ 48) @ le_bytes 2 ((n + c * 2 ^ 48) div 256 ^ 6)"
    using le_bytes_append [of 6 2] by simp
  also have "le_bytes 6 (n + c * 2 ^ 48) = le_bytes 6 n"
    using le_bytes_mod [of 6 "n + c * 2 ^ 48"] le_bytes_mod [of 6 n] by simp
  also have "(n + c * 2 ^ 48) div 256 ^ 6 = c" using assms by simp
  finally show ?thesis by simp
qed

lemma proto_store:
  assumes "n < 2 ^ 48" "c < 2 ^ 16" "p + 8 \<le> length m"
  shows "store64 m p (cf_swap_to_be64 (of_nat n OR push_bit 48 (of_nat c))) = Some (write_at m p (rev (le_bytes 2 c) @ rev (le_bytes 6 n)))"
  using assms(3) unfolding store64_def be64_bytes proto_word [OF assms(1,2)] proto_bytes [OF assms(1,2)] by (simp add: store_fits)

lemma le_bytes_2: "le_bytes 2 c = [of_nat (c mod 256), of_nat (c div 256 mod 256)]"
  by (simp add: numeral_2_eq_2)

text \<open>Claim C23: The first eight bytes of a finished command are the version, the type and the number of bytes that follow, most significant
  byte first; a compressed command has the uncompressed size after them, where \<open>as_compressed_size_parse\<close> finds it, with an
  error when it is larger than a message may be.\<close>

theorem command_headers:
  assumes len: "8 \<le> len" "len < 2 ^ 48" and fit: "begin + len \<le> length m"
  shows "as_command_write_end begin (begin + len) m = Some (of_nat len, write_at m begin ([2, 3] @ rev (le_bytes 6 (len - 8)))) \<and>
    (16 \<le> len \<longrightarrow> (\<exists>m'. as_command_compress_write_end begin (begin + len) usz m = Some (of_nat len, m') \<and>
       take 8 (drop begin m') = [2, 4] @ rev (le_bytes 6 (len - 8)) \<and>
       as_compressed_size_parse err m' (begin + 8) = Some (if usz > PROTO_SIZE_MAX then err else AEROSPIKE_OK, usz)))"
proof -
  define R where "R = rev (le_bytes 6 (len - 8))"
  have lR: "length R = 6" by (simp add: R_def)
  have L: "(of_nat len - 8 :: uint64) = of_nat (len - 8)" using len(1) by simp
  have s3: "store64 m begin (cf_swap_to_be64 (((of_nat len - 8) OR push_bit 56 AS_PROTO_VERSION) OR push_bit 48 AS_MESSAGE_TYPE)) =
      Some (write_at m begin ([2, 3] @ R))"
    using proto_store [of "len - 8" 515 "begin" m] len fit unfolding R_def L AS_PROTO_VERSION_def AS_MESSAGE_TYPE_def or.assoc
    by (simp add: le_bytes_2)
  have s4: "store64 m begin (cf_swap_to_be64 (((of_nat len - 8) OR push_bit 56 AS_PROTO_VERSION) OR push_bit 48 AS_COMPRESSED_MESSAGE_TYPE)) =
      Some (write_at m begin ([2, 4] @ R))"
    using proto_store [of "len - 8" 516 "begin" m] len fit unfolding R_def L AS_PROTO_VERSION_def AS_COMPRESSED_MESSAGE_TYPE_def or.assoc
    by (simp add: le_bytes_2)
  have "as_command_write_end begin (begin + len) m = Some (of_nat len, write_at m begin ([2, 3] @ R))"
    unfolding as_command_write_end_def Let_def using s3 by simp
  moreover have "\<exists>m'. as_command_compress_write_end begin (begin + len) usz m = Some (of_nat len, m') \<and> take 8 (drop begin m') = [2, 4] @ R \<and>
      as_compressed_size_parse err m' (begin + 8) = Some (if usz > PROTO_SIZE_MAX then err else AEROSPIKE_OK, usz)" if "16 \<le> len"
  proof -
    define m1 where "m1 = write_at m begin ([2, 4] @ R)"
    define m2 where "m2 = write_at m1 (begin + 8) (rev (le_bytes 8 (unat usz)))"
    have l1: "length m1 = length m" unfolding m1_def by (rule length_write_at) (use fit that lR in simp)
    have l2: "length m2 = length m" unfolding m2_def l1 [symmetric] by (rule length_write_at) (use fit that l1 in simp)
    have "store64 m1 (begin + 8) (cf_swap_to_be64 usz) = Some m2"
      unfolding store64_def be64_bytes m2_def by (rule store_fits) (use fit that l1 in simp)
    then have "as_command_compress_write_end begin (begin + len) usz m = Some (of_nat len, m2)"
      unfolding as_command_compress_write_end_def Let_def using s4 m1_def by simp
    moreover have "read_at m2 begin 8 = read_at m1 begin 8" unfolding m2_def by (rule read_write_before) (use fit that l1 in simp_all)
    moreover have "read_at m1 begin (length ([2, 4] @ R)) = [2, 4] @ R" unfolding m1_def by (rule read_write_same) (use fit that lR in simp)
    moreover have "read_at m2 (begin + 8) (length (rev (le_bytes 8 (unat usz)))) = rev (le_bytes 8 (unat usz))"
      unfolding m2_def by (rule read_write_same) (use fit that l1 in simp)
    moreover have "load64 m2 (begin + 8) = Some (cf_swap_to_be64 usz)"
      using calculation(4) fit that l2 by (simp add: load64_def cf_swap_to_be64_def byteswap_def)
    ultimately show ?thesis using lR by (simp add: read_at_def as_compressed_size_parse_def swap_inverse)
  qed
  ultimately show ?thesis unfolding R_def by blast
qed

theorem command_headers_witness:
  "as_command_write_end 0 24 (replicate 24 0) = Some (24, write_at (replicate 24 0) 0 ([2, 3] @ rev (le_bytes 6 16))) \<and>
   (\<exists>m'. as_command_compress_write_end 0 24 100 (replicate 24 0) = Some (24, m') \<and> take 8 (drop 0 m') = [2, 4] @ rev (le_bytes 6 16) \<and>
      as_compressed_size_parse AEROSPIKE_ERR_CLIENT m' 8 = Some (AEROSPIKE_OK, 100))"
proof -
  have "\<not> (100 :: uint64) > PROTO_SIZE_MAX" by (simp add: PROTO_SIZE_MAX_def)
  then show ?thesis using command_headers [of 24 0 "replicate 24 0" 100 AEROSPIKE_ERR_CLIENT] by simp
qed

text \<open>The attributes of a read: the bits of the two modes as the comments of the header have them, and no others.\<close>

lemma attr_bits:
  assumes "k < 8"
  shows "bit AS_MSG_INFO1_READ_MODE_AP_ALL k \<longleftrightarrow> k = 6" "bit AS_MSG_INFO1_COMPRESS_RESPONSE k \<longleftrightarrow> k = 7"
    "bit AS_MSG_INFO3_SC_READ_TYPE k \<longleftrightarrow> k = 6" "bit AS_MSG_INFO3_SC_READ_RELAX k \<longleftrightarrow> k = 7"
  unfolding AS_MSG_INFO1_READ_MODE_AP_ALL_def AS_MSG_INFO1_COMPRESS_RESPONSE_def AS_MSG_INFO3_SC_READ_TYPE_def
    AS_MSG_INFO3_SC_READ_RELAX_def bit_push_bit_iff bit_1_iff
  using assms by auto

lemma set_attr_read_bits:
  assumes "as_command_set_attr_read ap sc compress (r, i) = (r', i')" "k < 8"
  shows "bit r' k \<longleftrightarrow> bit r k \<or> k = 6 \<and> ap = AS_POLICY_READ_MODE_AP_ALL \<or> k = 7 \<and> compress"
    and "bit i' k \<longleftrightarrow> bit i k \<or>
      k = 6 \<and> (sc = AS_POLICY_READ_MODE_SC_LINEARIZE \<or> sc = AS_POLICY_READ_MODE_SC_ALLOW_UNAVAILABLE) \<or>
      k = 7 \<and> (sc = AS_POLICY_READ_MODE_SC_ALLOW_REPLICA \<or> sc = AS_POLICY_READ_MODE_SC_ALLOW_UNAVAILABLE)"
  using assms
  by (auto simp: as_command_set_attr_read_def as_command_set_attr_read_header_def as_command_set_attr_compress_def
      attr_bits bit_or_iff split: if_splits as_policy_read_mode_sc.splits)

text \<open>A command with a total timeout waits on a socket no longer than that, and its deadline is that much later.\<close>

lemma start_timer_bounds:
  assumes "as_command_start_timer policy now cmd = cmd'" "0 < pol_total_timeout policy" "unat now < 2 ^ 64 - 2 ^ 32"
  shows "0 < socket_timeout cmd'" "socket_timeout cmd' \<le> total_timeout cmd'"
    "unat (deadline_ms cmd') = unat now + unat (total_timeout cmd')"
proof -
  show "0 < socket_timeout cmd'" "socket_timeout cmd' \<le> total_timeout cmd'"
    using assms(1,2) by (auto simp: as_command_start_timer_def word_greater_zero_iff not_less split: if_splits)
  have b: "unat (pol_total_timeout policy) < 2 ^ 32" using unsigned_less [of "pol_total_timeout policy", where 'a = nat] by simp
  then have u: "unat (ucast (pol_total_timeout policy) :: uint64) = unat (pol_total_timeout policy)"
    by (simp add: unsigned_ucast_eq take_bit_nat_eq_self)
  then have "unat now + unat (ucast (pol_total_timeout policy) :: uint64) < 2 ^ LENGTH(64)" using assms(3) b by simp
  then have "unat (now + ucast (pol_total_timeout policy)) = unat now + unat (pol_total_timeout policy)"
    using unat_add_lem [of now "ucast (pol_total_timeout policy)"] u by simp
  then show "unat (deadline_ms cmd') = unat now + unat (total_timeout cmd')"
    using assms(1,2) by (auto simp: as_command_start_timer_def)
qed

end
