(* ===== verification/Spec2Isabelle.thy ===== *)
theory Spec2Isabelle
  imports LsmTest SpinlockBasic RingQueue StackSpec SpinlockTicket RwlockRecursive BitmapSpec QueueSpec Clock Sds
    Swlock Sequence AsContainers SpinlockClh SpinlockMcs SpinlockAnderson Pflock Tflock Fifo FifoMpmc Bytelock Brlock Rwcohort AsCommand
begin

text \<open>
  A verification development for the repository DBTest: experiments with storage engines in C. Its own
  program is a small log-structured store under \<^verbatim>\<open>src/test/LSMTree\<close>; the headers it builds against are under
  \<^verbatim>\<open>src/include\<close>. Most headers only declare what binary libraries implement; those that hold code are the
  Concurrency Kit (\<^verbatim>\<open>aerospike/ck\<close>), a few Aerospike containers and clock helpers, and the string headers of
  hiredis. That code is what is modelled here, each function from its source.

  \<^bold>\<open>How code is modelled.\<close> A sequential function is a HOL function on a record of its state; undefined
  behaviour, a null dereference, an access outside of an object and a signed overflow are error values (\<open>Inl\<close>
  or \<open>None\<close>), never excluded by assumption. A function on shared memory is a step function: its argument is a
  program point with the values of its locals, one step performs one access to shared memory, and it yields
  \<open>Go\<close> of the next point or \<open>Ret\<close> of the result (\<open>ctl\<close>, \<open>run_solo\<close> in \<open>Prelude\<close>). Threads interleave between
  steps in any order (\<open>reachable\<close> in \<open>Interleave\<close>). Memory is sequentially consistent: fences and barriers do
  nothing. Unsigned integers are words of their width and wrap around.

  \<^bold>\<open>The parts.\<close>

  \<^item> \<open>Lsm\<close>, \<open>LsmTest\<close>: \<^verbatim>\<open>test/LSMTree/lsm.c\<close>, \<^verbatim>\<open>lsm.h\<close> and \<^verbatim>\<open>test.c\<close>. The tree is the record \<open>lsm\<close>, the file system a
    map from names to bytes, and nodes have their byte representation in the file and under \<open>memmove\<close>. \<open>put\<close>
    refines a log of versions per key, flushes write what can be read back, \<open>merge_sort\<close> sorts. The other
    lemmas state what \<open>get\<close>, \<open>update\<close> and \<open>delete\<close> really do, which is not always what they mean to (the file
    name in \<open>search_disk\<close>, the byte count in \<open>delete\<close>).
  \<^item> \<open>CkPr\<close>: the atomic primitives of \<^verbatim>\<open>ck_pr.h\<close> and the emulations by a compare-and-swap loop; the locale
    \<open>emulation\<close> says that a loop is as good as the primitive, alone and under interference.
  \<^item> \<open>Interleave\<close>: threads, reachable states, invariants (locales \<open>interleaving\<close>, \<open>mutex\<close>, \<open>rw_exclusion\<close>) and the
    clients that call the functions of a lock in any order.
  \<^item> \<open>SpinlockBasic\<close>, \<open>SpinlockTicket\<close>: \<^verbatim>\<open>spinlock/fas.h\<close>, \<^verbatim>\<open>cas.h\<close>, \<^verbatim>\<open>dec.h\<close>, \<^verbatim>\<open>ticket.h\<close> and \<^verbatim>\<open>ck_backoff.h\<close>. Mutual
    exclusion for every number of threads that the lock word can count; for the ticket lock also that some
    waiting thread can always go on.
  \<^item> \<open>QueueLock\<close>, \<open>SpinlockClh\<close>, \<open>SpinlockMcs\<close>, \<open>SpinlockAnderson\<close>: \<^verbatim>\<open>spinlock/clh.h\<close>, \<^verbatim>\<open>mcs.h\<close>, \<^verbatim>\<open>anderson.h\<close>. The locale
    \<open>queue_lock\<close> says what it takes for the states of a lock to stand for a queue of threads, and concludes from
    it that threads enter in the order of their arrival; the nodes and slots of the three locks are such queues.
  \<^item> \<open>DrainLock\<close>, \<open>Rwlock\<close>, \<open>RwlockRecursive\<close>, \<open>Swlock\<close>: \<^verbatim>\<open>ck_rwlock.h\<close> and \<^verbatim>\<open>ck_swlock.h\<close>. The locale \<open>guarded_rw\<close>
    states the steps of a lock whose readers are counted and whose writer waits for the count to drain,
    \<open>drain_lock\<close> the case in which a flag keeps the writers apart; its three interpretations give exclusion, with try,
    downgrade, nesting and the latch.
  \<^item> \<open>PhaseLock\<close>, \<open>Pflock\<close>, \<open>Tflock\<close>: \<^verbatim>\<open>ck_pflock.h\<close> and \<^verbatim>\<open>ck_tflock.h\<close>. \<open>phase_step\<close> specifies a fair reader-writer lock
    with counters that are natural numbers; the two locks are simulated by it (locale \<open>phase_lock\<close>), with their
    counters in the parts of a word.
  \<^item> \<open>ScanLock\<close>, \<open>Bytelock\<close>, \<open>Brlock\<close>: \<^verbatim>\<open>ck_bytelock.h\<close> and \<^verbatim>\<open>ck_brlock.h\<close>. A writer visits the cells of the readers one after the
    other, in an array or along a doubly-linked list that threads join and leave; the locale \<open>scan_lock\<close> shows that
    no reader slips in behind it.
  \<^item> \<open>Cohort\<close>, \<open>Rwcohort\<close>: \<^verbatim>\<open>ck_cohort.h\<close> and \<^verbatim>\<open>ck_rwcohort.h\<close>. The locks that the macros take are arguments; the
    locale \<open>cohort_lock\<close> relies on the contract \<open>flag_lock\<close> of each and gives exclusion and the bound on local
    passing, \<open>cohort_rw\<close> puts the three reader-writer forms on top of it. A run shows how a failing trylock
    strands the global lock.
  \<^item> \<open>Sequence\<close>: \<^verbatim>\<open>ck_sequence.h\<close>. A reader that is not sent back has copied one finished update.
  \<^item> \<open>QueueClients\<close>, \<open>Ring\<close>, \<open>RingQueue\<close>: \<^verbatim>\<open>ck_ring.h\<close>. All four sharing disciplines are bounded first-in
    first-out queues; the logs of completed calls are compared.
  \<^item> \<open>Fifo\<close>, \<open>FifoMpmc\<close>: \<^verbatim>\<open>ck_fifo.h\<close>. Producers and consumers use the first queue through its two spinlocks and
    recycle its nodes; it is first-in first-out, and a recycled node is out of reach of the consumers. The second
    queue has no locks; it is first-in first-out while its entries are fresh, and a run shows what goes
    wrong when they are used again.
  \<^item> \<open>Stack\<close>, \<open>StackShared\<close>, \<open>StackSpec\<close>: \<^verbatim>\<open>ck_stack.h\<close>. The shared stacks are linearizable, with the
    generation counter where entries are reused; the batch pop with reuse is not, and a run shows it.
  \<^item> \<open>Bitmap\<close>, \<open>BitmapSpec\<close>: \<^verbatim>\<open>ck_bitmap.h\<close> and the bit helpers of \<^verbatim>\<open>ck_cc.h\<close>. A bitmap is a set; counting and
    iterating follow.
  \<^item> \<open>Queue\<close>, \<open>QueueSpec\<close>: \<^verbatim>\<open>ck_queue.h\<close>. Each macro is the sequence of its stores over an explicit memory; the
    lists are sequences, and a reader between two stores sees the old or the new one.
  \<^item> \<open>Clock\<close>: \<^verbatim>\<open>citrusleaf/cf_clock.h\<close> on the values of the system clocks. \<open>Sds\<close>: the accessors of
    \<^verbatim>\<open>hiredis/sds.h\<close> on bytes. \<open>AsContainers\<close>: the inline functions of \<^verbatim>\<open>as_vector.h\<close> and \<^verbatim>\<open>as_queue.h\<close> on a block
    of bytes.
  \<^item> \<open>AsCommand\<close>: the inline writers of \<^verbatim>\<open>as_command.h\<close> with the byte order of \<^verbatim>\<open>cf_byte_order.h\<close>, and the size parser of
    \<^verbatim>\<open>as_proto.h\<close>. Fields fill exactly the room that is reckoned for them and can be read back; so can the
    headers.

  The parts meet in four ways: the driver calls the tree, every concurrent component calls the
  primitives, the fifo calls the fetch-and-store lock, and the reader-writer cohorts call the cohort locks, which call
  two spinlocks. The tree itself uses none of the headers. At the end
  of this theory the spinlocks, the reader-writer locks and the queue locks are put together.

  \<^bold>\<open>Bounds.\<close> Locks that count threads in a word need fewer threads than the word has values: \<open>2 ^ 32\<close> for the
  decrement lock, the ticket lock, the reader-writer lock and its forms on cohorts, \<open>2 ^ 16\<close> tickets in the packed ticket word,
  \<open>2 ^ 30\<close> readers in the single-writer lock, \<open>2 ^ 24\<close> threads for the phase-fair lock, \<open>2 ^ 15\<close> for the task-fair lock,
  and as many slots as threads for Anderson's lock. The threads of a byte lock need distinct slot numbers, and a big-reader lock may be nested as deep as its counter
  counts. The ring between one producer and one consumer works across
  counter wrap-around; with several on one side an old counter value may come back, so the theorems hold for
  runs that end before \<open>2 ^ 32\<close> operations; for the generation of the stack the bound is \<open>2 ^ 64\<close> calls. A read of
  the sequence lock is protected against fewer than \<open>2 ^ 32\<close> increments during that read. Fuel occurs only where a function runs alone (\<open>run_solo\<close>) and where a list
  is traversed (\<open>CK_SLIST_FOREACH\<close> and its like): there the theorems give an amount that is enough.

  \<^bold>\<open>Not modelled.\<close> Weak memory: the fences are the sources' answer to it and would need a memory model. Lock
  elision, which needs hardware transactions. Functions that the headers only declare (the Aerospike client,
  hiredis, RocksDB, the hazard pointers of the Concurrency Kit). The double
  instances of the primitives and the Windows performance counter, which need floating point. The C++ date
  library. The demo programs, which call a library and print. Not yet modelled, with code in the headers:
  \<^verbatim>\<open>spinlock/hclh.h\<close> and the inline wrappers of the other Aerospike
  headers, which forward their arguments to declared functions.
\<close>

section \<open>The spinlocks together\<close>

text \<open>A lock excludes when in every reachable state of \<open>N\<close> clients at most one is in its critical section,
  and its \<open>locked\<close> function says so.\<close>

definition excludes :: "('p, 'a, 'b, 'r, 'c, 's) lock_ops \<Rightarrow> 'p \<Rightarrow> 's \<Rightarrow> ('s \<Rightarrow> bool) \<Rightarrow> nat \<Rightarrow> bool" where
  "excludes ops p s0 locked N \<longleftrightarrow> (\<forall>ls s i. reachable (client_step ops) N (\<lambda>_. Idle p) s0 ls s \<longrightarrow>
     i < N \<longrightarrow> critical (ls i) \<longrightarrow> {j. j < N \<and> critical (ls j)} = {i} \<and> locked s)"

lemma excludesI:
  "(\<And>ls s i. reachable (client_step ops) N (\<lambda>_. Idle p) s0 ls s \<Longrightarrow> i < N \<Longrightarrow> critical (ls i) \<Longrightarrow>
     {j. j < N \<and> critical (ls j)} = {i} \<and> locked s) \<Longrightarrow> excludes ops p s0 locked N"
  by (simp add: excludes_def)

lemma excludes_run:
  assumes "excludes ops p s0 locked N" "list_all (\<lambda>(t, b). t < N) sch" "x = client_run ops sch (\<lambda>_. Idle p, s0)"
    and "i < N" "critical (fst x i)"
  shows "{j. j < N \<and> critical (fst x j)} = {i} \<and> locked (snd x)"
  using assms client_run_start [OF assms(2), of ops "\<lambda>_. Idle p" s0] unfolding excludes_def by blast

text \<open>Claim C14: the test-and-set locks and the two ticket locks exclude. In every state that threads can reach
  by interleaving the atomic steps of lock, trylock and unlock, at most one is in its critical section, and
  the \<open>locked\<close> function is true while one is: for any number of threads with fetch-and-store and compare-and-swap
  (also with back-off), for fewer than \<open>2 ^ 32\<close> with the decrement lock, whose waiting threads must not wrap the word
  around to 1, and with the ticket lock of two counters, which wrap around too, and for fewer than \<open>2 ^ 16\<close> with the packed tickets.\<close>

theorem spinlocks_exclude:
  "excludes fas_ops () ck_spinlock_fas_init ck_spinlock_fas_locked N \<and>
   excludes cas_eb_ops () ck_spinlock_cas_init ck_spinlock_cas_locked N \<and>
   (N < 2 ^ 32 \<longrightarrow> excludes dec_ops () ck_spinlock_dec_init ck_spinlock_dec_locked N) \<and>
   (N < 2 ^ 32 \<longrightarrow> excludes ticket_ops () ck_spinlock_ticket_init ck_spinlock_ticket_locked N) \<and>
   (N < 2 ^ 16 \<longrightarrow> excludes x86_ticket_ops () x86_ticket_init x86_ticket_locked N)"
proof -
  have "excludes fas_ops () ck_spinlock_fas_init ck_spinlock_fas_locked N"
    by (rule excludesI) (rule fas_mutual_exclusion)
  moreover have "excludes cas_eb_ops () ck_spinlock_cas_init ck_spinlock_cas_locked N"
    by (rule excludesI) (rule cas_mutual_exclusion)
  moreover have "excludes dec_ops () ck_spinlock_dec_init ck_spinlock_dec_locked N" if "N < 2 ^ 32"
    by (rule excludesI) (rule dec_mutual_exclusion [OF _ that])
  moreover have "excludes ticket_ops () ck_spinlock_ticket_init ck_spinlock_ticket_locked N" if "N < 2 ^ 32"
    by (rule excludesI) (rule ticket_mutual_exclusion [OF _ that])
  moreover have "excludes x86_ticket_ops () x86_ticket_init x86_ticket_locked N" if "N < 2 ^ 16"
    by (rule excludesI) (rule x86_ticket_mutual_exclusion [OF _ that])
  ultimately show ?thesis by blast
qed

theorem spinlocks_exclude_witness:
  "({j. j < 2 \<and> critical (fst fas_ex j)} = {1} \<and> ck_spinlock_fas_locked (snd fas_ex)) \<and>
   ({j. j < 2 \<and> critical (fst cas_ex j)} = {1} \<and> ck_spinlock_cas_locked (snd cas_ex)) \<and>
   ({j. j < 2 \<and> critical (fst dec_ex j)} = {1} \<and> ck_spinlock_dec_locked (snd dec_ex)) \<and>
   ({j. j < 2 \<and> critical (fst ticket_ex j)} = {0} \<and> ck_spinlock_ticket_locked (snd ticket_ex)) \<and>
   ({j. j < 3 \<and> critical (fst x86_ticket_ex j)} = {1} \<and> x86_ticket_locked (snd x86_ticket_ex))"
proof -
  note e2 = spinlocks_exclude [of 2, simplified] and e3 = spinlocks_exclude [of 3, simplified]
  have "{j. j < 2 \<and> critical (fst fas_ex j)} = {1} \<and> ck_spinlock_fas_locked (snd fas_ex)"
    by (rule excludes_run [OF conjunct1 [OF e2] _ fas_ex_def]) (simp, simp, code_simp)
  moreover have "{j. j < 2 \<and> critical (fst cas_ex j)} = {1} \<and> ck_spinlock_cas_locked (snd cas_ex)"
    by (rule excludes_run [OF _ _ cas_ex_def]) (use e2 in simp, simp, simp, code_simp)
  moreover have "{j. j < 2 \<and> critical (fst dec_ex j)} = {1} \<and> ck_spinlock_dec_locked (snd dec_ex)"
    by (rule excludes_run [OF _ _ dec_ex_def]) (use e2 in simp, simp, simp, code_simp)
  moreover have "{j. j < 2 \<and> critical (fst ticket_ex j)} = {0} \<and> ck_spinlock_ticket_locked (snd ticket_ex)"
    by (rule excludes_run [OF _ _ ticket_ex_def]) (use e2 in simp, code_simp, simp, code_simp)
  moreover have "{j. j < 3 \<and> critical (fst x86_ticket_ex j)} = {1} \<and> x86_ticket_locked (snd x86_ticket_ex)"
    by (rule excludes_run [OF _ _ x86_ticket_ex_def]) (use e3 in simp, simp, simp, code_simp)
  ultimately show ?thesis by blast
qed

section \<open>The reader-writer locks together\<close>

text \<open>Claim C6: the reader-writer locks on counters exclude. In every state that threads can reach by interleaving the atomic
  steps of the read and write functions (for \<open>ck_rwlock\<close> also the trylocks and the downgrade), a thread that writes is the only writer and no thread
  reads: for fewer than \<open>2 ^ 32\<close> threads with \<open>ck_rwlock\<close>, fewer than \<open>2 ^ 24\<close> with the phase-fair lock and
  fewer than \<open>2 ^ 15\<close> with the task-fair lock, although the counters of the last two wrap around.\<close>

theorem rw_locks_exclude:
  "rw_excludes (2 ^ 32 - 1) (rw_step rwlock_ops) ck_rwlock_init \<and>
   rw_excludes (2 ^ 24 - 1) (rw_step pflock_ops) ck_pflock_init \<and>
   rw_excludes (2 ^ 15 - 1) (rw_step tflock_ops) ck_tflock_ticket_init"
proof (intro conjI)
  show "rw_excludes (2 ^ 32 - 1) (rw_step rwlock_ops) ck_rwlock_init"
    by (rule rw_excludesI) (rule rwlock_exclusion; simp)
  show "rw_excludes (2 ^ 24 - 1) (rw_step pflock_ops) ck_pflock_init"
    by (rule rw_excludesI) (rule pflock_exclusion; simp)
  show "rw_excludes (2 ^ 15 - 1) (rw_step tflock_ops) ck_tflock_ticket_init"
    by (rule rw_excludesI) (rule tflock_exclusion; simp)
qed

section \<open>The queue locks together\<close>

definition serves_in_order :: "('a \<Rightarrow> bool) \<Rightarrow> ('p, 'a, 'b, 'r, 'c, 's) lock_ops \<Rightarrow>
    (nat \<Rightarrow> ('p, 'a, 'b, 'r, 'c) client) \<Rightarrow> 's \<Rightarrow> nat \<Rightarrow> bool" where
  "serves_in_order qa ops ls0 s0 N \<longleftrightarrow> (\<forall>ls s as es.
     reachable (log_step (queued qa) holds (client_step ops)) N ls0 (s0, [], []) ls (s, as, es) \<longrightarrow>
     prefix es as \<and> (\<forall>i<N. holds (ls i) \<longrightarrow> es \<noteq> [] \<and> i = last es))"

text \<open>Claim C5: the queue locks of Craig, Landin and Hagersten, of Mellor-Crummey and Scott, and of Anderson
  serve their threads in the order of arrival, one at a time. With the arrivals logged at the atomic exchange
  that puts a thread into the queue (for Anderson's lock, at the step that draws its slot) and the entries
  when the acquisition returns, the entries are always the first of the arrivals, and a thread that
  holds the lock is the last that entered. Anderson's lock needs a slot for every thread.\<close>

theorem queue_locks_fair:
  "serves_in_order clh_q clh_ops clh_clients (ck_spinlock_clh_init 0 clh) N \<and>
   serves_in_order mcs_q mcs_ops Idle (ck_spinlock_mcs_init mcs) N \<and>
   (0 < c \<longrightarrow> unat c \<le> length slots \<longrightarrow> N \<le> unat c \<longrightarrow> serves_in_order an_q an_ops (\<lambda>_. Idle ()) (an_lock slots c) N)"
proof -
  have "serves_in_order clh_q clh_ops clh_clients (ck_spinlock_clh_init 0 clh) N"
    unfolding serves_in_order_def by (intro allI impI clh.first_come_first_served) auto
  moreover have "serves_in_order mcs_q mcs_ops Idle (ck_spinlock_mcs_init mcs) N"
    unfolding serves_in_order_def by (intro allI impI mcs.first_come_first_served) auto
  moreover have "serves_in_order an_q an_ops (\<lambda>_. Idle ()) (an_lock slots c) N"
    if "0 < c" "unat c \<le> length slots" "N \<le> unat c"
    unfolding serves_in_order_def by (intro allI impI anderson.first_come_first_served) (use that in auto)
  ultimately show ?thesis by blast
qed

text \<open>Thread 1 arrives before thread 0 in each of the three locks; both have entered.\<close>

definition fair_schedule :: "(nat \<times> bool) list" where
  "fair_schedule = replicate 4 (1, False) @ replicate 6 (0, False) @ replicate 4 (1, False) @ replicate 2 (0, False)"

definition clh_ex :: "(nat \<Rightarrow> clh_client) \<times> ck_spinlock_clh \<times> nat list \<times> nat list" where
  "clh_ex = log_run (queued clh_q) clh_ops fair_schedule clh_clients
     (ck_spinlock_clh_init 0 \<lparr>clh_wait = \<lambda>_. 0, clh_previous = \<lambda>_. None, clh_queue = 0\<rparr>)"

definition mcs_ex :: "(nat \<Rightarrow> mcs_client) \<times> ck_spinlock_mcs \<times> nat list \<times> nat list" where
  "mcs_ex = log_run (queued mcs_q) mcs_ops fair_schedule Idle
     (ck_spinlock_mcs_init \<lparr>mcs_locked = \<lambda>_. 0, mcs_next = \<lambda>_. None, mcs_queue = None\<rparr>)"

definition slots3 :: "ck_spinlock_anderson_thread list" where
  "slots3 = replicate 3 \<lparr>an_locked = 0, an_position = 0\<rparr>"

definition an_ex :: "(nat \<Rightarrow> an_client) \<times> ck_spinlock_anderson \<times> nat list \<times> nat list" where
  "an_ex = log_run (queued an_q) an_ops fair_schedule (\<lambda>_. Idle ()) (an_lock slots3 3)"

lemma serves_run:
  assumes "serves_in_order qa ops ls0 s0 N" "x = log_run (queued qa) ops sch ls0 s0" "list_all (\<lambda>(t, c). t < N) sch"
    and "fst (snd (snd x)) = as" "snd (snd (snd x)) = es" "i < N" "holds (fst x i)"
  shows "prefix es as \<and> es \<noteq> [] \<and> i = last es"
proof -
  obtain ls s where x: "x = (ls, s, as, es)" using assms(4,5) by (cases x) auto
  have r: "reachable (log_step (queued qa) holds (client_step ops)) N ls0 (s0, [], []) ls (s, as, es)"
    by (rule log_run_reachable [OF assms(3)]) (use assms(2) x in simp)
  have "holds (ls i)" using assms(7) x by simp
  then show ?thesis using assms(1,6) r unfolding serves_in_order_def by blast
qed

theorem queue_locks_fair_witness:
  "prefix (snd (snd (snd clh_ex))) [1, 0] \<and> 0 = last (snd (snd (snd clh_ex))) \<and>
   prefix (snd (snd (snd mcs_ex))) [1, 0] \<and> 0 = last (snd (snd (snd mcs_ex))) \<and>
   prefix (snd (snd (snd an_ex))) [1, 0] \<and> 0 = last (snd (snd (snd an_ex)))"
proof -
  have sch: "list_all (\<lambda>(t, c). t < 2) fair_schedule" by code_simp
  have "prefix (snd (snd (snd clh_ex))) [1, 0] \<and> snd (snd (snd clh_ex)) \<noteq> [] \<and> 0 = last (snd (snd (snd clh_ex)))"
    by (rule serves_run [OF conjunct1 [OF queue_locks_fair] clh_ex_def sch _ refl]) (code_simp, simp, code_simp)
  moreover have "prefix (snd (snd (snd mcs_ex))) [1, 0] \<and> snd (snd (snd mcs_ex)) \<noteq> [] \<and> 0 = last (snd (snd (snd mcs_ex)))"
    by (rule serves_run [OF conjunct1 [OF conjunct2 [OF queue_locks_fair]] mcs_ex_def sch _ refl]) (code_simp, simp, code_simp)
  moreover have "serves_in_order an_q an_ops (\<lambda>_. Idle ()) (an_lock slots3 3) 2"
    using queue_locks_fair [of _ 2 _ 3 slots3] by (simp add: slots3_def)
  then have "prefix (snd (snd (snd an_ex))) [1, 0] \<and> snd (snd (snd an_ex)) \<noteq> [] \<and> 0 = last (snd (snd (snd an_ex)))"
    by (rule serves_run [OF _ an_ex_def sch _ refl]) (code_simp, simp, code_simp)
  ultimately show ?thesis by blast
qed

end
